(* ===== verification/Prelude.thy ===== *)
theory Prelude
  imports Main "HOL-Library.Word"
begin

text \<open>
  Shared vocabulary of the development: how a C function that can abort is typed, the
  machine constants and small structures used by several components, and the generic
  list and arithmetic lemmas the component proofs rest on.
\<close>

section \<open>Outcomes of C functions\<close>

text \<open>
  A C function of the program that can hit a \<^verbatim>\<open>BUG_ON\<close> or leave the
  defined part of the language (a NULL or dangling pointer, an index outside of its array)
  returns a value of type \<open>fault + 'a\<close>: \<open>Inl\<close> is the run that does not go on,
  \<open>Inr\<close> carries the return value together with the state after the call. The C return
  code itself (0, -1, 1, \<dots>) stays an \<open>int\<close> inside of \<open>Inr\<close>, since callers
  test it.
\<close>

datatype fault =
    BUG   \<comment> \<open>a \<^verbatim>\<open>BUG_ON\<close> condition holds: the process aborts\<close>
  | UB    \<comment> \<open>undefined behaviour: NULL or freed pointer, out-of-range access\<close>
  | HANG  \<comment> \<open>a loop that has not ended within the rounds the model gives it\<close>

type_synonym 'a outcome = "fault + 'a"

definition bindF :: "'a outcome \<Rightarrow> ('a \<Rightarrow> 'b outcome) \<Rightarrow> 'b outcome" where
  "bindF m f = (case m of Inl e \<Rightarrow> Inl e | Inr x \<Rightarrow> f x)"

lemma bindF_simps [simp]:
  "bindF (Inl e) f = Inl e"
  "bindF (Inr x) f = f x"
  by (simp_all add: bindF_def)

text \<open>A loop or a search of the code that does not return is \<open>HANG\<close>.\<close>

definition returns :: "'a option \<Rightarrow> 'a outcome" where
  "returns r = (case r of None \<Rightarrow> Inl HANG | Some x \<Rightarrow> Inr x)"

lemma returns_simps [simp]: "returns None = Inl HANG" "returns (Some x) = Inr x"
  by (simp_all add: returns_def)

lemma bindF_eq_Inr: "bindF m f = Inr y \<longleftrightarrow> (\<exists>x. m = Inr x \<and> f x = Inr y)"
  by (cases m) simp_all

lemma bindF_cong [fundef_cong]:
  "m = m' \<Longrightarrow> (\<And>x. m' = Inr x \<Longrightarrow> f x = g x) \<Longrightarrow> bindF m f = bindF m' g"
  by (cases m') (auto simp: bindF_def)

lemma bindF_assoc: "bindF (bindF m f) g = bindF m (\<lambda>x. bindF (f x) g)"
  by (cases m) simp_all

named_theorems page_simps \<open>arithmetic of page-sized quantities\<close>
named_theorems wf_intros \<open>introduction rules for the component invariants\<close>

section \<open>Machine constants\<close>

type_synonym byte = "8 word"
type_synonym u32 = "32 word"
type_synonym u64 = "64 word"

text \<open>\<^verbatim>\<open>PAGE_SIZE\<close> of arch/x86/include/asm/types.h.\<close>

definition PAGE_SIZE :: nat where
  "PAGE_SIZE = 4096"

lemma PAGE_SIZE_pos [simp]: "0 < PAGE_SIZE"
  by (simp add: PAGE_SIZE_def)

lemma PAGE_SIZE_neq0 [simp]: "PAGE_SIZE \<noteq> 0"
  by (simp add: PAGE_SIZE_def)

lemma page_div_mult [simp, page_simps]: "n * PAGE_SIZE div PAGE_SIZE = n"
  by simp

lemma page_add_div [page_simps]: "(a + PAGE_SIZE) div PAGE_SIZE = Suc (a div PAGE_SIZE)"
  by (simp add: div_add_self2)

lemma page_dvd_mult_div [page_simps]: "PAGE_SIZE dvd n \<Longrightarrow> n div PAGE_SIZE * PAGE_SIZE = n"
  by simp

lemma page_step:
  assumes "PAGE_SIZE dvd a" "PAGE_SIZE dvd b" "a < b"
  shows "a + PAGE_SIZE \<le> b"
proof -
  from assms obtain i j where ij: "a = PAGE_SIZE * i" "b = PAGE_SIZE * j" by (auto elim!: dvdE)
  with assms(3) have "Suc i \<le> j" by simp
  then have "PAGE_SIZE * Suc i \<le> PAGE_SIZE * j" by (rule mult_le_mono2)
  with ij show ?thesis by simp
qed

text \<open>Truncation of a value to an \<^verbatim>\<open>unsigned int\<close> / \<^verbatim>\<open>u32\<close> field.\<close>

definition u32_of :: "nat \<Rightarrow> nat" where
  "u32_of n = n mod 2 ^ 32"

lemma u32_of_small [simp]: "n < 2 ^ 32 \<Longrightarrow> u32_of n = n"
  by (simp add: u32_of_def)

lemma u32_of_bound: "u32_of n < 2 ^ 32"
  by (simp add: u32_of_def)

text \<open>Conversions of C: a long to an int keeps the low 32 bits, an int to an unsigned long extends its sign.\<close>

definition int_of_ulong :: "nat \<Rightarrow> int" where
  "int_of_ulong n = signed_take_bit 31 (int n)"

definition ulong_of_int :: "int \<Rightarrow> nat" where
  "ulong_of_int i = nat (i mod 2 ^ 64)"

lemma int_of_ulong_small: "n < 2 ^ 31 \<Longrightarrow> int_of_ulong n = int n"
  by (simp add: int_of_ulong_def signed_take_bit_int_eq_self)

lemma ulong_of_int_small: "n < 2 ^ 31 \<Longrightarrow> ulong_of_int (int_of_ulong n) = n"
  by (simp add: int_of_ulong_small ulong_of_int_def)

lemma ulong_of_int_large:
  assumes "2 ^ 31 \<le> n" "n < 2 ^ 32"
  shows "2 ^ 63 \<le> ulong_of_int (int_of_ulong n)"
proof -
  have "(int n + 2 ^ 31) mod 2 ^ 32 = int n + 2 ^ 31 - 2 ^ 32"
    using assms by (intro int_mod_pos_eq [of _ _ 1]) simp_all
  then have "int_of_ulong n = int n - 2 ^ 32"
    by (simp add: int_of_ulong_def signed_take_bit_eq_take_bit_shift take_bit_eq_mod)
  moreover have "(int n - 2 ^ 32) mod 2 ^ 64 = int n - 2 ^ 32 + 2 ^ 64"
    using assms by (intro int_mod_pos_eq [of _ _ "-1"]) simp_all
  ultimately show ?thesis
    using assms(1) by (simp add: ulong_of_int_def)
qed

section \<open>The iovec structure\<close>

text \<open>
  \<^verbatim>\<open>struct iovec\<close>: a range of a task's memory. Addresses and lengths are
  \<open>nat\<close>; they are below \<^verbatim>\<open>TASK_SIZE\<close> (2 to the 47) in every use, so the
  additions of the code do not wrap.
\<close>

record iovec =
  iov_base :: nat
  iov_len :: nat

definition iov_end :: "iovec \<Rightarrow> nat" where
  "iov_end v = iov_base v + iov_len v"

text \<open>The page addresses that a range covers, in increasing order.\<close>

definition page_range :: "nat \<Rightarrow> nat \<Rightarrow> nat list" where
  "page_range va n = map (\<lambda>i. va + i * PAGE_SIZE) [0..<n]"

definition iov_pages :: "iovec \<Rightarrow> nat list" where
  "iov_pages v = page_range (iov_base v) (iov_len v div PAGE_SIZE)"

lemma page_range_0 [simp]: "page_range va 0 = []"
  by (simp add: page_range_def)

lemma page_range_Suc: "page_range va (Suc n) = page_range va n @ [va + n * PAGE_SIZE]"
  by (simp add: page_range_def)

lemma page_range_Cons: "page_range va (Suc n) = va # page_range (va + PAGE_SIZE) n"
  unfolding page_range_def
  by (simp add: upt_conv_Cons map_Suc_upt [symmetric] o_def add.assoc del: upt_Suc map_Suc_upt)

lemma page_range_length [simp]: "length (page_range va n) = n"
  by (simp add: page_range_def)

lemma page_range_mem: "p \<in> set (page_range va n) \<longleftrightarrow> (\<exists>i<n. p = va + i * PAGE_SIZE)"
  by (auto simp: page_range_def)

lemma page_range_bounds:
  assumes "p \<in> set (page_range va n)"
  shows "va \<le> p" and "p + PAGE_SIZE \<le> va + n * PAGE_SIZE"
proof -
  from assms obtain i where i: "i < n" "p = va + i * PAGE_SIZE"
    by (auto simp: page_range_mem)
  then show "va \<le> p" by simp
  have "Suc i * PAGE_SIZE \<le> n * PAGE_SIZE"
    using i(1) by (intro mult_le_mono1) simp
  with i show "p + PAGE_SIZE \<le> va + n * PAGE_SIZE" by simp
qed

lemma page_range_distinct [simp]: "distinct (page_range va n)"
  by (simp add: page_range_def distinct_map inj_on_def)

lemma iov_pages_single [simp]: "iov_pages \<lparr>iov_base = a, iov_len = PAGE_SIZE\<rparr> = [a]"
  by (simp add: iov_pages_def page_range_def)

lemma iov_pages_grow:
  assumes "PAGE_SIZE dvd iov_len v"
  shows "iov_pages (v\<lparr>iov_len := iov_len v + PAGE_SIZE\<rparr>) = iov_pages v @ [iov_end v]"
  using assms by (simp add: iov_pages_def page_simps page_range_Suc iov_end_def)

section \<open>Lists\<close>

lemma list_update_last:
  "xs \<noteq> [] \<Longrightarrow> xs[length xs - 1 := y] = butlast xs @ [y]"
  by (induction xs) (auto simp: nth_Cons' split: nat.splits)

lemma take_Suc_update: "k < length xs \<Longrightarrow> take (Suc k) (xs[k := v]) = take k xs @ [v]"
  by (simp add: take_Suc_conv_app_nth)

lemma take_Suc_drop_update:
  "m + k < length xs \<Longrightarrow> take (Suc k) (drop m (xs[m + k := v])) = take k (drop m xs) @ [v]"
  by (simp add: drop_update_swap take_Suc_conv_app_nth)

lemma take_Suc_drop:
  "m + k < length xs \<Longrightarrow> take (Suc k) (drop m xs) = take k (drop m xs) @ [xs ! (m + k)]"
  by (simp add: take_Suc_conv_app_nth)

lemma last_conv_nth_update: "xs \<noteq> [] \<Longrightarrow> xs ! (length xs - 1) = last xs"
  by (simp add: last_conv_nth)

section \<open>Little endian fields\<close>

text \<open>The value of a field of a file or of the wire, and a value as \<open>k\<close> such bytes.\<close>

fun le_val :: "byte list \<Rightarrow> nat" where
  "le_val [] = 0"
| "le_val (b # bs) = unat b + 256 * le_val bs"

fun le_bytes :: "nat \<Rightarrow> nat \<Rightarrow> byte list" where
  "le_bytes 0 n = []"
| "le_bytes (Suc k) n = word_of_nat n # le_bytes k (n div 256)"

lemma length_le_bytes [simp]: "length (le_bytes k n) = k"
  by (induction k arbitrary: n) auto

lemma le_val_bytes: "le_val (le_bytes k n) = n mod 256 ^ k"
proof (induction k arbitrary: n)
  case (Suc k)
  have "le_val (le_bytes (Suc k) n) = n mod 256 + 256 * (n div 256 mod 256 ^ k)"
    using Suc by (simp add: unat_of_nat)
  also have "\<dots> = n mod (256 * 256 ^ k)" by (simp add: mod_mult2_eq)
  finally show ?case by simp
qed simp

section \<open>Opening an image\<close>

text \<open>
  What opening an image file gives: its contents, or a failure of which the code only asks
  whether errno is ENOENT.
\<close>

datatype 'a img_open = Img 'a | ImgErr (is_enoent: bool)

end
