(* ===== verification/PagePipe.thy ===== *)
theory PagePipe
  imports Prelude
begin

text \<open>
  The page pipe of page-pipe.c and include/page-pipe.h: the descriptor of a task's memory
  that the dumper fills page by page. Its buffers share one caller-provided array of
  iovecs, each buffer owning a contiguous run of it; holes (pages that the parent snapshot
  has) live in a second array that the page pipe grows itself.
\<close>

section \<open>State\<close>

text \<open>
  A \<^verbatim>\<open>struct page_pipe_buf\<close>. The pair \<^verbatim>\<open>p[2]\<close> of pipe descriptors is
  the number \<open>ppb_p\<close> of the pipe, and the pointer \<open>iov\<close> into the array of the page
  pipe is the index \<open>ppb_iov\<close> of the buffer's first entry there: the entry
  \<^verbatim>\<open>ppb->iov[k]\<close> of the code is \<open>iovs ! (ppb_iov + k)\<close>.
\<close>

record page_pipe_buf =
  ppb_p :: nat
  pipe_size :: nat
  pages_in :: nat
  nr_segs :: nat
  ppb_iov :: nat

record page_pipe =
  nr_pipes :: nat
  bufs :: "page_pipe_buf list"
  nr_iovs :: nat
  free_iov :: nat
  iovs :: "iovec list"
  nr_holes :: nat
  free_hole :: nat
  holes :: "iovec list"

text \<open>
  What the C library and the kernel answer. Allocations and \<^verbatim>\<open>pipe()\<close> are asked
  once per buffer, so their answers are indexed by the number of the buffer; the size
  calls of \<^verbatim>\<open>fcntl\<close> take the pipe and (for \<^verbatim>\<open>F_SETPIPE_SZ\<close>) the
  requested number of bytes. \<open>junk_iov\<close> is the content of memory fresh from
  \<^verbatim>\<open>realloc\<close>.
\<close>

record pipe_env =
  pp_malloc :: bool
  ppb_malloc :: "nat \<Rightarrow> bool"
  sys_pipe :: "nat \<Rightarrow> bool"
  getpipe_sz :: "nat \<Rightarrow> int"
  setpipe_sz :: "nat \<Rightarrow> nat \<Rightarrow> int"
  holes_realloc :: "nat \<Rightarrow> bool"
  junk_iov :: iovec

definition UIO_MAXIOV :: nat where
  "UIO_MAXIOV = 1024"

definition PP_HOLES_BATCH :: nat where
  "PP_HOLES_BATCH = 32"

section \<open>Operations\<close>

definition page_pipe_grow :: "pipe_env \<Rightarrow> page_pipe \<Rightarrow> int \<times> page_pipe" where
  "page_pipe_grow E pp =
     (let n = nr_pipes pp in
      if \<not> ppb_malloc E n then (-1, pp)
      else if \<not> sys_pipe E n then (-1, pp)
      else (0, pp\<lparr>bufs := bufs pp @ [\<lparr>ppb_p = n,
                                       pipe_size = nat (getpipe_sz E n div int PAGE_SIZE),
                                       pages_in = 0, nr_segs = 0, ppb_iov = free_iov pp\<rparr>],
                  nr_pipes := nr_pipes pp + 1\<rparr>))"

definition create_page_pipe :: "pipe_env \<Rightarrow> nat \<Rightarrow> iovec list \<Rightarrow> page_pipe option" where
  "create_page_pipe E n vs =
     (if \<not> pp_malloc E then None
      else let pp = \<lparr>nr_pipes = 0, bufs = [], nr_iovs = n, free_iov = 0, iovs = vs,
                     nr_holes = 0, free_hole = 0, holes = []\<rparr>
           in case page_pipe_grow E pp of (ret, pp') \<Rightarrow> if ret \<noteq> 0 then None else Some pp')"

text \<open>The descriptors that \<^verbatim>\<open>destroy_page_pipe\<close> closes, in order: both ends of every pipe.\<close>

definition destroy_page_pipe :: "page_pipe \<Rightarrow> (nat \<times> nat) list" where
  "destroy_page_pipe pp = concat (map (\<lambda>b. [(ppb_p b, 0), (ppb_p b, 1)]) (bufs pp))"

text \<open>
  \<^verbatim>\<open>try_add_page_to\<close> first makes room in the pipe (\<open>Inr None\<close>: the pipe cannot
  grow, another buffer is needed), then extends the last segment or opens a new one. The
  requested size is computed in 32 bits, as in the code.
\<close>

definition grow_pipe :: "pipe_env \<Rightarrow> page_pipe_buf \<Rightarrow> page_pipe_buf option outcome" where
  "grow_pipe E b =
     (if pages_in b = pipe_size b then
        (let ret = setpipe_sz E (ppb_p b) (u32_of (2 * (pipe_size b * PAGE_SIZE))) in
         if ret < 0 then Inr None
         else let sz = nat (ret div int PAGE_SIZE) in
              if sz < pipe_size b then Inl BUG else Inr (Some (b\<lparr>pipe_size := sz\<rparr>)))
      else Inr (Some b))"

definition try_add_page_to ::
  "pipe_env \<Rightarrow> page_pipe \<Rightarrow> nat \<Rightarrow> nat \<Rightarrow> (int \<times> page_pipe) outcome" where
  "try_add_page_to E pp i addr =
     bindF (grow_pipe E (bufs pp ! i)) (\<lambda>r.
       case r of None \<Rightarrow> Inr (1, pp)
       | Some b \<Rightarrow>
         (let pp1 = pp\<lparr>bufs := (bufs pp)[i := b]\<rparr>;
              k = ppb_iov b + nr_segs b - 1 in
          if 0 < nr_segs b \<and> length (iovs pp) \<le> k then Inl UB
          else if 0 < nr_segs b \<and> iov_end (iovs pp ! k) = addr then
            Inr (0, pp1\<lparr>iovs := (iovs pp)[k := (iovs pp ! k)\<lparr>iov_len := iov_len (iovs pp ! k) + PAGE_SIZE\<rparr>],
                        bufs := (bufs pp)[i := b\<lparr>pages_in := pages_in b + 1\<rparr>]\<rparr>)
          else if nr_segs b = UIO_MAXIOV then Inr (1, pp1)
          else if length (iovs pp) \<le> ppb_iov b + nr_segs b then Inl UB
          else if nr_iovs pp < free_iov pp + 1 then Inl BUG
          else
            Inr (0, pp1\<lparr>iovs := (iovs pp)[ppb_iov b + nr_segs b := \<lparr>iov_base = addr, iov_len = PAGE_SIZE\<rparr>],
                        free_iov := free_iov pp + 1,
                        bufs := (bufs pp)[i := b\<lparr>nr_segs := nr_segs b + 1,
                                                   pages_in := pages_in b + 1\<rparr>]\<rparr>)))"

definition try_add_page :: "pipe_env \<Rightarrow> page_pipe \<Rightarrow> nat \<Rightarrow> (int \<times> page_pipe) outcome" where
  "try_add_page E pp addr =
     (if bufs pp = [] then Inl BUG else try_add_page_to E pp (length (bufs pp) - 1) addr)"

definition page_pipe_add_page :: "pipe_env \<Rightarrow> page_pipe \<Rightarrow> nat \<Rightarrow> (int \<times> page_pipe) outcome" where
  "page_pipe_add_page E pp addr =
     bindF (try_add_page E pp addr) (\<lambda>(ret, pp1).
       if ret \<le> 0 then Inr (ret, pp1)
       else case page_pipe_grow E pp1 of (ret2, pp2) \<Rightarrow>
         if ret2 < 0 then Inr (ret2, pp2)
         else bindF (try_add_page E pp2 addr) (\<lambda>(ret3, pp3).
                if 0 < ret3 then Inl BUG else Inr (ret3, pp3)))"

text \<open>A failed \<^verbatim>\<open>xrealloc\<close> overwrites the pointer \<^verbatim>\<open>pp->holes\<close> with NULL.\<close>

definition page_pipe_add_hole :: "pipe_env \<Rightarrow> page_pipe \<Rightarrow> nat \<Rightarrow> (int \<times> page_pipe) outcome" where
  "page_pipe_add_hole E pp addr =
     (let ok = (nr_holes pp \<le> free_hole pp \<longrightarrow> holes_realloc E (nr_holes pp));
          pp1 = (if nr_holes pp \<le> free_hole pp
                 then pp\<lparr>holes := holes pp @ replicate (nr_holes pp + PP_HOLES_BATCH - length (holes pp)) (junk_iov E),
                         nr_holes := nr_holes pp + PP_HOLES_BATCH\<rparr>
                 else pp);
          k = free_hole pp1 - 1 in
      if \<not> ok then Inr (-1, pp\<lparr>holes := []\<rparr>)
      else if 0 < free_hole pp1 \<and> length (holes pp1) \<le> k then Inl UB
      else if 0 < free_hole pp1 \<and> iov_end (holes pp1 ! k) = addr then
        Inr (0, pp1\<lparr>holes := (holes pp1)[k := (holes pp1 ! k)\<lparr>iov_len := iov_len (holes pp1 ! k) + PAGE_SIZE\<rparr>]\<rparr>)
      else if length (holes pp1) \<le> free_hole pp1 then Inl UB
      else Inr (0, pp1\<lparr>holes := (holes pp1)[free_hole pp1 := \<lparr>iov_base = addr, iov_len = PAGE_SIZE\<rparr>],
                       free_hole := free_hole pp1 + 1\<rparr>))"

section \<open>Invariant\<close>

text \<open>The segments of a buffer, as the entries of the shared array it owns.\<close>

definition segs :: "iovec list \<Rightarrow> page_pipe_buf \<Rightarrow> iovec list" where
  "segs vs b = take (nr_segs b) (drop (ppb_iov b) vs)"

text \<open>The buffers cut the used part of the array into consecutive runs.\<close>

fun bufs_chain :: "nat \<Rightarrow> page_pipe_buf list \<Rightarrow> nat \<Rightarrow> bool" where
  "bufs_chain s [] e \<longleftrightarrow> s = e"
| "bufs_chain s (b # bs) e \<longleftrightarrow> ppb_iov b = s \<and> bufs_chain (s + nr_segs b) bs e"

definition iov_ok :: "iovec \<Rightarrow> bool" where
  "iov_ok v \<longleftrightarrow> PAGE_SIZE dvd iov_len v \<and> 0 < iov_len v"

definition buf_ok :: "iovec list \<Rightarrow> page_pipe_buf \<Rightarrow> bool" where
  "buf_ok vs b \<longleftrightarrow> nr_segs b \<le> UIO_MAXIOV \<and> pages_in b \<le> pipe_size b
     \<and> 0 < pipe_size b \<and> pipe_size b < 2 ^ 19
     \<and> pages_in b = length (concat (map iov_pages (segs vs b)))"

definition pp_holes_wf :: "page_pipe \<Rightarrow> bool" where
  "pp_holes_wf pp \<longleftrightarrow> free_hole pp \<le> nr_holes pp \<and> length (holes pp) = nr_holes pp
     \<and> list_all iov_ok (take (free_hole pp) (holes pp))"

definition pp_bufs_wf :: "page_pipe \<Rightarrow> bool" where
  "pp_bufs_wf pp \<longleftrightarrow> bufs pp \<noteq> []
     \<and> bufs_chain 0 (bufs pp) (free_iov pp)
     \<and> free_iov pp \<le> nr_iovs pp \<and> nr_iovs pp \<le> length (iovs pp)
     \<and> list_all iov_ok (take (free_iov pp) (iovs pp))
     \<and> list_all (buf_ok (iovs pp)) (bufs pp)
     \<and> map ppb_p (bufs pp) = [0..<nr_pipes pp]"

definition pp_wf :: "page_pipe \<Rightarrow> bool" where
  "pp_wf pp \<longleftrightarrow> pp_bufs_wf pp \<and> pp_holes_wf pp"

text \<open>
  The contents of a page pipe: the addresses of the pages that go into the image, and of
  those that the parent image has, in the order they were added.
\<close>

definition pp_pages :: "page_pipe \<Rightarrow> nat list" where
  "pp_pages pp = concat (map iov_pages (take (free_iov pp) (iovs pp)))"

definition pp_hole_pages :: "page_pipe \<Rightarrow> nat list" where
  "pp_hole_pages pp = concat (map iov_pages (take (free_hole pp) (holes pp)))"

text \<open>
  What fcntl(2) says of pipe sizes: the results are C ints, a fresh pipe holds at least a
  page, and a granted \<^verbatim>\<open>F_SETPIPE_SZ\<close> grants at least what was asked for.
\<close>

definition pipe_env_ok :: "pipe_env \<Rightarrow> bool" where
  "pipe_env_ok E \<longleftrightarrow>
     (\<forall>n. int PAGE_SIZE \<le> getpipe_sz E n \<and> getpipe_sz E n < 2 ^ 31) \<and>
     (\<forall>n k. setpipe_sz E n k < 2 ^ 31 \<and> (0 \<le> setpipe_sz E n k \<longrightarrow> int k \<le> setpipe_sz E n k))"

section \<open>Lemmas\<close>

lemma bufs_chain_append:
  "bufs_chain s (xs @ ys) e \<longleftrightarrow> (\<exists>m. bufs_chain s xs m \<and> bufs_chain m ys e)"
  by (induction xs arbitrary: s) auto

lemma bufs_chain_le: "bufs_chain s bs e \<Longrightarrow> s \<le> e"
  by (induction bs arbitrary: s) fastforce+

lemma bufs_chain_bounds:
  "bufs_chain s bs e \<Longrightarrow> b \<in> set bs \<Longrightarrow> s \<le> ppb_iov b \<and> ppb_iov b + nr_segs b \<le> e"
  by (induction bs arbitrary: s) (auto dest: bufs_chain_le, fastforce)

lemma segs_update_above [simp]:
  "ppb_iov b + nr_segs b \<le> k \<Longrightarrow> segs (vs[k := v]) b = segs vs b"
  by (simp add: segs_def drop_update_swap take_update_cancel)

lemma buf_ok_update_above:
  "ppb_iov b + nr_segs b \<le> k \<Longrightarrow> buf_ok (vs[k := v]) b = buf_ok vs b"
  by (simp add: buf_ok_def)

lemma concat_segs:
  "bufs_chain s bs e \<Longrightarrow> e \<le> length vs \<Longrightarrow>
   concat (map (segs vs) bs) = take (e - s) (drop s vs)"
proof (induction bs arbitrary: s)
  case Nil
  then show ?case by simp
next
  case (Cons b bs)
  then have ch: "bufs_chain (s + nr_segs b) bs e" and s: "ppb_iov b = s" by auto
  from ch have le: "s + nr_segs b \<le> e" by (rule bufs_chain_le)
  have "concat (map (segs vs) (b # bs)) =
        take (nr_segs b) (drop s vs) @ take (e - (s + nr_segs b)) (drop (s + nr_segs b) vs)"
    using Cons.IH [OF ch Cons.prems(2)] s by (simp add: segs_def [of _ b])
  also have "\<dots> = take (nr_segs b + (e - (s + nr_segs b))) (drop s vs)"
    by (simp add: take_add add.commute)
  also have "nr_segs b + (e - (s + nr_segs b)) = e - s" using le by simp
  finally show ?case .
qed

text \<open>A well-formed page pipe, opened at its last buffer.\<close>

lemma pp_bufs_wf_last:
  assumes "pp_bufs_wf pp"
  obtains bs b m where "bufs pp = bs @ [b]" "bufs_chain 0 bs m" "ppb_iov b = m"
    "free_iov pp = m + nr_segs b" "buf_ok (iovs pp) b" "list_all (buf_ok (iovs pp)) bs"
proof -
  from assms have "bufs pp \<noteq> []" by (simp add: pp_bufs_wf_def)
  then obtain bs b where eq: "bufs pp = bs @ [b]" by (metis append_butlast_last_id)
  from assms eq obtain m where "bufs_chain 0 bs m" "ppb_iov b = m" "free_iov pp = m + nr_segs b"
    by (auto simp: pp_bufs_wf_def bufs_chain_append)
  with assms eq that show ?thesis by (simp add: pp_bufs_wf_def)
qed

lemma grow_pipe_cases:
  assumes "pipe_env_ok E" "buf_ok vs b"
  shows "grow_pipe E b = Inr None
     \<or> (\<exists>sz. grow_pipe E b = Inr (Some (b\<lparr>pipe_size := sz\<rparr>)) \<and> pages_in b < sz \<and> sz < 2 ^ 19)"
proof (cases "pages_in b = pipe_size b")
  case False
  with assms(2) show ?thesis
    by (intro disjI2 exI [of _ "pipe_size b"]) (auto simp: grow_pipe_def buf_ok_def)
next
  case True
  define k where "k = 2 * (pipe_size b * PAGE_SIZE)"
  define r where "r = setpipe_sz E (ppb_p b) k"
  from assms(2) have small: "k < 2 ^ 32" by (simp add: k_def buf_ok_def PAGE_SIZE_def)
  then have uk: "u32_of k = k" by simp
  show ?thesis
  proof (cases "r < 0")
    case neg: True
    with True uk show ?thesis by (simp add: grow_pipe_def k_def [symmetric] r_def [symmetric])
  next
    case nn: False
    from assms(1) nn have rk: "int k \<le> r" and r31: "r < 2 ^ 31"
      by (auto simp: pipe_env_ok_def r_def)
    have ge: "2 * pipe_size b \<le> nat (r div int PAGE_SIZE)"
      using rk by (simp add: k_def PAGE_SIZE_def)
    have lt: "nat (r div int PAGE_SIZE) < 2 ^ 19"
      using r31 nn by (simp add: PAGE_SIZE_def)
    from assms(2) ge have "pages_in b < nat (r div int PAGE_SIZE)" by (simp add: buf_ok_def)
    with True nn uk ge lt show ?thesis
      by (intro disjI2 exI [of _ "nat (r div int PAGE_SIZE)"])
         (auto simp: grow_pipe_def k_def [symmetric] r_def [symmetric])
  qed
qed

text \<open>The three ways the last buffer takes (or does not take) a page.\<close>

lemma pp_pages_extend:
  assumes "0 < free_iov pp" "free_iov pp \<le> length (iovs pp)"
    and "v = iovs pp ! (free_iov pp - 1)" "iov_ok v"
  shows "pp_pages (pp\<lparr>iovs := (iovs pp)[free_iov pp - 1 := v\<lparr>iov_len := iov_len v + PAGE_SIZE\<rparr>]\<rparr>)
         = pp_pages pp @ [iov_end v]"
proof -
  obtain k where k: "free_iov pp = Suc k" using assms(1) by (cases "free_iov pp") auto
  with assms show ?thesis
    by (simp add: pp_pages_def take_Suc_conv_app_nth iov_pages_grow iov_ok_def)
qed

lemma pp_pages_new:
  assumes "free_iov pp < length (iovs pp)"
  shows "pp_pages (pp\<lparr>iovs := (iovs pp)[free_iov pp := \<lparr>iov_base = a, iov_len = PAGE_SIZE\<rparr>],
                      free_iov := free_iov pp + 1\<rparr>) = pp_pages pp @ [a]"
  using assms by (simp add: pp_pages_def take_Suc_conv_app_nth)

lemma buf_ok_extend:
  assumes "buf_ok vs b" "0 < nr_segs b" "ppb_iov b + nr_segs b \<le> length vs"
    and "v = vs ! (ppb_iov b + nr_segs b - 1)" "iov_ok v" "pages_in b < sz" "sz < 2 ^ 19"
  shows "buf_ok (vs[ppb_iov b + nr_segs b - 1 := v\<lparr>iov_len := iov_len v + PAGE_SIZE\<rparr>])
           (b\<lparr>pipe_size := sz, pages_in := pages_in b + 1\<rparr>)"
proof -
  obtain k where k: "nr_segs b = Suc k" using assms(2) by (cases "nr_segs b") auto
  define w where "w = v\<lparr>iov_len := iov_len v + PAGE_SIZE\<rparr>"
  have old: "segs vs b = take k (drop (ppb_iov b) vs) @ [v]"
    using k assms(3,4) by (simp add: segs_def take_Suc_drop)
  have new: "segs (vs[ppb_iov b + nr_segs b - 1 := w]) (b\<lparr>pipe_size := sz, pages_in := pages_in b + 1\<rparr>)
      = take k (drop (ppb_iov b) vs) @ [w]"
    using k assms(3) take_Suc_drop_update [of "ppb_iov b" k vs w] by (simp add: segs_def)
  have "iov_pages w = iov_pages v @ [iov_end v]"
    using assms(5) by (simp add: w_def iov_ok_def iov_pages_grow)
  with assms old new show ?thesis
    unfolding w_def [symmetric] by (simp add: buf_ok_def)
qed

lemma buf_ok_new:
  assumes "buf_ok vs b" "nr_segs b < UIO_MAXIOV" "ppb_iov b + nr_segs b < length vs"
    and "pages_in b < sz" "sz < 2 ^ 19"
  shows "buf_ok (vs[ppb_iov b + nr_segs b := \<lparr>iov_base = a, iov_len = PAGE_SIZE\<rparr>])
           (b\<lparr>pipe_size := sz, nr_segs := nr_segs b + 1, pages_in := pages_in b + 1\<rparr>)"
proof -
  let ?w = "\<lparr>iov_base = a, iov_len = PAGE_SIZE\<rparr>"
  have "segs (vs[ppb_iov b + nr_segs b := ?w])
          (b\<lparr>pipe_size := sz, nr_segs := nr_segs b + 1, pages_in := pages_in b + 1\<rparr>) = segs vs b @ [?w]"
    using assms(3) take_Suc_drop_update [of "ppb_iov b" "nr_segs b" vs ?w] by (simp add: segs_def)
  with assms show ?thesis by (simp add: buf_ok_def)
qed

lemma buf_ok_pipe_size:
  "buf_ok vs b \<Longrightarrow> pages_in b < sz \<Longrightarrow> sz < 2 ^ 19 \<Longrightarrow> buf_ok vs (b\<lparr>pipe_size := sz\<rparr>)"
  by (simp add: buf_ok_def segs_def)

text \<open>Everything about a page pipe that adding pages leaves alone.\<close>

definition pp_frame :: "page_pipe \<Rightarrow> page_pipe \<Rightarrow> bool" where
  "pp_frame pp pp' \<longleftrightarrow> nr_iovs pp' = nr_iovs pp \<and> holes pp' = holes pp
     \<and> free_hole pp' = free_hole pp \<and> nr_holes pp' = nr_holes pp
     \<and> length (iovs pp') = length (iovs pp)"

lemma list_all_buf_ok_update:
  "bufs_chain 0 bs m \<Longrightarrow> m \<le> k \<Longrightarrow> list_all (buf_ok vs) bs \<Longrightarrow> list_all (buf_ok (vs[k := v])) bs"
proof (unfold list_all_iff, intro ballI)
  fix b
  assume ch: "bufs_chain 0 bs m" and k: "m \<le> k" and ok: "\<forall>x\<in>set bs. buf_ok vs x" and b: "b \<in> set bs"
  from bufs_chain_bounds [OF ch b] k have "ppb_iov b + nr_segs b \<le> k" by simp
  with ok b show "buf_ok (vs[k := v]) b" by (simp add: buf_ok_update_above)
qed

lemma list_all_take_update:
  assumes "list_all P (take n xs)" "P v"
  shows "list_all P (take n (xs[k := v]))"
proof -
  have "set (take n (xs[k := v])) \<subseteq> insert v (set (take n xs))"
    by (simp add: take_update_swap set_update_subset_insert)
  with assms show ?thesis by (auto simp: list_all_iff)
qed

lemma iov_ok_pages: "iov_ok v \<Longrightarrow> iov_pages v \<noteq> []"
  by (auto simp: iov_ok_def iov_pages_def page_range_def elim!: dvdE)

lemma buf_ok_pages_pos:
  assumes "buf_ok vs b" "0 < nr_segs b" "ppb_iov b + nr_segs b \<le> length vs"
    and "list_all iov_ok (take (ppb_iov b + nr_segs b) vs)"
  shows "0 < pages_in b"
proof -
  obtain k where k: "nr_segs b = Suc k" using assms(2) by (cases "nr_segs b") auto
  let ?v = "vs ! (ppb_iov b + k)"
  have "iov_ok ?v"
    using assms(3,4) k by (auto simp: list_all_length dest!: spec [of _ "ppb_iov b + k"])
  then have "iov_pages ?v \<noteq> []" by (rule iov_ok_pages)
  moreover have "segs vs b = take k (drop (ppb_iov b) vs) @ [?v]"
    using k assms(3) by (simp add: segs_def take_Suc_drop)
  ultimately show ?thesis using assms(1) by (simp add: buf_ok_def)
qed

lemma try_add_page_cases:
  assumes E: "pipe_env_ok E" and wf: "pp_bufs_wf pp"
  shows "free_iov pp = nr_iovs pp \<and> (\<exists>f. try_add_page E pp addr = Inl f)
     \<or> (\<exists>ret pp'. try_add_page E pp addr = Inr (ret, pp') \<and> pp_bufs_wf pp' \<and> pp_frame pp pp' \<and>
     ((ret = 0 \<and> pp_pages pp' = pp_pages pp @ [addr] \<and> free_iov pp' \<le> free_iov pp + 1) \<or>
      (ret = 1 \<and> pp_pages pp' = pp_pages pp \<and> free_iov pp' = free_iov pp
          \<and> 0 < pages_in (last (bufs pp)))))"
proof -
  from wf obtain bs b m where B: "bufs pp = bs @ [b]" "bufs_chain 0 bs m" "ppb_iov b = m"
      "free_iov pp = m + nr_segs b" "buf_ok (iovs pp) b" "list_all (buf_ok (iovs pp)) bs"
    by (rule pp_bufs_wf_last)
  from wf have len: "nr_iovs pp \<le> length (iovs pp)" and used: "free_iov pp \<le> nr_iovs pp" and
    okv: "list_all iov_ok (take (free_iov pp) (iovs pp))" and
    ids: "map ppb_p (bufs pp) = [0..<nr_pipes pp]"
    by (simp_all add: pp_bufs_wf_def)
  from B(1) have lastb: "bufs pp \<noteq> []" "length (bufs pp) - 1 = length bs" "bufs pp ! length bs = b"
      "last (bufs pp) = b" "\<And>x. (bufs pp)[length bs := x] = bs @ [x]"
    by simp_all
  have segpos: "0 < nr_segs b \<Longrightarrow> 0 < pages_in b"
    using buf_ok_pages_pos [OF B(5)] B(3,4) used len okv by simp
  have fits: "m + nr_segs b \<le> length (iovs pp)" using B(4) used len by simp
  consider (full) "grow_pipe E b = Inr None"
    | (sz) sz where "grow_pipe E b = Inr (Some (b\<lparr>pipe_size := sz\<rparr>))" "pages_in b < sz" "sz < 2 ^ 19"
    using grow_pipe_cases [OF E B(5)] by blast
  then show ?thesis
  proof cases
    case full
    then have "pages_in b = pipe_size b" by (auto simp: grow_pipe_def split: if_splits)
    with B(5) have "0 < pages_in b" unfolding buf_ok_def by linarith
    with full lastb wf show ?thesis
      by (simp add: try_add_page_def try_add_page_to_def pp_frame_def)
  next
    case sz
    let ?k = "m + nr_segs b - 1"
    let ?v = "iovs pp ! ?k"
    consider (extend) "0 < nr_segs b" "iov_end ?v = addr"
      | (limit) "nr_segs b = UIO_MAXIOV" "\<not> (0 < nr_segs b \<and> iov_end ?v = addr)"
      | (over) "nr_segs b \<noteq> UIO_MAXIOV" "\<not> (0 < nr_segs b \<and> iov_end ?v = addr)" "free_iov pp = nr_iovs pp"
      | (new) "nr_segs b \<noteq> UIO_MAXIOV" "\<not> (0 < nr_segs b \<and> iov_end ?v = addr)" "free_iov pp < nr_iovs pp"
      using used
      by (cases "nr_segs b = UIO_MAXIOV"; cases "0 < nr_segs b \<and> iov_end ?v = addr"; cases "free_iov pp = nr_iovs pp")
         simp_all
    then show ?thesis
    proof cases
      case extend
      let ?w = "?v\<lparr>iov_len := iov_len ?v + PAGE_SIZE\<rparr>"
      let ?b = "b\<lparr>pipe_size := sz, pages_in := pages_in b + 1\<rparr>"
      let ?pp = "pp\<lparr>bufs := bs @ [?b], iovs := (iovs pp)[?k := ?w]\<rparr>"
      have run: "try_add_page E pp addr = Inr (0, ?pp)"
        using sz extend lastb B(3) fits by (simp add: try_add_page_def try_add_page_to_def Let_def)
      have okw: "iov_ok ?v"
        using okv extend B(4) fits by (auto simp: list_all_length dest!: spec [of _ ?k])
      then have okw': "iov_ok ?w" by (simp add: iov_ok_def)
      have "buf_ok ((iovs pp)[?k := ?w]) ?b"
        using buf_ok_extend [OF B(5) extend(1) _ _ okw sz(2,3)] B(3) fits by simp
      moreover have "list_all (buf_ok ((iovs pp)[?k := ?w])) bs"
        using list_all_buf_ok_update [OF B(2) _ B(6)] extend(1) by simp
      ultimately have "pp_bufs_wf ?pp"
        using B ids wf okw' list_all_take_update [OF okv okw']
        by (auto simp: pp_bufs_wf_def bufs_chain_append)
      moreover have "pp_pages ?pp = pp_pages pp @ [addr]"
        using pp_pages_extend [of pp ?v] extend B(4) fits okw by (simp add: pp_pages_def)
      ultimately show ?thesis using run by (simp add: pp_frame_def)
    next
      case limit
      let ?pp = "pp\<lparr>bufs := bs @ [b\<lparr>pipe_size := sz\<rparr>]\<rparr>"
      have run: "try_add_page E pp addr = Inr (1, ?pp)"
        using sz limit lastb B(3) fits by (auto simp: try_add_page_def try_add_page_to_def Let_def)
      have "pp_bufs_wf ?pp"
        using B ids wf buf_ok_pipe_size [OF B(5) sz(2,3)]
        by (auto simp: pp_bufs_wf_def bufs_chain_append)
      moreover have "0 < pages_in b" using limit(1) segpos by (simp add: UIO_MAXIOV_def)
      ultimately show ?thesis using run lastb by (simp add: pp_frame_def pp_pages_def)
    next
      case over
      then have "\<exists>f. try_add_page E pp addr = Inl f"
        using sz lastb B(3,4) fits by (auto simp: try_add_page_def try_add_page_to_def Let_def)
      with over show ?thesis by blast
    next
      case new
      then have fits: "m + nr_segs b < length (iovs pp)" using B(4) len by simp
      let ?w = "\<lparr>iov_base = addr, iov_len = PAGE_SIZE\<rparr>"
      let ?b = "b\<lparr>pipe_size := sz, nr_segs := nr_segs b + 1, pages_in := pages_in b + 1\<rparr>"
      let ?vs = "(iovs pp)[m + nr_segs b := ?w]"
      let ?pp = "pp\<lparr>bufs := bs @ [?b], iovs := ?vs, free_iov := free_iov pp + 1\<rparr>"
      have run: "try_add_page E pp addr = Inr (0, ?pp)"
        using sz new lastb B(3,4) fits by (auto simp: try_add_page_def try_add_page_to_def Let_def)
      have "buf_ok ?vs ?b"
        using buf_ok_new [OF B(5) _ _ sz(2,3), of addr] B(3,5) fits new(1) by (simp add: buf_ok_def)
      moreover have "list_all (buf_ok ?vs) bs"
        using list_all_buf_ok_update [OF B(2) _ B(6)] by simp
      moreover have "list_all iov_ok (take (Suc (m + nr_segs b)) ?vs)"
        using okv B(4) take_Suc_update [OF fits, of ?w] by (simp add: iov_ok_def)
      ultimately have "pp_bufs_wf ?pp"
        using B ids wf new(3) by (auto simp: pp_bufs_wf_def bufs_chain_append)
      moreover have "pp_pages ?pp = pp_pages pp @ [addr]"
        using pp_pages_new [of pp addr] B(4) fits by (simp add: pp_pages_def)
      ultimately show ?thesis using run by (simp add: pp_frame_def)
    qed
  qed
qed

lemma page_pipe_grow_spec:
  assumes "pipe_env_ok E" "pp_bufs_wf pp \<or> bufs pp = [] \<and> nr_pipes pp = 0 \<and> free_iov pp = 0 \<and> nr_iovs pp \<le> length (iovs pp)"
    and "page_pipe_grow E pp = (ret, pp')"
  shows "(ret = -1 \<and> pp' = pp) \<or>
    (ret = 0 \<and> pp_bufs_wf pp' \<and> pp_frame pp pp' \<and> pp_pages pp' = pp_pages pp
       \<and> free_iov pp' = free_iov pp \<and> pages_in (last (bufs pp')) = 0)"
proof (cases "ret = -1")
  case True
  with assms(3) show ?thesis by (auto simp: page_pipe_grow_def Let_def split: if_splits)
next
  case False
  let ?n = "nr_pipes pp"
  let ?b = "\<lparr>ppb_p = ?n, pipe_size = nat (getpipe_sz E ?n div int PAGE_SIZE),
             pages_in = 0, nr_segs = 0, ppb_iov = free_iov pp\<rparr>"
  from False assms(3) have pp': "ret = 0" "pp' = pp\<lparr>bufs := bufs pp @ [?b], nr_pipes := ?n + 1\<rparr>"
    by (auto simp: page_pipe_grow_def Let_def split: if_splits)
  from assms(1) have "int PAGE_SIZE \<le> getpipe_sz E ?n" "getpipe_sz E ?n < 2 ^ 31"
    by (simp_all add: pipe_env_ok_def)
  then have "1 \<le> getpipe_sz E ?n div int PAGE_SIZE" "getpipe_sz E ?n div int PAGE_SIZE < 2 ^ 19"
    by (simp_all add: PAGE_SIZE_def)
  then have "buf_ok (iovs pp) ?b" by (auto simp: buf_ok_def segs_def)
  then have "pp_bufs_wf pp'"
    using assms(2) pp' by (auto simp: pp_bufs_wf_def bufs_chain_append)
  with pp' show ?thesis by (simp add: pp_frame_def pp_pages_def)
qed

text \<open>
  Adding a page: either the array of iovecs is used up (and the call aborts), or the call
  keeps the page pipe well formed, and appends exactly this page or fails with -1 and the
  contents unchanged.
\<close>

lemma page_pipe_add_page_cases:
  assumes E: "pipe_env_ok E" and wf: "pp_wf pp"
  shows "free_iov pp = nr_iovs pp \<and> (\<exists>f. page_pipe_add_page E pp addr = Inl f)
   \<or> (\<exists>ret pp'. page_pipe_add_page E pp addr = Inr (ret, pp') \<and> pp_wf pp' \<and> pp_frame pp pp'
     \<and> free_iov pp' \<le> free_iov pp + 1
     \<and> (ret = 0 \<and> pp_pages pp' = pp_pages pp @ [addr] \<or> ret = -1 \<and> pp_pages pp' = pp_pages pp))"
proof -
  from wf have bwf: "pp_bufs_wf pp" and hwf: "pp_holes_wf pp" by (simp_all add: pp_wf_def)
  have hwf': "pp_holes_wf q" if "pp_frame pp q" for q
    using that hwf by (simp add: pp_frame_def pp_holes_wf_def)
  consider (over) f where "free_iov pp = nr_iovs pp" "try_add_page E pp addr = Inl f"
    | (added) p1 where "try_add_page E pp addr = Inr (0, p1)" "pp_bufs_wf p1" "pp_frame pp p1"
        "pp_pages p1 = pp_pages pp @ [addr]" "free_iov p1 \<le> free_iov pp + 1"
    | (full) p1 where "try_add_page E pp addr = Inr (1, p1)" "pp_bufs_wf p1" "pp_frame pp p1"
        "pp_pages p1 = pp_pages pp" "free_iov p1 = free_iov pp"
    using try_add_page_cases [OF E bwf, of addr] by blast
  then show ?thesis
  proof cases
    case over
    then show ?thesis by (simp add: page_pipe_add_page_def)
  next
    case added
    with hwf' show ?thesis by (simp add: page_pipe_add_page_def pp_wf_def)
  next
    case full
    obtain r2 p2 where g: "page_pipe_grow E p1 = (r2, p2)" by fastforce
    show ?thesis
    proof (cases "r2 = -1")
      case True
      with page_pipe_grow_spec [OF E disjI1 [OF full(2)] g] have "p2 = p1" by auto
      with True g full hwf' show ?thesis by (simp add: page_pipe_add_page_def pp_wf_def)
    next
      case False
      with page_pipe_grow_spec [OF E disjI1 [OF full(2)] g]
      have r2: "r2 = 0" and w2: "pp_bufs_wf p2" and f2: "pp_frame p1 p2"
        and s2: "pp_pages p2 = pp_pages p1" "free_iov p2 = free_iov p1"
        and l2: "pages_in (last (bufs p2)) = 0"
        by auto
      have same: "nr_iovs p2 = nr_iovs pp" "free_iov p2 = free_iov pp"
        using full f2 s2 by (simp_all add: pp_frame_def)
      from try_add_page_cases [OF E w2, of addr] l2
      consider (over) f where "free_iov p2 = nr_iovs p2" "try_add_page E p2 addr = Inl f"
        | (added) p3 where "try_add_page E p2 addr = Inr (0, p3)" "pp_bufs_wf p3" "pp_frame p2 p3"
            "pp_pages p3 = pp_pages p2 @ [addr]" "free_iov p3 \<le> free_iov p2 + 1"
        by auto
      then show ?thesis
      proof cases
        case over
        with full g r2 same show ?thesis by (simp add: page_pipe_add_page_def)
      next
        case added
        from full f2 added have "pp_frame pp p3" by (simp add: pp_frame_def)
        with full g r2 added s2 hwf' show ?thesis by (simp add: page_pipe_add_page_def pp_wf_def)
      qed
    qed
  qed
qed

lemma page_pipe_add_page_spec:
  assumes E: "pipe_env_ok E" and wf: "pp_wf pp" and room: "free_iov pp < nr_iovs pp"
  shows "\<exists>ret pp'. page_pipe_add_page E pp addr = Inr (ret, pp') \<and> pp_wf pp' \<and> pp_frame pp pp'
     \<and> free_iov pp' \<le> free_iov pp + 1
     \<and> (ret = 0 \<and> pp_pages pp' = pp_pages pp @ [addr] \<or> ret = -1 \<and> pp_pages pp' = pp_pages pp)"
  using page_pipe_add_page_cases [OF E wf, of addr] room by auto

text \<open>Adding a hole never aborts on a well-formed page pipe; the hole array grows by itself.\<close>

lemma page_pipe_add_hole_spec:
  assumes wf: "pp_wf pp"
  shows "\<exists>ret pp'. page_pipe_add_hole E pp addr = Inr (ret, pp') \<and>
     (ret = 0 \<and> pp_wf pp' \<and> pp_hole_pages pp' = pp_hole_pages pp @ [addr]
        \<and> pp_pages pp' = pp_pages pp \<and> free_iov pp' = free_iov pp \<and> nr_iovs pp' = nr_iovs pp
      \<or> ret = -1 \<and> \<not> holes_realloc E (nr_holes pp))"
proof -
  from wf have bwf: "pp_bufs_wf pp" and
    h: "free_hole pp \<le> nr_holes pp" "length (holes pp) = nr_holes pp"
       "list_all iov_ok (take (free_hole pp) (holes pp))"
    by (simp_all add: pp_wf_def pp_holes_wf_def)
  define q where "q = (if nr_holes pp \<le> free_hole pp
      then pp\<lparr>holes := holes pp @ replicate PP_HOLES_BATCH (junk_iov E), nr_holes := nr_holes pp + PP_HOLES_BATCH\<rparr>
      else pp)"
  have q: "free_hole q < nr_holes q" "length (holes q) = nr_holes q" "free_hole q = free_hole pp"
      "take (free_hole pp) (holes q) = take (free_hole pp) (holes pp)" "pp_bufs_wf q"
      "pp_pages q = pp_pages pp" "free_iov q = free_iov pp" "nr_iovs q = nr_iovs pp"
    using h bwf by (auto simp: q_def PP_HOLES_BATCH_def pp_bufs_wf_def pp_pages_def)
  show ?thesis
  proof (cases "nr_holes pp \<le> free_hole pp \<and> \<not> holes_realloc E (nr_holes pp)")
    case True
    then show ?thesis by (simp add: page_pipe_add_hole_def)
  next
    case False
    let ?k = "free_hole pp - 1"
    let ?v = "holes q ! ?k"
    let ?w = "?v\<lparr>iov_len := iov_len ?v + PAGE_SIZE\<rparr>"
    let ?n = "\<lparr>iov_base = addr, iov_len = PAGE_SIZE\<rparr>"
    define r where "r = (if 0 < free_hole pp \<and> iov_end ?v = addr
        then q\<lparr>holes := (holes q)[?k := ?w]\<rparr>
        else q\<lparr>holes := (holes q)[free_hole pp := ?n], free_hole := free_hole pp + 1\<rparr>)"
    have run: "page_pipe_add_hole E pp addr = Inr (0, r)"
      using False q h unfolding r_def by (auto simp: page_pipe_add_hole_def Let_def q_def)
    have "pp_holes_wf r \<and> pp_hole_pages r = pp_hole_pages pp @ [addr]"
    proof (cases "0 < free_hole pp \<and> iov_end ?v = addr")
      case True
      then obtain k where k: "free_hole pp = Suc k" by (cases "free_hole pp") auto
      have pre: "take (Suc k) (holes pp) = take k (holes q) @ [?v]"
      proof -
        have "take (Suc k) (holes pp) = take (Suc k) (holes q)" using q(4) k by simp
        moreover have "k < length (holes q)" using q(1-3) k by simp
        ultimately show ?thesis using k by (simp add: take_Suc_conv_app_nth)
      qed
      with h(3) k have okv: "iov_ok ?v" "list_all iov_ok (take k (holes q))" by auto
      have post: "take (Suc k) (holes r) = take k (holes q) @ [?w]"
        using q(1-3) k True by (simp add: r_def take_Suc_conv_app_nth)
      have "iov_pages ?w = iov_pages ?v @ [iov_end ?v]"
        using okv(1) by (simp add: iov_ok_def iov_pages_grow)
      moreover have "free_hole r = Suc k" "nr_holes r = nr_holes q" "length (holes r) = nr_holes q"
        using True k q(2,3) by (simp_all add: r_def)
      ultimately show ?thesis
        using pre post k q(1,3) okv True
        by (simp add: pp_holes_wf_def pp_hole_pages_def iov_ok_def)
    next
      case False
      have "take (Suc (free_hole pp)) (holes r) = take (free_hole pp) (holes pp) @ [?n]"
        using q(1-4) False by (auto simp: r_def take_Suc_conv_app_nth)
      moreover have "free_hole r = Suc (free_hole pp)" "nr_holes r = nr_holes q" "length (holes r) = nr_holes q"
        using False q(2,3) by (auto simp: r_def)
      ultimately show ?thesis
        using q(1,3) h(3) by (simp add: pp_holes_wf_def pp_hole_pages_def iov_ok_def)
    qed
    moreover have "pp_bufs_wf r" "pp_pages r = pp_pages pp" "free_iov r = free_iov pp" "nr_iovs r = nr_iovs pp"
      using q(5-8) by (auto simp: r_def pp_bufs_wf_def pp_pages_def)
    ultimately show ?thesis using run by (simp add: pp_wf_def)
  qed
qed

lemma create_page_pipe_spec:
  assumes "pipe_env_ok E" "n \<le> length vs" "create_page_pipe E n vs = Some pp"
  shows "pp_wf pp" "pp_pages pp = []" "pp_hole_pages pp = []" "free_iov pp = 0" "nr_iovs pp = n"
    "nr_holes pp = 0" "length (iovs pp) = length vs"
proof -
  let ?q = "\<lparr>nr_pipes = 0, bufs = [], nr_iovs = n, free_iov = 0, iovs = vs,
             nr_holes = 0, free_hole = 0, holes = []\<rparr>"
  obtain r p where g: "page_pipe_grow E ?q = (r, p)" by fastforce
  with assms(3) have "r = 0" "p = pp" by (auto simp: create_page_pipe_def split: if_splits)
  with page_pipe_grow_spec [OF assms(1) _ g] assms(2)
  have "pp_bufs_wf pp" "pp_frame ?q pp" "pp_pages pp = pp_pages ?q" "free_iov pp = 0" by auto
  then show "pp_wf pp" "pp_pages pp = []" "pp_hole_pages pp = []" "free_iov pp = 0" "nr_iovs pp = n"
    "nr_holes pp = 0" "length (iovs pp) = length vs"
    by (simp_all add: pp_wf_def pp_frame_def pp_holes_wf_def pp_pages_def pp_hole_pages_def)
qed

section \<open>Sequences of additions\<close>

text \<open>The calls that the dumper makes on a page pipe, until one of them fails.\<close>

datatype pp_call = AddPage nat | AddHole nat

fun pp_run :: "pipe_env \<Rightarrow> pp_call list \<Rightarrow> page_pipe \<Rightarrow> (int \<times> page_pipe) outcome" where
  "pp_run E [] pp = Inr (0, pp)"
| "pp_run E (AddPage a # cs) pp =
     bindF (page_pipe_add_page E pp a) (\<lambda>(ret, pp1). if ret \<noteq> 0 then Inr (ret, pp1) else pp_run E cs pp1)"
| "pp_run E (AddHole a # cs) pp =
     bindF (page_pipe_add_hole E pp a) (\<lambda>(ret, pp1). if ret \<noteq> 0 then Inr (ret, pp1) else pp_run E cs pp1)"

fun page_calls :: "pp_call list \<Rightarrow> nat list" where
  "page_calls [] = []"
| "page_calls (AddPage a # cs) = a # page_calls cs"
| "page_calls (AddHole a # cs) = page_calls cs"

fun hole_calls :: "pp_call list \<Rightarrow> nat list" where
  "hole_calls [] = []"
| "hole_calls (AddPage a # cs) = hole_calls cs"
| "hole_calls (AddHole a # cs) = a # hole_calls cs"

lemma page_pipe_add_page_holes:
  "pp_frame pp pp' \<Longrightarrow> pp_hole_pages pp' = pp_hole_pages pp"
  by (simp add: pp_frame_def pp_hole_pages_def)

lemma pp_run_spec:
  assumes "pipe_env_ok E" "pp_wf pp" "free_iov pp + length (page_calls cs) \<le> nr_iovs pp"
  shows "\<exists>ret pp'. pp_run E cs pp = Inr (ret, pp') \<and>
     (ret = 0 \<and> pp_wf pp' \<and> pp_pages pp' = pp_pages pp @ page_calls cs
        \<and> pp_hole_pages pp' = pp_hole_pages pp @ hole_calls cs \<or> ret = -1)"
  using assms(2,3)
proof (induction cs arbitrary: pp)
  case (Cons c cs)
  show ?case
  proof (cases c)
    case (AddPage a)
    with Cons.prems have "free_iov pp < nr_iovs pp" by simp
    from page_pipe_add_page_spec [OF assms(1) Cons.prems(1) this, of a]
    obtain ret q where q: "page_pipe_add_page E pp a = Inr (ret, q)" "pp_wf q" "pp_frame pp q"
        "free_iov q \<le> free_iov pp + 1" "ret = 0 \<and> pp_pages q = pp_pages pp @ [a] \<or> ret = -1"
      by blast
    then have "nr_iovs q = nr_iovs pp" by (simp add: pp_frame_def)
    with Cons.prems(2) q(4) AddPage have "free_iov q + length (page_calls cs) \<le> nr_iovs q" by simp
    from Cons.IH [OF q(2) this] q page_pipe_add_page_holes [OF q(3)] AddPage show ?thesis by auto
  next
    case (AddHole a)
    from page_pipe_add_hole_spec [OF Cons.prems(1), of E a]
    obtain ret q where q: "page_pipe_add_hole E pp a = Inr (ret, q)"
        "ret = 0 \<and> pp_wf q \<and> pp_hole_pages q = pp_hole_pages pp @ [a]
           \<and> pp_pages q = pp_pages pp \<and> free_iov q = free_iov pp \<and> nr_iovs q = nr_iovs pp \<or> ret = -1"
      by blast
    with Cons.IH [of q] Cons.prems(2) AddHole show ?thesis by auto
  qed
qed simp

section \<open>Properties\<close>

text \<open>An environment in which every call succeeds.\<close>

definition ex_pipe_env :: pipe_env where
  "ex_pipe_env = \<lparr>pp_malloc = True, ppb_malloc = (\<lambda>_. True), sys_pipe = (\<lambda>_. True),
     getpipe_sz = (\<lambda>_. 65536), setpipe_sz = (\<lambda>_ k. if k < 2 ^ 31 then int k else -1),
     holes_realloc = (\<lambda>_. True), junk_iov = \<lparr>iov_base = 0, iov_len = 0\<rparr>\<rparr>"

lemma ex_pipe_env_ok: "pipe_env_ok ex_pipe_env"
  by (simp add: pipe_env_ok_def ex_pipe_env_def PAGE_SIZE_def)

text \<open>C16: From a freshly created page pipe, any sequence of page and hole additions with no
  more pages than the page pipe has iovecs runs without an abort or a stray array access;
  when it succeeds the page pipe is well formed (the buffers cut the shared iovec array
  into consecutive runs, no pipe holds more pages than its size) and its segments and
  holes list exactly the added pages and holes, in the order of the calls.\<close>

theorem page_pipe_sequence:
  assumes "pipe_env_ok E" "n \<le> length vs" "create_page_pipe E n vs = Some pp"
    and "length (page_calls cs) \<le> n"
  shows "\<exists>ret pp'. pp_run E cs pp = Inr (ret, pp') \<and>
     (ret = 0 \<and> pp_wf pp' \<and> pp_pages pp' = page_calls cs \<and> pp_hole_pages pp' = hole_calls cs \<or> ret = -1)"
  using pp_run_spec [OF assms(1) create_page_pipe_spec(1) [OF assms(1-3)], of cs]
    create_page_pipe_spec [OF assms(1-3)] assms(4) by simp

theorem page_pipe_sequence_witness:
  "\<exists>ret pp pp'. create_page_pipe ex_pipe_env 2 [junk_iov ex_pipe_env, junk_iov ex_pipe_env] = Some pp
     \<and> pp_run ex_pipe_env [AddPage 4096, AddPage 8192, AddHole 12288] pp = Inr (ret, pp')
     \<and> (ret = 0 \<and> pp_wf pp' \<and> pp_pages pp' = [4096, 8192] \<and> pp_hole_pages pp' = [12288] \<or> ret = -1)"
proof -
  obtain pp where pp: "create_page_pipe ex_pipe_env 2 [junk_iov ex_pipe_env, junk_iov ex_pipe_env] = Some pp"
    by (simp add: create_page_pipe_def page_pipe_grow_def ex_pipe_env_def)
  from page_pipe_sequence [OF ex_pipe_env_ok _ pp, of "[AddPage 4096, AddPage 8192, AddHole 12288]"] pp
  show ?thesis by auto
qed

text \<open>Adding a page to a well-formed page pipe has exactly three outcomes: the iovec array
  is used up and the call aborts; the page is appended, keeping the page pipe well formed,
  the holes untouched and using at most one more iovec; or the call fails with -1 and the
  contents stay as they were, still well formed.\<close>

theorem page_pipe_add_page_total:
  assumes "pipe_env_ok E" "pp_wf pp"
  shows "free_iov pp = nr_iovs pp \<and> (\<exists>f. page_pipe_add_page E pp addr = Inl f)
   \<or> (\<exists>ret pp'. page_pipe_add_page E pp addr = Inr (ret, pp') \<and> pp_wf pp'
     \<and> pp_hole_pages pp' = pp_hole_pages pp \<and> free_iov pp' \<le> free_iov pp + 1
     \<and> (ret = 0 \<and> pp_pages pp' = pp_pages pp @ [addr] \<or> ret = -1 \<and> pp_pages pp' = pp_pages pp))"
  using page_pipe_add_page_cases [OF assms, of addr] page_pipe_add_page_holes [of pp] by blast

definition ex_pp :: page_pipe where
  "ex_pp = \<lparr>nr_pipes = 1, bufs = [\<lparr>ppb_p = 0, pipe_size = 16, pages_in = 2, nr_segs = 1, ppb_iov = 0\<rparr>],
     nr_iovs = 1, free_iov = 1, iovs = [\<lparr>iov_base = 4096, iov_len = 8192\<rparr>],
     nr_holes = 0, free_hole = 0, holes = []\<rparr>"

theorem page_pipe_add_page_total_witness:
  "pp_wf ex_pp \<and> (\<exists>f. page_pipe_add_page ex_pipe_env ex_pp 40960 = Inl f)
   \<and> (\<exists>pp'. page_pipe_add_page ex_pipe_env ex_pp 12288 = Inr (0, pp') \<and> pp_wf pp'
        \<and> pp_pages pp' = [4096, 8192, 12288])"
proof -
  have w: "pp_wf ex_pp" "pp_pages ex_pp = [4096, 8192]"
    by (simp_all add: ex_pp_def pp_wf_def pp_bufs_wf_def pp_holes_wf_def buf_ok_def segs_def pp_pages_def
        iov_ok_def iov_pages_def page_range_def PAGE_SIZE_def UIO_MAXIOV_def upt_conv_Cons)
  obtain f where f: "page_pipe_add_page ex_pipe_env ex_pp 40960 = Inl f"
    by (simp add: page_pipe_add_page_def try_add_page_def try_add_page_to_def grow_pipe_def ex_pp_def
        iov_end_def UIO_MAXIOV_def Let_def)
  obtain p where "page_pipe_add_page ex_pipe_env ex_pp 12288 = Inr (0, p)"
    by (simp add: page_pipe_add_page_def try_add_page_def try_add_page_to_def grow_pipe_def ex_pp_def
        iov_end_def UIO_MAXIOV_def Let_def)
  with page_pipe_add_page_total [OF ex_pipe_env_ok w(1), of 12288] w f show ?thesis by auto
qed

end
