(* ===== verification/PageRead.thy ===== *)
theory PageRead
  imports Prelude
begin

text \<open>
  The page reader of page-read.c and include/page-read.h: it walks the pagemap image of a
  task together with its pages image, and follows entries marked \<^verbatim>\<open>in_parent\<close>
  into the readers of the previous snapshots. The reference semantics of a chain of
  snapshots is the lookup function \<open>snap_page\<close>; the lemmas show that the one-pass
  reader, with its rover \<open>cvaddr\<close> and its file position, computes it.
\<close>

section \<open>State\<close>

text \<open>
  A \<^verbatim>\<open>PagemapEntry\<close> (protobuf/pagemap.proto). An absent \<^verbatim>\<open>in_parent\<close>
  reads as false.
\<close>

record pagemap_entry =
  vaddr :: nat
  nr_pages :: nat
  in_parent :: bool

text \<open>
  The pointer \<^verbatim>\<open>pr->pe\<close>: the reader does not clear it when it frees the entry it
  points to.
\<close>

datatype pe_ptr = PeNull | PeLive pagemap_entry | PeFreed

text \<open>
  A \<^verbatim>\<open>struct page_read\<close>. The descriptor \<^verbatim>\<open>fd\<close> is the rest of the
  pagemap image, record by record (\<open>None\<close> is a record that cannot be read or
  unpacked); \<^verbatim>\<open>fd_pg\<close> is the pages image with its file position. The chain of
  \<^verbatim>\<open>parent\<close> pointers is a list of readers, the reader itself first.
\<close>

record page_read =
  pr_pm :: "pagemap_entry option list"
  pr_pg :: "byte list"
  pr_pos :: nat
  pr_pe :: pe_ptr
  cvaddr :: nat

type_synonym pr_chain = "page_read list"

section \<open>Operations\<close>

text \<open>
  \<^verbatim>\<open>pe->nr_pages * PAGE_SIZE\<close> multiplies a \<^verbatim>\<open>uint32_t\<close> by an
  \<^verbatim>\<open>int\<close>: the product is taken in 32 bits.
\<close>

definition pagemap2iovec :: "pagemap_entry \<Rightarrow> iovec" where
  "pagemap2iovec pe = \<lparr>iov_base = vaddr pe, iov_len = u32_of (nr_pages pe * PAGE_SIZE)\<rparr>"

text \<open>\<open>hp\<close> says whether the reader has a parent; \<open>iov\<close> is the out parameter.\<close>

definition get_pagemap :: "bool \<Rightarrow> page_read \<Rightarrow> iovec \<Rightarrow> int \<times> iovec \<times> page_read" where
  "get_pagemap hp pr iov =
     (case pr_pm pr of
        [] \<Rightarrow> (0, iov, pr)
      | None # rest \<Rightarrow> (-1, iov, pr\<lparr>pr_pm := rest\<rparr>)
      | Some pe # rest \<Rightarrow>
          (let iov' = pagemap2iovec pe;
               pr' = pr\<lparr>pr_pm := rest, pr_pe := PeLive pe, cvaddr := iov_base iov'\<rparr> in
           if in_parent pe \<and> \<not> hp then (-1, iov', pr') else (1, iov', pr')))"

definition put_pagemap :: "page_read \<Rightarrow> page_read" where
  "put_pagemap pr = pr\<lparr>pr_pe := PeFreed\<rparr>"

definition skip_pagemap_pages :: "page_read \<Rightarrow> nat \<Rightarrow> page_read outcome" where
  "skip_pagemap_pages pr len =
     (if len = 0 then Inr pr
      else case pr_pe pr of
        PeLive pe \<Rightarrow>
          Inr (let pr1 = (if \<not> in_parent pe then pr\<lparr>pr_pos := pr_pos pr + len\<rparr> else pr)
               in pr1\<lparr>cvaddr := cvaddr pr1 + len\<rparr>)
      | _ \<Rightarrow> Inl UB)"

lemma skip_pagemap_pages_frame:
  "skip_pagemap_pages pr n = Inr pr' \<Longrightarrow> pr_pm pr' = pr_pm pr \<and> pr_pg pr' = pr_pg pr"
  by (auto simp: skip_pagemap_pages_def Let_def split: if_splits pe_ptr.splits)

text \<open>
  The loop of \<^verbatim>\<open>seek_pagemap_page\<close>, from the point where an entry is current. Each
  round consumes a record of the pagemap image, so it ends.
\<close>

function seek_loop :: "bool \<Rightarrow> page_read \<Rightarrow> iovec \<Rightarrow> nat \<Rightarrow> (int \<times> page_read) outcome" where
  "seek_loop hp pr iov va =
     (if va < cvaddr pr then Inr (-1, pr)
      else if iov_end iov \<le> va then
        bindF (skip_pagemap_pages pr (iov_end iov - cvaddr pr)) (\<lambda>pr1.
          case get_pagemap hp (put_pagemap pr1) iov of (ret, iov', pr2) \<Rightarrow>
            if ret \<le> 0 then Inr (-1, pr2) else seek_loop hp pr2 iov' va)
      else bindF (skip_pagemap_pages pr (va - cvaddr pr)) (\<lambda>pr1. Inr (0, pr1)))"
  by pat_completeness auto
termination
  by (relation "measure (\<lambda>(hp, pr, iov, va). length (pr_pm pr))")
     (auto simp: get_pagemap_def put_pagemap_def Let_def dest!: skip_pagemap_pages_frame
           split: list.splits option.splits if_splits)

declare seek_loop.simps [simp del]

text \<open>
  \<^verbatim>\<open>seek_pagemap_page\<close>: with no current entry it starts at the label
  \<^verbatim>\<open>new_pagemap\<close>; a current entry that was freed is read after free.
\<close>

definition seek_pagemap_page :: "bool \<Rightarrow> page_read \<Rightarrow> nat \<Rightarrow> (int \<times> page_read) outcome" where
  "seek_pagemap_page hp pr va =
     (case pr_pe pr of
        PeLive pe \<Rightarrow> seek_loop hp pr (pagemap2iovec pe) va
      | PeNull \<Rightarrow>
          (case get_pagemap hp pr \<lparr>iov_base = 0, iov_len = 0\<rparr> of (ret, iov, pr1) \<Rightarrow>
             if ret \<le> 0 then Inr (-1, pr1) else seek_loop hp pr1 iov va)
      | PeFreed \<Rightarrow> Inl UB)"

text \<open>\<^verbatim>\<open>read(fd_pg, buf, len)\<close> at the file position.\<close>

definition read_pg :: "page_read \<Rightarrow> nat \<Rightarrow> byte list" where
  "read_pg pr len = take len (drop (pr_pos pr) (pr_pg pr))"

text \<open>
  \<^verbatim>\<open>read_pagemap_page\<close>, on the reader at the head of the chain. The buffer is the
  second component of the result; it is only meaningful when the result is 1.
\<close>

fun read_pagemap_page :: "pr_chain \<Rightarrow> nat \<Rightarrow> (int \<times> byte list \<times> pr_chain) outcome" where
  "read_pagemap_page [] va = Inl UB"
| "read_pagemap_page (pr # ps) va =
     (case pr_pe pr of
        PeLive pe \<Rightarrow>
          (if in_parent pe then
             (case ps of
                [] \<Rightarrow> Inl UB
              | p # qs \<Rightarrow>
                  bindF (seek_pagemap_page (qs \<noteq> []) p va) (\<lambda>(ret, p1).
                    if ret = -1 then Inr (ret, [], pr # p1 # qs)
                    else bindF (read_pagemap_page (p1 # qs) va) (\<lambda>(ret2, buf, ps2).
                           if ret2 = -1 then Inr (ret2, buf, pr # ps2)
                           else Inr (1, buf, pr\<lparr>cvaddr := cvaddr pr + PAGE_SIZE\<rparr> # ps2))))
           else
             (let buf = read_pg pr PAGE_SIZE;
                  pr1 = pr\<lparr>pr_pos := pr_pos pr + length buf\<rparr> in
              if length buf \<noteq> PAGE_SIZE then Inr (-1, buf, pr1 # ps)
              else Inr (1, buf, pr1\<lparr>cvaddr := cvaddr pr1 + PAGE_SIZE\<rparr> # ps)))
      | _ \<Rightarrow> Inl UB)"

section \<open>Reference semantics of a chain of snapshots\<close>

text \<open>A snapshot is its pagemap entries with its pages image.\<close>

type_synonym snapshot = "pagemap_entry list \<times> byte list"

definition pe_end :: "pagemap_entry \<Rightarrow> nat" where
  "pe_end e = vaddr e + nr_pages e * PAGE_SIZE"

definition pe_pages :: "pagemap_entry \<Rightarrow> nat list" where
  "pe_pages e = page_range (vaddr e) (nr_pages e)"

text \<open>The bytes of the pages image that belong to an entry.\<close>

definition own_bytes :: "pagemap_entry \<Rightarrow> nat" where
  "own_bytes e = (if in_parent e then 0 else nr_pages e * PAGE_SIZE)"

fun pm_find :: "pagemap_entry list \<Rightarrow> nat \<Rightarrow> nat \<Rightarrow> (pagemap_entry \<times> nat) option" where
  "pm_find [] off va = None"
| "pm_find (e # es) off va =
     (if vaddr e \<le> va \<and> va < pe_end e then Some (e, off + (va - vaddr e))
      else pm_find es (off + own_bytes e) va)"

fun snap_page :: "snapshot list \<Rightarrow> nat \<Rightarrow> byte list option" where
  "snap_page [] va = None"
| "snap_page ((es, pg) # ss) va =
     (case pm_find es 0 va of
        None \<Rightarrow> None
      | Some (e, off) \<Rightarrow>
          if in_parent e then snap_page ss va
          else if off + PAGE_SIZE \<le> length pg then Some (take PAGE_SIZE (drop off pg))
          else None)"

text \<open>
  \<open>Pagemap entries should be returned in sorted order\<close> (include/page-read.h); a
  pagemap the reader understands also keeps each entry below 4 GiB, so that its length
  survives \<open>pagemap2iovec\<close>.
\<close>

definition pe_small :: "pagemap_entry \<Rightarrow> bool" where
  "pe_small e \<longleftrightarrow> nr_pages e < 2 ^ 20"

fun pm_wf :: "pagemap_entry list \<Rightarrow> bool" where
  "pm_wf [] \<longleftrightarrow> True"
| "pm_wf (e # es) \<longleftrightarrow> pe_small e \<and> (\<forall>f \<in> set es. pe_end e \<le> vaddr f) \<and> pm_wf es"

section \<open>Invariant of a reader\<close>

definition own_sum :: "pagemap_entry list \<Rightarrow> nat" where
  "own_sum ds = sum_list (map own_bytes ds)"

text \<open>The reader stands on entry \<open>e\<close>, with \<open>ds\<close> behind it and \<open>rest\<close> ahead.\<close>

definition rd_at :: "pagemap_entry list \<Rightarrow> pagemap_entry \<Rightarrow> pagemap_entry list \<Rightarrow> page_read \<Rightarrow> bool" where
  "rd_at ds e rest pr \<longleftrightarrow> pr_pe pr = PeLive e \<and> pr_pm pr = map Some rest
     \<and> vaddr e \<le> cvaddr pr \<and> cvaddr pr \<le> pe_end e
     \<and> pr_pos pr = own_sum ds + (if in_parent e then 0 else cvaddr pr - vaddr e)"

definition rd_start :: "pagemap_entry list \<Rightarrow> page_read \<Rightarrow> bool" where
  "rd_start es pr \<longleftrightarrow> pr_pe pr = PeNull \<and> pr_pm pr = map Some es \<and> pr_pos pr = 0"

text \<open>The reader is somewhere at or below address \<open>va\<close>.\<close>

definition rd_below :: "snapshot \<Rightarrow> page_read \<Rightarrow> nat \<Rightarrow> bool" where
  "rd_below s pr va \<longleftrightarrow> pr_pg pr = snd s \<and>
     (rd_start (fst s) pr \<or>
      (\<exists>ds e rest. fst s = ds @ e # rest \<and> rd_at ds e rest pr \<and> cvaddr pr \<le> va))"

lemma pagemap2iovec_end [simp]: "pe_small e \<Longrightarrow> iov_end (pagemap2iovec e) = pe_end e"
  by (simp add: pagemap2iovec_def iov_end_def pe_end_def pe_small_def PAGE_SIZE_def)

lemma pm_wf_small: "pm_wf es \<Longrightarrow> e \<in> set es \<Longrightarrow> pe_small e"
  by (induction es) auto

lemma pagemap2iovec_base [simp]: "iov_base (pagemap2iovec e) = vaddr e"
  by (simp add: pagemap2iovec_def)

lemma own_sum_simps [simp]:
  "own_sum [] = 0" "own_sum (ds @ es) = own_sum ds + own_sum es" "own_sum (e # es) = own_bytes e + own_sum es"
  by (simp_all add: own_sum_def)

lemma pm_wf_append:
  "pm_wf (xs @ ys) \<longleftrightarrow>
     pm_wf xs \<and> pm_wf ys \<and> (\<forall>x \<in> set xs. \<forall>y \<in> set ys. pe_end x \<le> vaddr y)"
  by (induction xs) auto

lemma pm_find_append:
  "(\<forall>d \<in> set ds. pe_end d \<le> va) \<Longrightarrow> pm_find (ds @ es) off va = pm_find es (off + own_sum ds) va"
  by (induction ds arbitrary: off) (auto simp: add.assoc)

lemma pm_find_SomeD:
  "pm_find es off va = Some (e, o') \<Longrightarrow> e \<in> set es \<and> vaddr e \<le> va \<and> va < pe_end e"
  by (induction es arbitrary: off) (auto split: if_splits)

lemma vaddr_le_pe_end: "vaddr e \<le> pe_end e"
  by (simp add: pe_end_def)

lemma pm_find_behind:
  assumes "pm_wf (ds @ e # rest)" "vaddr e \<le> va"
  shows "pm_find (ds @ e # rest) 0 va = pm_find (e # rest) (own_sum ds) va"
  using assms by (subst pm_find_append) (auto simp: pm_wf_append)

lemma seek_loop_here:
  assumes "rd_at ds e rest pr" "cvaddr pr \<le> va" "va < pe_end e" "pe_small e"
  shows "\<exists>pr'. seek_loop hp pr (pagemap2iovec e) va = Inr (0, pr') \<and> rd_at ds e rest pr'
     \<and> cvaddr pr' = va \<and> pr_pg pr' = pr_pg pr
     \<and> (\<not> in_parent e \<longrightarrow> pr_pos pr' = own_sum ds + (va - vaddr e))"
  using assms
  by (subst seek_loop.simps) (auto simp: rd_at_def skip_pagemap_pages_def Let_def)

lemma rd_at_advance:
  assumes "rd_at ds e (e' # rest) pr" "hp \<or> \<not> in_parent e'"
  shows "\<exists>pr1 pr2. skip_pagemap_pages pr (pe_end e - cvaddr pr) = Inr pr1 \<and>
     get_pagemap hp (put_pagemap pr1) iov = (1, pagemap2iovec e', pr2) \<and>
     rd_at (ds @ [e]) e' rest pr2 \<and> cvaddr pr2 = vaddr e' \<and> pr_pg pr2 = pr_pg pr"
proof -
  define pr1 where "pr1 = pr\<lparr>pr_pos := own_sum ds + own_bytes e, cvaddr := pe_end e\<rparr>"
  define pr2 where "pr2 = pr1\<lparr>pr_pe := PeLive e', pr_pm := map Some rest, cvaddr := vaddr e'\<rparr>"
  have "skip_pagemap_pages pr (pe_end e - cvaddr pr) = Inr pr1"
    using assms(1)
    by (auto simp: skip_pagemap_pages_def rd_at_def pr1_def Let_def own_bytes_def pe_end_def)
  moreover have "get_pagemap hp (put_pagemap pr1) iov = (1, pagemap2iovec e', pr2)"
    using assms by (auto simp: get_pagemap_def put_pagemap_def pr1_def pr2_def rd_at_def)
  moreover have "rd_at (ds @ [e]) e' rest pr2"
    using assms(1) by (simp add: rd_at_def pr1_def pr2_def vaddr_le_pe_end)
  ultimately show ?thesis by (auto simp: pr1_def pr2_def)
qed

lemma rd_at_exhaust:
  assumes "rd_at ds e [] pr"
  shows "\<exists>pr1 pr2. skip_pagemap_pages pr (pe_end e - cvaddr pr) = Inr pr1 \<and>
     get_pagemap hp (put_pagemap pr1) iov = (0, iov, pr2) \<and> pr_pe pr2 = PeFreed \<and>
     cvaddr pr2 = pe_end e \<and> pr_pg pr2 = pr_pg pr \<and> pr_pm pr2 = []"
proof -
  define pr1 where "pr1 = pr\<lparr>pr_pos := own_sum ds + own_bytes e, cvaddr := pe_end e\<rparr>"
  have "skip_pagemap_pages pr (pe_end e - cvaddr pr) = Inr pr1"
    using assms
    by (auto simp: skip_pagemap_pages_def rd_at_def pr1_def Let_def own_bytes_def pe_end_def)
  moreover have "get_pagemap hp (put_pagemap pr1) iov = (0, iov, put_pagemap pr1)"
    using assms by (auto simp: get_pagemap_def put_pagemap_def pr1_def rd_at_def)
  ultimately show ?thesis using assms by (auto simp: pr1_def put_pagemap_def rd_at_def)
qed

text \<open>The loop reaches the entry that holds the address, with the pages image at its page.\<close>

lemma seek_loop_found:
  assumes "pm_wf (ds @ e # rest)" "rd_at ds e rest pr" "cvaddr pr \<le> va"
    and "pm_find (ds @ e # rest) 0 va = Some (f, off)"
    and "hp \<or> (\<forall>x \<in> set (e # rest). \<not> in_parent x)"
  shows "\<exists>pr' ds' rest'. seek_loop hp pr (pagemap2iovec e) va = Inr (0, pr') \<and>
     ds @ e # rest = ds' @ f # rest' \<and> rd_at ds' f rest' pr' \<and> cvaddr pr' = va \<and> pr_pg pr' = pr_pg pr
     \<and> (\<not> in_parent f \<longrightarrow> pr_pos pr' = off)"
  using assms
proof (induction rest arbitrary: ds e pr)
  case Nil
  then have va: "vaddr e \<le> va" by (auto simp: rd_at_def)
  have sm: "pe_small e" using pm_wf_small [OF Nil.prems(1)] by simp
  from va Nil.prems have "pm_find [e] (own_sum ds) va = Some (f, off)" by (simp add: pm_find_behind)
  then have f: "f = e" "va < pe_end e" "off = own_sum ds + (va - vaddr e)" by (auto split: if_splits)
  with seek_loop_here [OF Nil.prems(2,3) f(2) sm, of hp] show ?case
    by blast
next
  case (Cons e' rest)
  then have va: "vaddr e \<le> va" by (auto simp: rd_at_def)
  have sm: "pe_small e" using pm_wf_small [OF Cons.prems(1)] by simp
  from va Cons.prems have fnd: "pm_find (e # e' # rest) (own_sum ds) va = Some (f, off)"
    by (simp add: pm_find_behind del: pm_find.simps)
  show ?case
  proof (cases "va < pe_end e")
    case True
    with fnd va have f: "f = e" "off = own_sum ds + (va - vaddr e)" by auto
    with seek_loop_here [OF Cons.prems(2,3) True sm, of hp] show ?thesis
      by blast
  next
    case False
    from False fnd have fnd': "pm_find (e' # rest) (own_sum ds + own_bytes e) va = Some (f, off)"
      by auto
    then have "f \<in> set (e' # rest)" "vaddr f \<le> va" "va < pe_end f"
      using pm_find_SomeD by blast+
    with Cons.prems(1) have e'va: "vaddr e' \<le> va"
      using vaddr_le_pe_end [of e'] by (auto simp: pm_wf_append)
    have hp': "hp \<or> \<not> in_parent e'" using Cons.prems(5) by auto
    from rd_at_advance [OF Cons.prems(2) hp', of "pagemap2iovec e"] obtain pr1 pr2 where
      s: "skip_pagemap_pages pr (pe_end e - cvaddr pr) = Inr pr1"
         "get_pagemap hp (put_pagemap pr1) (pagemap2iovec e) = (1, pagemap2iovec e', pr2)"
      and p2: "rd_at (ds @ [e]) e' rest pr2" "cvaddr pr2 = vaddr e'" "pr_pg pr2 = pr_pg pr"
      by blast
    have eq: "seek_loop hp pr (pagemap2iovec e) va = seek_loop hp pr2 (pagemap2iovec e') va"
      using False Cons.prems(3) s sm by (subst seek_loop.simps) simp
    have "pm_wf ((ds @ [e]) @ e' # rest)" "cvaddr pr2 \<le> va" "pm_find ((ds @ [e]) @ e' # rest) 0 va = Some (f, off)"
      "hp \<or> (\<forall>x \<in> set (e' # rest). \<not> in_parent x)"
      using Cons.prems(1,4,5) p2(2) e'va by auto
    from Cons.IH [OF this(1) p2(1) this(2-4)] eq p2(3) show ?thesis by simp
  qed
qed

lemma seek_found:
  assumes "pm_wf es" "rd_below (es, pg) pr va" "pm_find es 0 va = Some (f, off)"
    and "hp \<or> (\<forall>x \<in> set es. \<not> in_parent x)"
  shows "\<exists>pr' ds rest. seek_pagemap_page hp pr va = Inr (0, pr') \<and> pr_pg pr' = pg \<and>
     es = ds @ f # rest \<and> rd_at ds f rest pr' \<and> cvaddr pr' = va \<and> (\<not> in_parent f \<longrightarrow> pr_pos pr' = off)"
proof (cases "rd_start es pr")
  case True
  from assms(3) have "es \<noteq> []" by auto
  then obtain e rest where es: "es = e # rest" by (cases es) auto
  define pr1 where "pr1 = pr\<lparr>pr_pm := map Some rest, pr_pe := PeLive e, cvaddr := vaddr e\<rparr>"
  have get: "get_pagemap hp pr \<lparr>iov_base = 0, iov_len = 0\<rparr> = (1, pagemap2iovec e, pr1)"
    using True es assms(4) by (auto simp: rd_start_def get_pagemap_def pr1_def)
  have at: "rd_at [] e rest pr1"
    using True by (simp add: rd_start_def rd_at_def pr1_def vaddr_le_pe_end)
  from pm_find_SomeD [OF assms(3)] assms(1) es have "vaddr e \<le> va"
    using vaddr_le_pe_end [of e] by auto
  then have cv: "cvaddr pr1 \<le> va" by (simp add: pr1_def)
  have srt: "pm_wf ([] @ e # rest)" and fnd: "pm_find ([] @ e # rest) 0 va = Some (f, off)"
    and hp: "hp \<or> (\<forall>x \<in> set (e # rest). \<not> in_parent x)"
    using assms(1,3,4) es by simp_all
  from seek_loop_found [OF srt at cv fnd hp] es
  obtain pr' ds' rest' where "seek_loop hp pr1 (pagemap2iovec e) va = Inr (0, pr')"
     "es = ds' @ f # rest'" "rd_at ds' f rest' pr'" "cvaddr pr' = va" "pr_pg pr' = pr_pg pr1"
     "\<not> in_parent f \<longrightarrow> pr_pos pr' = off"
    by auto
  moreover have "pr_pg pr1 = pg" using assms(2) by (simp add: rd_below_def pr1_def)
  moreover have "pr_pe pr = PeNull" using True by (simp add: rd_start_def)
  ultimately show ?thesis using get by (auto simp: seek_pagemap_page_def)
next
  case False
  with assms(2) obtain ds e rest where
    es: "es = ds @ e # rest" and at: "rd_at ds e rest pr" and cv: "cvaddr pr \<le> va" and pg: "pr_pg pr = pg"
    by (auto simp: rd_below_def)
  have srt: "pm_wf (ds @ e # rest)" and fnd: "pm_find (ds @ e # rest) 0 va = Some (f, off)"
    and hp: "hp \<or> (\<forall>x \<in> set (e # rest). \<not> in_parent x)"
    using assms(1,3,4) es by auto
  from seek_loop_found [OF srt at cv fnd hp] es
  obtain pr' ds' rest' where "seek_loop hp pr (pagemap2iovec e) va = Inr (0, pr')"
     "es = ds' @ f # rest'" "rd_at ds' f rest' pr'" "cvaddr pr' = va" "pr_pg pr' = pr_pg pr"
     "\<not> in_parent f \<longrightarrow> pr_pos pr' = off"
    by blast
  moreover have "pr_pe pr = PeLive e" using at by (simp add: rd_at_def)
  ultimately show ?thesis using pg by (auto simp: seek_pagemap_page_def)
qed

section \<open>Seeking an address that may be missing\<close>

text \<open>
  The reader has passed nothing that lies at or above \<open>va\<close>: it stands at or below
  \<open>va\<close>, or at the start of the first entry above it.
\<close>

definition rd_near :: "pagemap_entry list \<Rightarrow> page_read \<Rightarrow> nat \<Rightarrow> bool" where
  "rd_near es pr va \<longleftrightarrow> rd_start es pr \<or>
     (\<exists>ds e rest. es = ds @ e # rest \<and> rd_at ds e rest pr \<and>
        (cvaddr pr \<le> va \<or> cvaddr pr = vaddr e \<and> (\<forall>d \<in> set ds. pe_end d \<le> va)))"

text \<open>What a seek can end with: on the address, on the first entry above it, or at the end.\<close>

definition seek_end :: "pagemap_entry list \<Rightarrow> nat \<Rightarrow> int \<Rightarrow> page_read \<Rightarrow> bool" where
  "seek_end es va ret pr \<longleftrightarrow>
     (\<exists>ds f rest. es = ds @ f # rest \<and> rd_at ds f rest pr \<and>
        (ret = 0 \<and> cvaddr pr = va \<and> va < pe_end f \<or>
         ret = -1 \<and> cvaddr pr = vaddr f \<and> va < vaddr f \<and> (\<forall>d \<in> set ds. pe_end d \<le> va)))
     \<or> ret = -1 \<and> pr_pe pr = PeFreed \<and> cvaddr pr \<le> va \<and> (\<forall>x \<in> set es. pe_end x \<le> va)
     \<or> ret = -1 \<and> pr_pe pr = PeNull \<and> es = []"

lemma rd_near_mono: "rd_near es pr va \<Longrightarrow> va \<le> va' \<Longrightarrow> rd_near es pr va'"
  unfolding rd_near_def using le_trans by blast

lemma seek_loop_cases:
  assumes "pm_wf (ds @ e # rest)" "rd_at ds e rest pr"
    and "cvaddr pr \<le> va \<or> cvaddr pr = vaddr e \<and> (\<forall>d \<in> set ds. pe_end d \<le> va)"
    and "hp \<or> (\<forall>x \<in> set (e # rest). \<not> in_parent x)"
  shows "\<exists>ret pr'. seek_loop hp pr (pagemap2iovec e) va = Inr (ret, pr') \<and> pr_pg pr' = pr_pg pr \<and>
     seek_end (ds @ e # rest) va ret pr' \<and> length (pr_pm pr') \<le> length (pr_pm pr) \<and>
     (pe_end e \<le> va \<longrightarrow> pr_pe pr' \<noteq> PeFreed \<longrightarrow> length (pr_pm pr') < length (pr_pm pr))"
  using assms
proof (induction rest arbitrary: ds e pr)
  case Nil
  have sm: "pe_small e" using pm_wf_small [OF Nil.prems(1)] by simp
  consider (above) "va < cvaddr pr" | (here) "cvaddr pr \<le> va" "va < pe_end e" | (past) "cvaddr pr \<le> va" "pe_end e \<le> va"
    by linarith
  then show ?case
  proof cases
    case above
    then have "seek_loop hp pr (pagemap2iovec e) va = Inr (-1, pr)" by (subst seek_loop.simps) simp
    moreover have "seek_end (ds @ [e]) va (-1) pr" "\<not> pe_end e \<le> va"
      using above Nil.prems(2,3) vaddr_le_pe_end [of e] by (auto simp: seek_end_def rd_at_def)
    ultimately show ?thesis by auto
  next
    case here
    from seek_loop_here [OF Nil.prems(2) here sm, of hp] obtain pr' where
      "seek_loop hp pr (pagemap2iovec e) va = Inr (0, pr')" "rd_at ds e [] pr'" "cvaddr pr' = va" "pr_pg pr' = pr_pg pr"
      by blast
    moreover have "length (pr_pm pr') \<le> length (pr_pm pr)"
      using Nil.prems(2) \<open>rd_at ds e [] pr'\<close> by (simp add: rd_at_def)
    ultimately show ?thesis using here by (auto simp: seek_end_def)
  next
    case past
    from rd_at_exhaust [OF Nil.prems(2), of hp "pagemap2iovec e"] obtain pr1 pr2 where
      s: "skip_pagemap_pages pr (pe_end e - cvaddr pr) = Inr pr1"
         "get_pagemap hp (put_pagemap pr1) (pagemap2iovec e) = (0, pagemap2iovec e, pr2)"
      and p2: "pr_pe pr2 = PeFreed" "cvaddr pr2 = pe_end e" "pr_pg pr2 = pr_pg pr" "pr_pm pr2 = []"
      by blast
    have "seek_loop hp pr (pagemap2iovec e) va = Inr (-1, pr2)"
      using past s sm by (subst seek_loop.simps) simp
    moreover have "seek_end (ds @ [e]) va (-1) pr2"
    proof -
      have "\<forall>x \<in> set (ds @ [e]). pe_end x \<le> va"
        using Nil.prems(1) past(2) vaddr_le_pe_end [of e] by (auto simp: pm_wf_append)
      then show ?thesis using p2 past by (simp add: seek_end_def)
    qed
    ultimately show ?thesis using p2 by simp
  qed
next
  case (Cons e' rest)
  have sm: "pe_small e" using pm_wf_small [OF Cons.prems(1)] by simp
  consider (above) "va < cvaddr pr" | (here) "cvaddr pr \<le> va" "va < pe_end e" | (past) "cvaddr pr \<le> va" "pe_end e \<le> va"
    by linarith
  then show ?case
  proof cases
    case above
    then have "seek_loop hp pr (pagemap2iovec e) va = Inr (-1, pr)" by (subst seek_loop.simps) simp
    moreover have "seek_end (ds @ e # e' # rest) va (-1) pr"
      unfolding seek_end_def using above Cons.prems(2,3) by (intro disjI1 exI [of _ ds] exI [of _ e] exI [of _ "e' # rest"]) auto
    moreover have "\<not> pe_end e \<le> va" using above Cons.prems(2) by (auto simp: rd_at_def)
    ultimately show ?thesis by auto
  next
    case here
    from seek_loop_here [OF Cons.prems(2) here sm, of hp] obtain pr' where
      r: "seek_loop hp pr (pagemap2iovec e) va = Inr (0, pr')" "rd_at ds e (e' # rest) pr'" "cvaddr pr' = va" "pr_pg pr' = pr_pg pr"
      by blast
    moreover have "length (pr_pm pr') \<le> length (pr_pm pr)"
      using Cons.prems(2) r(2) by (simp add: rd_at_def)
    moreover have "seek_end (ds @ e # e' # rest) va 0 pr'"
      unfolding seek_end_def using here r by (intro disjI1 exI [of _ ds] exI [of _ e] exI [of _ "e' # rest"]) auto
    ultimately show ?thesis using here by auto
  next
    case past
    have hp': "hp \<or> \<not> in_parent e'" using Cons.prems(4) by auto
    from rd_at_advance [OF Cons.prems(2) hp', of "pagemap2iovec e"] obtain pr1 pr2 where
      s: "skip_pagemap_pages pr (pe_end e - cvaddr pr) = Inr pr1"
         "get_pagemap hp (put_pagemap pr1) (pagemap2iovec e) = (1, pagemap2iovec e', pr2)"
      and p2: "rd_at (ds @ [e]) e' rest pr2" "cvaddr pr2 = vaddr e'" "pr_pg pr2 = pr_pg pr"
      by blast
    have eq: "seek_loop hp pr (pagemap2iovec e) va = seek_loop hp pr2 (pagemap2iovec e') va"
      using past s sm by (subst seek_loop.simps) simp
    have len: "length (pr_pm pr2) < length (pr_pm pr)"
      using p2(1) Cons.prems(2) by (simp add: rd_at_def)
    have srt: "pm_wf ((ds @ [e]) @ e' # rest)" using Cons.prems(1) by simp
    have "\<forall>d \<in> set (ds @ [e]). pe_end d \<le> va"
      using Cons.prems(1) past(2) vaddr_le_pe_end [of e] by (auto simp: pm_wf_append)
    then have "cvaddr pr2 \<le> va \<or> cvaddr pr2 = vaddr e' \<and> (\<forall>d \<in> set (ds @ [e]). pe_end d \<le> va)"
      using p2(2) by simp
    from Cons.IH [OF srt p2(1) this] Cons.prems(4) eq p2(3) len show ?thesis by fastforce
  qed
qed

lemma seek_cases:
  assumes "pm_wf es" "rd_near es pr va" "hp \<or> (\<forall>x \<in> set es. \<not> in_parent x)"
  shows "\<exists>ret pr'. seek_pagemap_page hp pr va = Inr (ret, pr') \<and> pr_pg pr' = pr_pg pr \<and>
     seek_end es va ret pr' \<and> length (pr_pm pr') \<le> length (pr_pm pr) \<and>
     (\<forall>e. pr_pe pr = PeLive e \<longrightarrow> pe_end e \<le> va \<longrightarrow> pr_pe pr' \<noteq> PeFreed \<longrightarrow>
        length (pr_pm pr') < length (pr_pm pr))"
proof (cases "rd_start es pr")
  case True
  then have pe: "pr_pe pr = PeNull" and pm: "pr_pm pr = map Some es" by (simp_all add: rd_start_def)
  show ?thesis
  proof (cases es)
    case Nil
    with pe pm show ?thesis by (simp add: seek_pagemap_page_def get_pagemap_def seek_end_def)
  next
    case (Cons e rest)
    define pr1 where "pr1 = pr\<lparr>pr_pm := map Some rest, pr_pe := PeLive e, cvaddr := vaddr e\<rparr>"
    have get: "get_pagemap hp pr \<lparr>iov_base = 0, iov_len = 0\<rparr> = (1, pagemap2iovec e, pr1)"
      using pm Cons assms(3) by (auto simp: get_pagemap_def pr1_def)
    have at: "rd_at [] e rest pr1"
      using True by (simp add: rd_start_def rd_at_def pr1_def vaddr_le_pe_end)
    have "pm_wf ([] @ e # rest)" "cvaddr pr1 \<le> va \<or> cvaddr pr1 = vaddr e \<and> (\<forall>d \<in> set []. pe_end d \<le> va)"
      "hp \<or> (\<forall>x \<in> set (e # rest). \<not> in_parent x)"
      using assms(1,3) Cons by (auto simp: pr1_def)
    from seek_loop_cases [OF this(1) at this(2,3)] get pe pm Cons show ?thesis
      by (fastforce simp: seek_pagemap_page_def pr1_def)
  qed
next
  case False
  with assms(2) obtain ds e rest where es: "es = ds @ e # rest" and at: "rd_at ds e rest pr" and
    near: "cvaddr pr \<le> va \<or> cvaddr pr = vaddr e \<and> (\<forall>d \<in> set ds. pe_end d \<le> va)"
    by (auto simp: rd_near_def)
  have pe: "pr_pe pr = PeLive e" using at by (simp add: rd_at_def)
  have "hp \<or> (\<forall>x \<in> set (e # rest). \<not> in_parent x)" using assms(3) es by auto
  from seek_loop_cases [OF assms(1) [unfolded es] at near this] pe es show ?thesis
    by (auto simp: seek_pagemap_page_def)
qed

section \<open>Reading a page through the chain\<close>

text \<open>
  A chain of snapshots the reader can serve: every pagemap is sorted and page aligned, and
  the oldest snapshot refers to no parent.
\<close>

fun chain_ok :: "snapshot list \<Rightarrow> bool" where
  "chain_ok [] \<longleftrightarrow> True"
| "chain_ok ((es, pg) # ss) \<longleftrightarrow> pm_wf es \<and> (\<forall>e \<in> set es. PAGE_SIZE dvd vaddr e)
     \<and> (ss \<noteq> [] \<or> (\<forall>e \<in> set es. \<not> in_parent e)) \<and> chain_ok ss"

definition chain_below :: "snapshot list \<Rightarrow> pr_chain \<Rightarrow> nat \<Rightarrow> bool" where
  "chain_below ss ps va \<longleftrightarrow> list_all2 (\<lambda>s pr. rd_below s pr va) ss ps"

lemma chain_below_simps [simp]:
  "chain_below [] ps va \<longleftrightarrow> ps = []"
  "chain_below (s # ss) ps va \<longleftrightarrow> (\<exists>p qs. ps = p # qs \<and> rd_below s p va \<and> chain_below ss qs va)"
  by (auto simp: chain_below_def list_all2_Cons1)

lemma chain_below_length: "chain_below ss ps va \<Longrightarrow> length ps = length ss"
  by (simp add: chain_below_def list_all2_lengthD)

lemma rd_below_mono: "rd_below s pr va \<Longrightarrow> va \<le> va' \<Longrightarrow> rd_below s pr va'"
  unfolding rd_below_def using le_trans by blast

lemma chain_below_mono: "chain_below ss ps va \<Longrightarrow> va \<le> va' \<Longrightarrow> chain_below ss ps va'"
  unfolding chain_below_def by (erule list_all2_mono) (rule rd_below_mono)

lemma page_fits_entry:
  assumes "PAGE_SIZE dvd vaddr e" "PAGE_SIZE dvd va" "va < pe_end e"
  shows "va + PAGE_SIZE \<le> pe_end e"
  using assms by (intro page_step) (auto simp: pe_end_def)

lemma rd_at_step:
  assumes "rd_at ds e rest pr" "cvaddr pr + PAGE_SIZE \<le> pe_end e"
    and "pr' = (if in_parent e then pr else pr\<lparr>pr_pos := pr_pos pr + PAGE_SIZE\<rparr>)"
  shows "rd_at ds e rest (pr'\<lparr>cvaddr := cvaddr pr + PAGE_SIZE\<rparr>)"
  using assms by (auto simp: rd_at_def)

text \<open>
  Reading the page at \<open>va\<close> on a reader that stands there returns exactly the page of the
  reference semantics, and leaves every reader of the chain ready for the next page.
\<close>

lemma read_pagemap_page_chain:
  assumes "chain_ok ((ds @ e # rest, pg) # ss)" "pr_pg pr = pg" "rd_at ds e rest pr" "cvaddr pr = va"
    and "va < pe_end e" "PAGE_SIZE dvd va" "chain_below ss ps va"
    and "snap_page ((ds @ e # rest, pg) # ss) va = Some buf"
  shows "\<exists>pr' ps'. read_pagemap_page (pr # ps) va = Inr (1, buf, pr' # ps') \<and> rd_at ds e rest pr'
     \<and> cvaddr pr' = va + PAGE_SIZE \<and> pr_pg pr' = pg \<and> chain_below ss ps' (va + PAGE_SIZE)"
  using assms
proof (induction ss arbitrary: ds e rest pg pr ps)
  case Nil
  from Nil.prems(3,4) have va: "vaddr e \<le> va" and pe: "pr_pe pr = PeLive e" by (auto simp: rd_at_def)
  from Nil.prems(1) have own: "\<not> in_parent e" by simp
  from Nil.prems(1,5) va have fnd: "pm_find (ds @ e # rest) 0 va = Some (e, own_sum ds + (va - vaddr e))"
    by (subst pm_find_behind) auto
  have pos: "pr_pos pr = own_sum ds + (va - vaddr e)" using Nil.prems(3,4) own by (simp add: rd_at_def)
  with Nil.prems(2,8) own fnd have buf: "buf = read_pg pr PAGE_SIZE" "length buf = PAGE_SIZE"
    by (auto simp: read_pg_def split: if_splits)
  have fits: "cvaddr pr + PAGE_SIZE \<le> pe_end e"
    using page_fits_entry [of e va] Nil.prems va by auto
  show ?case
    using rd_at_step [OF Nil.prems(3) fits refl] own pe buf Nil.prems(2,4,7) by (simp add: Let_def)
next
  case (Cons s2 ss)
  obtain es2 pg2 where s2: "s2 = (es2, pg2)" by (cases s2) auto
  from Cons.prems(7) obtain p qs where ps: "ps = p # qs" and bp: "rd_below s2 p va" and bq: "chain_below ss qs va"
    by auto
  from Cons.prems(3,4) have va: "vaddr e \<le> va" and pe: "pr_pe pr = PeLive e" by (auto simp: rd_at_def)
  from Cons.prems(1,5) va have fnd: "pm_find (ds @ e # rest) 0 va = Some (e, own_sum ds + (va - vaddr e))"
    by (subst pm_find_behind) auto
  have fits: "cvaddr pr + PAGE_SIZE \<le> pe_end e"
    using page_fits_entry [of e va] Cons.prems(1,4-6) va by auto
  show ?case
  proof (cases "in_parent e")
    case False
    have pos: "pr_pos pr = own_sum ds + (va - vaddr e)" using Cons.prems(3,4) False by (simp add: rd_at_def)
    with Cons.prems(2,8) False fnd have buf: "buf = read_pg pr PAGE_SIZE" "length buf = PAGE_SIZE"
      by (auto simp: read_pg_def split: if_splits)
    have "chain_below (s2 # ss) ps (va + PAGE_SIZE)"
      using Cons.prems(7) by (rule chain_below_mono) simp
    then show ?thesis
      using rd_at_step [OF Cons.prems(3) fits refl] False pe buf Cons.prems(2,4)
      by (simp add: Let_def)
  next
    case True
    from Cons.prems(8) True fnd have up: "snap_page ((es2, pg2) # ss) va = Some buf"
      by (simp add: s2)
    then obtain f off where fnd2: "pm_find es2 0 va = Some (f, off)"
      by (auto split: option.splits)
    have ok2: "chain_ok ((es2, pg2) # ss)" using Cons.prems(1) s2 by simp
    then have hp: "qs \<noteq> [] \<or> (\<forall>x \<in> set es2. \<not> in_parent x)"
      using chain_below_length [OF bq] by auto
    from ok2 have srt: "pm_wf es2" by simp
    from seek_found [OF srt bp [unfolded s2] fnd2 hp] obtain p1 ds2 rest2 where
      sk: "seek_pagemap_page (qs \<noteq> []) p va = Inr (0, p1)" and pg1: "pr_pg p1 = pg2" and
      es2: "es2 = ds2 @ f # rest2" and at1: "rd_at ds2 f rest2 p1" and cv1: "cvaddr p1 = va"
      by blast
    have vf: "va < pe_end f" using pm_find_SomeD [OF fnd2] by simp
    from Cons.IH [OF ok2 [unfolded es2] pg1 at1 cv1 vf Cons.prems(6) bq up [unfolded es2]]
    obtain p2 qs2 where
      rd: "read_pagemap_page (p1 # qs) va = Inr (1, buf, p2 # qs2)" and at2: "rd_at ds2 f rest2 p2" and
      cv2: "cvaddr p2 = va + PAGE_SIZE" and pg2': "pr_pg p2 = pg2" and bq2: "chain_below ss qs2 (va + PAGE_SIZE)"
      by blast
    have "rd_below s2 p2 (va + PAGE_SIZE)"
      using at2 cv2 pg2' es2 by (auto simp: rd_below_def s2)
    with bq2 have ch: "chain_below (s2 # ss) (p2 # qs2) (va + PAGE_SIZE)" by simp
    have run: "read_pagemap_page (pr # ps) va = Inr (1, buf, pr\<lparr>cvaddr := va + PAGE_SIZE\<rparr> # p2 # qs2)"
      using True pe ps sk rd Cons.prems(4) by simp
    have "rd_at ds e rest (pr\<lparr>cvaddr := va + PAGE_SIZE\<rparr>)"
      using rd_at_step [OF Cons.prems(3) fits refl] True Cons.prems(4) by simp
    with run ch Cons.prems(2) show ?thesis by simp
  qed
qed

section \<open>Images without a pagemap\<close>

text \<open>
  The old image format has no pagemap: the pages image is a sequence of an 8-byte little
  endian address and a page. These are the two methods such a reader gets.
\<close>

definition get_page_vaddr :: "page_read \<Rightarrow> iovec \<Rightarrow> int \<times> iovec \<times> page_read" where
  "get_page_vaddr pr iov =
     (let b = read_pg pr 8; pr' = pr\<lparr>pr_pos := pr_pos pr + length b\<rparr> in
      if length b = 0 then (0, iov, pr')
      else if length b \<noteq> 8 then (-1, iov, pr')
      else (1, \<lparr>iov_base = le_val b, iov_len = PAGE_SIZE\<rparr>, pr'))"

definition read_page :: "page_read \<Rightarrow> int \<times> byte list \<times> page_read" where
  "read_page pr =
     (let buf = read_pg pr PAGE_SIZE; pr' = pr\<lparr>pr_pos := pr_pos pr + length buf\<rparr> in
      if length buf \<noteq> PAGE_SIZE then (-1, buf, pr') else (1, buf, pr'))"

section \<open>Opening a reader\<close>

text \<open>
  A directory of images as far as one task's pages are concerned: the pagemap image with
  its head (\<open>Inl\<close> if the head cannot be read) and records, the pages images by id, the
  old-format pages image, whether an allocation in there succeeds, and the garbage a fresh
  \<^verbatim>\<open>struct page_read\<close> holds in \<open>cvaddr\<close>.
\<close>

record snap_dir =
  d_pagemap :: "((bool + nat) \<times> pagemap_entry option list) img_open"
  d_pages :: "nat \<Rightarrow> byte list img_open"
  d_pages_old :: "byte list img_open"
  d_malloc :: bool
  d_junk :: nat

text \<open>Directories chained by the symlink \<^verbatim>\<open>CR_PARENT_LINK\<close>.\<close>

datatype 'a plink = LinkNone | LinkErr | LinkTo 'a

datatype snap_fs = SnapFS snap_dir "snap_fs plink"

function open_page_read_at :: "snap_fs \<Rightarrow> bool + (bool \<times> pr_chain)"
and try_open_parent :: "snap_dir \<Rightarrow> snap_fs plink \<Rightarrow> bool + pr_chain" where
  "open_page_read_at (SnapFS d up) =
     (case d_pagemap d of
        ImgErr _ \<Rightarrow>
          (case d_pages_old d of
             ImgErr e \<Rightarrow> Inl e
           | Img pg \<Rightarrow> Inr (True, [\<lparr>pr_pm = [None], pr_pg = pg, pr_pos = 0, pr_pe = PeNull, cvaddr = d_junk d\<rparr>]))
      | Img (head, recs) \<Rightarrow>
          (case try_open_parent d up of
             Inl e \<Rightarrow> Inl e
           | Inr ps \<Rightarrow>
               (case head of
                  Inl e \<Rightarrow> Inl e
                | Inr pid \<Rightarrow>
                    (case d_pages d pid of
                       ImgErr e \<Rightarrow> Inl e
                     | Img pg \<Rightarrow>
                         Inr (False, \<lparr>pr_pm = recs, pr_pg = pg, pr_pos = 0, pr_pe = PeNull, cvaddr = d_junk d\<rparr> # ps)))))"
| "try_open_parent d LinkNone = Inr []"
| "try_open_parent d LinkErr = Inl False"
| "try_open_parent d (LinkTo f) =
     (if \<not> d_malloc d then Inl False
      else case open_page_read_at f of
             Inl enoent \<Rightarrow> if \<not> enoent then Inl False else Inr []
           | Inr (_, ps) \<Rightarrow> Inr ps)"
  by pat_completeness auto
termination
  by (relation "measure (case_sum size (\<lambda>p. size_plink size (snd p)))") auto

text \<open>The descriptors a chain of readers closes: (depth, True) is \<^verbatim>\<open>fd_pg\<close>, (depth, False) is \<^verbatim>\<open>fd\<close>.\<close>

fun close_page_read :: "nat \<Rightarrow> pr_chain \<Rightarrow> (nat \<times> bool) list" where
  "close_page_read k [] = []"
| "close_page_read k (pr # ps) = close_page_read (Suc k) ps @ [(k, True), (k, False)]"

text \<open>The snapshots that a chain of directories holds, when every one of its images is readable.\<close>

inductive fs_snaps :: "snap_fs \<Rightarrow> snapshot list \<Rightarrow> bool" where
  oldest: "d_pagemap d = Img (Inr i, map Some es) \<Longrightarrow> d_pages d i = Img pg \<Longrightarrow>
     fs_snaps (SnapFS d LinkNone) [(es, pg)]"
| later: "d_pagemap d = Img (Inr i, map Some es) \<Longrightarrow> d_pages d i = Img pg \<Longrightarrow> d_malloc d \<Longrightarrow>
     fs_snaps f ss \<Longrightarrow> fs_snaps (SnapFS d (LinkTo f)) ((es, pg) # ss)"

inductive_cases fs_snapsE: "fs_snaps (SnapFS d up) ss"

lemma open_page_read_chain:
  "fs_snaps f ss \<Longrightarrow> \<exists>ps. open_page_read_at f = Inr (False, ps) \<and> chain_below ss ps 0
     \<and> list_all2 (\<lambda>s pr. rd_start (fst s) pr) ss ps"
proof (induction rule: fs_snaps.induct)
  case (oldest d i es pg)
  then show ?case by (simp add: rd_below_def rd_start_def)
next
  case (later d i es pg f ss)
  then obtain ps where "open_page_read_at f = Inr (False, ps)" "chain_below ss ps 0"
      "list_all2 (\<lambda>s pr. rd_start (fst s) pr) ss ps" by blast
  with later.hyps show ?case by (simp add: rd_below_def rd_start_def)
qed

section \<open>Sequences of lookups\<close>

text \<open>
  The way a reader is used on behalf of a child (and by its own client, entry by entry):
  seek to a page, read it, go on to the next one.
\<close>

fun read_seq :: "pr_chain \<Rightarrow> nat list \<Rightarrow> (int \<times> byte list list) outcome" where
  "read_seq ps [] = Inr (0, [])"
| "read_seq [] (va # vas) = Inl UB"
| "read_seq (pr # ps) (va # vas) =
     bindF (seek_pagemap_page (ps \<noteq> []) pr va) (\<lambda>(ret, pr1).
       if ret = -1 then Inr (-1, [])
       else bindF (read_pagemap_page (pr1 # ps) va) (\<lambda>(ret2, buf, ps2).
              if ret2 < 0 then Inr (-1, [])
              else bindF (read_seq ps2 vas) (\<lambda>(ret3, bufs). Inr (ret3, buf # bufs))))"

lemma seek_read_chain:
  assumes "chain_ok (s # ss)" "chain_below (s # ss) ps va" "PAGE_SIZE dvd va" "snap_page (s # ss) va = Some buf"
  shows "\<exists>pr1 ps2. ps \<noteq> [] \<and> seek_pagemap_page (tl ps \<noteq> []) (hd ps) va = Inr (0, pr1)
     \<and> read_pagemap_page (pr1 # tl ps) va = Inr (1, buf, ps2) \<and> chain_below (s # ss) ps2 (va + PAGE_SIZE)"
proof -
  obtain es pg where s: "s = (es, pg)" by (cases s) auto
  from assms(2) obtain pr qs where ps: "ps = pr # qs" "rd_below s pr va" "chain_below ss qs va" by auto
  have hp: "qs \<noteq> [] \<or> (\<forall>x \<in> set es. \<not> in_parent x)" and wf: "pm_wf es"
    using assms(1) s chain_below_length [OF ps(3)] by auto
  obtain f off where fnd: "pm_find es 0 va = Some (f, off)"
    using assms(4) s by (auto split: option.splits)
  from seek_found [OF wf ps(2) [unfolded s] fnd hp]
  obtain pr1 ds rest where k: "seek_pagemap_page (qs \<noteq> []) pr va = Inr (0, pr1)" "pr_pg pr1 = pg"
      "es = ds @ f # rest" "rd_at ds f rest pr1" "cvaddr pr1 = va" by blast
  have lt: "va < pe_end f" using pm_find_SomeD [OF fnd] by simp
  from read_pagemap_page_chain [of ds f rest pg ss, OF _ k(2,4,5) lt assms(3) ps(3)] assms(1,4) s k(3)
  obtain pr2 qs2 where r: "read_pagemap_page (pr1 # qs) va = Inr (1, buf, pr2 # qs2)"
      "rd_at ds f rest pr2" "cvaddr pr2 = va + PAGE_SIZE" "pr_pg pr2 = pg" "chain_below ss qs2 (va + PAGE_SIZE)"
    by auto
  have "rd_below s pr2 (va + PAGE_SIZE)" unfolding rd_below_def s using r k(3) by auto
  with k(1) r ps(1) show ?thesis by auto
qed

lemma read_seq_chain:
  assumes "chain_ok (s # ss)" "chain_below (s # ss) ps lo" "\<forall>va \<in> set vas. lo \<le> va"
    and "sorted_wrt (<) vas" "\<forall>va \<in> set vas. PAGE_SIZE dvd va" "\<forall>va \<in> set vas. snap_page (s # ss) va \<noteq> None"
  shows "read_seq ps vas = Inr (0, map (\<lambda>va. the (snap_page (s # ss) va)) vas)"
  using assms(2-6)
proof (induction vas arbitrary: lo ps)
  case (Cons va vas)
  from Cons.prems(5) obtain buf where buf: "snap_page (s # ss) va = Some buf" by auto
  have b: "chain_below (s # ss) ps va" using chain_below_mono [OF Cons.prems(1)] Cons.prems(2) by simp
  have al: "PAGE_SIZE dvd va" using Cons.prems(4) by simp
  from seek_read_chain [OF assms(1) b al buf] obtain pr1 ps2 where
    k: "ps \<noteq> []" "seek_pagemap_page (tl ps \<noteq> []) (hd ps) va = Inr (0, pr1)"
       "read_pagemap_page (pr1 # tl ps) va = Inr (1, buf, ps2)" "chain_below (s # ss) ps2 (va + PAGE_SIZE)"
    by blast
  have above: "\<forall>w \<in> set vas. va + PAGE_SIZE \<le> w"
  proof
    fix w assume "w \<in> set vas"
    with Cons.prems(3,4) have "va < w" "PAGE_SIZE dvd w" by auto
    with al show "va + PAGE_SIZE \<le> w" by (intro page_step)
  qed
  have "read_seq ps2 vas = Inr (0, map (\<lambda>va. the (snap_page (s # ss) va)) vas)"
    using Cons.IH [OF k(4) above] Cons.prems(3-5) by simp
  with k(2,3) buf show ?case by (cases ps) (use k(1) in auto)
qed simp

section \<open>Properties\<close>

text \<open>C5: Reading through a chain of snapshots: when every directory of the chain has readable
  images with sorted, page aligned pagemaps, every entry below \<open>2 ^ 20\<close> pages (4 GiB), and the oldest
  one refers to no parent, opening gives a reader for each, and looking up any ascending sequence of
  pages that the chain holds returns for each page the bytes of the newest snapshot that has it
  itself, following the in-parent entries down the chain.\<close>

theorem page_read_chain:
  assumes "fs_snaps f ss" "chain_ok ss" "sorted_wrt (<) vas"
    and "\<forall>va \<in> set vas. PAGE_SIZE dvd va \<and> snap_page ss va \<noteq> None"
  shows "\<exists>ps. open_page_read_at f = Inr (False, ps)
     \<and> read_seq ps vas = Inr (0, map (\<lambda>va. the (snap_page ss va)) vas)"
proof -
  from open_page_read_chain [OF assms(1)] obtain ps where
    ps: "open_page_read_at f = Inr (False, ps)" "chain_below ss ps 0" by blast
  from assms(1) obtain s ss' where ss: "ss = s # ss'" by (cases rule: fs_snaps.cases) auto
  from read_seq_chain [of s ss' ps 0 vas] ps assms(2-4) ss show ?thesis by auto
qed

text \<open>Two snapshots: the older one holds the pages 1 and 2, the newer one page 2, and page 1 by reference.\<close>

definition ex_old :: snapshot where
  "ex_old = ([\<lparr>vaddr = 4096, nr_pages = 2, in_parent = False\<rparr>], replicate PAGE_SIZE 1 @ replicate PAGE_SIZE 2)"

definition ex_new :: snapshot where
  "ex_new = ([\<lparr>vaddr = 4096, nr_pages = 1, in_parent = True\<rparr>, \<lparr>vaddr = 8192, nr_pages = 1, in_parent = False\<rparr>],
     replicate PAGE_SIZE 3)"

definition ex_dir :: "snapshot \<Rightarrow> snap_dir" where
  "ex_dir s = \<lparr>d_pagemap = Img (Inr 1, map Some (fst s)), d_pages = (\<lambda>_. Img (snd s)),
     d_pages_old = ImgErr True, d_malloc = True, d_junk = 0\<rparr>"

definition ex_fs :: snap_fs where
  "ex_fs = SnapFS (ex_dir ex_new) (LinkTo (SnapFS (ex_dir ex_old) LinkNone))"

lemma ex_fs_snaps: "fs_snaps ex_fs [ex_new, ex_old]"
proof -
  have "fs_snaps (SnapFS (ex_dir ex_old) LinkNone) [(fst ex_old, snd ex_old)]"
    by (rule fs_snaps.oldest) (simp_all add: ex_dir_def)
  then have "fs_snaps ex_fs [(fst ex_new, snd ex_new), (fst ex_old, snd ex_old)]"
    unfolding ex_fs_def by (rule fs_snaps.later [rotated 3]) (simp_all add: ex_dir_def)
  then show ?thesis by simp
qed

lemma ex_chain_ok: "chain_ok [ex_new, ex_old]"
  by (simp add: ex_new_def ex_old_def pe_small_def pe_end_def PAGE_SIZE_def)

lemma ex_snap_page:
  "snap_page [ex_new, ex_old] 4096 = Some (replicate PAGE_SIZE 1)"
  "snap_page [ex_new, ex_old] 8192 = Some (replicate PAGE_SIZE 3)"
  by (simp_all add: ex_new_def ex_old_def pe_end_def own_bytes_def PAGE_SIZE_def)

theorem page_read_chain_witness:
  "\<exists>ps. open_page_read_at ex_fs = Inr (False, ps)
     \<and> read_seq ps [4096, 8192] = Inr (0, [replicate PAGE_SIZE 1, replicate PAGE_SIZE 3])"
  using page_read_chain [OF ex_fs_snaps ex_chain_ok, of "[4096, 8192]"]
  by (simp add: ex_snap_page PAGE_SIZE_def)

end
