(* ===== verification/Dedup.thy ===== *)
theory Dedup
  imports PageRead
begin

text \<open>
  Deduplication, cr-dedup.c: pages that a newer snapshot holds itself are punched out of
  the pages image of its parent. The lemmas show that nothing a lookup through the newer
  snapshot can reach is lost, and that what is superseded is really given back.
\<close>

section \<open>Operations\<close>

text \<open>
  \<^verbatim>\<open>fallocate(FALLOC_FL_PUNCH_HOLE | FALLOC_FL_KEEP_SIZE)\<close>: the range reads as
  zeros afterwards, the size stays. Whether the call succeeds is \<open>falloc\<close>, a parameter,
  by offset and length.
\<close>

definition punch :: "byte list \<Rightarrow> nat \<Rightarrow> nat \<Rightarrow> byte list" where
  "punch pg off n = map (\<lambda>i. if off \<le> i \<and> i < off + n then 0 else pg ! i) [0..<length pg]"

type_synonym falloc = "nat \<Rightarrow> nat \<Rightarrow> bool"

text \<open>
  The loop of \<^verbatim>\<open>dedup_one_iovec\<close>, with fuel for its rounds (\<open>HANG\<close>: out of
  fuel). \<open>dedup_one_iovec\<close> gives it a round per record that is left to read and two more,
  which \<open>dedup_loop_correct\<close> below shows to be enough.
\<close>

fun dedup_loop :: "nat \<Rightarrow> falloc \<Rightarrow> bool \<Rightarrow> page_read \<Rightarrow> nat \<Rightarrow> nat \<Rightarrow> (int \<times> page_read) outcome" where
  "dedup_loop 0 falloc hp pr iend off = Inl HANG"
| "dedup_loop (Suc n) falloc hp pr iend off =
     (case seek_pagemap_page hp pr off of
        Inl e \<Rightarrow> Inl e
      | Inr (ret, pr1) \<Rightarrow>
          if ret = -1 \<and> \<not> off < cvaddr pr1 then Inr (ret, pr1)
          else if ret = -1 \<and> \<not> cvaddr pr1 < iend then Inr (0, pr1)
          else
            (let off1 = (if ret = -1 then cvaddr pr1 else off) in
             case pr_pe pr1 of
               PeNull \<Rightarrow> Inr (-1, pr1)
             | PeFreed \<Rightarrow> Inl UB
             | PeLive pe \<Rightarrow>
                 (let piov_end = iov_end (pagemap2iovec pe);
                      off_real = pr_pos pr1;
                      len = min piov_end iend - off1 in
                  if \<not> in_parent pe \<and> \<not> falloc off_real len then Inr (-1, pr1)
                  else
                    (let pr2 = (if in_parent pe then pr1 else pr1\<lparr>pr_pg := punch (pr_pg pr1) off_real len\<rparr>) in
                     if piov_end < iend then dedup_loop n falloc hp pr2 iend piov_end
                     else Inr (0, pr2)))))"

definition dedup_one_iovec :: "falloc \<Rightarrow> bool \<Rightarrow> page_read \<Rightarrow> iovec \<Rightarrow> (int \<times> page_read) outcome" where
  "dedup_one_iovec falloc hp pr iov =
     dedup_loop (length (pr_pm pr) + 2) falloc hp pr (iov_end iov) (iov_base iov)"

text \<open>
  The loop of \<^verbatim>\<open>cr_dedup_one_pagemap\<close>: \<open>pr\<close> is the newer reader, \<open>prp\<close>
  its parent, which is the only one that changes.
\<close>

function dedup_pm_loop ::
  "falloc \<Rightarrow> bool \<Rightarrow> page_read \<Rightarrow> page_read \<Rightarrow> iovec \<Rightarrow> (int \<times> page_read) outcome" where
  "dedup_pm_loop falloc hp pr prp iov =
     (case pr_pe pr of
        PeLive pe \<Rightarrow>
          (case (if \<not> in_parent pe then dedup_one_iovec falloc hp prp iov else Inr (0, prp)) of
             Inl e \<Rightarrow> Inl e
           | Inr (ret, prp1) \<Rightarrow>
               if ret \<noteq> 0 then Inr (ret, prp1)
               else case get_pagemap True (put_pagemap pr) iov of (ret2, iov2, pr2) \<Rightarrow>
                      if ret2 \<le> 0 then Inr (ret2, prp1)
                      else dedup_pm_loop falloc hp pr2 prp1 iov2)
      | _ \<Rightarrow> Inl UB)"
  by pat_completeness auto
termination
  by (relation "measure (\<lambda>(falloc, hp, pr, prp, iov). length (pr_pm pr))")
     (auto simp: get_pagemap_def put_pagemap_def Let_def split: list.splits option.splits if_splits)

declare dedup_pm_loop.simps [simp del]

text \<open>
  \<^verbatim>\<open>cr_dedup_one_pagemap\<close> on the result of \<^verbatim>\<open>open_page_rw\<close>. When opening
  fails the code still calls \<^verbatim>\<open>pr.close\<close>, which nothing has set. The result is the
  return code and the parent reader, if there is one.
\<close>

definition cr_dedup_one_pagemap ::
  "falloc \<Rightarrow> bool + (bool \<times> pr_chain) \<Rightarrow> (int \<times> page_read option) outcome" where
  "cr_dedup_one_pagemap falloc opened =
     (case opened of
        Inl _ \<Rightarrow> Inl UB
      | Inr (_, pr # prp # up) \<Rightarrow>
          (case get_pagemap True pr \<lparr>iov_base = 0, iov_len = 0\<rparr> of (ret, iov, pr1) \<Rightarrow>
             if ret \<le> 0 then Inr (ret, Some prp)
             else case dedup_pm_loop falloc (up \<noteq> []) pr1 prp iov of
                    Inl e \<Rightarrow> Inl e
                  | Inr (ret2, prp1) \<Rightarrow> Inr (if ret2 < 0 then ret2 else 0, Some prp1))
      | Inr _ \<Rightarrow> Inr (0, None))"

section \<open>The directory walk\<close>

text \<open>
  \<^verbatim>\<open>sscanf(name, "pagemap-%d.img", &pid)\<close>: 1 when a number follows the prefix
  (whatever follows the number), 0 when a character does not match, -1 (EOF) when the name
  ends before that is known. \<open>%d\<close> skips white space and takes a sign.
\<close>

definition is_space :: "char \<Rightarrow> bool" where
  "is_space c \<longleftrightarrow> c \<in> {CHR '' '', CHR 0x09, CHR 0x0A, CHR 0x0B, CHR 0x0C, CHR 0x0D}"

definition is_digit :: "char \<Rightarrow> bool" where
  "is_digit c \<longleftrightarrow> (48::nat) \<le> of_char c \<and> (of_char c :: nat) \<le> 57"

definition dec_val :: "string \<Rightarrow> nat" where
  "dec_val ds = foldl (\<lambda>n c. 10 * n + (of_char c - 48)) 0 ds"

fun scan_lit :: "string \<Rightarrow> string \<Rightarrow> int + string" where
  "scan_lit [] s = Inr s"
| "scan_lit (p # ps) [] = Inl (-1)"
| "scan_lit (p # ps) (c # s) = (if p = c then scan_lit ps s else Inl 0)"

definition scan_int :: "string \<Rightarrow> int + int" where
  "scan_int s0 =
     (case dropWhile is_space s0 of
        [] \<Rightarrow> Inl (-1)
      | c # s \<Rightarrow>
          (let (neg, r) = (if c = CHR ''-'' then (True, s) else if c = CHR ''+'' then (False, s) else (False, c # s));
               ds = takeWhile is_digit r in
           if ds \<noteq> [] then Inr (if neg then - int (dec_val ds) else int (dec_val ds))
           else if r = [] then Inl (-1) else Inl 0))"

definition sscanf_pagemap :: "string \<Rightarrow> int + int" where
  "sscanf_pagemap name =
     (case scan_lit ''pagemap-'' name of Inl r \<Rightarrow> Inl r | Inr s \<Rightarrow> scan_int s)"

text \<open>
  The images as \<^verbatim>\<open>cr_dedup\<close> sees them: for every pid, what opening its reader gives.
  A finished \<^verbatim>\<open>cr_dedup_one_pagemap\<close> leaves the parent's pages image changed.
\<close>

type_synonym dedup_images = "int \<Rightarrow> bool + (bool \<times> pr_chain)"

definition set_parent_pg :: "bool + (bool \<times> pr_chain) \<Rightarrow> page_read option \<Rightarrow> bool + (bool \<times> pr_chain)" where
  "set_parent_pg opened r =
     (case (opened, r) of
        (Inr (b, pr # prp # up), Some prp1) \<Rightarrow> Inr (b, pr # prp\<lparr>pr_pg := pr_pg prp1\<rparr> # up)
      | _ \<Rightarrow> opened)"

text \<open>The directory loop: \<open>None\<close> in the list of entries is a \<^verbatim>\<open>readdir\<close> that fails.\<close>

fun dedup_dirents ::
  "falloc \<Rightarrow> int \<Rightarrow> dedup_images \<Rightarrow> string option list \<Rightarrow> (int \<times> dedup_images) outcome" where
  "dedup_dirents falloc ret imgs [] = Inr (ret, imgs)"
| "dedup_dirents falloc ret imgs (None # es) = Inr (-1, imgs)"
| "dedup_dirents falloc ret imgs (Some name # es) =
     (case sscanf_pagemap name of
        Inl r \<Rightarrow> dedup_dirents falloc r imgs es
      | Inr pid \<Rightarrow>
          (case cr_dedup_one_pagemap falloc (imgs pid) of
             Inl e \<Rightarrow> Inl e
           | Inr (r, prp) \<Rightarrow>
               (let imgs' = imgs(pid := set_parent_pg (imgs pid) prp) in
                if r < 0 then Inr (r, imgs') else dedup_dirents falloc r imgs' es)))"

definition cr_dedup ::
  "falloc \<Rightarrow> bool \<Rightarrow> int \<Rightarrow> dedup_images \<Rightarrow> string option list \<Rightarrow> (int \<times> dedup_images) outcome" where
  "cr_dedup falloc opendir_ok closedir_ret imgs es =
     (if \<not> opendir_ok then Inr (-1, imgs)
      else case dedup_dirents falloc 0 imgs es of
             Inl e \<Rightarrow> Inl e
           | Inr (ret, imgs') \<Rightarrow>
               Inr (if closedir_ret = -1 then closedir_ret else if ret < 0 then ret else 0, imgs'))"

section \<open>Punching\<close>

lemma length_punch [simp]: "length (punch pg off n) = length pg"
  by (simp add: punch_def)

lemma punch_nth: "i < length pg \<Longrightarrow> punch pg off n ! i = (if off \<le> i \<and> i < off + n then 0 else pg ! i)"
  by (simp add: punch_def)

definition page_at :: "byte list \<Rightarrow> nat \<Rightarrow> byte list" where
  "page_at pg o' = take PAGE_SIZE (drop o' pg)"

lemma page_at_punch_other:
  assumes "o' + PAGE_SIZE \<le> off \<or> off + n \<le> o'"
  shows "page_at (punch pg off n) o' = page_at pg o'"
  using assms by (intro nth_equalityI) (auto simp: page_at_def punch_nth)

lemma page_at_punch_in:
  assumes "off \<le> o'" "o' + PAGE_SIZE \<le> off + n" "o' + PAGE_SIZE \<le> length pg"
  shows "page_at (punch pg off n) o' = replicate PAGE_SIZE 0"
  using assms by (intro nth_equalityI) (auto simp: page_at_def punch_nth)

section \<open>File offsets of pages\<close>

lemma pm_find_offset:
  assumes "pm_find es off va = Some (f, o')" "\<not> in_parent f"
    and "\<forall>e \<in> set es. PAGE_SIZE dvd vaddr e" "PAGE_SIZE dvd va"
  shows "off \<le> o' \<and> o' + PAGE_SIZE \<le> off + own_sum es"
  using assms
proof (induction es arbitrary: off)
  case Nil
  then show ?case by simp
next
  case (Cons e es)
  show ?case
  proof (cases "vaddr e \<le> va \<and> va < pe_end e")
    case True
    with Cons.prems have f: "f = e" "o' = off + (va - vaddr e)" by auto
    have "va + PAGE_SIZE \<le> pe_end e" using page_fits_entry [of e va] True Cons.prems by auto
    with f True Cons.prems(2) show ?thesis by (auto simp: own_bytes_def pe_end_def)
  next
    case False
    with Cons.prems Cons.IH [of "off + own_bytes e"] show ?thesis by auto
  qed
qed

text \<open>Where the page of an address is, relative to one entry of a sorted pagemap.\<close>

lemma pm_find_split:
  assumes "pm_wf (ds @ e # rest)" "pm_find (ds @ e # rest) 0 va = Some (f, o')" "\<not> in_parent f"
    and "\<forall>x \<in> set (ds @ e # rest). PAGE_SIZE dvd vaddr x" "PAGE_SIZE dvd va"
  shows "va < vaddr e \<and> o' + PAGE_SIZE \<le> own_sum ds
     \<or> vaddr e \<le> va \<and> va < pe_end e \<and> f = e \<and> o' = own_sum ds + (va - vaddr e)
     \<or> pe_end e \<le> va \<and> own_sum ds + own_bytes e \<le> o'"
proof (cases "vaddr e \<le> va")
  case True
  with assms(1,2) have fnd: "pm_find (e # rest) (own_sum ds) va = Some (f, o')"
    by (simp add: pm_find_behind del: pm_find.simps)
  show ?thesis
  proof (cases "va < pe_end e")
    case False
    with fnd have "pm_find rest (own_sum ds + own_bytes e) va = Some (f, o')" by auto
    with pm_find_offset [OF this assms(3)] assms(4,5) False show ?thesis by auto
  qed (use True fnd in auto)
next
  case False
  have "pm_find ds 0 va = Some (f, o')"
  proof -
    have lt: "va < vaddr x" if "x \<in> set (e # rest)" for x
      using that False assms(1) vaddr_le_pe_end [of e] by (auto simp: pm_wf_append)
    have none: "pm_find (e # rest) k va = None" for k
    proof (rule ccontr)
      assume "pm_find (e # rest) k va \<noteq> None"
      then obtain g p where "pm_find (e # rest) k va = Some (g, p)" by force
      from pm_find_SomeD [OF this] lt [of g] show False by simp
    qed
    have "pm_find (ds @ e # rest) k va = pm_find ds k va" for k
    proof (induction ds arbitrary: k)
      case Nil
      then show ?case using none by (simp del: pm_find.simps(2))
    next
      case (Cons d ds)
      then show ?case by simp
    qed
    with assms(2) show ?thesis by simp
  qed
  with pm_find_offset [OF this assms(3)] assms(4,5) False show ?thesis by auto
qed

section \<open>Correctness of one deduplication\<close>

text \<open>
  What deduplicating the range \<open>[lo, hi)\<close> may do to a pages image: pages outside of the
  range keep their contents; after success every page of the range that the image holds
  reads as zeros.
\<close>

definition dedup_post :: "pagemap_entry list \<Rightarrow> nat \<Rightarrow> nat \<Rightarrow> byte list \<Rightarrow> int \<Rightarrow> byte list \<Rightarrow> bool" where
  "dedup_post es lo hi pg ret pg' \<longleftrightarrow> length pg' = length pg \<and>
     (\<forall>va f o'. PAGE_SIZE dvd va \<longrightarrow> pm_find es 0 va = Some (f, o') \<longrightarrow> \<not> in_parent f \<longrightarrow>
        (va < lo \<or> hi \<le> va \<longrightarrow> page_at pg' o' = page_at pg o') \<and>
        (ret = 0 \<longrightarrow> lo \<le> va \<longrightarrow> va < hi \<longrightarrow> o' + PAGE_SIZE \<le> length pg \<longrightarrow>
           page_at pg' o' = replicate PAGE_SIZE 0))"

definition pm_aligned :: "pagemap_entry list \<Rightarrow> bool" where
  "pm_aligned es \<longleftrightarrow> (\<forall>e \<in> set es. PAGE_SIZE dvd vaddr e)"

lemma pm_find_gap:
  assumes "pm_wf (ds @ f # rest)" "\<forall>d \<in> set ds. pe_end d \<le> lo" "lo \<le> va" "va < vaddr f"
  shows "pm_find (ds @ f # rest) 0 va = None"
proof (rule ccontr)
  assume "pm_find (ds @ f # rest) 0 va \<noteq> None"
  then obtain g o' where "pm_find (ds @ f # rest) 0 va = Some (g, o')" by force
  then have g: "g \<in> set (ds @ f # rest)" "vaddr g \<le> va" "va < pe_end g"
    using pm_find_SomeD by blast+
  moreover have "va < vaddr g" if "g \<in> set (f # rest)"
    using that assms(1,4) vaddr_le_pe_end [of f] by (auto simp: pm_wf_append)
  ultimately show False using assms(2,3) by fastforce
qed

text \<open>One round: the part of the current entry that lies in the range is punched.\<close>

lemma dedup_round:
  assumes srt: "pm_wf (ds @ f # rest)" and al: "pm_aligned (ds @ f # rest)"
    and at: "rd_at ds f rest pr" and lo1: "cvaddr pr = lo1" "lo1 \<le> pe_end f" "lo1 < hi" "lo \<le> lo1"
    and gap: "lo1 = lo \<or> lo1 = vaddr f \<and> (\<forall>d \<in> set ds. pe_end d \<le> lo)"
    and dvd: "PAGE_SIZE dvd lo1" "PAGE_SIZE dvd hi"
    and own: "\<not> in_parent f"
  shows "dedup_post (ds @ f # rest) lo (min (pe_end f) hi) (pr_pg pr) 0
           (punch (pr_pg pr) (pr_pos pr) (min (pe_end f) hi - lo1))"
  unfolding dedup_post_def
proof (intro conjI allI impI)
  show "length (punch (pr_pg pr) (pr_pos pr) (min (pe_end f) hi - lo1)) = length (pr_pg pr)" by simp
next
  fix va g o'
  let ?m = "min (pe_end f) hi"
  let ?pg = "punch (pr_pg pr) (pr_pos pr) (?m - lo1)"
  assume va: "PAGE_SIZE dvd va" and fnd: "pm_find (ds @ f # rest) 0 va = Some (g, o')" and ng: "\<not> in_parent g"
  have pos: "pr_pos pr = own_sum ds + (lo1 - vaddr f)" and vlo: "vaddr f \<le> lo1"
    using at own lo1(1) by (auto simp: rd_at_def)
  have ow: "own_bytes f = pe_end f - vaddr f" using own by (simp add: own_bytes_def pe_end_def)
  have al': "\<forall>x \<in> set (ds @ f # rest). PAGE_SIZE dvd vaddr x" using al by (simp add: pm_aligned_def)
  note sp = pm_find_split [OF srt fnd ng al' va]
  have mdvd: "PAGE_SIZE dvd ?m"
    using al' dvd(2) by (auto simp: min_def pe_end_def)
  show "page_at ?pg o' = page_at (pr_pg pr) o'" if "va < lo \<or> ?m \<le> va"
  proof (rule page_at_punch_other)
    from sp show "o' + PAGE_SIZE \<le> pr_pos pr \<or> pr_pos pr + (?m - lo1) \<le> o'"
    proof (elim disjE conjE)
      assume "vaddr f \<le> va" "va < pe_end f" and o: "o' = own_sum ds + (va - vaddr f)"
      show ?thesis
      proof (cases "va < lo1")
        case True
        from va dvd(1) True have "va + PAGE_SIZE \<le> lo1" by (rule page_step)
        with o pos \<open>vaddr f \<le> va\<close> vlo show ?thesis by linarith
      next
        case False
        with that lo1 have "?m \<le> va" by auto
        with o pos vlo False show ?thesis by linarith
      qed
    qed (use pos ow vlo lo1 in auto)
  qed
  show "page_at ?pg o' = replicate PAGE_SIZE 0"
    if "lo \<le> va" "va < ?m" and len: "o' + PAGE_SIZE \<le> length (pr_pg pr)"
  proof -
    have "lo1 \<le> va"
    proof (rule ccontr)
      assume "\<not> lo1 \<le> va"
      with gap that(1) have "lo1 = vaddr f" "\<forall>d \<in> set ds. pe_end d \<le> lo" by auto
      with pm_find_gap [OF srt this(2) that(1)] \<open>\<not> lo1 \<le> va\<close> fnd show False by simp
    qed
    with vlo that(2) have inf: "vaddr f \<le> va" "va < pe_end f" by auto
    with sp vaddr_le_pe_end [of f] have o: "o' = own_sum ds + (va - vaddr f)" by auto
    from va mdvd that(2) have "va + PAGE_SIZE \<le> ?m" by (rule page_step)
    with o pos \<open>lo1 \<le> va\<close> vlo len show ?thesis
      by (intro page_at_punch_in) linarith+
  qed
qed

text \<open>The loop: post-condition, and where it leaves the reader after success.\<close>

lemma dedup_post_trivial: "lo = hi \<or> ret \<noteq> 0 \<Longrightarrow> dedup_post es lo hi pg ret pg"
  by (auto simp: dedup_post_def)

lemma dedup_post_out:
  "dedup_post es lo hi pg ret pg' \<Longrightarrow> PAGE_SIZE dvd va \<Longrightarrow> pm_find es 0 va = Some (f, o') \<Longrightarrow>
   \<not> in_parent f \<Longrightarrow> va < lo \<or> hi \<le> va \<Longrightarrow> page_at pg' o' = page_at pg o'"
  unfolding dedup_post_def by blast

lemma dedup_post_in:
  "dedup_post es lo hi pg 0 pg' \<Longrightarrow> PAGE_SIZE dvd va \<Longrightarrow> pm_find es 0 va = Some (f, o') \<Longrightarrow>
   \<not> in_parent f \<Longrightarrow> lo \<le> va \<Longrightarrow> va < hi \<Longrightarrow> o' + PAGE_SIZE \<le> length pg \<Longrightarrow>
   page_at pg' o' = replicate PAGE_SIZE 0"
  by (simp add: dedup_post_def)

lemma dedup_post_length: "dedup_post es lo hi pg ret pg' \<Longrightarrow> length pg' = length pg"
  by (simp add: dedup_post_def)

lemma dedup_post_trans:
  assumes "dedup_post es lo mid pg 0 pg1" "dedup_post es mid hi pg1 ret pg2" "lo \<le> mid" "mid \<le> hi"
  shows "dedup_post es lo hi pg ret pg2"
  unfolding dedup_post_def
proof (intro conjI allI impI)
  show "length pg2 = length pg" using assms(1,2) by (simp add: dedup_post_def)
next
  fix va f o'
  assume h: "PAGE_SIZE dvd va" "pm_find es 0 va = Some (f, o')" "\<not> in_parent f"
  note out1 = dedup_post_out [OF assms(1) h] and out2 = dedup_post_out [OF assms(2) h]
  show "page_at pg2 o' = page_at pg o'" if "va < lo \<or> hi \<le> va"
  proof -
    have "page_at pg1 o' = page_at pg o'" using that assms(3,4) by (intro out1) auto
    moreover have "page_at pg2 o' = page_at pg1 o'" using that assms(3,4) by (intro out2) auto
    ultimately show ?thesis by simp
  qed
  show "page_at pg2 o' = replicate PAGE_SIZE 0"
    if r: "ret = 0" and va: "lo \<le> va" "va < hi" and len: "o' + PAGE_SIZE \<le> length pg"
  proof (cases "va < mid")
    case True
    with dedup_post_in [OF assms(1) h va(1) True len] out2 show ?thesis by simp
  next
    case False
    with dedup_post_in [OF assms(2) [unfolded r] h _ va(2)] len dedup_post_length [OF assms(1)]
    show ?thesis by simp
  qed
qed

lemma dedup_post_parent:
  assumes "pm_wf (ds @ f # rest)" "in_parent f" "lo \<le> pe_end f"
    and "lo1 = lo \<or> lo1 = vaddr f \<and> (\<forall>d \<in> set ds. pe_end d \<le> lo)" "vaddr f \<le> lo1"
  shows "dedup_post (ds @ f # rest) lo (min (pe_end f) hi) pg 0 pg"
  unfolding dedup_post_def
proof (intro conjI allI impI)
  fix va g o'
  assume "pm_find (ds @ f # rest) 0 va = Some (g, o')" "\<not> in_parent g" "lo \<le> va" "va < min (pe_end f) hi"
  moreover have "vaddr f \<le> va"
  proof (rule ccontr)
    assume "\<not> vaddr f \<le> va"
    then have "\<forall>d \<in> set ds. pe_end d \<le> lo" using assms(4,5) \<open>lo \<le> va\<close> by auto
    from pm_find_gap [OF assms(1) this \<open>lo \<le> va\<close>] \<open>\<not> vaddr f \<le> va\<close> calculation(1) show False by simp
  qed
  ultimately have False using assms(1,2) by (simp add: pm_find_behind)
  then show "page_at pg o' = replicate PAGE_SIZE 0" ..
qed simp_all

text \<open>
  The whole loop, from a reader that has passed nothing of the range: it ends within its
  fuel, does not abort, does to the pages image what \<open>dedup_post\<close> says, and after success
  stands where the next, higher range can be deduplicated.
\<close>

lemma dedup_loop_correct:
  assumes "pm_wf es" "pm_aligned es" "hp \<or> (\<forall>x \<in> set es. \<not> in_parent x)"
    and "rd_near es pr off" "off < hi" "PAGE_SIZE dvd off" "PAGE_SIZE dvd hi"
    and "length (pr_pm pr) + 2 \<le> n \<or>
         length (pr_pm pr) + 1 \<le> n \<and> (\<exists>ds e rest. es = ds @ e # rest \<and> rd_at ds e rest pr \<and> pe_end e \<le> off)"
  shows "\<exists>ret pr'. dedup_loop n falloc hp pr hi off = Inr (ret, pr') \<and>
     dedup_post es off hi (pr_pg pr) ret (pr_pg pr') \<and> (ret = 0 \<longrightarrow> rd_near es pr' hi) \<and> ret \<in> {0, -1}"
  using assms
proof (induction n arbitrary: pr off)
  case 0
  then show ?case by simp
next
  case (Suc n)
  from seek_cases [OF Suc.prems(1,4,3)] obtain r p where
    sk: "seek_pagemap_page hp pr off = Inr (r, p)" and pg: "pr_pg p = pr_pg pr" and
    se: "seek_end es off r p" and len: "length (pr_pm p) \<le> length (pr_pm pr)" and
    str: "\<And>e. pr_pe pr = PeLive e \<Longrightarrow> pe_end e \<le> off \<Longrightarrow> pr_pe p \<noteq> PeFreed \<Longrightarrow> length (pr_pm p) < length (pr_pm pr)"
    by blast
  consider (live) ds f rest where "es = ds @ f # rest" "rd_at ds f rest p"
      "r = 0 \<and> cvaddr p = off \<and> off < pe_end f \<or>
       r = -1 \<and> cvaddr p = vaddr f \<and> off < vaddr f \<and> (\<forall>d \<in> set ds. pe_end d \<le> off)"
    | (freed) "r = -1" "pr_pe p = PeFreed" "cvaddr p \<le> off"
    | (empty) "r = -1" "pr_pe p = PeNull" "es = []"
    using se unfolding seek_end_def by blast
  then show ?case
  proof cases
    case freed
    then have "dedup_loop (Suc n) falloc hp pr hi off = Inr (-1, p)" by (simp add: sk)
    then show ?thesis using pg by (simp add: dedup_post_trivial)
  next
    case empty
    have "pm_find es 0 va = None" for va using empty(3) by simp
    then have post: "dedup_post es off hi (pr_pg pr) ret (pr_pg p)" for ret
      by (simp add: dedup_post_def pg)
    have st: "rd_near es p hi"
    proof -
      from Suc.prems(4) empty(3) have "rd_start es pr" by (simp add: rd_near_def)
      then have "p = pr" using sk empty(3) by (simp add: rd_start_def seek_pagemap_page_def get_pagemap_def)
      with \<open>rd_start es pr\<close> show ?thesis by (simp add: rd_near_def)
    qed
    have "dedup_loop (Suc n) falloc hp pr hi off =
        Inr (if off < cvaddr p \<and> \<not> cvaddr p < hi then 0 else -1, p)"
      using empty by (simp add: sk Let_def)
    then show ?thesis using post st by simp
  next
    case live
    define lo1 where "lo1 = (if r = -1 then cvaddr p else off)"
    have cv: "cvaddr p = lo1" using live(3) by (auto simp: lo1_def)
    have sm: "pe_small f" using pm_wf_small [OF Suc.prems(1)] live(1) by simp
    have pe: "pr_pe p = PeLive f" and vf: "vaddr f \<le> lo1" using live(2) cv by (auto simp: rd_at_def)
    have gap: "lo1 = off \<or> lo1 = vaddr f \<and> (\<forall>d \<in> set ds. pe_end d \<le> off)"
      using live(3) cv by auto
    have lo: "off \<le> lo1" using live(3) by (auto simp: lo1_def)
    have dvd1: "PAGE_SIZE dvd lo1"
      using Suc.prems(2,6) live(1) gap by (auto simp: pm_aligned_def)
    have al: "PAGE_SIZE dvd pe_end f" using Suc.prems(2) live(1) by (auto simp: pm_aligned_def pe_end_def)
    show ?thesis
    proof (cases "lo1 < hi")
      case False
      then have r: "r = -1" "\<not> cvaddr p < hi" "off < cvaddr p" using live(3) cv Suc.prems(5) by auto
      then have run: "dedup_loop (Suc n) falloc hp pr hi off = Inr (0, p)" by (simp add: sk)
      have "cvaddr p = vaddr f \<and> (\<forall>d \<in> set ds. pe_end d \<le> hi)"
        using live(3) r Suc.prems(5) by auto
      then have "rd_near es p hi" unfolding rd_near_def using live(1,2) by blast
      moreover have "dedup_post es off hi (pr_pg pr) 0 (pr_pg p)"
      proof -
        from r live(3) have ds: "\<forall>d \<in> set ds. pe_end d \<le> off" and "lo1 = vaddr f" using cv by auto
        with False have "pm_find es 0 va = None" if "off \<le> va" "va < hi" for va
          using pm_find_gap [OF Suc.prems(1) [unfolded live(1)] ds that(1)] that(2) live(1) by simp
        then show ?thesis by (auto simp: dedup_post_def pg)
      qed
      ultimately show ?thesis using run by simp
    next
      case True
      define q where "q = (if in_parent f then p else p\<lparr>pr_pg := punch (pr_pg p) (pr_pos p) (min (pe_end f) hi - lo1)\<rparr>)"
      have le: "lo1 \<le> pe_end f" using live(2) cv by (auto simp: rd_at_def)
      have step: "dedup_loop (Suc n) falloc hp pr hi off =
          (if \<not> in_parent f \<and> \<not> falloc (pr_pos p) (min (pe_end f) hi - lo1) then Inr (-1, p)
           else if pe_end f < hi then dedup_loop n falloc hp q hi (pe_end f) else Inr (0, q))"
      proof (cases "r = 0")
        case True
        then have "lo1 = off" by (simp add: lo1_def)
        with True sm show ?thesis by (simp add: sk pe q_def Let_def)
      next
        case False
        with live(3) have "r = -1" "lo1 = cvaddr p" "off < cvaddr p" using cv by auto
        with True sm show ?thesis by (simp add: sk pe q_def Let_def)
      qed
      show ?thesis
      proof (cases "\<not> in_parent f \<and> \<not> falloc (pr_pos p) (min (pe_end f) hi - lo1)")
        case bad: True
        then have "dedup_loop (Suc n) falloc hp pr hi off = Inr (-1, p)"
          by (simp only: step if_True simp_thms)
        then show ?thesis using pg by (simp add: dedup_post_trivial)
      next
        case good: False
        have run: "dedup_loop (Suc n) falloc hp pr hi off =
            (if pe_end f < hi then dedup_loop n falloc hp q hi (pe_end f) else Inr (0, q))"
          using good by (simp only: step if_False)
        have qat: "rd_at ds f rest q" and qcv: "cvaddr q = lo1" and qpm: "pr_pm q = pr_pm p"
          using live(2) cv by (auto simp: q_def rd_at_def)
        have post: "dedup_post es off (min (pe_end f) hi) (pr_pg pr) 0 (pr_pg q)"
        proof (cases "in_parent f")
          case True
          with dedup_post_parent [OF Suc.prems(1) [unfolded live(1)] True _ gap vf] le lo pg live(1)
          show ?thesis by (simp add: q_def)
        next
          case False
          with dedup_round [OF Suc.prems(1,2) [unfolded live(1)] live(2) cv le True lo gap dvd1 Suc.prems(7) False] pg live(1)
          show ?thesis by (simp add: q_def)
        qed
        show ?thesis
        proof (cases "pe_end f < hi")
          case False
          have "rd_near es q hi" unfolding rd_near_def using live(1) qat qcv True by auto
          with False post run show ?thesis by (simp add: min_absorb2)
        next
          case more: True
          have near: "rd_near es q (pe_end f)" unfolding rd_near_def using live(1) qat qcv le by auto
          have fuel: "length (pr_pm q) + 1 \<le> n"
            using Suc.prems(8) len str pe qpm by (auto simp: rd_at_def)
          from Suc.IH [OF Suc.prems(1-3) near more al Suc.prems(7)] fuel live(1) qat
          obtain ret pr' where r: "dedup_loop n falloc hp q hi (pe_end f) = Inr (ret, pr')"
            "dedup_post es (pe_end f) hi (pr_pg q) ret (pr_pg pr')" "ret = 0 \<longrightarrow> rd_near es pr' hi" "ret \<in> {0, -1}"
            by blast
          have "dedup_post es off hi (pr_pg pr) ret (pr_pg pr')"
            using dedup_post_trans [OF _ r(2)] post more lo le by (simp add: min_absorb1)
          with r run more show ?thesis by simp
        qed
      qed
    qed
  qed
qed

section \<open>Deduplication of a whole pagemap\<close>

text \<open>The same post-condition, for all the entries \<open>xs\<close> of the newer snapshot that are not in the parent.\<close>

definition covers :: "pagemap_entry list \<Rightarrow> nat \<Rightarrow> bool" where
  "covers xs va \<longleftrightarrow> (\<exists>x \<in> set xs. \<not> in_parent x \<and> vaddr x \<le> va \<and> va < pe_end x)"

definition dedup_all :: "pagemap_entry list \<Rightarrow> pagemap_entry list \<Rightarrow> byte list \<Rightarrow> int \<Rightarrow> byte list \<Rightarrow> bool" where
  "dedup_all es xs pg ret pg' \<longleftrightarrow> length pg' = length pg \<and>
     (\<forall>va f o'. PAGE_SIZE dvd va \<longrightarrow> pm_find es 0 va = Some (f, o') \<longrightarrow> \<not> in_parent f \<longrightarrow>
        (\<not> covers xs va \<longrightarrow> page_at pg' o' = page_at pg o') \<and>
        (ret = 0 \<longrightarrow> covers xs va \<longrightarrow> o' + PAGE_SIZE \<le> length pg \<longrightarrow>
           page_at pg' o' = replicate PAGE_SIZE 0))"

lemma covers_Cons:
  "covers (x # xs) va \<longleftrightarrow> \<not> in_parent x \<and> vaddr x \<le> va \<and> va < pe_end x \<or> covers xs va"
  by (auto simp: covers_def)

lemma covers_above: "pm_wf (x # xs) \<Longrightarrow> covers xs va \<Longrightarrow> pe_end x \<le> va"
  by (auto simp: covers_def)

lemma dedup_all_Cons:
  assumes srt: "pm_wf (x # xs)"
    and x: "if in_parent x then pg1 = pg else dedup_post es (vaddr x) (pe_end x) pg 0 pg1"
    and xs: "dedup_all es xs pg1 ret pg2"
  shows "dedup_all es (x # xs) pg ret pg2"
  unfolding dedup_all_def
proof (intro conjI allI impI)
  have len1: "length pg1 = length pg" using x by (auto simp: dedup_post_def split: if_splits)
  then show "length pg2 = length pg" using xs by (simp add: dedup_all_def)
  fix va f o'
  assume h: "PAGE_SIZE dvd va" "pm_find es 0 va = Some (f, o')" "\<not> in_parent f"
  let ?in = "\<not> in_parent x \<and> vaddr x \<le> va \<and> va < pe_end x"
  have out1: "page_at pg1 o' = page_at pg o'" if "\<not> ?in"
    using that x dedup_post_out [OF _ h] by (auto split: if_splits)
  have tail_out: "page_at pg2 o' = page_at pg1 o'" if "\<not> covers xs va"
    using that xs h unfolding dedup_all_def by blast
  show "page_at pg2 o' = page_at pg o'" if "\<not> covers (x # xs) va"
    using that out1 tail_out by (simp add: covers_Cons)
  show "page_at pg2 o' = replicate PAGE_SIZE 0"
    if r: "ret = 0" and c: "covers (x # xs) va" and len: "o' + PAGE_SIZE \<le> length pg"
  proof (cases "covers xs va")
    case True
    then show ?thesis using xs h r len len1 unfolding dedup_all_def by (metis (no_types))
  next
    case False
    with c have i: ?in by (simp add: covers_Cons)
    then have "page_at pg1 o' = replicate PAGE_SIZE 0"
      using x dedup_post_in [OF _ h _ _ len] by simp
    with tail_out False show ?thesis by simp
  qed
qed

lemma dedup_all_fail:
  assumes "pm_wf (x # xs)" "\<not> in_parent x" "dedup_post es (vaddr x) (pe_end x) pg ret pg1" "ret \<noteq> 0"
  shows "dedup_all es (x # xs) pg ret pg1"
  unfolding dedup_all_def
proof (intro conjI allI impI)
  fix va f o'
  assume "PAGE_SIZE dvd va" "pm_find es 0 va = Some (f, o')" "\<not> in_parent f" "\<not> covers (x # xs) va"
  then show "page_at pg1 o' = page_at pg o'"
    using assms(2) dedup_post_out [OF assms(3)] by (simp add: covers_Cons not_less not_le)
qed (use assms(3,4) in \<open>auto simp: dedup_post_def\<close>)

lemma dedup_entry:
  assumes "0 < nr_pages x" "PAGE_SIZE dvd vaddr x" "pe_small x"
    and "pm_wf es" "pm_aligned es" "hp \<or> (\<forall>y \<in> set es. \<not> in_parent y)" "rd_near es prp (vaddr x)"
  shows "\<exists>r p1. (if \<not> in_parent x then dedup_one_iovec falloc hp prp (pagemap2iovec x) else Inr (0, prp))
         = Inr (r, p1) \<and> r \<in> {0, -1} \<and> (r = 0 \<longrightarrow> rd_near es p1 (pe_end x)) \<and>
       (if in_parent x then r = 0 \<and> pr_pg p1 = pr_pg prp
        else dedup_post es (vaddr x) (pe_end x) (pr_pg prp) r (pr_pg p1))"
proof (cases "in_parent x")
  case True
  with rd_near_mono [OF assms(7) vaddr_le_pe_end] show ?thesis by simp
next
  case False
  have "vaddr x < pe_end x" "PAGE_SIZE dvd pe_end x" using assms(1,2) by (simp_all add: pe_end_def)
  from dedup_loop_correct [OF assms(4-7) this(1) assms(2) this(2), of "length (pr_pm prp) + 2" falloc] False assms(3)
  show ?thesis by (auto simp: dedup_one_iovec_def simp del: dedup_loop.simps)
qed

lemma dedup_pm_loop_correct:
  assumes "pm_wf (x # xs)" "pm_aligned (x # xs)" "\<forall>y \<in> set (x # xs). 0 < nr_pages y"
    and "pm_wf es" "pm_aligned es" "hp \<or> (\<forall>y \<in> set es. \<not> in_parent y)"
    and "rd_near es prp (vaddr x)" "pr_pe pr = PeLive x" "pr_pm pr = map Some xs"
  shows "\<exists>ret prp'. dedup_pm_loop falloc hp pr prp (pagemap2iovec x) = Inr (ret, prp') \<and>
     ret \<in> {0, -1} \<and> dedup_all es (x # xs) (pr_pg prp) ret (pr_pg prp')"
  using assms
proof (induction xs arbitrary: x pr prp)
  case Nil
  have "0 < nr_pages x" "PAGE_SIZE dvd vaddr x" "pe_small x"
    using Nil.prems(1-3) by (simp_all add: pm_aligned_def)
  from dedup_entry [OF this Nil.prems(4-7), of falloc] obtain r p1 where
    d: "(if \<not> in_parent x then dedup_one_iovec falloc hp prp (pagemap2iovec x) else Inr (0, prp)) = Inr (r, p1)"
    and r: "r \<in> {0, -1}" and
    post: "if in_parent x then r = 0 \<and> pr_pg p1 = pr_pg prp else dedup_post es (vaddr x) (pe_end x) (pr_pg prp) r (pr_pg p1)"
    by blast
  have run: "dedup_pm_loop falloc hp pr prp (pagemap2iovec x) = Inr (r, p1)"
    using r Nil.prems(9)
    by (subst dedup_pm_loop.simps) (auto simp: Nil.prems(8) d get_pagemap_def put_pagemap_def simp del: not_not)
  have nil: "dedup_all es [] (pr_pg p1) r (pr_pg p1)" by (simp add: dedup_all_def covers_def)
  have "dedup_all es [x] (pr_pg prp) r (pr_pg p1)"
    using dedup_all_fail [OF Nil.prems(1)] dedup_all_Cons [OF Nil.prems(1) _ nil] post
    by (cases "r = 0") (auto split: if_splits)
  with run r show ?case by blast
next
  case (Cons y ys)
  have "0 < nr_pages x" "PAGE_SIZE dvd vaddr x" "pe_small x"
    using Cons.prems(1-3) by (simp_all add: pm_aligned_def)
  from dedup_entry [OF this Cons.prems(4-7), of falloc] obtain r p1 where
    d: "(if \<not> in_parent x then dedup_one_iovec falloc hp prp (pagemap2iovec x) else Inr (0, prp)) = Inr (r, p1)"
    and r: "r \<in> {0, -1}" and near: "r = 0 \<longrightarrow> rd_near es p1 (pe_end x)" and
    post: "if in_parent x then r = 0 \<and> pr_pg p1 = pr_pg prp else dedup_post es (vaddr x) (pe_end x) (pr_pg prp) r (pr_pg p1)"
    by blast
  show ?case
  proof (cases "r = 0")
    case False
    have "dedup_pm_loop falloc hp pr prp (pagemap2iovec x) = Inr (r, p1)"
      using False by (subst dedup_pm_loop.simps) (simp add: Cons.prems(8) d del: not_not)
    with r False post dedup_all_fail [OF Cons.prems(1)] show ?thesis by (auto split: if_splits)
  next
    case True
    define pr2 where "pr2 = pr\<lparr>pr_pm := map Some ys, pr_pe := PeLive y, cvaddr := vaddr y\<rparr>"
    have "get_pagemap True (put_pagemap pr) (pagemap2iovec x) = (1, pagemap2iovec y, pr2)"
      using Cons.prems(9) by (simp add: get_pagemap_def put_pagemap_def pr2_def)
    then have step: "dedup_pm_loop falloc hp pr prp (pagemap2iovec x) = dedup_pm_loop falloc hp pr2 p1 (pagemap2iovec y)"
      using True by (subst dedup_pm_loop.simps) (simp add: Cons.prems(8) d del: not_not)
    have "rd_near es p1 (vaddr y)"
      using near True rd_near_mono [of es p1 "pe_end x" "vaddr y"] Cons.prems(1) by simp
    moreover have "pm_wf (y # ys)" "pm_aligned (y # ys)" "\<forall>z \<in> set (y # ys). 0 < nr_pages z"
      using Cons.prems(1-3) by (simp_all add: pm_aligned_def)
    moreover have "pr_pe pr2 = PeLive y" "pr_pm pr2 = map Some ys" by (simp_all add: pr2_def)
    ultimately obtain ret prp' where
      "dedup_pm_loop falloc hp pr2 p1 (pagemap2iovec y) = Inr (ret, prp')" "ret \<in> {0, -1}"
      "dedup_all es (y # ys) (pr_pg p1) ret (pr_pg prp')"
      using Cons.IH Cons.prems(4-6) by blast
    with step dedup_all_Cons [OF Cons.prems(1), of "pr_pg p1" "pr_pg prp" es] post True show ?thesis
      by (auto split: if_splits)
  qed
qed

text \<open>Lookups through the newer snapshot do not see what was punched out of its parent.\<close>

lemma pm_find_entry:
  "pm_wf ces \<Longrightarrow> x \<in> set ces \<Longrightarrow> vaddr x \<le> va \<Longrightarrow> va < pe_end x \<Longrightarrow> \<exists>k. pm_find ces off va = Some (x, k)"
proof (induction ces arbitrary: off)
  case Nil
  then show ?case by simp
next
  case (Cons c cs)
  then show ?case
  proof (cases "x = c")
    case False
    with Cons.prems have "pe_end c \<le> va" "x \<in> set cs" by auto
    with Cons show ?thesis by auto
  qed auto
qed

lemma snap_page_dedup_all:
  assumes "dedup_all es ces pg ret pg'" "pm_wf ces" "PAGE_SIZE dvd va"
  shows "snap_page ((ces, cpg) # (es, pg') # ss) va = snap_page ((ces, cpg) # (es, pg) # ss) va"
proof (cases "pm_find ces 0 va")
  case None
  then show ?thesis by simp
next
  case (Some r)
  obtain g k where fnd: "pm_find ces 0 va = Some (g, k)" using Some by (cases r) auto
  show ?thesis
  proof (cases "in_parent g")
    case False
    with fnd show ?thesis by simp
  next
    case True
    have nc: "\<not> covers ces va"
    proof
      assume "covers ces va"
      then obtain x where x: "x \<in> set ces" "\<not> in_parent x" "vaddr x \<le> va" "va < pe_end x"
        by (auto simp: covers_def)
      from pm_find_entry [OF assms(2) x(1,3,4), of 0] fnd True x(2) show False by auto
    qed
    have "snap_page ((es, pg') # ss) va = snap_page ((es, pg) # ss) va"
    proof (cases "pm_find es 0 va")
      case (Some q)
      obtain f o' where q: "q = (f, o')" by (cases q) auto
      show ?thesis
      proof (cases "in_parent f")
        case False
        with assms(1,3) Some q nc have "page_at pg' o' = page_at pg o'" "length pg' = length pg"
          unfolding dedup_all_def by blast+
        with Some q show ?thesis by (simp add: page_at_def)
      qed (simp add: Some q)
    qed simp
    with fnd True show ?thesis by simp
  qed
qed

section \<open>Properties\<close>

lemma cr_dedup_one_pagemap_chain:
  assumes "fs_snaps f ((ces, cpg) # (es, pg) # ss)" "chain_ok ((ces, cpg) # (es, pg) # ss)"
    and "\<forall>x \<in> set ces. 0 < nr_pages x"
  shows "\<exists>ret prp. cr_dedup_one_pagemap falloc (open_page_read_at f) = Inr (ret, Some prp)
     \<and> ret \<in> {0, -1} \<and> dedup_all es ces pg ret (pr_pg prp)"
proof -
  from open_page_read_chain [OF assms(1)] obtain pr p up where
    op: "open_page_read_at f = Inr (False, pr # p # up)" and b: "chain_below ((ces, cpg) # (es, pg) # ss) (pr # p # up) 0"
    and st: "rd_start ces pr" "rd_start es p"
    by (auto simp: list_all2_Cons1)
  have pg: "pr_pg p = pg" using b by (simp add: rd_below_def)
  have hp: "up \<noteq> [] \<or> (\<forall>x \<in> set es. \<not> in_parent x)"
    using assms(2) b chain_below_length [of ss up 0] by auto
  show ?thesis
  proof (cases ces)
    case Nil
    then show ?thesis using op st(1) pg
      by (simp add: cr_dedup_one_pagemap_def get_pagemap_def rd_start_def dedup_all_def covers_def)
  next
    case (Cons x xs)
    define pr1 where "pr1 = pr\<lparr>pr_pm := map Some xs, pr_pe := PeLive x, cvaddr := vaddr x\<rparr>"
    have g: "get_pagemap True pr \<lparr>iov_base = 0, iov_len = 0\<rparr> = (1, pagemap2iovec x, pr1)"
      using st(1) Cons by (simp add: get_pagemap_def rd_start_def pr1_def)
    have "rd_near es p (vaddr x)" using st(2) by (simp add: rd_near_def)
    from dedup_pm_loop_correct [OF _ _ _ _ _ hp this, of xs pr1 falloc] assms(2,3) Cons
    obtain ret p1 where d: "dedup_pm_loop falloc (up \<noteq> []) pr1 p (pagemap2iovec x) = Inr (ret, p1)"
        "ret \<in> {0, -1}" "dedup_all es (x # xs) (pr_pg p) ret (pr_pg p1)"
      by (auto simp: pm_aligned_def pr1_def)
    then show ?thesis using op g pg Cons by (auto simp: cr_dedup_one_pagemap_def)
  qed
qed

text \<open>C6: Deduplicating a snapshot against its parent is safe and complete. For a readable
  chain of sorted, page aligned pagemaps it returns 0 or -1 without a fault; in both cases
  every page looked up through the newer snapshot reads as before; and on 0 every page of
  the parent that the newer snapshot holds itself has been punched out of the parent's
  pages image.\<close>

theorem dedup_safe:
  assumes "fs_snaps f ((ces, cpg) # (es, pg) # ss)" "chain_ok ((ces, cpg) # (es, pg) # ss)"
    and "\<forall>x \<in> set ces. 0 < nr_pages x"
  shows "\<exists>ret prp. cr_dedup_one_pagemap falloc (open_page_read_at f) = Inr (ret, Some prp)
     \<and> (ret = 0 \<or> ret = -1) \<and> length (pr_pg prp) = length pg
     \<and> (\<forall>va. PAGE_SIZE dvd va \<longrightarrow>
          snap_page ((ces, cpg) # (es, pr_pg prp) # ss) va = snap_page ((ces, cpg) # (es, pg) # ss) va)
     \<and> (ret = 0 \<longrightarrow> (\<forall>va e off. PAGE_SIZE dvd va \<longrightarrow> pm_find es 0 va = Some (e, off) \<longrightarrow> \<not> in_parent e \<longrightarrow>
          covers ces va \<longrightarrow> off + PAGE_SIZE \<le> length pg \<longrightarrow> page_at (pr_pg prp) off = replicate PAGE_SIZE 0))"
proof -
  from cr_dedup_one_pagemap_chain [OF assms, of falloc] obtain ret prp where
    r: "cr_dedup_one_pagemap falloc (open_page_read_at f) = Inr (ret, Some prp)" "ret \<in> {0, -1}"
    and d: "dedup_all es ces pg ret (pr_pg prp)"
    by blast
  have "pm_wf ces" using assms(2) by simp
  then have "\<forall>va. PAGE_SIZE dvd va \<longrightarrow>
      snap_page ((ces, cpg) # (es, pr_pg prp) # ss) va = snap_page ((ces, cpg) # (es, pg) # ss) va"
    using snap_page_dedup_all [OF d] by blast
  with r d show ?thesis unfolding dedup_all_def by (intro exI conjI) auto
qed

theorem dedup_safe_witness:
  "\<exists>ret prp. cr_dedup_one_pagemap (\<lambda>_ _. True) (open_page_read_at ex_fs) = Inr (ret, Some prp)
     \<and> (ret = 0 \<or> ret = -1)
     \<and> snap_page [ex_new, (fst ex_old, pr_pg prp)] 4096 = Some (replicate PAGE_SIZE 1)
     \<and> (ret = 0 \<longrightarrow> page_at (pr_pg prp) 4096 = replicate PAGE_SIZE 0)"
proof -
  have a: "fs_snaps ex_fs ((fst ex_new, snd ex_new) # (fst ex_old, snd ex_old) # [])"
      "chain_ok ((fst ex_new, snd ex_new) # (fst ex_old, snd ex_old) # [])"
    using ex_fs_snaps ex_chain_ok by simp_all
  have b: "\<forall>x \<in> set (fst ex_new). 0 < nr_pages x" by (simp add: ex_new_def)
  have c: "pm_find (fst ex_old) 0 8192 = Some (\<lparr>vaddr = 4096, nr_pages = 2, in_parent = False\<rparr>, 4096)"
      "covers (fst ex_new) 8192" "length (snd ex_old) = 8192" "PAGE_SIZE dvd 4096" "PAGE_SIZE dvd 8192"
    by (simp_all add: ex_old_def ex_new_def covers_def pe_end_def PAGE_SIZE_def)
  obtain ret prp where r: "cr_dedup_one_pagemap (\<lambda>_ _. True) (open_page_read_at ex_fs) = Inr (ret, Some prp)"
      "ret = 0 \<or> ret = -1"
    and s: "\<forall>va. PAGE_SIZE dvd va \<longrightarrow> snap_page [(fst ex_new, snd ex_new), (fst ex_old, pr_pg prp)] va
               = snap_page [(fst ex_new, snd ex_new), (fst ex_old, snd ex_old)] va"
    and z: "ret = 0 \<longrightarrow> (\<forall>va e off. PAGE_SIZE dvd va \<longrightarrow> pm_find (fst ex_old) 0 va = Some (e, off) \<longrightarrow> \<not> in_parent e \<longrightarrow>
          covers (fst ex_new) va \<longrightarrow> off + PAGE_SIZE \<le> length (snd ex_old) \<longrightarrow> page_at (pr_pg prp) off = replicate PAGE_SIZE 0)"
    using dedup_safe [OF a b, of "\<lambda>_ _. True"] by blast
  have "snap_page [ex_new, (fst ex_old, pr_pg prp)] 4096 = Some (replicate PAGE_SIZE 1)"
    using s [rule_format, OF c(4)] ex_snap_page(1) by simp
  moreover have "ret = 0 \<longrightarrow> page_at (pr_pg prp) 4096 = replicate PAGE_SIZE 0"
    using z [rule_format, OF _ c(5) c(1) _ c(2)] c(3) by (simp add: PAGE_SIZE_def)
  ultimately show ?thesis using r by blast
qed

text \<open>C27: Deduplication reports an error on snapshots that are in order: when the parent's pagemap is not
  empty and the range of the
  newer snapshot starts at or above the end of every pagemap entry of the parent, the seek
  runs off the parent's pagemap and dedup_one_iovec returns -1, without having punched
  anything, although there is nothing to deduplicate there.\<close>

theorem dedup_past_parent_fails:
  assumes "pm_wf es" "es \<noteq> []" "hp \<or> (\<forall>x \<in> set es. \<not> in_parent x)" "rd_near es pr (iov_base iov)"
    and "\<forall>x \<in> set es. pe_end x \<le> iov_base iov"
  shows "\<exists>pr'. dedup_one_iovec falloc hp pr iov = Inr (-1, pr') \<and> pr_pg pr' = pr_pg pr"
proof -
  from seek_cases [OF assms(1,4,3)] obtain r p where
    sk: "seek_pagemap_page hp pr (iov_base iov) = Inr (r, p)" "pr_pg p = pr_pg pr" and
    se: "seek_end es (iov_base iov) r p" by blast
  have "\<not> iov_base iov < pe_end x" "\<not> iov_base iov < vaddr x" if "es = ds @ x # rest" for ds x rest
    using that assms(5) vaddr_le_pe_end [of x] by (auto simp: not_less intro: le_trans)
  then have "r = -1 \<and> cvaddr p \<le> iov_base iov"
    using se assms(2) unfolding seek_end_def by blast
  with sk show ?thesis by (simp add: dedup_one_iovec_def)
qed

theorem dedup_past_parent_fails_witness:
  "\<exists>pr'. dedup_one_iovec (\<lambda>_ _. True) False
       \<lparr>pr_pm = map Some (fst ex_old), pr_pg = snd ex_old, pr_pos = 0, pr_pe = PeNull, cvaddr = 0\<rparr>
       \<lparr>iov_base = 16384, iov_len = 4096\<rparr> = Inr (-1, pr') \<and> pr_pg pr' = snd ex_old"
proof -
  let ?pr = "\<lparr>pr_pm = map Some (fst ex_old), pr_pg = snd ex_old, pr_pos = 0, pr_pe = PeNull, cvaddr = 0\<rparr>"
  let ?iov = "\<lparr>iov_base = 16384, iov_len = 4096\<rparr> :: iovec"
  have "pm_wf (fst ex_old)" "fst ex_old \<noteq> []" "False \<or> (\<forall>x \<in> set (fst ex_old). \<not> in_parent x)"
    "rd_near (fst ex_old) ?pr (iov_base ?iov)" "\<forall>x \<in> set (fst ex_old). pe_end x \<le> iov_base ?iov"
    by (simp_all add: ex_old_def pe_small_def rd_near_def rd_start_def pe_end_def PAGE_SIZE_def)
  from dedup_past_parent_fails [OF this] show ?thesis by simp
qed

end
