(* ===== verification/PageXfer.thy ===== *)
theory PageXfer
  imports PagePipe Dedup
begin

text \<open>
  Page transfer, page-xfer.c: \<^verbatim>\<open>page_xfer_dump_pages\<close> walks a filled page pipe and
  hands its segments and holes, merged by address, to a \<^verbatim>\<open>struct page_xfer\<close>, and
  the local backend writes them into a pagemap image and a pages image. The contract that
  include/page-xfer.h gives the two backends is the locale \<open>page_xfer_backend\<close>; this theory
  interprets it for the local backend, PageServer for the one that talks to a page server.
\<close>

section \<open>The interface and the walk\<close>

text \<open>
  The function pointers of a \<^verbatim>\<open>struct page_xfer\<close>, over the state \<open>'x\<close> of the
  backend (its private data, and the files, pipes and sockets it works on). A pipe is given
  by its number.
\<close>

record 'x page_xfer =
  write_pagemap :: "'x \<Rightarrow> iovec \<Rightarrow> (int \<times> 'x) outcome"
  write_pages :: "'x \<Rightarrow> nat \<Rightarrow> nat \<Rightarrow> (int \<times> 'x) outcome"
  write_hole :: "'x \<Rightarrow> iovec \<Rightarrow> (int \<times> 'x) outcome"
  xfer_close :: "'x \<Rightarrow> 'x"

text \<open>
  The pointer \<^verbatim>\<open>hole\<close> is the list of the holes from it up to
  \<^verbatim>\<open>pp->free_hole\<close>; NULL is the empty list. First the inner \<^verbatim>\<open>while\<close>:
  holes below the segment at \<open>b\<close>.
\<close>

fun write_holes_below ::
  "'x page_xfer \<Rightarrow> nat \<Rightarrow> iovec list \<Rightarrow> 'x \<Rightarrow> (int \<times> iovec list \<times> 'x) outcome" where
  "write_holes_below xf b [] x = Inr (0, [], x)"
| "write_holes_below xf b (h # hs) x =
     (if iov_base h < b then
        bindF (write_hole xf x h) (\<lambda>(r, x1).
          if r \<noteq> 0 then Inr (-1, h # hs, x1) else write_holes_below xf b hs x1)
      else Inr (0, h # hs, x))"

text \<open>The loop over the segments of one buffer, by their indices in the shared array.\<close>

fun write_segs ::
  "'x page_xfer \<Rightarrow> nat \<Rightarrow> nat \<Rightarrow> nat list \<Rightarrow> iovec list \<Rightarrow> iovec list \<Rightarrow> 'x
   \<Rightarrow> (int \<times> iovec list \<times> iovec list \<times> 'x) outcome" where
  "write_segs xf off p [] hs vs x = Inr (0, hs, vs, x)"
| "write_segs xf off p (k # ks) hs vs x =
     (if length vs \<le> k then Inl UB
      else bindF (write_holes_below xf (iov_base (vs ! k)) hs x) (\<lambda>(r, hs1, x1).
        if r \<noteq> 0 then Inr (-1, hs1, vs, x1)
        else if iov_base (vs ! k) < off then Inl BUG
        else
          (let v = (vs ! k)\<lparr>iov_base := iov_base (vs ! k) - off\<rparr>; vs1 = vs[k := v] in
           bindF (write_pagemap xf x1 v) (\<lambda>(r2, x2).
             if r2 \<noteq> 0 then Inr (-1, hs1, vs1, x2)
             else bindF (write_pages xf x2 p (iov_len v)) (\<lambda>(r3, x3).
               if r3 \<noteq> 0 then Inr (-1, hs1, vs1, x3)
               else write_segs xf off p ks hs1 vs1 x3)))))"

fun write_bufs ::
  "'x page_xfer \<Rightarrow> nat \<Rightarrow> page_pipe_buf list \<Rightarrow> iovec list \<Rightarrow> iovec list \<Rightarrow> 'x
   \<Rightarrow> (int \<times> iovec list \<times> iovec list \<times> 'x) outcome" where
  "write_bufs xf off [] hs vs x = Inr (0, hs, vs, x)"
| "write_bufs xf off (b # bs) hs vs x =
     bindF (write_segs xf off (ppb_p b) [ppb_iov b..<ppb_iov b + nr_segs b] hs vs x)
       (\<lambda>(r, hs1, vs1, x1).
         if r \<noteq> 0 then Inr (-1, hs1, vs1, x1) else write_bufs xf off bs hs1 vs1 x1)"

fun write_holes :: "'x page_xfer \<Rightarrow> iovec list \<Rightarrow> 'x \<Rightarrow> (int \<times> 'x) outcome" where
  "write_holes xf [] x = Inr (0, x)"
| "write_holes xf (h # hs) x =
     bindF (write_hole xf x h) (\<lambda>(r, x1). if r \<noteq> 0 then Inr (-1, x1) else write_holes xf hs x1)"

text \<open>The walk changes the page pipe: it moves every segment down by \<open>off\<close>.\<close>

definition page_xfer_dump_pages ::
  "'x page_xfer \<Rightarrow> page_pipe \<Rightarrow> nat \<Rightarrow> 'x \<Rightarrow> (int \<times> page_pipe \<times> 'x) outcome" where
  "page_xfer_dump_pages xf pp off x =
     (if length (holes pp) < free_hole pp then Inl UB
      else bindF (write_bufs xf off (bufs pp) (take (free_hole pp) (holes pp)) (iovs pp) x)
        (\<lambda>(r, hs, vs, x1).
          if r \<noteq> 0 then Inr (-1, pp\<lparr>iovs := vs\<rparr>, x1)
          else bindF (write_holes xf hs x1) (\<lambda>(r2, x2). Inr (r2, pp\<lparr>iovs := vs\<rparr>, x2))))"

section \<open>The order of the transfer\<close>

text \<open>
  The reference: the segments and the holes merged by address, a hole before the segment
  above it; executing the merged list stops at the first call that fails.
\<close>

datatype xevent = XHole iovec | XPages nat iovec

fun xfer_plan :: "nat \<Rightarrow> (nat \<times> iovec) list \<Rightarrow> iovec list \<Rightarrow> xevent list" where
  "xfer_plan off [] hs = map XHole hs"
| "xfer_plan off ((p, v) # ss) hs =
     map XHole (takeWhile (\<lambda>h. iov_base h < iov_base v) hs)
     @ XPages p (v\<lparr>iov_base := iov_base v - off\<rparr>)
     # xfer_plan off ss (dropWhile (\<lambda>h. iov_base h < iov_base v) hs)"

definition write_seg :: "'x page_xfer \<Rightarrow> nat \<Rightarrow> iovec \<Rightarrow> 'x \<Rightarrow> (int \<times> 'x) outcome" where
  "write_seg xf p v x =
     bindF (write_pagemap xf x v) (\<lambda>(r, x1).
       if r \<noteq> 0 then Inr (-1, x1)
       else bindF (write_pages xf x1 p (iov_len v)) (\<lambda>(r2, x2).
         if r2 \<noteq> 0 then Inr (-1, x2) else Inr (0, x2)))"

fun run_plan :: "'x page_xfer \<Rightarrow> xevent list \<Rightarrow> 'x \<Rightarrow> (int \<times> 'x) outcome" where
  "run_plan xf [] x = Inr (0, x)"
| "run_plan xf (XHole h # es) x =
     bindF (write_hole xf x h) (\<lambda>(r, x1). if r \<noteq> 0 then Inr (-1, x1) else run_plan xf es x1)"
| "run_plan xf (XPages p v # es) x =
     bindF (write_seg xf p v x) (\<lambda>(r, x1). if r \<noteq> 0 then Inr (-1, x1) else run_plan xf es x1)"

lemma write_holes_plan: "write_holes xf hs x = run_plan xf (map XHole hs) x"
  by (induction hs arbitrary: x) (simp_all add: case_prod_beta cong: if_cong)

lemma write_holes_below_plan:
  "bindF (write_holes_below xf b hs x) (\<lambda>(r, hs1, x1). if r \<noteq> 0 then Inr (-1, x1) else run_plan xf (es hs1) x1)
   = run_plan xf (map XHole (takeWhile (\<lambda>h. iov_base h < b) hs) @ es (dropWhile (\<lambda>h. iov_base h < b) hs)) x"
proof (induction hs arbitrary: x)
  case (Cons h hs)
  then show ?case
    by (auto simp: bindF_assoc case_prod_beta if_distrib [where f = "\<lambda>m. bindF m _"] cong: bindF_cong if_cong)
qed simp

text \<open>One buffer: the call outcomes are those of the merged list, and other entries stay.\<close>

lemma write_segs_plan:
  assumes "\<forall>k \<in> set ks. k < length vs \<and> off \<le> iov_base (vs ! k)" "distinct ks"
  shows "bindF (write_segs xf off p ks hs vs x)
           (\<lambda>(r, hs1, vs1, x1). if r \<noteq> 0 then Inr (-1, x1) else run_plan xf (xfer_plan off ss hs1) x1)
         = run_plan xf (xfer_plan off (map (\<lambda>k. (p, vs ! k)) ks @ ss) hs) x"
  using assms
proof (induction ks arbitrary: hs vs x)
  case Nil
  show ?case by simp
next
  case (Cons k ks)
  define v where "v = (vs ! k)\<lparr>iov_base := iov_base (vs ! k) - off\<rparr>"
  have k: "k < length vs" "off \<le> iov_base (vs ! k)" using Cons.prems by auto
  have same: "map (\<lambda>j. (p, vs[k := v] ! j)) ks = map (\<lambda>j. (p, vs ! j)) ks"
    using Cons.prems(2) by (auto intro!: nth_list_update_neq)
  have ih: "bindF (write_segs xf off p ks hs1 (vs[k := v]) x1)
           (\<lambda>(r, hs1, vs1, x1). if r \<noteq> 0 then Inr (-1, x1) else run_plan xf (xfer_plan off ss hs1) x1)
         = run_plan xf (xfer_plan off (map (\<lambda>k. (p, vs ! k)) ks @ ss) hs1) x1" for hs1 x1
    using Cons.prems Cons.IH [of "vs[k := v]" hs1 x1] unfolding same by (auto simp: nth_list_update)
  show ?case
    using k write_holes_below_plan [of xf "iov_base (vs ! k)" hs x
        "\<lambda>hs1. XPages p v # xfer_plan off (map (\<lambda>k. (p, vs ! k)) ks @ ss) hs1"]
    by (simp add: v_def [symmetric] Let_def write_seg_def bindF_assoc case_prod_beta ih [symmetric]
          if_distrib [where f = "\<lambda>m. bindF m _"] cong: bindF_cong if_cong)
qed

lemma write_segs_frame:
  "write_segs xf off p ks hs vs x = Inr (r, hs1, vs1, x1) \<Longrightarrow>
   length vs1 = length vs \<and> (\<forall>j. j \<notin> set ks \<longrightarrow> vs1 ! j = vs ! j)"
proof (induction ks arbitrary: hs vs x)
  case (Cons k ks)
  then show ?case
    by (fastforce simp: bindF_eq_Inr Let_def split: if_splits)
qed simp

text \<open>The segments of all buffers, with the pipe that holds their pages.\<close>

definition buf_segs :: "iovec list \<Rightarrow> page_pipe_buf \<Rightarrow> (nat \<times> iovec) list" where
  "buf_segs vs b = map (Pair (ppb_p b)) (segs vs b)"

definition pp_segs :: "page_pipe \<Rightarrow> (nat \<times> iovec) list" where
  "pp_segs pp = concat (map (buf_segs (iovs pp)) (bufs pp))"

lemma map_nth_upt: "s + n \<le> length vs \<Longrightarrow> map (\<lambda>k. vs ! k) [s..<s + n] = take n (drop s vs)"
  by (intro nth_equalityI) auto

lemma buf_segs_upt:
  assumes "ppb_iov b + nr_segs b \<le> length vs"
  shows "map (\<lambda>k. (ppb_p b, vs ! k)) [ppb_iov b..<ppb_iov b + nr_segs b] = buf_segs vs b"
  using arg_cong [OF map_nth_upt [OF assms], of "map (Pair (ppb_p b))"]
  by (simp add: buf_segs_def segs_def o_def)

lemma buf_segs_cong:
  assumes "bufs_chain s bs e" "e \<le> length vs" "length vs1 = length vs" "\<forall>j \<ge> s. vs1 ! j = vs ! j"
  shows "map (buf_segs vs1) bs = map (buf_segs vs) bs"
proof (rule map_cong [OF refl])
  fix b
  assume "b \<in> set bs"
  with assms(1) have "s \<le> ppb_iov b" "ppb_iov b + nr_segs b \<le> e"
    using bufs_chain_bounds by blast+
  with assms have "segs vs1 b = segs vs b" by (intro nth_equalityI) (auto simp: segs_def)
  then show "buf_segs vs1 b = buf_segs vs b" by (simp add: buf_segs_def)
qed

lemma write_bufs_plan:
  assumes "bufs_chain s bs e" "e \<le> length vs" "\<forall>k. s \<le> k \<and> k < e \<longrightarrow> off \<le> iov_base (vs ! k)"
  shows "bindF (write_bufs xf off bs hs vs x)
           (\<lambda>(r, hs1, vs1, x1). if r \<noteq> 0 then Inr (-1, x1) else write_holes xf hs1 x1)
         = run_plan xf (xfer_plan off (concat (map (buf_segs vs) bs)) hs) x"
  using assms
proof (induction bs arbitrary: s hs vs x)
  case Nil
  then show ?case by (simp add: write_holes_plan)
next
  case (Cons b bs)
  let ?ks = "[ppb_iov b..<ppb_iov b + nr_segs b]"
  let ?ss = "concat (map (buf_segs vs) bs)"
  have s: "ppb_iov b = s" and ch: "bufs_chain (s + nr_segs b) bs e" using Cons.prems(1) by auto
  have le: "s + nr_segs b \<le> e" using ch by (rule bufs_chain_le)
  have ks: "\<forall>k \<in> set ?ks. k < length vs \<and> off \<le> iov_base (vs ! k)" "distinct ?ks"
    using Cons.prems(2,3) le s by auto
  have rest: "bindF (write_bufs xf off bs hs1 vs1 x1)
      (\<lambda>(r, hs1, vs1, x1). if r \<noteq> 0 then Inr (-1, x1) else write_holes xf hs1 x1)
      = run_plan xf (xfer_plan off ?ss hs1) x1"
    if w: "write_segs xf off (ppb_p b) ?ks hs vs x = Inr (0, hs1, vs1, x1)" for hs1 vs1 x1
  proof -
    have fr: "length vs1 = length vs" "\<forall>j \<ge> s + nr_segs b. vs1 ! j = vs ! j"
      using write_segs_frame [OF w] s by auto
    have eq: "map (buf_segs vs1) bs = map (buf_segs vs) bs"
      by (rule buf_segs_cong [OF ch Cons.prems(2) fr])
    have ge: "\<forall>k. s + nr_segs b \<le> k \<and> k < e \<longrightarrow> off \<le> iov_base (vs1 ! k)"
      using fr(2) Cons.prems(3) by auto
    show ?thesis using Cons.IH [OF ch _ ge, of hs1 x1] Cons.prems(2) fr(1) unfolding eq by simp
  qed
  have "bindF (write_bufs xf off (b # bs) hs vs x)
           (\<lambda>(r, hs1, vs1, x1). if r \<noteq> 0 then Inr (-1, x1) else write_holes xf hs1 x1)
      = bindF (write_segs xf off (ppb_p b) ?ks hs vs x)
           (\<lambda>(r, hs1, vs1, x1). if r \<noteq> 0 then Inr (-1, x1) else run_plan xf (xfer_plan off ?ss hs1) x1)"
    using rest by (cases "write_segs xf off (ppb_p b) ?ks hs vs x") auto
  also have "\<dots> = run_plan xf (xfer_plan off (map (\<lambda>k. (ppb_p b, vs ! k)) ?ks @ ?ss) hs) x"
    by (rule write_segs_plan [OF ks])
  also have "map (\<lambda>k. (ppb_p b, vs ! k)) ?ks = buf_segs vs b"
    using buf_segs_upt [of b vs] s le Cons.prems(2) by simp
  finally show ?case by simp
qed

lemma run_plan_ret: "run_plan xf es x = Inr (r, x') \<Longrightarrow> r = 0 \<or> r = -1"
  by (induction xf es x rule: run_plan.induct) (auto simp: bindF_eq_Inr split: if_splits)

text \<open>Transferring a well-formed page pipe executes the merged list.\<close>

lemma page_xfer_dump_pages_plan:
  assumes "pp_wf pp" "\<forall>v \<in> set (take (free_iov pp) (iovs pp)). off \<le> iov_base v"
  shows "map_sum id (\<lambda>(r, pp', x'). (r, x')) (page_xfer_dump_pages xf pp off x)
       = run_plan xf (xfer_plan off (pp_segs pp) (take (free_hole pp) (holes pp))) x"
proof -
  have wf: "bufs_chain 0 (bufs pp) (free_iov pp)" "free_iov pp \<le> length (iovs pp)"
    "free_hole pp \<le> length (holes pp)"
    using assms(1) by (auto simp: pp_wf_def pp_bufs_wf_def pp_holes_wf_def)
  have off: "\<forall>k. 0 \<le> k \<and> k < free_iov pp \<longrightarrow> off \<le> iov_base (iovs pp ! k)"
    using assms(2) wf(2) by (metis (no_types, lifting) length_take min.absorb2 nth_mem nth_take)
  have "map_sum id (\<lambda>(r, pp', x'). (r, x')) (page_xfer_dump_pages xf pp off x)
     = bindF (write_bufs xf off (bufs pp) (take (free_hole pp) (holes pp)) (iovs pp) x)
        (\<lambda>(r, hs, vs, x1). if r \<noteq> 0 then Inr (-1, x1) else write_holes xf hs x1)"
    using wf(3)
    by (auto simp: page_xfer_dump_pages_def bindF_def split: sum.splits prod.splits)
  with write_bufs_plan [OF wf(1,2) off, of xf "take (free_hole pp) (holes pp)" x]
  show ?thesis by (simp add: pp_segs_def)
qed

section \<open>The contract of a backend\<close>

text \<open>
  The pagemap entry that stands for a range, and the ranges whose entry is exact: whole
  pages, less than 4 GiB, at a 64-bit address.
\<close>

definition mk_pe :: "bool \<Rightarrow> iovec \<Rightarrow> pagemap_entry" where
  "mk_pe par v = \<lparr>vaddr = iov_base v, nr_pages = u32_of (iov_len v div PAGE_SIZE), in_parent = par\<rparr>"

definition xiov_ok :: "iovec \<Rightarrow> bool" where
  "xiov_ok v \<longleftrightarrow> iov_ok v \<and> iov_len v < 2 ^ 32 \<and> iov_base v < 2 ^ 64"

fun ev_iov :: "xevent \<Rightarrow> iovec" where
  "ev_iov (XHole v) = v"
| "ev_iov (XPages p v) = v"

fun ev_entry :: "xevent \<Rightarrow> pagemap_entry" where
  "ev_entry (XHole v) = mk_pe True v"
| "ev_entry (XPages p v) = mk_pe False v"

text \<open>What the merged list takes out of the pipes, and that they hold enough for it.\<close>

fun plan_data :: "(nat \<Rightarrow> byte list) \<Rightarrow> xevent list \<Rightarrow> byte list" where
  "plan_data pipe [] = []"
| "plan_data pipe (XHole v # es) = plan_data pipe es"
| "plan_data pipe (XPages p v # es) =
     take (iov_len v) (pipe p) @ plan_data (pipe(p := drop (iov_len v) (pipe p))) es"

fun plan_fits :: "(nat \<Rightarrow> byte list) \<Rightarrow> xevent list \<Rightarrow> bool" where
  "plan_fits pipe [] \<longleftrightarrow> True"
| "plan_fits pipe (XHole v # es) \<longleftrightarrow> plan_fits pipe es"
| "plan_fits pipe (XPages p v # es) \<longleftrightarrow>
     iov_len v \<le> length (pipe p) \<and> plan_fits (pipe(p := drop (iov_len v) (pipe p))) es"

text \<open>
  include/page-xfer.h: \<^verbatim>\<open>write_pagemap\<close> \<open>transfers one vaddr:len entry\<close>,
  \<^verbatim>\<open>write_pages\<close> \<open>transfers pages related to previous pagemap\<close>,
  \<^verbatim>\<open>write_hole\<close> \<open>transfers one hole -- vaddr:len entry w/o pages\<close>. The
  image a backend has produced so far is \<open>view\<close>; \<open>pipe\<close> is what the pipes hold.
\<close>

locale page_xfer_backend =
  fixes xf :: "'x page_xfer"
    and view :: "'x \<Rightarrow> snapshot"
    and pipe :: "'x \<Rightarrow> nat \<Rightarrow> byte list"
    and inv :: "'x \<Rightarrow> bool"
  assumes hole_law: "inv x \<Longrightarrow> xiov_ok v \<Longrightarrow> write_hole xf x v = Inr (0, x') \<Longrightarrow>
      inv x' \<and> view x' = (fst (view x) @ [mk_pe True v], snd (view x)) \<and> pipe x' = pipe x"
    and seg_law: "inv x \<Longrightarrow> xiov_ok v \<Longrightarrow> write_seg xf p v x = Inr (0, x') \<Longrightarrow>
      inv x' \<and> view x' = (fst (view x) @ [mk_pe False v], snd (view x) @ take (iov_len v) (pipe x p))
      \<and> iov_len v \<le> length (pipe x p) \<and> pipe x' = (pipe x)(p := drop (iov_len v) (pipe x p))"
    and close_law: "view (xfer_close xf x) = view x"
begin

lemma run_plan_view:
  "run_plan xf es x = Inr (0, x') \<Longrightarrow> inv x \<Longrightarrow> \<forall>e \<in> set es. xiov_ok (ev_iov e) \<Longrightarrow>
   inv x' \<and> plan_fits (pipe x) es \<and>
   view x' = (fst (view x) @ map ev_entry es, snd (view x) @ plan_data (pipe x) es)"
proof (induction es arbitrary: x)
  case Nil
  then show ?case by simp
next
  case (Cons e es)
  show ?case
  proof (cases e)
    case (XHole h)
    with Cons.prems(1) obtain x1 where w: "write_hole xf x h = Inr (0, x1)" "run_plan xf es x1 = Inr (0, x')"
      by (auto simp: bindF_eq_Inr split: if_splits)
    have h: "xiov_ok h" using Cons.prems(3) XHole by simp
    note l = hole_law [OF Cons.prems(2) h w(1)]
    from Cons.IH [OF w(2)] l Cons.prems(3) XHole show ?thesis by simp
  next
    case (XPages p v)
    with Cons.prems(1) obtain x1 where w: "write_seg xf p v x = Inr (0, x1)" "run_plan xf es x1 = Inr (0, x')"
      by (auto simp: bindF_eq_Inr split: if_splits)
    have v: "xiov_ok v" using Cons.prems(3) XPages by simp
    note l = seg_law [OF Cons.prems(2) v w(1)]
    from Cons.IH [OF w(2)] l Cons.prems(3) XPages show ?thesis by (simp add: fun_upd_def)
  qed
qed

lemma dump_pages_view:
  assumes "pp_wf pp" "\<forall>v \<in> set (take (free_iov pp) (iovs pp)). off \<le> iov_base v"
    and "page_xfer_dump_pages xf pp off x = Inr (0, pp', x')" "inv x"
    and "es = xfer_plan off (pp_segs pp) (take (free_hole pp) (holes pp))"
    and "\<forall>e \<in> set es. xiov_ok (ev_iov e)"
  shows "inv x' \<and> plan_fits (pipe x) es \<and>
     view x' = (fst (view x) @ map ev_entry es, snd (view x) @ plan_data (pipe x) es)"
proof -
  have "run_plan xf es x = Inr (0, x')"
    using page_xfer_dump_pages_plan [OF assms(1,2), of xf x] assms(3,5) by simp
  from run_plan_view [OF this assms(4,6)] show ?thesis .
qed

end

text \<open>A backend whose calls do not fail while the pipes hold what is asked for.\<close>

locale page_xfer_live = page_xfer_backend +
  assumes hole_live: "inv x \<Longrightarrow> xiov_ok v \<Longrightarrow> \<exists>x'. write_hole xf x v = Inr (0, x')"
    and seg_live: "inv x \<Longrightarrow> xiov_ok v \<Longrightarrow> iov_len v \<le> length (pipe x p) \<Longrightarrow>
      \<exists>x'. write_seg xf p v x = Inr (0, x')"
begin

lemma run_plan_live:
  "inv x \<Longrightarrow> \<forall>e \<in> set es. xiov_ok (ev_iov e) \<Longrightarrow> plan_fits (pipe x) es \<Longrightarrow>
   \<exists>x'. run_plan xf es x = Inr (0, x')"
proof (induction es arbitrary: x)
  case Nil
  then show ?case by simp
next
  case (Cons e es)
  show ?case
  proof (cases e)
    case (XHole h)
    then have h: "xiov_ok h" using Cons.prems(2) by simp
    obtain x1 where w: "write_hole xf x h = Inr (0, x1)" using hole_live [OF Cons.prems(1) h] by blast
    from hole_law [OF Cons.prems(1) h w] Cons.IH [of x1] Cons.prems w XHole show ?thesis by simp
  next
    case (XPages p v)
    then have v: "xiov_ok v" "iov_len v \<le> length (pipe x p)" using Cons.prems(2,3) by simp_all
    obtain x1 where w: "write_seg xf p v x = Inr (0, x1)" using seg_live [OF Cons.prems(1) v] by blast
    from seg_law [OF Cons.prems(1) v(1) w] Cons.IH [of x1] Cons.prems w XPages show ?thesis by (simp add: fun_upd_def)
  qed
qed

lemma dump_pages_live:
  assumes "pp_wf pp" "\<forall>v \<in> set (take (free_iov pp) (iovs pp)). off \<le> iov_base v" "inv x"
    and "es = xfer_plan off (pp_segs pp) (take (free_hole pp) (holes pp))"
    and "\<forall>e \<in> set es. xiov_ok (ev_iov e)" "plan_fits (pipe x) es"
  shows "\<exists>pp' x'. page_xfer_dump_pages xf pp off x = Inr (0, pp', x')"
proof -
  from run_plan_live [OF assms(3,5,6)] obtain x' where "run_plan xf es x = Inr (0, x')" by blast
  then have "map_sum id (\<lambda>(r, pp', x'). (r, x')) (page_xfer_dump_pages xf pp off x) = Inr (0, x')"
    using page_xfer_dump_pages_plan [OF assms(1,2), of xf x] assms(4) by simp
  then show ?thesis by (cases "page_xfer_dump_pages xf pp off x") auto
qed

end

section \<open>The local backend\<close>

text \<open>
  The \<^verbatim>\<open>parent\<close> field of a local \<^verbatim>\<open>page_xfer\<close>: callers declare the
  structure on the stack without an initialiser, so it may hold garbage.
\<close>

datatype xparent = XpJunk | XpNull | XpReader page_read pr_chain

text \<open>
  State of the local backend: the pagemap image it writes, by type and id (\<^verbatim>\<open>fd\<close>;
  its pages image \<^verbatim>\<open>fd_pg\<close> goes with it), the parent reader for deduplication, the
  image files, the contents of the pipes, and a counter of I/O calls.
\<close>

record loc_xfer =
  lx_key :: "int \<times> int"
  lx_parent :: xparent
  lx_disk :: "int \<times> int \<Rightarrow> snapshot option"
  lx_pipes :: "nat \<Rightarrow> byte list"
  lx_tick :: nat

text \<open>
  Options and kernel answers: whether the n-th I/O call can write its record, what the
  n-th \<^verbatim>\<open>splice\<close> returns when asked for so many bytes (it never moves more than
  the pipe has), \<^verbatim>\<open>fallocate\<close>, opening the images, and the parent directory as
  seen for an id.
\<close>

record xfer_env =
  auto_dedup :: bool
  use_page_server :: bool
  pb_ok :: "nat \<Rightarrow> bool"
  splice_ret :: "nat \<Rightarrow> nat \<Rightarrow> int"
  fallocate :: falloc
  open_pm :: "int \<times> int \<Rightarrow> bool"
  open_pg :: "int \<times> int \<Rightarrow> bool"
  parent_dir :: "int \<Rightarrow> snap_fs plink"
  xp_malloc :: bool

definition pb_write_pe :: "xfer_env \<Rightarrow> pagemap_entry \<Rightarrow> loc_xfer \<Rightarrow> int \<times> loc_xfer" where
  "pb_write_pe E pe x =
     (if pb_ok E (lx_tick x)
      then (0, x\<lparr>lx_disk := (lx_disk x)(lx_key x := map_option (\<lambda>(es, pg). (es @ [pe], pg)) (lx_disk x (lx_key x))),
                 lx_tick := lx_tick x + 1\<rparr>)
      else (-1, x\<lparr>lx_tick := lx_tick x + 1\<rparr>))"

definition write_pagemap_loc :: "xfer_env \<Rightarrow> loc_xfer \<Rightarrow> iovec \<Rightarrow> (int \<times> loc_xfer) outcome" where
  "write_pagemap_loc E x iov =
     (let pe = \<lparr>vaddr = iov_base iov, nr_pages = u32_of (iov_len iov div PAGE_SIZE), in_parent = False\<rparr> in
      bindF (if auto_dedup E \<and> \<not> use_page_server E then
               (case lx_parent x of
                  XpJunk \<Rightarrow> Inl UB
                | XpNull \<Rightarrow> Inr (0, x)
                | XpReader p up \<Rightarrow>
                    bindF (dedup_one_iovec (fallocate E) (up \<noteq> []) p iov) (\<lambda>(r, p1).
                      Inr (r, x\<lparr>lx_parent := XpReader p1 up\<rparr>)))
             else Inr (0, x))
        (\<lambda>(r, x1). if r = -1 then Inr (r, x1) else Inr (pb_write_pe E pe x1)))"

definition splice_to_pages :: "xfer_env \<Rightarrow> loc_xfer \<Rightarrow> nat \<Rightarrow> nat \<Rightarrow> int \<times> loc_xfer" where
  "splice_to_pages E x p len =
     (let r = splice_ret E (lx_tick x) len; x1 = x\<lparr>lx_tick := lx_tick x + 1\<rparr> in
      if r < 0 then (r, x1)
      else let n = min (nat r) (min len (length (lx_pipes x p))) in
        (int n, x1\<lparr>lx_disk := (lx_disk x)(lx_key x :=
                       map_option (\<lambda>(es, pg). (es, pg @ take n (lx_pipes x p))) (lx_disk x (lx_key x))),
                   lx_pipes := (lx_pipes x)(p := drop n (lx_pipes x p))\<rparr>))"

definition write_pages_loc :: "xfer_env \<Rightarrow> loc_xfer \<Rightarrow> nat \<Rightarrow> nat \<Rightarrow> (int \<times> loc_xfer) outcome" where
  "write_pages_loc E x p len =
     (case splice_to_pages E x p len of (r, x1) \<Rightarrow> if r \<noteq> int len then Inr (-1, x1) else Inr (0, x1))"

definition write_pagehole_loc :: "xfer_env \<Rightarrow> loc_xfer \<Rightarrow> iovec \<Rightarrow> (int \<times> loc_xfer) outcome" where
  "write_pagehole_loc E x iov =
     (let pe = \<lparr>vaddr = iov_base iov, nr_pages = u32_of (iov_len iov div PAGE_SIZE), in_parent = True\<rparr> in
      case pb_write_pe E pe x of (r, x1) \<Rightarrow> if r < 0 then Inr (-1, x1) else Inr (0, x1))"

definition loc_ops :: "xfer_env \<Rightarrow> loc_xfer page_xfer" where
  "loc_ops E = \<lparr>write_pagemap = write_pagemap_loc E, write_pages = write_pages_loc E,
                write_hole = write_pagehole_loc E, xfer_close = (\<lambda>x. x)\<rparr>"

text \<open>
  \<^verbatim>\<open>open_page_local_xfer\<close>: both images are created empty. With auto-dedup and no
  parent link it leaves \<^verbatim>\<open>xfer->parent\<close> as it was.
\<close>

definition open_page_local_xfer :: "xfer_env \<Rightarrow> int \<Rightarrow> int \<Rightarrow> loc_xfer \<Rightarrow> int \<times> loc_xfer" where
  "open_page_local_xfer E fd_type i x =
     (if \<not> open_pm E (fd_type, i) then (-1, x)
      else if \<not> open_pg E (fd_type, i) then (-1, x)
      else let x1 = x\<lparr>lx_key := (fd_type, i), lx_disk := (lx_disk x)((fd_type, i) \<mapsto> ([], []))\<rparr> in
        if auto_dedup E \<and> \<not> use_page_server E then
          (case parent_dir E i of
             LinkNone \<Rightarrow> (0, x1)
           | LinkErr \<Rightarrow> if \<not> xp_malloc E then (-1, x1) else (0, x1\<lparr>lx_parent := XpNull\<rparr>)
           | LinkTo f \<Rightarrow>
               if \<not> xp_malloc E then (-1, x1)
               else (case open_page_read_at f of
                       Inr (_, p # up) \<Rightarrow> (0, x1\<lparr>lx_parent := XpReader p up\<rparr>)
                     | _ \<Rightarrow> (0, x1\<lparr>lx_parent := XpNull\<rparr>)))
        else (0, x1))"

section \<open>The local backend keeps the contract\<close>

definition loc_open :: "loc_xfer \<Rightarrow> bool" where
  "loc_open x \<longleftrightarrow> lx_disk x (lx_key x) \<noteq> None"

definition loc_view :: "loc_xfer \<Rightarrow> snapshot" where
  "loc_view x = (case lx_disk x (lx_key x) of None \<Rightarrow> ([], []) | Some s \<Rightarrow> s)"

text \<open>No deduplication in the way, and every I/O call does what it is asked to.\<close>

definition loc_ready :: "xfer_env \<Rightarrow> loc_xfer \<Rightarrow> bool" where
  "loc_ready E x \<longleftrightarrow> loc_open x \<and> (auto_dedup E \<and> \<not> use_page_server E \<longrightarrow> lx_parent x = XpNull)
     \<and> (\<forall>n. pb_ok E n) \<and> (\<forall>n len. splice_ret E n len = int len)"

lemma pb_write_pe_done:
  assumes "pb_write_pe E pe x = (0, x')" "loc_open x"
  shows "loc_open x'" "loc_view x' = (fst (loc_view x) @ [pe], snd (loc_view x))" "lx_pipes x' = lx_pipes x"
  using assms by (auto simp: pb_write_pe_def loc_view_def loc_open_def split: if_splits)

lemma write_pagemap_loc_done:
  assumes "write_pagemap_loc E x v = Inr (0, x')" "loc_open x"
  shows "loc_open x'" "loc_view x' = (fst (loc_view x) @ [mk_pe False v], snd (loc_view x))"
    "lx_pipes x' = lx_pipes x"
proof -
  from assms(1) obtain x1 where w: "pb_write_pe E (mk_pe False v) x1 = (0, x')"
    and x1: "x1 = x \<or> (\<exists>q. x1 = x\<lparr>lx_parent := q\<rparr>)"
    by (auto simp: write_pagemap_loc_def Let_def mk_pe_def bindF_eq_Inr split: if_splits xparent.splits)
  from x1 have "loc_open x1 = loc_open x" "loc_view x1 = loc_view x" "lx_pipes x1 = lx_pipes x"
    by (auto simp: loc_open_def loc_view_def)
  with pb_write_pe_done [OF w] assms(2)
  show "loc_open x'" "loc_view x' = (fst (loc_view x) @ [mk_pe False v], snd (loc_view x))" "lx_pipes x' = lx_pipes x"
    by simp_all
qed

lemma write_pages_loc_done:
  assumes "write_pages_loc E x p n = Inr (0, x')" "loc_open x"
  shows "loc_open x'" "loc_view x' = (fst (loc_view x), snd (loc_view x) @ take n (lx_pipes x p))"
    "n \<le> length (lx_pipes x p)" "lx_pipes x' = (lx_pipes x)(p := drop n (lx_pipes x p))"
proof -
  from assms(1) have n: "n \<le> length (lx_pipes x p)" and
    x': "x' = x\<lparr>lx_tick := lx_tick x + 1,
      lx_disk := (lx_disk x)(lx_key x := map_option (\<lambda>(es, pg). (es, pg @ take n (lx_pipes x p))) (lx_disk x (lx_key x))),
      lx_pipes := (lx_pipes x)(p := drop n (lx_pipes x p))\<rparr>"
    by (auto simp: write_pages_loc_def splice_to_pages_def Let_def split: if_splits)
  show "n \<le> length (lx_pipes x p)" by (rule n)
  show "loc_open x'" "loc_view x' = (fst (loc_view x), snd (loc_view x) @ take n (lx_pipes x p))"
    "lx_pipes x' = (lx_pipes x)(p := drop n (lx_pipes x p))"
    using assms(2) by (auto simp: x' loc_open_def loc_view_def)
qed

lemma loc_ops_simps [simp]:
  "write_pagemap (loc_ops E) = write_pagemap_loc E" "write_pages (loc_ops E) = write_pages_loc E"
  "write_hole (loc_ops E) = write_pagehole_loc E"
  by (simp_all add: loc_ops_def)

interpretation loc: page_xfer_backend "loc_ops E" loc_view lx_pipes loc_open for E
proof
  fix x x' :: loc_xfer and v
  assume o: "loc_open x" and w: "write_hole (loc_ops E) x v = Inr (0, x')"
  from w have "pb_write_pe E (mk_pe True v) x = (0, x')"
    by (auto simp: write_pagehole_loc_def pb_write_pe_def mk_pe_def Let_def split: if_splits)
  from pb_write_pe_done [OF this o]
  show "loc_open x' \<and> loc_view x' = (fst (loc_view x) @ [mk_pe True v], snd (loc_view x)) \<and> lx_pipes x' = lx_pipes x"
    by simp
next
  fix x x' :: loc_xfer and v p
  assume o: "loc_open x" and w: "write_seg (loc_ops E) p v x = Inr (0, x')"
  from w obtain x1 where "write_pagemap_loc E x v = Inr (0, x1)" "write_pages_loc E x1 p (iov_len v) = Inr (0, x')"
    by (auto simp: write_seg_def bindF_eq_Inr split: if_splits)
  from write_pagemap_loc_done [OF this(1) o] write_pages_loc_done [OF this(2)]
  show "loc_open x' \<and> loc_view x' = (fst (loc_view x) @ [mk_pe False v], snd (loc_view x) @ take (iov_len v) (lx_pipes x p))
      \<and> iov_len v \<le> length (lx_pipes x p) \<and> lx_pipes x' = (lx_pipes x)(p := drop (iov_len v) (lx_pipes x p))"
    by simp
qed (simp add: loc_ops_def)

lemma write_pagemap_loc_ready:
  "loc_ready E x \<Longrightarrow> \<exists>x'. write_pagemap_loc E x v = Inr (0, x') \<and> lx_parent x' = lx_parent x \<and> lx_key x' = lx_key x"
  by (auto simp: loc_ready_def write_pagemap_loc_def pb_write_pe_def Let_def)

lemma write_pages_loc_ready:
  "loc_ready E x \<Longrightarrow> n \<le> length (lx_pipes x p) \<Longrightarrow>
   \<exists>x'. write_pages_loc E x p n = Inr (0, x') \<and> lx_parent x' = lx_parent x \<and> lx_key x' = lx_key x"
  by (auto simp: loc_ready_def write_pages_loc_def splice_to_pages_def Let_def)

lemma write_pagehole_loc_ready:
  "loc_ready E x \<Longrightarrow> \<exists>x'. write_pagehole_loc E x v = Inr (0, x') \<and> lx_parent x' = lx_parent x \<and> lx_key x' = lx_key x"
  by (auto simp: loc_ready_def write_pagehole_loc_def pb_write_pe_def Let_def)

lemma loc_ready_keep:
  "loc_ready E x \<Longrightarrow> loc_open x' \<Longrightarrow> lx_parent x' = lx_parent x \<Longrightarrow> loc_ready E x'"
  by (simp add: loc_ready_def)

lemma loc_ready_open: "loc_ready E x \<Longrightarrow> loc_open x"
  by (simp add: loc_ready_def)

lemma write_seg_loc_ready:
  assumes "loc_ready E x" "iov_len v \<le> length (lx_pipes x p)"
  shows "\<exists>x'. write_seg (loc_ops E) p v x = Inr (0, x') \<and> loc_ready E x' \<and> lx_key x' = lx_key x"
proof -
  obtain x1 where w1: "write_pagemap_loc E x v = Inr (0, x1)" "lx_parent x1 = lx_parent x" "lx_key x1 = lx_key x"
    using write_pagemap_loc_ready [OF assms(1)] by blast
  note d1 = write_pagemap_loc_done [OF w1(1) loc_ready_open [OF assms(1)]]
  have r1: "loc_ready E x1" using loc_ready_keep [OF assms(1) d1(1) w1(2)] .
  obtain x2 where w2: "write_pages_loc E x1 p (iov_len v) = Inr (0, x2)" "lx_parent x2 = lx_parent x1" "lx_key x2 = lx_key x1"
    using write_pages_loc_ready [OF r1] assms(2) d1(3) by fastforce
  have "loc_ready E x2"
    using loc_ready_keep [OF r1 write_pages_loc_done(1) [OF w2(1) loc_ready_open [OF r1]] w2(2)] .
  with w1 w2 show ?thesis by (simp add: write_seg_def)
qed

text \<open>Ready, with the image \<open>k\<close> open.\<close>

definition loc_ready_at :: "xfer_env \<Rightarrow> int \<times> int \<Rightarrow> loc_xfer \<Rightarrow> bool" where
  "loc_ready_at E k x \<longleftrightarrow> loc_ready E x \<and> lx_key x = k"

interpretation loc_live: page_xfer_live "loc_ops E" loc_view lx_pipes "loc_ready_at E k" for E k
proof
  fix x x' :: loc_xfer and v
  assume r: "loc_ready_at E k x" and ok: "xiov_ok v" and w: "write_hole (loc_ops E) x v = Inr (0, x')"
  have rd: "loc_ready E x" using r by (simp add: loc_ready_at_def)
  have "lx_parent x' = lx_parent x" "lx_key x' = lx_key x" using write_pagehole_loc_ready [OF rd, of v] w by simp_all
  with loc.hole_law [OF loc_ready_open [OF rd] ok w] loc_ready_keep [OF rd] r
  show "loc_ready_at E k x' \<and> loc_view x' = (fst (loc_view x) @ [mk_pe True v], snd (loc_view x)) \<and> lx_pipes x' = lx_pipes x"
    by (simp add: loc_ready_at_def)
next
  fix x x' :: loc_xfer and v p
  assume r: "loc_ready_at E k x" and ok: "xiov_ok v" and w: "write_seg (loc_ops E) p v x = Inr (0, x')"
  have rd: "loc_ready E x" using r by (simp add: loc_ready_at_def)
  note l = loc.seg_law [OF loc_ready_open [OF rd] ok w]
  then have "loc_ready_at E k x'" using write_seg_loc_ready [OF rd, of v p] w r by (simp add: loc_ready_at_def)
  with l show "loc_ready_at E k x' \<and> loc_view x' = (fst (loc_view x) @ [mk_pe False v], snd (loc_view x) @ take (iov_len v) (lx_pipes x p))
      \<and> iov_len v \<le> length (lx_pipes x p) \<and> lx_pipes x' = (lx_pipes x)(p := drop (iov_len v) (lx_pipes x p))"
    by blast
next
  fix x :: loc_xfer
  show "loc_view (xfer_close (loc_ops E) x) = loc_view x" by (rule loc.close_law)
next
  fix x :: loc_xfer and v
  assume "loc_ready_at E k x"
  then show "\<exists>x'. write_hole (loc_ops E) x v = Inr (0, x')"
    using write_pagehole_loc_ready [of E x v] by (auto simp: loc_ready_at_def)
next
  fix x :: loc_xfer and v :: iovec and p
  assume "loc_ready_at E k x" "iov_len v \<le> length (lx_pipes x p)"
  then show "\<exists>x'. write_seg (loc_ops E) p v x = Inr (0, x')"
    using write_seg_loc_ready [of E x v p] by (auto simp: loc_ready_at_def)
qed

section \<open>What a transferred image contains\<close>

text \<open>\<open>mem a\<close> is the page of the task at address \<open>a\<close>.\<close>

definition seg_bytes :: "(nat \<Rightarrow> byte list) \<Rightarrow> iovec \<Rightarrow> byte list" where
  "seg_bytes mem v = concat (map mem (iov_pages v))"

fun ev_bytes :: "(nat \<Rightarrow> byte list) \<Rightarrow> xevent \<Rightarrow> byte list" where
  "ev_bytes mem (XHole v) = []"
| "ev_bytes mem (XPages p v) = seg_bytes mem v"

definition plan_image :: "(nat \<Rightarrow> byte list) \<Rightarrow> xevent list \<Rightarrow> snapshot" where
  "plan_image mem es = (map ev_entry es, concat (map (ev_bytes mem) es))"

lemma length_concat_map_const: "\<forall>x \<in> set xs. length (f x) = n \<Longrightarrow> length (concat (map f xs)) = length xs * n"
  by (induction xs) auto

lemma length_seg_bytes:
  "(\<And>a. length (mem a) = PAGE_SIZE) \<Longrightarrow> iov_ok v \<Longrightarrow> length (seg_bytes mem v) = iov_len v"
  using length_concat_map_const [of "iov_pages v" mem PAGE_SIZE]
  by (simp add: seg_bytes_def iov_pages_def iov_ok_def)

lemma take_drop_concat_map:
  "(\<And>a. length (f a) = n) \<Longrightarrow> i < length xs \<Longrightarrow> take n (drop (i * n) (concat (map f xs))) = f (xs ! i)"
proof (induction xs arbitrary: i)
  case (Cons x xs)
  then show ?case by (cases i) (auto simp: add.commute)
qed simp

lemma mk_pe_small:
  assumes "xiov_ok v"
  shows "pe_small (mk_pe b v)" "pe_end (mk_pe b v) = iov_end v" "nr_pages (mk_pe b v) = iov_len v div PAGE_SIZE"
    "vaddr (mk_pe b v) = iov_base v" "in_parent (mk_pe b v) = b"
proof -
  have "iov_len v div PAGE_SIZE < 2 ^ 20" using assms by (auto simp: xiov_ok_def PAGE_SIZE_def)
  then show "nr_pages (mk_pe b v) = iov_len v div PAGE_SIZE" "pe_small (mk_pe b v)"
    by (simp_all add: mk_pe_def pe_small_def)
  then show "pe_end (mk_pe b v) = iov_end v" "vaddr (mk_pe b v) = iov_base v" "in_parent (mk_pe b v) = b"
    using assms by (simp_all add: pe_end_def mk_pe_def iov_end_def xiov_ok_def iov_ok_def)
qed

lemma ev_entry_simps:
  assumes "xiov_ok (ev_iov e)"
  shows "pe_small (ev_entry e)" "pe_end (ev_entry e) = iov_end (ev_iov e)"
    "vaddr (ev_entry e) = iov_base (ev_iov e)"
  using assms by (cases e; simp add: mk_pe_small)+

lemma iov_pages_in:
  assumes "va \<in> set (iov_pages v)" "iov_ok v"
  shows "iov_base v \<le> va \<and> va < iov_end v \<and> va + PAGE_SIZE \<le> iov_end v
     \<and> (\<exists>i < length (iov_pages v). va = iov_pages v ! i \<and> va - iov_base v = i * PAGE_SIZE)"
proof -
  from assms(1) obtain i where i: "i < iov_len v div PAGE_SIZE" "va = iov_base v + i * PAGE_SIZE"
    by (auto simp: iov_pages_def page_range_mem)
  then have nth: "iov_pages v ! i = va" "i < length (iov_pages v)" by (simp_all add: iov_pages_def page_range_def)
  have "va + PAGE_SIZE \<le> iov_base v + iov_len v div PAGE_SIZE * PAGE_SIZE"
    using page_range_bounds(2) assms(1) by (simp add: iov_pages_def)
  also have "\<dots> = iov_end v" using assms(2) by (simp add: iov_ok_def iov_end_def)
  finally have le: "va + PAGE_SIZE \<le> iov_end v" .
  then have "va < iov_end v" using PAGE_SIZE_pos by linarith
  with i nth le show ?thesis by auto
qed

text \<open>Looking up a page of one of the events in the image that the events produce.\<close>

lemma plan_image_find:
  assumes "pm_wf (map ev_entry es)" "\<forall>e \<in> set es. xiov_ok (ev_iov e)" "e \<in> set es"
    and "va \<in> set (iov_pages (ev_iov e))" "\<And>a. length (mem a) = PAGE_SIZE"
  shows "\<exists>o'. pm_find (map ev_entry es) k va = Some (ev_entry e, k + o') \<and>
     (\<not> in_parent (ev_entry e) \<longrightarrow>
       o' + PAGE_SIZE \<le> length (concat (map (ev_bytes mem) es)) \<and>
       take PAGE_SIZE (drop o' (concat (map (ev_bytes mem) es))) = mem va)"
  using assms(1-3)
proof (induction es arbitrary: k)
  case Nil
  then show ?case by simp
next
  case (Cons d ds)
  have ok: "xiov_ok (ev_iov d)" "xiov_ok (ev_iov e)" using Cons.prems(2,3) by auto
  have iv: "iov_ok (ev_iov e)" using ok(2) by (simp add: xiov_ok_def)
  note vin = iov_pages_in [OF assms(4) iv]
  show ?case
  proof (cases "e = d")
    case True
    from vin obtain i where i: "i < length (iov_pages (ev_iov e))" "va = iov_pages (ev_iov e) ! i"
        "va - iov_base (ev_iov e) = i * PAGE_SIZE" by blast
    have own: "i * PAGE_SIZE + PAGE_SIZE \<le> length (seg_bytes mem v) \<and>
        take PAGE_SIZE (drop (i * PAGE_SIZE) (seg_bytes mem v @ r)) = mem va"
      if "e = XPages p v" for p v r
    proof -
      have l: "length (seg_bytes mem v) = iov_len v" using iv that by (simp add: length_seg_bytes assms(5))
      have "i * PAGE_SIZE + PAGE_SIZE \<le> iov_len v"
        using vin i(3) that unfolding iov_end_def by (simp, linarith)
      then show ?thesis
        using take_drop_concat_map [of mem PAGE_SIZE i "iov_pages v"] assms(5) i(1,2) that l
        by (simp add: seg_bytes_def)
    qed
    show ?thesis
      using vin i(3) True own ok
      by (cases e) (auto simp: ev_entry_simps mk_pe_small intro: trans_le_add1)
  next
    case False
    with Cons.prems have mem: "e \<in> set ds" by simp
    have above: "pe_end (ev_entry d) \<le> vaddr (ev_entry e)" using Cons.prems(1) mem by auto
    have skip: "\<not> va < pe_end (ev_entry d)" using above vin ok by (simp add: ev_entry_simps)
    obtain o' where o': "pm_find (map ev_entry ds) (k + own_bytes (ev_entry d)) va = Some (ev_entry e, k + own_bytes (ev_entry d) + o')"
      "\<not> in_parent (ev_entry e) \<longrightarrow> o' + PAGE_SIZE \<le> length (concat (map (ev_bytes mem) ds)) \<and>
       take PAGE_SIZE (drop o' (concat (map (ev_bytes mem) ds))) = mem va"
      using Cons.IH [OF _ _ mem, of "k + own_bytes (ev_entry d)"] Cons.prems(1,2) by auto
    have len: "length (ev_bytes mem d) = own_bytes (ev_entry d)"
      using ok(1) by (cases d) (auto simp: own_bytes_def mk_pe_small length_seg_bytes assms(5) xiov_ok_def iov_ok_def)
    show ?thesis
      using o' skip len by (intro exI [of _ "own_bytes (ev_entry d) + o'"]) (auto simp: add.assoc)
  qed
qed

text \<open>
  Ranges in increasing order that do not overlap; segments and holes of a page pipe are
  such lists, and no hole overlaps a segment.
\<close>

definition iov_before :: "iovec \<Rightarrow> iovec \<Rightarrow> bool" where
  "iov_before a b \<longleftrightarrow> iov_end a \<le> iov_base b"

definition plan_ordered :: "iovec list \<Rightarrow> iovec list \<Rightarrow> bool" where
  "plan_ordered vs hs \<longleftrightarrow> sorted_wrt iov_before vs \<and> sorted_wrt iov_before hs
     \<and> (\<forall>v \<in> set vs. \<forall>h \<in> set hs. iov_before v h \<or> iov_before h v)"

lemma set_xfer_plan:
  "set (xfer_plan off ss hs) = XHole ` set hs \<union> (\<lambda>(p, v). XPages p (v\<lparr>iov_base := iov_base v - off\<rparr>)) ` set ss"
proof (induction off ss hs rule: xfer_plan.induct)
  case (2 off p v ss hs)
  have "set hs = set (takeWhile (\<lambda>h. iov_base h < iov_base v) hs) \<union> set (dropWhile (\<lambda>h. iov_base h < iov_base v) hs)"
    by (metis set_append takeWhile_dropWhile_id)
  with 2 show ?case by auto
qed simp

lemma iov_before_trans: "iov_before a b \<Longrightarrow> iov_before b c \<Longrightarrow> iov_before a c"
  unfolding iov_before_def iov_end_def by linarith

lemma sorted_wrt_split_iov:
  assumes "sorted_wrt iov_before hs" "\<forall>h \<in> set hs. iov_ok h" "h \<in> set (dropWhile (\<lambda>h. iov_base h < b) hs)"
  shows "b \<le> iov_base h"
  using assms
proof (induction hs)
  case (Cons a hs)
  show ?case
  proof (cases "iov_base a < b")
    case False
    from Cons.prems(3) False have "h = a \<or> iov_before a h" using Cons.prems(1) by auto
    with False show ?thesis by (auto simp: iov_before_def iov_end_def)
  qed (use Cons in auto)
qed simp

lemma xfer_plan_sorted:
  assumes "plan_ordered (map snd ss) hs" "\<forall>v \<in> snd ` set ss \<union> set hs. iov_ok v"
  shows "sorted_wrt iov_before (map ev_iov (xfer_plan 0 ss hs))"
  using assms
proof (induction "0::nat" ss hs rule: xfer_plan.induct)
  case (1 hs)
  then show ?case by (simp add: plan_ordered_def o_def)
next
  case (2 p v ss hs)
  let ?lo = "takeWhile (\<lambda>h. iov_base h < iov_base v) hs"
  let ?hi = "dropWhile (\<lambda>h. iov_base h < iov_base v) hs"
  have hs: "hs = ?lo @ ?hi" by simp
  have so: "sorted_wrt iov_before ?lo" "sorted_wrt iov_before ?hi" "\<forall>a \<in> set ?lo. \<forall>b \<in> set ?hi. iov_before a b"
    using 2(2) hs sorted_wrt_append [of iov_before ?lo ?hi] by (simp_all add: plan_ordered_def)
  have lo: "iov_before h v" if "h \<in> set ?lo" for h
  proof -
    have "iov_base h < iov_base v" "h \<in> set hs" using that set_takeWhileD by fastforce+
    with 2(2) show ?thesis by (auto simp: plan_ordered_def iov_before_def iov_end_def)
  qed
  have hi: "iov_before v h" if h: "h \<in> set ?hi" for h
  proof -
    have hin: "h \<in> set hs" using h by (rule set_dropWhileD)
    have "iov_base v \<le> iov_base h"
      using sorted_wrt_split_iov [OF _ _ h] 2(2,3) by (simp add: plan_ordered_def)
    moreover have "0 < iov_len h" using 2(3) hin by (auto simp: iov_ok_def)
    ultimately show ?thesis using 2(2) hin by (auto simp: plan_ordered_def iov_before_def iov_end_def)
  qed
  have ord: "plan_ordered (map snd ss) ?hi"
    using 2(2) so(2) unfolding plan_ordered_def by (auto dest!: set_dropWhileD)
  have ok: "\<forall>v \<in> snd ` set ss \<union> set ?hi. iov_ok v" using 2(3) by (auto dest: set_dropWhileD)
  have ss: "iov_before v w" if "(q, w) \<in> set ss" for q w
    using 2(2) that by (auto simp: plan_ordered_def)
  have after: "iov_before v (ev_iov e)" if "e \<in> set (xfer_plan 0 ss ?hi)" for e
    using that hi ss by (auto simp: set_xfer_plan)
  have "sorted_wrt iov_before (?lo @ v # map ev_iov (xfer_plan 0 ss ?hi))"
    using so(1) lo after 2(1) [OF ord ok] iov_before_trans by (fastforce simp: sorted_wrt_append)
  then show ?case by (simp add: o_def)
qed

lemma pm_wf_plan:
  assumes "sorted_wrt iov_before (map ev_iov es)" "\<forall>e \<in> set es. xiov_ok (ev_iov e)"
  shows "pm_wf (map ev_entry es)"
  using assms by (induction es) (auto simp: ev_entry_simps iov_before_def)

text \<open>The pipes hold the pages of the segments, in the order of the segments.\<close>

definition pipes_hold :: "(nat \<Rightarrow> byte list) \<Rightarrow> nat \<Rightarrow> (nat \<times> iovec) list \<Rightarrow> (nat \<Rightarrow> byte list) \<Rightarrow> bool" where
  "pipes_hold mem off ss pipe \<longleftrightarrow> (\<forall>p. pipe p =
     concat (map (\<lambda>(q, v). seg_bytes mem (v\<lparr>iov_base := iov_base v - off\<rparr>)) (filter (\<lambda>(q, v). q = p) ss)))"

lemma plan_fits_holes [simp]: "plan_fits pipe (map XHole hs @ es) = plan_fits pipe es"
  by (induction hs) auto

lemma plan_data_holes [simp]: "plan_data pipe (map XHole hs @ es) = plan_data pipe es"
  by (induction hs) auto

lemma ev_bytes_holes [simp]: "concat (map (ev_bytes mem \<circ> XHole) hs) = []"
  by (induction hs) auto

lemma plan_data_pipes:
  assumes "pipes_hold mem off ss pipe" "\<And>a. length (mem a) = PAGE_SIZE" "\<forall>(p, v) \<in> set ss. iov_ok v"
  shows "plan_fits pipe (xfer_plan off ss hs) \<and>
     plan_data pipe (xfer_plan off ss hs) = concat (map (ev_bytes mem) (xfer_plan off ss hs))"
  using assms(1,3)
proof (induction off ss hs arbitrary: pipe rule: xfer_plan.induct)
  case (1 off hs)
  then show ?case using plan_fits_holes [of pipe hs "[]"] plan_data_holes [of pipe hs "[]"] by simp
next
  case (2 off p v ss hs)
  let ?v = "v\<lparr>iov_base := iov_base v - off\<rparr>"
  have len: "length (seg_bytes mem ?v) = iov_len v"
    using length_seg_bytes [of mem ?v] assms(2) 2(3) by (simp add: iov_ok_def)
  have pp: "pipe p = seg_bytes mem ?v @ concat (map (\<lambda>(q, v). seg_bytes mem (v\<lparr>iov_base := iov_base v - off\<rparr>)) (filter (\<lambda>(q, v). q = p) ss))"
    using 2(2) by (simp add: pipes_hold_def)
  have "pipes_hold mem off ss (pipe(p := drop (iov_len v) (pipe p)))"
    using 2(2) pp len by (auto simp: pipes_hold_def)
  with 2(1) [OF this] 2(3) pp len show ?case by (simp add: fun_upd_def)
qed

section \<open>A filled page pipe\<close>

text \<open>
  Pages and holes as the dumper adds them: aligned addresses, each kind in increasing order,
  and no page of both kinds.
\<close>

definition pp_ordered :: "page_pipe \<Rightarrow> bool" where
  "pp_ordered pp \<longleftrightarrow> sorted_wrt (<) (pp_pages pp) \<and> sorted_wrt (<) (pp_hole_pages pp)
     \<and> set (pp_pages pp) \<inter> set (pp_hole_pages pp) = {}
     \<and> (\<forall>a \<in> set (pp_pages pp) \<union> set (pp_hole_pages pp). PAGE_SIZE dvd a)"

lemma iov_first_last:
  assumes "iov_ok v"
  shows "iov_base v \<in> set (iov_pages v)" "iov_end v - PAGE_SIZE \<in> set (iov_pages v)" "iov_base v + PAGE_SIZE \<le> iov_end v"
proof -
  from assms obtain n where n: "iov_len v = PAGE_SIZE * n" "0 < n" by (auto simp: iov_ok_def elim!: dvdE)
  then have len: "iov_len v div PAGE_SIZE = n" by simp
  show "iov_base v \<in> set (iov_pages v)"
    using n len by (auto simp: iov_pages_def page_range_mem)
  obtain m where m: "n = Suc m" using n by (cases n) auto
  then have "iov_end v - PAGE_SIZE = iov_base v + m * PAGE_SIZE" using n by (simp add: iov_end_def mult.commute)
  with m len show "iov_end v - PAGE_SIZE \<in> set (iov_pages v)"
    by (auto simp: iov_pages_def page_range_mem)
  show "iov_base v + PAGE_SIZE \<le> iov_end v" using n m by (simp add: iov_end_def)
qed

lemma iov_pages_aligned:
  assumes "iov_ok v" "PAGE_SIZE dvd iov_base v" "PAGE_SIZE dvd a" "iov_base v \<le> a" "a < iov_end v"
  shows "a \<in> set (iov_pages v)"
proof -
  from assms have "PAGE_SIZE dvd a - iov_base v" by simp
  then obtain i where i: "a - iov_base v = PAGE_SIZE * i" by (elim dvdE)
  from assms obtain n where n: "iov_len v = PAGE_SIZE * n" by (auto simp: iov_ok_def elim!: dvdE)
  from assms(4,5) have "a - iov_base v < iov_len v" by (simp add: iov_end_def)
  then have "i < n" unfolding i n by simp
  moreover have "a = iov_base v + i * PAGE_SIZE" using i assms(4) by (simp add: mult.commute)
  ultimately show ?thesis using n by (auto simp: iov_pages_def page_range_mem)
qed

lemma sorted_iovs:
  assumes "sorted_wrt (<) (concat (map iov_pages vs))" "\<forall>v \<in> set vs. iov_ok v"
    and "\<forall>a \<in> set (concat (map iov_pages vs)). PAGE_SIZE dvd a"
  shows "sorted_wrt iov_before vs"
  using assms
proof (induction vs)
  case (Cons v vs)
  have "iov_before v w" if w: "w \<in> set vs" for w
  proof -
    have fl: "iov_end v - PAGE_SIZE \<in> set (iov_pages v)" "iov_base w \<in> set (iov_pages w)"
      "iov_base v + PAGE_SIZE \<le> iov_end v"
      using iov_first_last [of v] iov_first_last [of w] Cons.prems(2) w by auto
    then have "iov_end v - PAGE_SIZE < iov_base w"
      using Cons.prems(1) w by (auto simp: sorted_wrt_append)
    moreover have "PAGE_SIZE dvd iov_end v - PAGE_SIZE" "PAGE_SIZE dvd iov_base w"
      using Cons.prems(3) fl w by auto
    ultimately have "iov_end v - PAGE_SIZE + PAGE_SIZE \<le> iov_base w" by (intro page_step)
    with fl(3) show ?thesis by (simp add: iov_before_def)
  qed
  with Cons show ?case by (auto simp: sorted_wrt_append)
qed simp

lemma iov_disjoint:
  assumes "iov_ok v" "iov_ok w" "PAGE_SIZE dvd iov_base v" "PAGE_SIZE dvd iov_base w"
    and "set (iov_pages v) \<inter> set (iov_pages w) = {}"
  shows "iov_before v w \<or> iov_before w v"
proof (rule ccontr)
  assume no: "\<not> (iov_before v w \<or> iov_before w v)"
  have "iov_base w \<in> set (iov_pages v) \<or> iov_base v \<in> set (iov_pages w)"
    using no iov_pages_aligned [OF assms(1,3,4)] iov_pages_aligned [OF assms(2,4,3)]
    by (cases "iov_base v \<le> iov_base w") (auto simp: iov_before_def)
  with assms(5) iov_first_last(1) [OF assms(1)] iov_first_last(1) [OF assms(2)] show False by blast
qed

lemma map_snd_pp_segs:
  assumes "pp_wf pp"
  shows "map snd (pp_segs pp) = take (free_iov pp) (iovs pp)"
proof -
  have "map snd (pp_segs pp) = concat (map (segs (iovs pp)) (bufs pp))"
    by (simp add: pp_segs_def buf_segs_def map_concat o_def)
  also have "\<dots> = take (free_iov pp) (iovs pp)"
    using assms concat_segs [of 0 "bufs pp" "free_iov pp" "iovs pp"]
    by (simp add: pp_wf_def pp_bufs_wf_def)
  finally show ?thesis .
qed

lemma pp_segs_ok:
  assumes "pp_wf pp" "(p, v) \<in> set (pp_segs pp)"
  shows "iov_ok v" "iov_len v < 2 ^ 32"
proof -
  from assms(2) obtain b where b: "b \<in> set (bufs pp)" "v \<in> set (segs (iovs pp) b)"
    by (auto simp: pp_segs_def buf_segs_def)
  have bo: "buf_ok (iovs pp) b" using assms(1) b(1) by (auto simp: pp_wf_def pp_bufs_wf_def list_all_iff)
  have "v \<in> set (map snd (pp_segs pp))" using assms(2) by force
  then have "v \<in> set (take (free_iov pp) (iovs pp))" by (simp only: map_snd_pp_segs [OF assms(1)])
  then have ok: "iov_ok v" using assms(1) by (simp add: pp_wf_def pp_bufs_wf_def list_all_iff)
  from b(2) have "length (iov_pages v) \<le> length (concat (map iov_pages (segs (iovs pp) b)))"
    by (simp add: length_concat member_le_sum_list)
  also have "\<dots> < 2 ^ 19" using bo by (simp add: buf_ok_def)
  finally have "iov_len v div PAGE_SIZE < 2 ^ 19" by (simp add: iov_pages_def)
  then show "iov_len v < 2 ^ 32" by (auto simp: PAGE_SIZE_def)
  show "iov_ok v" by (rule ok)
qed

lemma pp_plan_ordered:
  assumes "pp_wf pp" "pp_ordered pp"
  shows "plan_ordered (map snd (pp_segs pp)) (take (free_hole pp) (holes pp))"
proof -
  let ?vs = "take (free_iov pp) (iovs pp)" and ?hs = "take (free_hole pp) (holes pp)"
  have ok: "\<forall>v \<in> set ?vs. iov_ok v" "\<forall>v \<in> set ?hs. iov_ok v"
    using assms(1) by (auto simp: pp_wf_def pp_bufs_wf_def pp_holes_wf_def list_all_iff)
  have al: "\<forall>a \<in> set (concat (map iov_pages ?vs)). PAGE_SIZE dvd a" "\<forall>a \<in> set (concat (map iov_pages ?hs)). PAGE_SIZE dvd a"
    using assms(2) by (auto simp: pp_ordered_def pp_pages_def pp_hole_pages_def)
  have "sorted_wrt iov_before ?vs" "sorted_wrt iov_before ?hs"
    using sorted_iovs [OF _ ok(1) al(1)] sorted_iovs [OF _ ok(2) al(2)] assms(2)
    by (auto simp: pp_ordered_def pp_pages_def pp_hole_pages_def)
  moreover have "iov_before v h \<or> iov_before h v" if "v \<in> set ?vs" "h \<in> set ?hs" for v h
  proof (rule iov_disjoint)
    show "iov_ok v" "iov_ok h" using ok that by auto
    then have "iov_base v \<in> set (iov_pages v)" "iov_base h \<in> set (iov_pages h)" by (simp_all add: iov_first_last)
    with al that show "PAGE_SIZE dvd iov_base v" "PAGE_SIZE dvd iov_base h" by auto
    have "set (iov_pages v) \<subseteq> set (pp_pages pp)" "set (iov_pages h) \<subseteq> set (pp_hole_pages pp)"
      using that by (auto simp: pp_pages_def pp_hole_pages_def)
    moreover have "set (pp_pages pp) \<inter> set (pp_hole_pages pp) = {}"
      using assms(2) by (simp add: pp_ordered_def)
    ultimately show "set (iov_pages v) \<inter> set (iov_pages h) = {}" by blast
  qed
  ultimately show ?thesis by (simp add: plan_ordered_def map_snd_pp_segs [OF assms(1)])
qed

text \<open>The merged list of a page pipe, and the image it stands for.\<close>

definition pp_plan :: "page_pipe \<Rightarrow> xevent list" where
  "pp_plan pp = xfer_plan 0 (pp_segs pp) (take (free_hole pp) (holes pp))"

definition pp_small :: "page_pipe \<Rightarrow> bool" where
  "pp_small pp \<longleftrightarrow> (\<forall>h \<in> set (take (free_hole pp) (holes pp)). iov_len h < 2 ^ 32 \<and> iov_base h < 2 ^ 64)
     \<and> (\<forall>v \<in> set (take (free_iov pp) (iovs pp)). iov_base v < 2 ^ 64)"

lemma set_pp_plan:
  "set (pp_plan pp) = XHole ` set (take (free_hole pp) (holes pp)) \<union> (\<lambda>(p, v). XPages p v) ` set (pp_segs pp)"
  by (simp add: pp_plan_def set_xfer_plan)

lemma pp_plan_xiov:
  assumes "pp_wf pp" "pp_small pp" "e \<in> set (pp_plan pp)"
  shows "xiov_ok (ev_iov e)"
proof (cases e)
  case (XHole h)
  with assms show ?thesis
    by (auto simp: set_pp_plan pp_small_def xiov_ok_def pp_wf_def pp_holes_wf_def list_all_iff)
next
  case (XPages p v)
  with assms(3) have v: "(p, v) \<in> set (pp_segs pp)" by (auto simp: set_pp_plan)
  then have "v \<in> set (map snd (pp_segs pp))" by force
  then have "iov_base v < 2 ^ 64" using assms(2) by (simp add: map_snd_pp_segs [OF assms(1)] pp_small_def del: set_map)
  with pp_segs_ok [OF assms(1) v] XPages show ?thesis by (simp add: xiov_ok_def)
qed

lemma pp_plan_wf:
  assumes "pp_wf pp" "pp_ordered pp" "pp_small pp"
  shows "pm_wf (map ev_entry (pp_plan pp))"
proof (rule pm_wf_plan)
  have "\<forall>v \<in> snd ` set (pp_segs pp) \<union> set (take (free_hole pp) (holes pp)). iov_ok v"
    using assms(1) pp_segs_ok [OF assms(1)]
    by (force simp: xiov_ok_def pp_wf_def pp_holes_wf_def list_all_iff)
  from xfer_plan_sorted [OF pp_plan_ordered [OF assms(1,2)] this]
  show "sorted_wrt iov_before (map ev_iov (pp_plan pp))" by (simp add: pp_plan_def)
qed (use pp_plan_xiov assms in blast)

lemma pp_plan_aligned:
  assumes "pp_wf pp" "pp_ordered pp" "pp_small pp" "e \<in> set (pp_plan pp)"
  shows "PAGE_SIZE dvd vaddr (ev_entry e)"
proof -
  have ok: "xiov_ok (ev_iov e)" by (rule pp_plan_xiov [OF assms(1,3,4)])
  then have base: "iov_base (ev_iov e) \<in> set (iov_pages (ev_iov e))"
    by (simp add: xiov_ok_def iov_first_last)
  have "ev_iov e \<in> set (map snd (pp_segs pp)) \<union> set (take (free_hole pp) (holes pp))"
    using assms(4) by (force simp: set_pp_plan)
  then have "iov_base (ev_iov e) \<in> set (pp_pages pp) \<union> set (pp_hole_pages pp)"
    using base unfolding map_snd_pp_segs [OF assms(1)] by (auto simp: pp_pages_def pp_hole_pages_def)
  with assms(2) ok show ?thesis by (auto simp: pp_ordered_def ev_entry_simps)
qed

lemma pp_pages_event:
  assumes "pp_wf pp" "va \<in> set (pp_pages pp)"
  obtains p v where "XPages p v \<in> set (pp_plan pp)" "va \<in> set (iov_pages v)"
proof -
  from assms(2) obtain v where v: "v \<in> set (map snd (pp_segs pp))" "va \<in> set (iov_pages v)"
    unfolding map_snd_pp_segs [OF assms(1)] by (auto simp: pp_pages_def)
  then obtain p where "(p, v) \<in> set (pp_segs pp)" by auto
  then have "XPages p v \<in> set (pp_plan pp)" by (force simp: set_pp_plan)
  with v(2) that show ?thesis by blast
qed

lemma plan_image_page:
  assumes "pp_wf pp" "pp_ordered pp" "pp_small pp" "\<And>a. length (mem a) = PAGE_SIZE"
    and "va \<in> set (pp_pages pp)"
  shows "snap_page (plan_image mem (pp_plan pp) # ss) va = Some (mem va)"
proof -
  obtain p v where e: "XPages p v \<in> set (pp_plan pp)" "va \<in> set (iov_pages v)"
    using pp_pages_event [OF assms(1,5)] .
  have ok: "\<forall>e \<in> set (pp_plan pp). xiov_ok (ev_iov e)" using pp_plan_xiov assms(1,3) by blast
  from plan_image_find [OF pp_plan_wf [OF assms(1-3)] ok e(1), of va mem 0] e(2) assms(4)
  show ?thesis by (auto simp: plan_image_def mk_pe_def)
qed

lemma plan_image_hole:
  assumes "pp_wf pp" "pp_ordered pp" "pp_small pp" "va \<in> set (pp_hole_pages pp)"
  shows "snap_page (plan_image mem (pp_plan pp) # ss) va = snap_page ss va"
proof -
  obtain h where e: "XHole h \<in> set (pp_plan pp)" "va \<in> set (iov_pages h)"
    using assms(4) by (auto simp: set_pp_plan pp_hole_pages_def)
  have ok: "\<forall>e \<in> set (pp_plan pp). xiov_ok (ev_iov e)" using pp_plan_xiov assms(1,3) by blast
  from plan_image_find [OF pp_plan_wf [OF assms(1-3)] ok e(1), of va "\<lambda>_. replicate PAGE_SIZE 0" 0] e(2)
  show ?thesis by (auto simp: plan_image_def mk_pe_def)
qed

lemma plan_image_pages:
  assumes "pp_wf pp" "pp_small pp"
  shows "set (concat (map pe_pages (fst (plan_image mem (pp_plan pp))))) = set (pp_pages pp) \<union> set (pp_hole_pages pp)"
proof -
  have "pe_pages (ev_entry e) = iov_pages (ev_iov e)" if "e \<in> set (pp_plan pp)" for e
    using pp_plan_xiov [OF assms that] by (cases e) (simp_all add: pe_pages_def iov_pages_def mk_pe_small)
  then have "set (concat (map pe_pages (fst (plan_image mem (pp_plan pp))))) = (\<Union>e \<in> set (pp_plan pp). set (iov_pages (ev_iov e)))"
    by (simp add: plan_image_def)
  also have "\<dots> = (\<Union>v \<in> set (map snd (pp_segs pp)) \<union> set (take (free_hole pp) (holes pp)). set (iov_pages v))"
    by (force simp: set_pp_plan)
  finally show ?thesis unfolding map_snd_pp_segs [OF assms(1)] by (simp add: pp_pages_def pp_hole_pages_def)
qed

lemma plan_image_chain:
  assumes "pp_wf pp" "pp_ordered pp" "pp_small pp" "chain_ok ss" "ss \<noteq> [] \<or> free_hole pp = 0"
  shows "chain_ok (plan_image mem (pp_plan pp) # ss)"
  using pp_plan_wf [OF assms(1-3)] pp_plan_aligned [OF assms(1-3)] assms(4,5)
  by (auto simp: plan_image_def set_pp_plan mk_pe_def)

text \<open>What a successful transfer of a page pipe leaves, for any backend and then for the local one.\<close>

lemma plan_view_image:
  assumes "pp_wf pp" "pipes_hold mem 0 (pp_segs pp) pipe" "\<And>a. length (mem a) = PAGE_SIZE"
  shows "plan_fits pipe (pp_plan pp)" "(map ev_entry (pp_plan pp), plan_data pipe (pp_plan pp)) = plan_image mem (pp_plan pp)"
proof -
  have "\<forall>(p, v) \<in> set (pp_segs pp). iov_ok v" using pp_segs_ok [OF assms(1)] by (auto simp: xiov_ok_def)
  from plan_data_pipes [OF assms(2,3) this, of "take (free_hole pp) (holes pp)"]
  show "plan_fits pipe (pp_plan pp)" "(map ev_entry (pp_plan pp), plan_data pipe (pp_plan pp)) = plan_image mem (pp_plan pp)"
    by (simp_all add: pp_plan_def plan_image_def)
qed

context page_xfer_live
begin

lemma dump_pages_image:
  assumes "pp_wf pp" "pp_small pp" "inv x" "view x = ([], [])"
    and "pipes_hold mem 0 (pp_segs pp) (pipe x)" "\<And>a. length (mem a) = PAGE_SIZE"
  shows "\<exists>pp' x'. page_xfer_dump_pages xf pp 0 x = Inr (0, pp', x') \<and> inv x' \<and> view x' = plan_image mem (pp_plan pp)"
proof -
  have ok: "\<forall>e \<in> set (pp_plan pp). xiov_ok (ev_iov e)" using pp_plan_xiov assms(1,2) by blast
  note img = plan_view_image [OF assms(1,5,6)]
  have z: "\<forall>v \<in> set (take (free_iov pp) (iovs pp)). 0 \<le> iov_base v" by simp
  obtain pp' x' where run: "page_xfer_dump_pages xf pp 0 x = Inr (0, pp', x')"
    using dump_pages_live [OF assms(1) z assms(3) pp_plan_def ok img(1)] by blast
  from dump_pages_view [OF assms(1) z run assms(3) pp_plan_def ok] img(2) assms(4) run
  show ?thesis by simp
qed

end

lemma open_page_local_xfer_ready:
  assumes "\<forall>n. pb_ok E n" "\<forall>n len. splice_ret E n len = int len" "\<forall>k. open_pm E k \<and> open_pg E k" "\<not> auto_dedup E"
  shows "\<exists>x1. open_page_local_xfer E t i x = (0, x1) \<and> loc_ready_at E (t, i) x1 \<and> loc_view x1 = ([], [])
     \<and> lx_pipes x1 = lx_pipes x"
  using assms by (simp add: open_page_local_xfer_def loc_ready_at_def loc_ready_def loc_open_def loc_view_def Let_def)

lemma no_hole_pages:
  assumes "pp_wf pp" "pp_hole_pages pp = []"
  shows "free_hole pp = 0"
proof (rule ccontr)
  assume "free_hole pp \<noteq> 0"
  then obtain h hs where h: "take (free_hole pp) (holes pp) = h # hs"
    using assms(1) by (cases "take (free_hole pp) (holes pp)") (auto simp: pp_wf_def pp_holes_wf_def)
  then have "iov_ok h" using assms(1) by (simp add: pp_wf_def pp_holes_wf_def)
  from iov_ok_pages [OF this] h assms(2) show False by (simp add: pp_hole_pages_def)
qed

section \<open>Properties\<close>

text \<open>C7: For every backend, transferring (from offset 0) a well-formed page pipe whose pages and
  holes were added in address order makes exactly the calls of the
  list that merges segments and holes by address (a hole is sent before the segment above
  it), stops at the first call that fails, and hands that outcome back; the merged list has no
  overlaps and ascends, so the pagemap it writes is sorted as readers require.\<close>

theorem dump_pages_merges:
  assumes "pp_wf pp" "pp_ordered pp"
  shows "map_sum id (\<lambda>(r, pp', x'). (r, x')) (page_xfer_dump_pages xf pp 0 x) = run_plan xf (pp_plan pp) x
     \<and> sorted_wrt iov_before (map ev_iov (pp_plan pp))"
proof -
  have "\<forall>v \<in> snd ` set (pp_segs pp) \<union> set (take (free_hole pp) (holes pp)). iov_ok v"
    using assms(1) pp_segs_ok [OF assms(1)]
    by (force simp: xiov_ok_def pp_wf_def pp_holes_wf_def list_all_iff)
  from xfer_plan_sorted [OF pp_plan_ordered [OF assms] this] page_xfer_dump_pages_plan [OF assms(1), of 0 xf x]
  show ?thesis by (simp add: pp_plan_def)
qed

text \<open>A page pipe with the pages 1 and 2 in its pipe and page 3 as a hole, and its pipes.\<close>

definition ex_hpp :: page_pipe where
  "ex_hpp = ex_pp\<lparr>nr_holes := 1, free_hole := 1, holes := [\<lparr>iov_base = 12288, iov_len = 4096\<rparr>]\<rparr>"

definition ex_mem :: "nat \<Rightarrow> byte list" where
  "ex_mem a = replicate PAGE_SIZE 7"

definition ex_pipes :: "nat \<Rightarrow> byte list" where
  "ex_pipes p = (if p = 0 then ex_mem 4096 @ ex_mem 8192 else [])"

lemma ex_hpp_facts:
  "pp_wf ex_hpp" "pp_pages ex_hpp = [4096, 8192]" "pp_hole_pages ex_hpp = [12288]" "pp_small ex_hpp"
  "pp_segs ex_hpp = [(0, \<lparr>iov_base = 4096, iov_len = 8192\<rparr>)]"
  by (simp_all add: ex_hpp_def ex_pp_def pp_wf_def pp_bufs_wf_def pp_holes_wf_def buf_ok_def segs_def pp_pages_def
      pp_hole_pages_def pp_small_def pp_segs_def buf_segs_def iov_ok_def iov_pages_def page_range_def PAGE_SIZE_def
      UIO_MAXIOV_def upt_conv_Cons)

lemma ex_hpp_ordered: "pp_ordered ex_hpp"
  by (simp add: pp_ordered_def ex_hpp_facts PAGE_SIZE_def)

lemma ex_pipes_hold: "pipes_hold ex_mem 0 (pp_segs ex_hpp) ex_pipes"
  by (simp add: pipes_hold_def ex_hpp_facts ex_pipes_def seg_bytes_def iov_pages_def page_range_def PAGE_SIZE_def
      upt_conv_Cons)

theorem dump_pages_merges_witness:
  "(\<exists>x'. page_xfer_dump_pages \<lparr>write_pagemap = (\<lambda>x v. Inr (0, x @ [(True, iov_base v)])),
       write_pages = (\<lambda>x p n. Inr (0, x)), write_hole = (\<lambda>x v. Inr (0, x @ [(False, iov_base v)])),
       xfer_close = (\<lambda>x. x)\<rparr> ex_hpp 0 [] = Inr (0, x', [(True, 4096), (False, 12288)]))
   \<and> sorted_wrt iov_before (map ev_iov (pp_plan ex_hpp))"
proof -
  let ?xf = "\<lparr>write_pagemap = (\<lambda>x v. Inr (0, x @ [(True, iov_base v)])),
       write_pages = (\<lambda>x p n. Inr (0, x)), write_hole = (\<lambda>x v. Inr (0, x @ [(False, iov_base v)])),
       xfer_close = (\<lambda>x. x)\<rparr>"
  have "run_plan ?xf (pp_plan ex_hpp) [] = Inr (0, [(True, 4096), (False, 12288)])"
    by (simp add: pp_plan_def ex_hpp_facts, simp add: ex_hpp_def write_seg_def)
  with dump_pages_merges [OF ex_hpp_facts(1) ex_hpp_ordered, of ?xf "[]"] show ?thesis
    by (cases "page_xfer_dump_pages ?xf ex_hpp 0 []") auto
qed

text \<open>C8: A local dump of a filled page pipe succeeds when the I/O does. On a system whose calls do not
  fail and without auto-dedup, take a page pipe whose pages and holes were added in ascending order, with
  64-bit addresses and every hole shorter than 4 GiB, and whose pipes hold the pages of the task.
  Opening image \<open>i\<close> of type \<open>t\<close> (\<^verbatim>\<open>open_page_local_xfer\<close>) returns 0, transferring the page pipe into it
  returns 0, and the disk then holds for (t, i) an image which, put on top of the chain of the parent snapshots
  (sorted pagemaps with entries below \<open>2 ^ 20\<close> pages; no parent only when there is no hole), is
  a chain the page reader serves: every added page reads as the task's memory, and every hole reads
  as the parent snapshot has it.\<close>

theorem local_dump_image:
  assumes "\<forall>n. pb_ok E n" "\<forall>n len. splice_ret E n len = int len" "\<forall>k. open_pm E k \<and> open_pg E k" "\<not> auto_dedup E"
    and "pp_wf pp" "pp_ordered pp" "pp_small pp" "pipes_hold mem 0 (pp_segs pp) (lx_pipes x)" "\<And>a. length (mem a) = PAGE_SIZE"
    and "chain_ok ss" "ss \<noteq> [] \<or> free_hole pp = 0"
  shows "\<exists>x1 pp' x' img. open_page_local_xfer E t i x = (0, x1) \<and> page_xfer_dump_pages (loc_ops E) pp 0 x1 = Inr (0, pp', x')
     \<and> lx_disk x' (t, i) = Some img \<and> chain_ok (img # ss)
     \<and> (\<forall>va \<in> set (pp_pages pp). snap_page (img # ss) va = Some (mem va))
     \<and> (\<forall>va \<in> set (pp_hole_pages pp). snap_page (img # ss) va = snap_page ss va)"
proof -
  let ?img = "plan_image mem (pp_plan pp)"
  from open_page_local_xfer_ready [OF assms(1-4)] obtain x1 where
    o: "open_page_local_xfer E t i x = (0, x1)" "loc_ready_at E (t, i) x1" "loc_view x1 = ([], [])" "lx_pipes x1 = lx_pipes x"
    by blast
  from loc_live.dump_pages_image [OF assms(5,7) o(2,3) assms(8) [folded o(4)] assms(9)] obtain pp' x' where
    r: "page_xfer_dump_pages (loc_ops E) pp 0 x1 = Inr (0, pp', x')" "loc_ready_at E (t, i) x'" "loc_view x' = ?img"
    by blast
  then have "lx_disk x' (t, i) = Some ?img"
    by (auto simp: loc_ready_at_def loc_ready_def loc_open_def loc_view_def)
  moreover have "chain_ok (?img # ss)" "\<forall>va \<in> set (pp_pages pp). snap_page (?img # ss) va = Some (mem va)"
      "\<forall>va \<in> set (pp_hole_pages pp). snap_page (?img # ss) va = snap_page ss va"
    using plan_image_chain [OF assms(5-7,10,11)] plan_image_page [where mem = mem, OF assms(5-7,9)] plan_image_hole [OF assms(5-7)]
    by blast+
  ultimately show ?thesis using o(1) r(1) by blast
qed

text \<open>An environment without deduplication whose I/O calls all succeed.\<close>

definition ex_xenv :: xfer_env where
  "ex_xenv = \<lparr>auto_dedup = False, use_page_server = False, pb_ok = (\<lambda>_. True), splice_ret = (\<lambda>_ n. int n),
     fallocate = (\<lambda>_ _. True), open_pm = (\<lambda>_. True), open_pg = (\<lambda>_. True), parent_dir = (\<lambda>_. LinkNone), xp_malloc = True\<rparr>"

definition ex_lx :: loc_xfer where
  "ex_lx = \<lparr>lx_key = (16, 1), lx_parent = XpJunk, lx_disk = [(16, 1) \<mapsto> ([], [])], lx_pipes = ex_pipes, lx_tick = 0\<rparr>"

definition ex_parent :: snapshot where
  "ex_parent = ([\<lparr>vaddr = 12288, nr_pages = 1, in_parent = False\<rparr>], replicate PAGE_SIZE 9)"

theorem local_dump_image_witness:
  "\<exists>x1 pp' x' img. open_page_local_xfer ex_xenv 16 1 ex_lx = (0, x1) \<and> page_xfer_dump_pages (loc_ops ex_xenv) ex_hpp 0 x1 = Inr (0, pp', x')
     \<and> lx_disk x' (16, 1) = Some img \<and> chain_ok [img, ex_parent]
     \<and> snap_page [img, ex_parent] 8192 = Some (ex_mem 8192)
     \<and> snap_page [img, ex_parent] 12288 = Some (replicate PAGE_SIZE 9)"
proof -
  have e: "\<forall>n. pb_ok ex_xenv n" "\<forall>n len. splice_ret ex_xenv n len = int len" "\<forall>k. open_pm ex_xenv k \<and> open_pg ex_xenv k" "\<not> auto_dedup ex_xenv"
    by (simp_all add: ex_xenv_def)
  have a: "pipes_hold ex_mem 0 (pp_segs ex_hpp) (lx_pipes ex_lx)" "\<And>a. length (ex_mem a) = PAGE_SIZE"
      "chain_ok [ex_parent]" "[ex_parent] \<noteq> [] \<or> free_hole ex_hpp = 0"
    using ex_pipes_hold by (simp_all add: ex_lx_def ex_mem_def ex_parent_def pe_small_def pe_end_def PAGE_SIZE_def)
  have p: "snap_page [ex_parent] 12288 = Some (replicate PAGE_SIZE 9)"
    by (simp add: ex_parent_def pe_end_def PAGE_SIZE_def)
  show ?thesis
    using local_dump_image [OF e ex_hpp_facts(1) ex_hpp_ordered ex_hpp_facts(4) a, of 16 1]
    unfolding ex_hpp_facts p by (auto simp: p)
qed

text \<open>C24: With automatic deduplication, a local dump into a directory without a parent link
  opens successfully but leaves the parent pointer of the caller's stack structure unset,
  and the very first pagemap entry written reads that pointer.\<close>

theorem auto_dedup_unset_parent:
  assumes "auto_dedup E" "\<not> use_page_server E" "parent_dir E i = LinkNone"
    and "open_pm E (ty, i)" "open_pg E (ty, i)" "lx_parent x = XpJunk"
  shows "\<exists>x1. open_page_local_xfer E ty i x = (0, x1) \<and> lx_disk x1 (ty, i) = Some ([], [])
     \<and> (\<forall>iov. write_pagemap_loc E x1 iov = Inl UB)"
  using assms by (simp add: open_page_local_xfer_def write_pagemap_loc_def Let_def)

theorem auto_dedup_unset_parent_witness:
  "\<exists>x1. open_page_local_xfer (ex_xenv\<lparr>auto_dedup := True\<rparr>) 16 1 ex_lx = (0, x1)
     \<and> write_pagemap_loc (ex_xenv\<lparr>auto_dedup := True\<rparr>) x1 \<lparr>iov_base = 4096, iov_len = 4096\<rparr> = Inl UB"
  using auto_dedup_unset_parent [of "ex_xenv\<lparr>auto_dedup := True\<rparr>" 1 16 ex_lx]
  by (auto simp: ex_xenv_def ex_lx_def)

end
