(* ===== verification/PageServer.thy ===== *)
theory PageServer
  imports PageXfer
begin

text \<open>
  The page server of page-xfer.c: the wire format, the backend that sends segments and
  holes over a socket, and the server loop that writes them with the local backend. The
  lemmas show that the client keeps the contract \<open>page_xfer_live\<close>, and that a server fed
  with a session's bytes leaves the images that the session describes.
\<close>

unbundle bit_operations_syntax

section \<open>The wire format\<close>

record page_server_iov =
  ps_cmd :: nat
  ps_nr_pages :: nat
  ps_vaddr :: nat
  ps_dst_id :: u64

definition PS_IOV_ADD :: nat where
  "PS_IOV_ADD = 1"

definition PS_IOV_HOLE :: nat where
  "PS_IOV_HOLE = 2"

definition PS_IOV_OPEN :: nat where
  "PS_IOV_OPEN = 3"

definition PS_IOV_FLUSH :: nat where
  "PS_IOV_FLUSH = 0x1023"

lemmas ps_cmds = PS_IOV_ADD_def PS_IOV_HOLE_def PS_IOV_OPEN_def PS_IOV_FLUSH_def

definition PS_TYPE_BITS :: nat where
  "PS_TYPE_BITS = 8"

text \<open>Image types are C ints and ids longs; the shifts work on the 64-bit word.\<close>

definition encode_pm_id :: "int \<Rightarrow> int \<Rightarrow> u64" where
  "encode_pm_id t i = push_bit PS_TYPE_BITS (word_of_int i) OR word_of_int t"

definition decode_pm_type :: "u64 \<Rightarrow> int" where
  "decode_pm_type d = uint (d AND mask PS_TYPE_BITS)"

definition decode_pm_id :: "u64 \<Rightarrow> int" where
  "decode_pm_id d = sint (drop_bit PS_TYPE_BITS d)"

definition pi_bytes :: "page_server_iov \<Rightarrow> byte list" where
  "pi_bytes pi = le_bytes 4 (ps_cmd pi) @ le_bytes 4 (ps_nr_pages pi) @ le_bytes 8 (ps_vaddr pi)
     @ le_bytes 8 (unat (ps_dst_id pi))"

definition pi_of_bytes :: "byte list \<Rightarrow> page_server_iov" where
  "pi_of_bytes bs = \<lparr>ps_cmd = le_val (take 4 bs), ps_nr_pages = le_val (take 4 (drop 4 bs)),
     ps_vaddr = le_val (take 8 (drop 8 bs)), ps_dst_id = word_of_nat (le_val (take 8 (drop 16 bs)))\<rparr>"

definition pi_size :: nat where
  "pi_size = 24"

section \<open>The client\<close>

text \<open>
  The backend that talks to a server: \<open>cl_conn\<close> says that the static
  \<^verbatim>\<open>page_server_sk\<close> is a connected socket, \<open>cl_fd\<close> that
  \<^verbatim>\<open>xfer->fd\<close> is that socket; \<open>cl_sk\<close> is everything written to it so far.
\<close>

record cl_xfer =
  cl_conn :: bool
  cl_fd :: bool
  cl_dst :: u64
  cl_sk :: "byte list"
  cl_pipes :: "nat \<Rightarrow> byte list"
  cl_tick :: nat

record cl_env =
  cl_write_ok :: "nat \<Rightarrow> bool"
  cl_splice :: "nat \<Rightarrow> nat \<Rightarrow> int"

text \<open>\<^verbatim>\<open>write(fd, &pi, sizeof(pi)) != sizeof(pi)\<close>; \<open>fd\<close> says whether it is the socket.\<close>

definition cl_send :: "cl_env \<Rightarrow> bool \<Rightarrow> page_server_iov \<Rightarrow> cl_xfer \<Rightarrow> int \<times> cl_xfer" where
  "cl_send E fd pi x =
     (if fd \<and> cl_write_ok E (cl_tick x)
      then (0, x\<lparr>cl_sk := cl_sk x @ pi_bytes pi, cl_tick := cl_tick x + 1\<rparr>)
      else (-1, x\<lparr>cl_tick := cl_tick x + 1\<rparr>))"

definition write_pagemap_to_server :: "cl_env \<Rightarrow> cl_xfer \<Rightarrow> iovec \<Rightarrow> (int \<times> cl_xfer) outcome" where
  "write_pagemap_to_server E x iov =
     Inr (cl_send E (cl_fd x) \<lparr>ps_cmd = PS_IOV_ADD, ps_nr_pages = u32_of (iov_len iov div PAGE_SIZE),
                     ps_vaddr = iov_base iov, ps_dst_id = cl_dst x\<rparr> x)"

definition write_pages_to_server :: "cl_env \<Rightarrow> cl_xfer \<Rightarrow> nat \<Rightarrow> nat \<Rightarrow> (int \<times> cl_xfer) outcome" where
  "write_pages_to_server E x p len =
     (let r = (if cl_fd x then cl_splice E (cl_tick x) len else -1); x1 = x\<lparr>cl_tick := cl_tick x + 1\<rparr> in
      if r < 0 then Inr (-1, x1)
      else let n = min (nat r) (min len (length (cl_pipes x p)));
               x2 = x1\<lparr>cl_sk := cl_sk x @ take n (cl_pipes x p),
                        cl_pipes := (cl_pipes x)(p := drop n (cl_pipes x p))\<rparr> in
           if n \<noteq> len then Inr (-1, x2) else Inr (0, x2))"

definition write_hole_to_server :: "cl_env \<Rightarrow> cl_xfer \<Rightarrow> iovec \<Rightarrow> (int \<times> cl_xfer) outcome" where
  "write_hole_to_server E x iov =
     Inr (cl_send E (cl_fd x) \<lparr>ps_cmd = PS_IOV_HOLE, ps_nr_pages = u32_of (iov_len iov div PAGE_SIZE),
                     ps_vaddr = iov_base iov, ps_dst_id = cl_dst x\<rparr> x)"

definition close_server_xfer :: "cl_xfer \<Rightarrow> cl_xfer" where
  "close_server_xfer x = x\<lparr>cl_fd := False\<rparr>"

definition srv_ops :: "cl_env \<Rightarrow> cl_xfer page_xfer" where
  "srv_ops E = \<lparr>write_pagemap = write_pagemap_to_server E, write_pages = write_pages_to_server E,
                write_hole = write_hole_to_server E, xfer_close = close_server_xfer\<rparr>"

definition open_page_server_xfer :: "cl_env \<Rightarrow> int \<Rightarrow> int \<Rightarrow> cl_xfer \<Rightarrow> int \<times> cl_xfer" where
  "open_page_server_xfer E fd_type i x =
     (let x1 = x\<lparr>cl_fd := cl_conn x, cl_dst := encode_pm_id fd_type i\<rparr> in
      cl_send E (cl_fd x1) \<lparr>ps_cmd = PS_IOV_OPEN, ps_nr_pages = 0, ps_vaddr = 0, ps_dst_id = cl_dst x1\<rparr> x1)"

text \<open>
  \<^verbatim>\<open>disconnect_from_page_server\<close>: \<open>answer\<close> gives the status word that the other side sends back, if
  one arrives, for the bytes written to the socket. The socket is closed in any case.
\<close>

definition disconnect_from_page_server :: "cl_env \<Rightarrow> bool \<Rightarrow> (byte list \<Rightarrow> int option) \<Rightarrow> cl_xfer \<Rightarrow> int \<times> cl_xfer" where
  "disconnect_from_page_server E use_server answer x =
     (if \<not> use_server then (0, x)
      else if \<not> cl_conn x then (0, x)
      else case cl_send E (cl_conn x) \<lparr>ps_cmd = PS_IOV_FLUSH, ps_nr_pages = 0, ps_vaddr = 0, ps_dst_id = 0\<rparr> x of
        (r, x1) \<Rightarrow>
          if r \<noteq> 0 then (-1, x1\<lparr>cl_conn := False\<rparr>)
          else case answer (cl_sk x1) of None \<Rightarrow> (-1, x1\<lparr>cl_conn := False\<rparr>)
               | Some status \<Rightarrow> (status, x1\<lparr>cl_conn := False\<rparr>))"

section \<open>The server\<close>

text \<open>
  The static \<^verbatim>\<open>cxfer\<close> with the socket: the id of the open image (all ones when
  there is none), the local backend, whose pipe 0 is \<^verbatim>\<open>cxfer.p\<close>, the size of that
  pipe, what is still to be read from the socket and the status words sent back.
\<close>

record page_server =
  s_dst :: u64
  s_loc :: loc_xfer
  s_psize :: nat
  s_in :: "byte list"
  s_out :: "int list"
  s_tick :: nat

record srv_env =
  sv_xfer :: xfer_env
  sv_pipe :: bool
  sv_pipe_sz :: nat
  sv_read :: "nat \<Rightarrow> int"
  sv_splice :: "nat \<Rightarrow> nat \<Rightarrow> int"
  sv_write_ok :: "nat \<Rightarrow> bool"

definition NO_DST :: u64 where
  "NO_DST = - 1"

text \<open>Closing the local transfer closes its descriptors; the images stay as they are.\<close>

definition page_server_close :: "srv_env \<Rightarrow> page_server \<Rightarrow> page_server" where
  "page_server_close E s =
     (if s_dst s \<noteq> NO_DST then s\<lparr>s_loc := xfer_close (loc_ops (sv_xfer E)) (s_loc s)\<rparr> else s)"

text \<open>
  On the server \<^verbatim>\<open>open_page_xfer\<close> is the local one; were \<^verbatim>\<open>use_page_server\<close>
  set there, the write to the unconnected socket would fail.
\<close>

definition page_server_open :: "srv_env \<Rightarrow> page_server_iov \<Rightarrow> page_server \<Rightarrow> int \<times> page_server" where
  "page_server_open E pi s =
     (let s1 = page_server_close E s in
      if use_page_server (sv_xfer E) then (-1, s1)
      else case open_page_local_xfer (sv_xfer E) (decode_pm_type (ps_dst_id pi)) (decode_pm_id (ps_dst_id pi)) (s_loc s1) of
        (r, l) \<Rightarrow> if r \<noteq> 0 then (-1, s1\<lparr>s_loc := l\<rparr>)
                  else (0, s1\<lparr>s_loc := l, s_dst := ps_dst_id pi\<rparr>))"

definition prep_loc_xfer :: "srv_env \<Rightarrow> page_server_iov \<Rightarrow> page_server \<Rightarrow> int \<times> page_server" where
  "prep_loc_xfer E pi s = (if s_dst s \<noteq> ps_dst_id pi then page_server_open E pi s else (0, s))"

text \<open>
  The splice loop of \<^verbatim>\<open>page_server_add\<close>. The socket gives at most what it has; with
  nothing left it gives 0, and the loop goes on with the same length. \<open>n\<close> bounds the
  rounds.
\<close>

primrec splice_loop :: "srv_env \<Rightarrow> nat \<Rightarrow> nat \<Rightarrow> page_server \<Rightarrow> (int \<times> page_server) outcome" where
  "splice_loop E 0 len s = Inl HANG"
| "splice_loop E (Suc n) len s =
     (if len = 0 then Inr (0, s)
      else
        (let req = (if s_psize s < len then s_psize s else len);
             r = sv_splice E (s_tick s) req;
             s1 = s\<lparr>s_tick := s_tick s + 1\<rparr> in
         if r < 0 then Inr (-1, s1)
         else
           (let chunk = min (nat r) (min req (length (s_in s)));
                l1 = (s_loc s)\<lparr>lx_pipes := (lx_pipes (s_loc s))(0 := lx_pipes (s_loc s) 0 @ take chunk (s_in s))\<rparr> in
            bindF (write_pages_loc (sv_xfer E) l1 0 chunk) (\<lambda>(r2, l2).
              (let s2 = s1\<lparr>s_loc := l2, s_in := drop chunk (s_in s)\<rparr> in
               if r2 \<noteq> 0 then Inr (-1, s2) else splice_loop E n (len - chunk) s2)))))"

text \<open>\<^verbatim>\<open>pi->nr_pages * PAGE_SIZE\<close> is a 32-bit product, as in \<open>pagemap2iovec\<close>.\<close>

definition pi_iov :: "page_server_iov \<Rightarrow> iovec" where
  "pi_iov pi = \<lparr>iov_base = ps_vaddr pi, iov_len = u32_of (ps_nr_pages pi * PAGE_SIZE)\<rparr>"

definition page_server_add :: "srv_env \<Rightarrow> nat \<Rightarrow> page_server_iov \<Rightarrow> page_server \<Rightarrow> (int \<times> page_server) outcome" where
  "page_server_add E n pi s =
     (case prep_loc_xfer E pi s of (r, s1) \<Rightarrow>
        if r \<noteq> 0 then Inr (-1, s1)
        else bindF (write_pagemap_loc (sv_xfer E) (s_loc s1) (pi_iov pi)) (\<lambda>(r2, l2).
          if r2 \<noteq> 0 then Inr (-1, s1\<lparr>s_loc := l2\<rparr>)
          else splice_loop E n (iov_len (pi_iov pi)) (s1\<lparr>s_loc := l2\<rparr>)))"

definition page_server_hole :: "srv_env \<Rightarrow> page_server_iov \<Rightarrow> page_server \<Rightarrow> (int \<times> page_server) outcome" where
  "page_server_hole E pi s =
     (case prep_loc_xfer E pi s of (r, s1) \<Rightarrow>
        if r \<noteq> 0 then Inr (-1, s1)
        else bindF (write_pagehole_loc (sv_xfer E) (s_loc s1) (pi_iov pi)) (\<lambda>(r2, l2).
          if r2 \<noteq> 0 then Inr (-1, s1\<lparr>s_loc := l2\<rparr>) else Inr (0, s1\<lparr>s_loc := l2\<rparr>)))"

text \<open>\<^verbatim>\<open>read(sk, &pi, sizeof(pi))\<close>: the result, the bytes and the rest of the socket.\<close>

definition sk_read :: "srv_env \<Rightarrow> page_server \<Rightarrow> int \<times> byte list \<times> page_server" where
  "sk_read E s =
     (let r = sv_read E (s_tick s); s1 = s\<lparr>s_tick := s_tick s + 1\<rparr> in
      if r < 0 then (-1, [], s1)
      else let n = min (nat r) (min pi_size (length (s_in s))) in
           (int n, take n (s_in s), s1\<lparr>s_in := drop n (s_in s)\<rparr>))"

text \<open>
  One command. The branch \<^verbatim>\<open>PS_IOV_FLUSH\<close> assigns \<open>ret = 0\<close> after a failed
  write of the answer, so the failure is lost. The second component is \<^verbatim>\<open>flushed\<close>.
\<close>

definition serve_cmd :: "srv_env \<Rightarrow> nat \<Rightarrow> page_server_iov \<Rightarrow> page_server \<Rightarrow> (int \<times> bool \<times> page_server) outcome" where
  "serve_cmd E n pi s =
     (if ps_cmd pi = PS_IOV_OPEN then (case page_server_open E pi s of (r, s1) \<Rightarrow> Inr (r, False, s1))
      else if ps_cmd pi = PS_IOV_ADD then bindF (page_server_add E n pi s) (\<lambda>(r, s1). Inr (r, False, s1))
      else if ps_cmd pi = PS_IOV_HOLE then bindF (page_server_hole E pi s) (\<lambda>(r, s1). Inr (r, False, s1))
      else if ps_cmd pi = PS_IOV_FLUSH then
        (let s1 = (if sv_write_ok E (s_tick s) then s\<lparr>s_out := s_out s @ [0]\<rparr> else s)
         in Inr (0, True, s1\<lparr>s_tick := s_tick s + 1\<rparr>))
      else Inr (-1, False, s))"

primrec serve_loop :: "srv_env \<Rightarrow> nat \<Rightarrow> nat \<Rightarrow> bool \<Rightarrow> page_server \<Rightarrow> (int \<times> bool \<times> page_server) outcome" where
  "serve_loop E n 0 flushed s = Inl HANG"
| "serve_loop E n (Suc k) flushed s =
     (case sk_read E s of (ret, bs, s1) \<Rightarrow>
        if ret = 0 then Inr (0, flushed, s1)
        else if ret \<noteq> int pi_size then Inr (-1, flushed, s1)
        else bindF (serve_cmd E n (pi_of_bytes bs) s1) (\<lambda>(ret2, fl, s2).
               if ret2 \<noteq> 0 then Inr (ret2, fl, s2) else serve_loop E n k fl s2))"

definition page_server_serve :: "srv_env \<Rightarrow> nat \<Rightarrow> page_server \<Rightarrow> (int \<times> page_server) outcome" where
  "page_server_serve E n s =
     (if \<not> sv_pipe E then Inr (-1, s)
      else bindF (serve_loop E n n False (s\<lparr>s_psize := sv_pipe_sz E\<rparr>)) (\<lambda>(ret, flushed, s1).
             Inr (if \<not> flushed then -1 else ret, page_server_close E s1)))"

text \<open>
  What a client reads that has sent the given bytes to this server: the first status word the
  server writes in reply.
\<close>

definition server_answer :: "srv_env \<Rightarrow> nat \<Rightarrow> page_server \<Rightarrow> byte list \<Rightarrow> int option" where
  "server_answer E n s sk = (case page_server_serve E n (s\<lparr>s_in := sk\<rparr>) of
     Inl _ \<Rightarrow> None
   | Inr (_, s') \<Rightarrow> (case drop (length (s_out s)) (s_out s') of [] \<Rightarrow> None | status # _ \<Rightarrow> Some status))"

section \<open>Encodings\<close>

definition pi_ok :: "page_server_iov \<Rightarrow> bool" where
  "pi_ok pi \<longleftrightarrow> ps_cmd pi < 2 ^ 32 \<and> ps_nr_pages pi < 2 ^ 32 \<and> ps_vaddr pi < 2 ^ 64"

lemma length_pi_bytes [simp]: "length (pi_bytes pi) = pi_size"
  by (simp add: pi_bytes_def pi_size_def)

lemma pi_bytes_neq [simp]: "pi_bytes pi \<noteq> []"
  using length_pi_bytes [of pi] by (auto simp: pi_size_def simp del: length_pi_bytes)

lemma pi_bytes_inverse:
  assumes "pi_ok pi"
  shows "pi_of_bytes (pi_bytes pi) = pi"
proof -
  have "unat (ps_dst_id pi) < 256 ^ 8" using unsigned_less [of "ps_dst_id pi", where 'a = nat] by simp
  with assms show ?thesis
    by (cases pi) (simp add: pi_of_bytes_def pi_bytes_def le_val_bytes pi_ok_def)
qed

lemma decode_encode_pm_id:
  assumes "0 \<le> t" "t < 2 ^ 8" "0 \<le> i" "i < 2 ^ 55"
  shows "decode_pm_type (encode_pm_id t i) = t" "decode_pm_id (encode_pm_id t i) = i"
proof -
  have t: "uint (word_of_int t :: u64) = t" and i: "uint (word_of_int i :: u64) = i"
    using assms by (simp_all add: uint_word_of_int)
  have tb: "take_bit 8 (word_of_int t :: u64) = word_of_int t" "drop_bit 8 (word_of_int t :: u64) = 0"
    using assms t
    by (simp_all add: word_uint_eq_iff unsigned_take_bit_eq take_bit_int_eq_self drop_bit_eq_div uint_div)
  have "take_bit 8 (push_bit 8 (word_of_int i :: u64)) = 0"
    by (simp add: take_bit_push_bit)
  with tb(1) have "encode_pm_id t i AND mask PS_TYPE_BITS = word_of_int t"
    by (simp add: encode_pm_id_def PS_TYPE_BITS_def take_bit_or flip: take_bit_eq_mask)
  with t show "decode_pm_type (encode_pm_id t i) = t" by (simp add: decode_pm_type_def)
  have "drop_bit 8 (push_bit 8 (word_of_int i :: u64)) = word_of_int i"
    using assms i
    by (simp add: word_uint_eq_iff drop_bit_eq_div push_bit_eq_mult uint_div uint_word_ariths(3))
  with tb(2) have "drop_bit PS_TYPE_BITS (encode_pm_id t i) = word_of_int i"
    by (simp add: encode_pm_id_def PS_TYPE_BITS_def drop_bit_or)
  moreover have "sint (word_of_int i :: u64) = i"
    using assms by (simp add: sint_uint signed_take_bit_int_eq_self i)
  ultimately show "decode_pm_id (encode_pm_id t i) = i" by (simp add: decode_pm_id_def)
qed

section \<open>Sessions\<close>

text \<open>
  A session as the sequence of messages the client sends, their bytes, and what they mean
  for the image files.
\<close>

datatype smsg = SOpen u64 | SAdd u64 nat nat "byte list" | SHole u64 nat nat | SFlush

fun smsg_pi :: "smsg \<Rightarrow> page_server_iov" where
  "smsg_pi (SOpen d) = \<lparr>ps_cmd = PS_IOV_OPEN, ps_nr_pages = 0, ps_vaddr = 0, ps_dst_id = d\<rparr>"
| "smsg_pi (SAdd d va n bs) = \<lparr>ps_cmd = PS_IOV_ADD, ps_nr_pages = n, ps_vaddr = va, ps_dst_id = d\<rparr>"
| "smsg_pi (SHole d va n) = \<lparr>ps_cmd = PS_IOV_HOLE, ps_nr_pages = n, ps_vaddr = va, ps_dst_id = d\<rparr>"
| "smsg_pi SFlush = \<lparr>ps_cmd = PS_IOV_FLUSH, ps_nr_pages = 0, ps_vaddr = 0, ps_dst_id = 0\<rparr>"

fun smsg_data :: "smsg \<Rightarrow> byte list" where
  "smsg_data (SAdd d va n bs) = bs"
| "smsg_data _ = []"

definition smsg_bytes :: "smsg \<Rightarrow> byte list" where
  "smsg_bytes m = pi_bytes (smsg_pi m) @ smsg_data m"

definition stream_of :: "smsg list \<Rightarrow> byte list" where
  "stream_of ms = concat (map smsg_bytes ms)"

fun smsg_ok :: "smsg \<Rightarrow> bool" where
  "smsg_ok (SOpen d) \<longleftrightarrow> d \<noteq> NO_DST"
| "smsg_ok (SAdd d va n bs) \<longleftrightarrow> va < 2 ^ 64 \<and> n < 2 ^ 20 \<and> length bs = n * PAGE_SIZE"
| "smsg_ok (SHole d va n) \<longleftrightarrow> va < 2 ^ 64 \<and> n < 2 ^ 20"
| "smsg_ok SFlush \<longleftrightarrow> True"

type_synonym disk = "int \<times> int \<Rightarrow> snapshot option"

definition key_of :: "u64 \<Rightarrow> int \<times> int" where
  "key_of d = (decode_pm_type d, decode_pm_id d)"

definition add_entry :: "int \<times> int \<Rightarrow> pagemap_entry \<Rightarrow> byte list \<Rightarrow> disk \<Rightarrow> disk" where
  "add_entry k pe bs dk = dk(k := map_option (\<lambda>(es, pg). (es @ [pe], pg @ bs)) (dk k))"

fun apply_msg :: "smsg \<Rightarrow> disk \<Rightarrow> disk" where
  "apply_msg (SOpen d) dk = dk(key_of d \<mapsto> ([], []))"
| "apply_msg (SAdd d va n bs) dk = add_entry (key_of d) \<lparr>vaddr = va, nr_pages = n, in_parent = False\<rparr> bs dk"
| "apply_msg (SHole d va n) dk = add_entry (key_of d) \<lparr>vaddr = va, nr_pages = n, in_parent = True\<rparr> [] dk"
| "apply_msg SFlush dk = dk"

text \<open>Segments and holes go to the image that the last \<^verbatim>\<open>PS_IOV_OPEN\<close> named.\<close>

fun msg_dst :: "u64 \<Rightarrow> smsg \<Rightarrow> u64" where
  "msg_dst cur (SOpen d) = d"
| "msg_dst cur _ = cur"

fun msg_follows :: "u64 \<Rightarrow> smsg \<Rightarrow> bool" where
  "msg_follows cur (SAdd d va n bs) \<longleftrightarrow> d = cur \<and> cur \<noteq> NO_DST"
| "msg_follows cur (SHole d va n) \<longleftrightarrow> d = cur \<and> cur \<noteq> NO_DST"
| "msg_follows cur _ \<longleftrightarrow> True"

fun session_ok :: "u64 \<Rightarrow> smsg list \<Rightarrow> bool" where
  "session_ok cur [] \<longleftrightarrow> True"
| "session_ok cur (m # ms) \<longleftrightarrow> smsg_ok m \<and> msg_follows cur m \<and> session_ok (msg_dst cur m) ms"

lemma smsg_pi_ok: "smsg_ok m \<Longrightarrow> pi_ok (smsg_pi m)"
  by (cases m) (auto simp: pi_ok_def ps_cmds)

lemma session_ok_append:
  "session_ok cur (xs @ ys) \<longleftrightarrow> session_ok cur xs \<and> session_ok (foldl msg_dst cur xs) ys"
  by (induction xs arbitrary: cur) auto

section \<open>The server executes sessions\<close>

text \<open>
  A server whose system calls work: reads deliver whole headers, and splicing from the
  socket makes progress while it has data (it may still move less than asked for).
\<close>

definition srv_healthy :: "srv_env \<Rightarrow> bool" where
  "srv_healthy E \<longleftrightarrow> \<not> auto_dedup (sv_xfer E) \<and> \<not> use_page_server (sv_xfer E)
     \<and> (\<forall>n. pb_ok (sv_xfer E) n) \<and> (\<forall>n k. splice_ret (sv_xfer E) n k = int k)
     \<and> (\<forall>k. open_pm (sv_xfer E) k) \<and> (\<forall>k. open_pg (sv_xfer E) k)
     \<and> sv_pipe E \<and> 0 < sv_pipe_sz E \<and> (\<forall>n. sv_read E n = int pi_size)
     \<and> (\<forall>n k. 0 < k \<longrightarrow> 0 < sv_splice E n k) \<and> (\<forall>n. sv_write_ok E n)"

definition srv_inv :: "page_server \<Rightarrow> bool" where
  "srv_inv s \<longleftrightarrow> lx_pipes (s_loc s) 0 = [] \<and> 0 < s_psize s
     \<and> (s_dst s \<noteq> NO_DST \<longrightarrow> lx_key (s_loc s) = key_of (s_dst s) \<and> loc_open (s_loc s))"

text \<open>Everything about a server but its image files, its input and its answers.\<close>

definition srv_same :: "page_server \<Rightarrow> page_server \<Rightarrow> bool" where
  "srv_same s s' \<longleftrightarrow> s_dst s' = s_dst s \<and> s_psize s' = s_psize s \<and> lx_key (s_loc s') = lx_key (s_loc s)
     \<and> lx_pipes (s_loc s') 0 = lx_pipes (s_loc s) 0"

lemma splice_loop_ok:
  assumes "srv_healthy E" "0 < s_psize s" "lx_pipes (s_loc s) 0 = []" "len \<le> length (s_in s)" "len < n"
    and "lx_disk (s_loc s) (lx_key (s_loc s)) = Some (es, pg)"
  shows "\<exists>s'. splice_loop E n len s = Inr (0, s') \<and> srv_same s s' \<and> s_out s' = s_out s
     \<and> s_in s' = drop len (s_in s)
     \<and> lx_disk (s_loc s') = (lx_disk (s_loc s))(lx_key (s_loc s) \<mapsto> (es, pg @ take len (s_in s)))"
  using assms
proof (induction n arbitrary: len s pg)
  case (Suc n)
  show ?case
  proof (cases "len = 0")
    case True
    with Suc.prems(3,6) show ?thesis by (auto simp: srv_same_def fun_upd_idem)
  next
    case False
    define req where "req = (if s_psize s < len then s_psize s else len)"
    define c where "c = min (nat (sv_splice E (s_tick s) req)) (min req (length (s_in s)))"
    have req: "0 < req" "req \<le> len" using False Suc.prems(2) by (auto simp: req_def)
    have sp: "0 < sv_splice E (s_tick s) req" using Suc.prems(1) req by (simp add: srv_healthy_def)
    have c: "0 < c" "c \<le> len" "c \<le> length (s_in s)" using sp req Suc.prems(4) by (auto simp: c_def)
    define l2 where "l2 = (s_loc s)\<lparr>lx_pipes := (lx_pipes (s_loc s))(0 := []),
       lx_disk := (lx_disk (s_loc s))(lx_key (s_loc s) \<mapsto> (es, pg @ take c (s_in s))),
       lx_tick := lx_tick (s_loc s) + 1\<rparr>"
    define s2 where "s2 = s\<lparr>s_tick := s_tick s + 1, s_loc := l2, s_in := drop c (s_in s)\<rparr>"
    have w: "write_pages_loc (sv_xfer E)
       ((s_loc s)\<lparr>lx_pipes := (lx_pipes (s_loc s))(0 := lx_pipes (s_loc s) 0 @ take c (s_in s))\<rparr>) 0 c = Inr (0, l2)"
      using Suc.prems(1,3,6) c
      by (simp add: write_pages_loc_def splice_to_pages_def srv_healthy_def l2_def Let_def)
    have step: "splice_loop E (Suc n) len s = splice_loop E n (len - c) s2"
      using False sp w by (simp add: req_def [symmetric] c_def [symmetric] Let_def s2_def)
    have "0 < s_psize s2" "lx_pipes (s_loc s2) 0 = []" "len - c \<le> length (s_in s2)" "len - c < n"
      "lx_disk (s_loc s2) (lx_key (s_loc s2)) = Some (es, pg @ take c (s_in s))"
      using Suc.prems c by (auto simp: s2_def l2_def)
    from Suc.IH [OF Suc.prems(1) this] obtain s' where s':
      "splice_loop E n (len - c) s2 = Inr (0, s')" "srv_same s2 s'" "s_out s' = s_out s2"
      "s_in s' = drop (len - c) (s_in s2)"
      "lx_disk (s_loc s') = (lx_disk (s_loc s2))(lx_key (s_loc s2) \<mapsto> (es, (pg @ take c (s_in s)) @ take (len - c) (s_in s2)))"
      by blast
    have "take c (s_in s) @ take (len - c) (drop c (s_in s)) = take len (s_in s)"
      using c by (simp flip: take_add)
    with s' step c Suc.prems(3) show ?thesis
      by (simp add: srv_same_def s2_def l2_def fun_eq_iff del: splice_loop.simps)
  qed
qed simp

lemma pb_write_pe_ok:
  assumes "\<forall>n. pb_ok E n" "lx_disk x (lx_key x) = Some s"
  shows "pb_write_pe E pe x = (0, x\<lparr>lx_disk := add_entry (lx_key x) pe [] (lx_disk x), lx_tick := lx_tick x + 1\<rparr>)"
  using assms by (cases s) (simp add: pb_write_pe_def add_entry_def)

lemma nr_pages_iov: "n < 2 ^ 20 \<Longrightarrow> u32_of (n * PAGE_SIZE) = n * PAGE_SIZE"
  by (simp add: PAGE_SIZE_def)

lemma u32_small_pages: "n < 2 ^ 20 \<Longrightarrow> u32_of n = n"
  by simp

text \<open>One message is executed as the specification says, and leaves the server ready for the next.\<close>

lemma serve_cmd_msg:
  assumes E: "srv_healthy E" and inv: "srv_inv s" and ok: "smsg_ok m" "msg_follows (s_dst s) m"
    and inp: "s_in s = smsg_data m @ rest" and n: "length (s_in s) < n"
  shows "\<exists>s'. serve_cmd E n (smsg_pi m) s = Inr (0, m = SFlush, s') \<and> srv_inv s' \<and> s_in s' = rest
     \<and> s_dst s' = msg_dst (s_dst s) m \<and> lx_disk (s_loc s') = apply_msg m (lx_disk (s_loc s))
     \<and> s_out s' = s_out s @ (if m = SFlush then [0] else [])"
proof (cases m)
  case (SOpen d)
  with E inv ok inp show ?thesis
    by (simp add: serve_cmd_def ps_cmds page_server_open_def page_server_close_def open_page_local_xfer_def
          srv_healthy_def srv_inv_def key_of_def loc_open_def loc_ops_def Let_def)
next
  case (SAdd d va k bs)
  with ok have d: "d = s_dst s" "s_dst s \<noteq> NO_DST" and k: "k < 2 ^ 20" "length bs = k * PAGE_SIZE" by auto
  from inv d have key: "lx_key (s_loc s) = key_of d" and op: "loc_open (s_loc s)" by (auto simp: srv_inv_def)
  obtain es pg where dk: "lx_disk (s_loc s) (key_of d) = Some (es, pg)" using op key by (auto simp: loc_open_def)
  let ?pe = "\<lparr>vaddr = va, nr_pages = k, in_parent = False\<rparr>"
  define l1 where "l1 = (s_loc s)\<lparr>lx_disk := add_entry (key_of d) ?pe [] (lx_disk (s_loc s)), lx_tick := lx_tick (s_loc s) + 1\<rparr>"
  have w: "write_pagemap_loc (sv_xfer E) (s_loc s) (pi_iov (smsg_pi m)) = Inr (0, l1)"
    using E k dk key pb_write_pe_ok [of "sv_xfer E" "s_loc s" "(es, pg)" ?pe] SAdd
    by (simp add: write_pagemap_loc_def srv_healthy_def pi_iov_def nr_pages_iov l1_def)
  have "0 < s_psize (s\<lparr>s_loc := l1\<rparr>)" "lx_pipes (s_loc (s\<lparr>s_loc := l1\<rparr>)) 0 = []"
      "k * PAGE_SIZE \<le> length (s_in (s\<lparr>s_loc := l1\<rparr>))" "k * PAGE_SIZE < n"
      "lx_disk (s_loc (s\<lparr>s_loc := l1\<rparr>)) (lx_key (s_loc (s\<lparr>s_loc := l1\<rparr>))) = Some (es @ [?pe], pg)"
    using inv inp n SAdd k dk key by (auto simp: srv_inv_def l1_def add_entry_def)
  from splice_loop_ok [OF E this] obtain s' where s':
    "splice_loop E n (k * PAGE_SIZE) (s\<lparr>s_loc := l1\<rparr>) = Inr (0, s')" "srv_same (s\<lparr>s_loc := l1\<rparr>) s'"
    "s_out s' = s_out s" "s_in s' = rest"
    "lx_disk (s_loc s') = (lx_disk l1)(key_of d \<mapsto> (es @ [?pe], pg @ bs))"
    using inp SAdd k key by (auto simp: l1_def)
  have "lx_disk (s_loc s') = apply_msg m (lx_disk (s_loc s))"
    using s'(5) dk SAdd by (simp add: l1_def add_entry_def)
  moreover have "serve_cmd E n (smsg_pi m) s = Inr (0, False, s')"
    using s'(1) w SAdd d k
    by (simp add: serve_cmd_def ps_cmds page_server_add_def prep_loc_xfer_def pi_iov_def nr_pages_iov)
  moreover have "srv_inv s'"
    using s'(2,5) inv key d by (simp add: srv_same_def srv_inv_def l1_def loc_open_def)
  ultimately show ?thesis using s' SAdd by (simp add: srv_same_def)
next
  case (SHole d va k)
  with ok have d: "d = s_dst s" "s_dst s \<noteq> NO_DST" and k: "k < 2 ^ 20" by auto
  from inv d have key: "lx_key (s_loc s) = key_of d" and op: "loc_open (s_loc s)" by (auto simp: srv_inv_def)
  then obtain sn where dk: "lx_disk (s_loc s) (key_of d) = Some sn" by (auto simp: loc_open_def)
  let ?pe = "\<lparr>vaddr = va, nr_pages = k, in_parent = True\<rparr>"
  have "pb_write_pe (sv_xfer E) ?pe (s_loc s) = (0, (s_loc s)\<lparr>lx_disk := add_entry (key_of d) ?pe [] (lx_disk (s_loc s)), lx_tick := lx_tick (s_loc s) + 1\<rparr>)"
    using E dk key pb_write_pe_ok [of "sv_xfer E" "s_loc s" sn ?pe] by (simp add: srv_healthy_def)
  with inv inp SHole k d key dk show ?thesis
    by (simp add: serve_cmd_def ps_cmds page_server_hole_def prep_loc_xfer_def pi_iov_def nr_pages_iov
          write_pagehole_loc_def srv_inv_def loc_open_def add_entry_def)
next
  case SFlush
  with E inv inp show ?thesis by (simp add: serve_cmd_def ps_cmds srv_healthy_def srv_inv_def Let_def)
qed

lemma sk_read_header:
  assumes "srv_healthy E" "s_in s = pi_bytes pi @ rest"
  shows "\<exists>s1. sk_read E s = (int pi_size, pi_bytes pi, s1) \<and> s_in s1 = rest \<and> srv_same s s1
     \<and> s_loc s1 = s_loc s \<and> s_out s1 = s_out s"
  using assms by (simp add: sk_read_def srv_healthy_def Let_def srv_same_def)

lemma srv_inv_same:
  "srv_inv s \<Longrightarrow> srv_same s s1 \<Longrightarrow> s_loc s1 = s_loc s \<Longrightarrow> srv_inv s1 \<and> s_dst s1 = s_dst s"
  by (simp add: srv_inv_def srv_same_def)

lemma stream_of_simps [simp]:
  "stream_of [] = []" "stream_of (m # ms) = pi_bytes (smsg_pi m) @ smsg_data m @ stream_of ms"
  "stream_of (ms @ ns) = stream_of ms @ stream_of ns"
  by (simp_all add: stream_of_def smsg_bytes_def)

text \<open>A whole session, whatever its number of opened images.\<close>

lemma serve_loop_session:
  assumes "srv_healthy E" "srv_inv s" "session_ok (s_dst s) ms" "s_in s = stream_of ms"
    and "length (s_in s) < n" "length ms < k"
  shows "\<exists>s'. serve_loop E n k fl s = Inr (0, if ms = [] then fl else last ms = SFlush, s')
     \<and> srv_inv s' \<and> lx_disk (s_loc s') = fold apply_msg ms (lx_disk (s_loc s))
     \<and> s_out s' = s_out s @ replicate (length (filter ((=) SFlush) ms)) 0"
  using assms(2-6)
proof (induction ms arbitrary: s k fl)
  case Nil
  obtain k' where "k = Suc k'" using Nil.prems by (cases k) auto
  with Nil assms(1) show ?case by (auto simp: sk_read_def srv_healthy_def srv_inv_def Let_def)
next
  case (Cons m ms)
  obtain k' where k: "k = Suc k'" using Cons.prems by (cases k) auto
  obtain s1 where s1: "sk_read E s = (int pi_size, pi_bytes (smsg_pi m), s1)" "s_in s1 = smsg_data m @ stream_of ms"
     "srv_same s s1" "s_loc s1 = s_loc s" "s_out s1 = s_out s"
    using sk_read_header [OF assms(1)] Cons.prems(3) by fastforce
  have inv1: "srv_inv s1" "s_dst s1 = s_dst s" using srv_inv_same [OF Cons.prems(1) s1(3,4)] by auto
  have ok: "smsg_ok m" "msg_follows (s_dst s1) m" using Cons.prems(2) inv1 by simp_all
  have "length (s_in s1) < n" using s1(2) Cons.prems(3,4) by simp
  from serve_cmd_msg [OF assms(1) inv1(1) ok s1(2) this] obtain s2 where s2:
    "serve_cmd E n (smsg_pi m) s1 = Inr (0, m = SFlush, s2)" "srv_inv s2" "s_in s2 = stream_of ms"
    "s_dst s2 = msg_dst (s_dst s) m" "lx_disk (s_loc s2) = apply_msg m (lx_disk (s_loc s))"
    "s_out s2 = s_out s @ (if m = SFlush then [0] else [])"
    using inv1 s1(4,5) by auto
  have "session_ok (s_dst s2) ms" "length (s_in s2) < n" "length ms < k'"
    using Cons.prems s2(3,4) k by auto
  from Cons.IH [OF s2(2) this(1) s2(3) this(2,3)] obtain s' where s':
    "serve_loop E n k' (m = SFlush) s2 = Inr (0, if ms = [] then m = SFlush else last ms = SFlush, s')"
    "srv_inv s'" "lx_disk (s_loc s') = fold apply_msg ms (lx_disk (s_loc s2))"
    "s_out s' = s_out s2 @ replicate (length (filter ((=) SFlush) ms)) 0"
    by blast
  have "pi_of_bytes (pi_bytes (smsg_pi m)) = smsg_pi m"
    using ok(1) by (simp add: smsg_pi_ok pi_bytes_inverse)
  then have "serve_loop E n k fl s = Inr (0, if ms = [] then m = SFlush else last ms = SFlush, s')"
    using k s1(1) s2(1) s'(1) by (simp add: pi_size_def)
  with s' s2(5,6) show ?case by auto
qed

lemma length_stream_of: "length ms \<le> length (stream_of ms)"
  by (induction ms) (auto simp: pi_size_def)

section \<open>A connection that breaks within a segment\<close>

lemma splice_loop_eof:
  assumes "srv_healthy E" "0 < s_psize s" "loc_open (s_loc s)" "lx_pipes (s_loc s) 0 = []" "length (s_in s) < len"
  shows "splice_loop E n len s = Inl HANG"
  using assms(2-5)
proof (induction n arbitrary: len s)
  case (Suc n)
  define req where "req = (if s_psize s < len then s_psize s else len)"
  define c where "c = min (nat (sv_splice E (s_tick s) req)) (min req (length (s_in s)))"
  define l1 where "l1 = (s_loc s)\<lparr>lx_pipes := (lx_pipes (s_loc s))(0 := lx_pipes (s_loc s) 0 @ take c (s_in s))\<rparr>"
  have sp: "0 < sv_splice E (s_tick s) req"
    using assms(1) Suc.prems(1,4) by (auto simp: srv_healthy_def req_def)
  have c: "c \<le> length (s_in s)" by (simp add: c_def)
  have o1: "loc_open l1" "lx_pipes l1 0 = take c (s_in s)" using Suc.prems(2,3) by (simp_all add: l1_def loc_open_def)
  have r1: "loc_ready (sv_xfer E) l1" using assms(1) o1(1) by (simp add: loc_ready_def srv_healthy_def)
  obtain l2 where w: "write_pages_loc (sv_xfer E) l1 0 c = Inr (0, l2)"
    using write_pages_loc_ready [OF r1, of c 0] o1(2) c by auto
  note d = write_pages_loc_done [OF w o1(1)]
  define s2 where "s2 = s\<lparr>s_tick := s_tick s + 1, s_loc := l2, s_in := drop c (s_in s)\<rparr>"
  have "len \<noteq> 0" using Suc.prems(4) by auto
  then have step: "splice_loop E (Suc n) len s = splice_loop E n (len - c) s2"
    using sp w by (simp add: req_def [symmetric] c_def [symmetric] l1_def [symmetric] Let_def s2_def)
  have "0 < s_psize s2" "loc_open (s_loc s2)" "lx_pipes (s_loc s2) 0 = []" "length (s_in s2) < len - c"
    using Suc.prems d o1(2) c by (auto simp: s2_def)
  from Suc.IH [OF this] step show ?case by simp
qed simp

lemma serve_add_eof:
  assumes "srv_healthy E" "srv_inv s" "s_dst s = d" "d \<noteq> NO_DST" "k < 2 ^ 20" "length (s_in s) < k * PAGE_SIZE"
  shows "serve_cmd E n (smsg_pi (SAdd d va k [])) s = Inl HANG"
proof -
  let ?pi = "smsg_pi (SAdd d va k [])"
  from assms(2-4) have op: "loc_open (s_loc s)" by (simp add: srv_inv_def)
  have rd: "loc_ready (sv_xfer E) (s_loc s)" using assms(1) op by (simp add: loc_ready_def srv_healthy_def)
  from write_pagemap_loc_ready [OF this] obtain l where
    w: "write_pagemap_loc (sv_xfer E) (s_loc s) (pi_iov ?pi) = Inr (0, l)" by auto
  note l = write_pagemap_loc_done [OF w op]
  have "splice_loop E n (k * PAGE_SIZE) (s\<lparr>s_loc := l\<rparr>) = Inl HANG"
    by (rule splice_loop_eof [OF assms(1)]) (use assms(2,6) l in \<open>simp_all add: srv_inv_def\<close>)
  then show ?thesis
    using w assms(3,5) by (simp add: serve_cmd_def ps_cmds page_server_add_def prep_loc_xfer_def pi_iov_def nr_pages_iov)
qed

section \<open>The client keeps the contract\<close>

text \<open>The messages that a stream of bytes holds.\<close>

function parse_msgs :: "byte list \<Rightarrow> smsg list option" where
  "parse_msgs bs =
     (if bs = [] then Some []
      else if length bs < pi_size then None
      else let pi = pi_of_bytes (take pi_size bs); rest = drop pi_size bs; n = ps_nr_pages pi * PAGE_SIZE in
        if ps_cmd pi = PS_IOV_OPEN then map_option (Cons (SOpen (ps_dst_id pi))) (parse_msgs rest)
        else if ps_cmd pi = PS_IOV_HOLE then
          map_option (Cons (SHole (ps_dst_id pi) (ps_vaddr pi) (ps_nr_pages pi))) (parse_msgs rest)
        else if ps_cmd pi = PS_IOV_ADD then
          (if length rest < n then None
           else map_option (Cons (SAdd (ps_dst_id pi) (ps_vaddr pi) (ps_nr_pages pi) (take n rest)))
                  (parse_msgs (drop n rest)))
        else if ps_cmd pi = PS_IOV_FLUSH then map_option (Cons SFlush) (parse_msgs rest)
        else None)"
  by pat_completeness auto
termination
  by (relation "measure length") (auto simp: pi_size_def)

declare parse_msgs.simps [simp del]

lemma parse_stream: "list_all smsg_ok ms \<Longrightarrow> parse_msgs (stream_of ms) = Some ms"
proof (induction ms)
  case Nil
  then show ?case by (simp add: parse_msgs.simps)
next
  case (Cons m ms)
  have ne: "stream_of (m # ms) \<noteq> []" by simp
  have tk: "take pi_size (stream_of (m # ms)) = pi_bytes (smsg_pi m)"
    "drop pi_size (stream_of (m # ms)) = smsg_data m @ stream_of ms" "\<not> length (stream_of (m # ms)) < pi_size"
    by simp_all
  have pi: "pi_of_bytes (pi_bytes (smsg_pi m)) = smsg_pi m"
    using Cons.prems by (simp add: smsg_pi_ok pi_bytes_inverse)
  show ?case
    using Cons by (subst parse_msgs.simps, unfold tk pi) (cases m; simp add: ne tk ps_cmds Let_def)
qed

definition cl_healthy :: "cl_env \<Rightarrow> bool" where
  "cl_healthy E \<longleftrightarrow> (\<forall>n. cl_write_ok E n) \<and> (\<forall>n k. cl_splice E n k = int k)"

text \<open>The image at the far end, as the bytes sent so far describe it.\<close>

definition cl_view :: "cl_xfer \<Rightarrow> snapshot" where
  "cl_view x = (case parse_msgs (cl_sk x) of
     None \<Rightarrow> ([], [])
   | Some ms \<Rightarrow> (case fold apply_msg ms Map.empty (key_of (cl_dst x)) of None \<Rightarrow> ([], []) | Some s \<Rightarrow> s))"

definition cl_ready :: "cl_env \<Rightarrow> cl_xfer \<Rightarrow> bool" where
  "cl_ready E x \<longleftrightarrow> cl_fd x \<and> cl_healthy E \<and> cl_dst x \<noteq> NO_DST \<and>
     (\<exists>ms. cl_sk x = stream_of ms \<and> session_ok NO_DST ms \<and> SFlush \<notin> set ms \<and> foldl msg_dst NO_DST ms = cl_dst x
        \<and> fold apply_msg ms Map.empty (key_of (cl_dst x)) \<noteq> None)"

lemma session_ok_all: "session_ok cur ms \<Longrightarrow> list_all smsg_ok ms"
  by (induction ms arbitrary: cur) auto

lemma cl_view_stream:
  "cl_sk x = stream_of ms \<Longrightarrow> session_ok NO_DST ms \<Longrightarrow>
   fold apply_msg ms Map.empty (key_of (cl_dst x)) = Some s \<Longrightarrow> cl_view x = s"
  by (simp add: cl_view_def parse_stream session_ok_all)

text \<open>Sending one more message.\<close>

lemma cl_extend:
  assumes "cl_ready E x" "smsg_ok m" "msg_follows (cl_dst x) m" "msg_dst (cl_dst x) m = cl_dst x" "m \<noteq> SFlush"
    and "cl_fd x'" "cl_dst x' = cl_dst x" "cl_sk x' = cl_sk x @ smsg_bytes m"
  shows "cl_ready E x' \<and> Some (cl_view x') = apply_msg m ((\<lambda>_. None)(key_of (cl_dst x) \<mapsto> cl_view x)) (key_of (cl_dst x))"
proof -
  obtain ms s where ms: "cl_sk x = stream_of ms" "session_ok NO_DST ms" "foldl msg_dst NO_DST ms = cl_dst x"
      and nf: "SFlush \<notin> set ms" and f: "fold apply_msg ms Map.empty (key_of (cl_dst x)) = Some s"
    using assms(1) by (auto simp: cl_ready_def)
  have v: "cl_view x = s" using cl_view_stream [OF ms(1,2)] f by simp
  have sk: "cl_sk x' = stream_of (ms @ [m])" using assms(8) ms(1) by (simp add: smsg_bytes_def)
  have ok: "session_ok NO_DST (ms @ [m])" using ms(2,3) assms(2,3) by (simp add: session_ok_append)
  obtain s' where s': "fold apply_msg (ms @ [m]) Map.empty (key_of (cl_dst x)) = Some s'"
      "Some s' = apply_msg m ((\<lambda>_. None)(key_of (cl_dst x) \<mapsto> s)) (key_of (cl_dst x))"
    using f assms(3,4) by (cases m) (auto simp: add_entry_def)
  have "cl_ready E x'"
    using assms(1,4-7) sk ok ms(3) nf s'(1) by (auto simp: cl_ready_def intro!: exI [of _ "ms @ [m]"])
  moreover have "cl_view x' = s'" using cl_view_stream [OF sk ok] s'(1) assms(7) by simp
  ultimately show ?thesis using s'(2) v by simp
qed

lemma srv_ops_simps [simp]:
  "write_pagemap (srv_ops E) = write_pagemap_to_server E" "write_pages (srv_ops E) = write_pages_to_server E"
  "write_hole (srv_ops E) = write_hole_to_server E"
  by (simp_all add: srv_ops_def)

lemma xiov_nr_pages:
  assumes "xiov_ok v"
  shows "u32_of (iov_len v div PAGE_SIZE) = iov_len v div PAGE_SIZE" "iov_len v div PAGE_SIZE < 2 ^ 20"
    "iov_len v div PAGE_SIZE * PAGE_SIZE = iov_len v"
proof -
  show lt: "iov_len v div PAGE_SIZE < 2 ^ 20" using assms by (auto simp: xiov_ok_def PAGE_SIZE_def)
  then show "u32_of (iov_len v div PAGE_SIZE) = iov_len v div PAGE_SIZE" by simp
  show "iov_len v div PAGE_SIZE * PAGE_SIZE = iov_len v" using assms by (simp add: xiov_ok_def iov_ok_def)
qed

lemma write_hole_to_server_ready:
  assumes "cl_ready E x" "xiov_ok v"
  shows "\<exists>x'. write_hole_to_server E x v = Inr (0, x') \<and> cl_ready E x' \<and> cl_pipes x' = cl_pipes x \<and> cl_dst x' = cl_dst x \<and> cl_conn x' = cl_conn x
     \<and> cl_view x' = (fst (cl_view x) @ [mk_pe True v], snd (cl_view x))"
proof -
  let ?m = "SHole (cl_dst x) (iov_base v) (iov_len v div PAGE_SIZE)"
  define x' where "x' = x\<lparr>cl_sk := cl_sk x @ smsg_bytes ?m, cl_tick := cl_tick x + 1\<rparr>"
  note n = xiov_nr_pages [OF assms(2)]
  have w: "write_hole_to_server E x v = Inr (0, x')"
    using assms(1) n by (simp add: write_hole_to_server_def cl_send_def cl_ready_def cl_healthy_def x'_def smsg_bytes_def)
  have "smsg_ok ?m" "msg_follows (cl_dst x) ?m" "msg_dst (cl_dst x) ?m = cl_dst x" "?m \<noteq> SFlush" "cl_fd x'" "cl_dst x' = cl_dst x"
      "cl_sk x' = cl_sk x @ smsg_bytes ?m"
    using assms n by (simp_all add: xiov_ok_def cl_ready_def x'_def)
  from cl_extend [OF assms(1) this] w n
  show ?thesis by (cases "cl_view x") (simp add: add_entry_def mk_pe_def x'_def)
qed

lemma write_seg_to_server_ready:
  assumes "cl_ready E x" "xiov_ok v" "iov_len v \<le> length (cl_pipes x p)"
  shows "\<exists>x'. write_seg (srv_ops E) p v x = Inr (0, x') \<and> cl_ready E x' \<and> cl_dst x' = cl_dst x \<and> cl_conn x' = cl_conn x
     \<and> cl_view x' = (fst (cl_view x) @ [mk_pe False v], snd (cl_view x) @ take (iov_len v) (cl_pipes x p))
     \<and> cl_pipes x' = (cl_pipes x)(p := drop (iov_len v) (cl_pipes x p))"
proof -
  let ?m = "SAdd (cl_dst x) (iov_base v) (iov_len v div PAGE_SIZE) (take (iov_len v) (cl_pipes x p))"
  define x1 where "x1 = x\<lparr>cl_sk := cl_sk x @ pi_bytes (smsg_pi ?m), cl_tick := cl_tick x + 1\<rparr>"
  define x' where "x' = x\<lparr>cl_sk := cl_sk x @ smsg_bytes ?m, cl_tick := cl_tick x + 2,
      cl_pipes := (cl_pipes x)(p := drop (iov_len v) (cl_pipes x p))\<rparr>"
  note n = xiov_nr_pages [OF assms(2)]
  have w1: "write_pagemap_to_server E x v = Inr (0, x1)"
    using assms(1) n by (simp add: write_pagemap_to_server_def cl_send_def cl_ready_def cl_healthy_def x1_def)
  have w2: "write_pages_to_server E x1 p (iov_len v) = Inr (0, x')"
    using assms(1,3) by (simp add: write_pages_to_server_def cl_ready_def cl_healthy_def x1_def x'_def Let_def smsg_bytes_def)
  have "smsg_ok ?m" "msg_follows (cl_dst x) ?m" "msg_dst (cl_dst x) ?m = cl_dst x" "?m \<noteq> SFlush" "cl_fd x'" "cl_dst x' = cl_dst x"
      "cl_sk x' = cl_sk x @ smsg_bytes ?m"
    using assms n by (simp_all add: xiov_ok_def cl_ready_def x'_def)
  from cl_extend [OF assms(1) this] w1 w2 n
  show ?thesis by (cases "cl_view x") (simp add: add_entry_def mk_pe_def x'_def write_seg_def)
qed

lemma write_seg_to_server_fits:
  "write_seg (srv_ops E) p v x = Inr (0, x') \<Longrightarrow> iov_len v \<le> length (cl_pipes x p)"
  by (auto simp: write_seg_def write_pagemap_to_server_def write_pages_to_server_def cl_send_def Let_def
        split: if_splits)

text \<open>Connected, with the image \<open>d\<close> open at the far end.\<close>

definition cl_ready_at :: "cl_env \<Rightarrow> u64 \<Rightarrow> cl_xfer \<Rightarrow> bool" where
  "cl_ready_at E d x \<longleftrightarrow> cl_ready E x \<and> cl_dst x = d \<and> cl_conn x"

interpretation srv: page_xfer_live "srv_ops E" cl_view cl_pipes "cl_ready_at E d" for E d
proof
  fix x x' :: cl_xfer and v
  assume "cl_ready_at E d x" "xiov_ok v" and w: "write_hole (srv_ops E) x v = Inr (0, x')"
  with write_hole_to_server_ready [of E x v]
  show "cl_ready_at E d x' \<and> cl_view x' = (fst (cl_view x) @ [mk_pe True v], snd (cl_view x)) \<and> cl_pipes x' = cl_pipes x"
    by (auto simp: cl_ready_at_def)
next
  fix x x' :: cl_xfer and v p
  assume "cl_ready_at E d x" "xiov_ok v" and w: "write_seg (srv_ops E) p v x = Inr (0, x')"
  with write_seg_to_server_ready [OF _ _ write_seg_to_server_fits [OF w], of E] write_seg_to_server_fits [OF w]
  show "cl_ready_at E d x' \<and> cl_view x' = (fst (cl_view x) @ [mk_pe False v], snd (cl_view x) @ take (iov_len v) (cl_pipes x p))
      \<and> iov_len v \<le> length (cl_pipes x p) \<and> cl_pipes x' = (cl_pipes x)(p := drop (iov_len v) (cl_pipes x p))"
    by (auto simp: cl_ready_at_def)
next
  fix x :: cl_xfer
  show "cl_view (xfer_close (srv_ops E) x) = cl_view x"
    by (simp add: srv_ops_def close_server_xfer_def cl_view_def cong: option.case_cong)
next
  fix x :: cl_xfer and v
  assume "cl_ready_at E d x" "xiov_ok v"
  with write_hole_to_server_ready [of E x v] show "\<exists>x'. write_hole (srv_ops E) x v = Inr (0, x')"
    by (auto simp: cl_ready_at_def)
next
  fix x :: cl_xfer and v :: iovec and p
  assume "cl_ready_at E d x" "xiov_ok v" "iov_len v \<le> length (cl_pipes x p)"
  with write_seg_to_server_ready [of E x v p] show "\<exists>x'. write_seg (srv_ops E) p v x = Inr (0, x')"
    by (auto simp: cl_ready_at_def)
qed

lemma open_page_server_xfer_ready:
  assumes "cl_healthy E" "0 \<le> t" "t < 255" "0 \<le> i" "i < 2 ^ 55"
    and "open_page_server_xfer E t i x = (r, x')" "cl_conn x" "cl_sk x = []"
  shows "r = 0 \<and> cl_ready_at E (encode_pm_id t i) x' \<and> cl_view x' = ([], []) \<and> cl_pipes x' = cl_pipes x"
proof -
  let ?d = "encode_pm_id t i"
  have dec: "decode_pm_type ?d = t" using decode_encode_pm_id [of t i] assms(2-5) by simp
  have "decode_pm_type NO_DST = 255" by (simp add: decode_pm_type_def NO_DST_def PS_TYPE_BITS_def mask_eq_exp_minus_1)
  with dec assms(3) have d: "?d \<noteq> NO_DST" by auto
  have x': "r = 0" "x' = x\<lparr>cl_fd := True, cl_dst := ?d, cl_sk := stream_of [SOpen ?d], cl_tick := cl_tick x + 1\<rparr>"
    using assms(1,6-8) by (auto simp: open_page_server_xfer_def cl_send_def cl_healthy_def Let_def)
  have rd: "cl_ready E x'"
    using d assms(1) x'(2) by (auto simp: cl_ready_def intro!: exI [of _ "[SOpen ?d]"])
  have "cl_view x' = ([], [])"
    by (rule cl_view_stream [of _ "[SOpen ?d]"]) (use d x'(2) in auto)
  with rd x' assms(7) show ?thesis by (simp add: cl_ready_at_def)
qed

section \<open>A dump over the network\<close>

text \<open>The images a session writes depend on earlier contents of the disk only where it does not open them.\<close>

lemma apply_msg_agree:
  "dk1 k = None \<or> dk1 k = dk2 k \<Longrightarrow> apply_msg m dk1 k = None \<or> apply_msg m dk1 k = apply_msg m dk2 k"
  by (cases m) (auto simp: add_entry_def)

lemma fold_apply_agree:
  "dk1 k = None \<or> dk1 k = dk2 k \<Longrightarrow>
   fold apply_msg ms dk1 k = None \<or> fold apply_msg ms dk1 k = fold apply_msg ms dk2 k"
proof (induction ms arbitrary: dk1 dk2)
  case (Cons m ms)
  from Cons.IH [of "apply_msg m dk1" "apply_msg m dk2"] apply_msg_agree [of dk1 k dk2 m] Cons.prems
  show ?case by simp
qed simp

text \<open>What the client has sent when it has flushed.\<close>

lemma disconnect_stream:
  assumes "cl_ready_at E d x"
  shows "\<exists>ms x'. (\<forall>answer. answer (cl_sk x') = Some 0 \<longrightarrow> disconnect_from_page_server E True answer (close_server_xfer x) = (0, x'))
     \<and> cl_sk x' = stream_of (ms @ [SFlush]) \<and> session_ok NO_DST (ms @ [SFlush]) \<and> SFlush \<notin> set ms
     \<and> fold apply_msg (ms @ [SFlush]) Map.empty (key_of d) = Some (cl_view x)"
proof -
  from assms obtain ms s where ms: "cl_sk x = stream_of ms" "session_ok NO_DST ms"
      "fold apply_msg ms Map.empty (key_of d) = Some s" "cl_dst x = d" "cl_conn x" "cl_healthy E" "SFlush \<notin> set ms"
    by (auto simp: cl_ready_at_def cl_ready_def)
  define x' where "x' = x\<lparr>cl_fd := False, cl_sk := stream_of (ms @ [SFlush]), cl_tick := cl_tick x + 1, cl_conn := False\<rparr>"
  have "disconnect_from_page_server E True answer (close_server_xfer x) = (0, x')" if "answer (cl_sk x') = Some 0" for answer
    using ms that by (simp add: disconnect_from_page_server_def close_server_xfer_def cl_send_def cl_healthy_def x'_def)
  moreover have "cl_view x = s" using cl_view_stream [OF ms(1,2)] ms(3,4) by simp
  ultimately show ?thesis
    using ms by (intro exI [of _ ms] exI [of _ x']) (simp add: session_ok_append x'_def)
qed

lemma page_server_serve_session:
  assumes "srv_healthy E" "s_dst s = NO_DST" "lx_pipes (s_loc s) 0 = []" "session_ok NO_DST (ms @ [SFlush])"
    and "s_in s = stream_of (ms @ [SFlush])" "length (s_in s) < n"
  shows "\<exists>s'. page_server_serve E n s = Inr (0, s')
     \<and> lx_disk (s_loc s') = fold apply_msg (ms @ [SFlush]) (lx_disk (s_loc s))
     \<and> s_out s' = s_out s @ replicate (length (filter ((=) SFlush) (ms @ [SFlush]))) 0"
proof -
  let ?s = "s\<lparr>s_psize := sv_pipe_sz E\<rparr>"
  have inv: "srv_inv ?s" using assms(1-3) by (simp add: srv_inv_def srv_healthy_def)
  have "length (ms @ [SFlush]) < n" using length_stream_of [of "ms @ [SFlush]"] assms(5,6) by simp
  from serve_loop_session [where fl = False, OF assms(1) inv _ _ _ this] assms(2,4-6)
  obtain s' where "serve_loop E n n False ?s = Inr (0, True, s')"
      "lx_disk (s_loc s') = fold apply_msg (ms @ [SFlush]) (lx_disk (s_loc s))"
      "s_out s' = s_out s @ replicate (length (filter ((=) SFlush) (ms @ [SFlush]))) 0"
    by auto
  then show ?thesis
    using assms(1) by (simp add: page_server_serve_def srv_healthy_def page_server_close_def loc_ops_def)
qed

text \<open>Everything a client has transferred is on the server's disk once it has flushed.\<close>

lemma flush_and_serve:
  assumes "cl_ready_at C d x" "srv_healthy S" "s_dst s = NO_DST" "lx_pipes (s_loc s) 0 = []"
  shows "\<exists>x3. \<forall>n > length (cl_sk x3). disconnect_from_page_server C True (server_answer S n s) (close_server_xfer x) = (0, x3)
     \<and> (\<exists>s'. page_server_serve S n (s\<lparr>s_in := cl_sk x3\<rparr>) = Inr (0, s') \<and> s_out s' = s_out s @ [0]
          \<and> lx_disk (s_loc s') (key_of d) = Some (cl_view x))"
proof -
  from disconnect_stream [OF assms(1)] obtain ms x3 where
    f: "\<forall>answer. answer (cl_sk x3) = Some 0 \<longrightarrow> disconnect_from_page_server C True answer (close_server_xfer x) = (0, x3)"
       "cl_sk x3 = stream_of (ms @ [SFlush])" "session_ok NO_DST (ms @ [SFlush])" "SFlush \<notin> set ms"
       "fold apply_msg (ms @ [SFlush]) Map.empty (key_of d) = Some (cl_view x)"
    by blast
  have dk: "fold apply_msg (ms @ [SFlush]) (lx_disk (s_loc s)) (key_of d) = Some (cl_view x)"
    using fold_apply_agree [of Map.empty "key_of d" "lx_disk (s_loc s)" "ms @ [SFlush]"] f(5) by simp
  have one: "filter ((=) SFlush) (ms @ [SFlush]) = [SFlush]"
    using f(4) by (auto simp: filter_empty_conv)
  have "disconnect_from_page_server C True (server_answer S n s) (close_server_xfer x) = (0, x3)
     \<and> (\<exists>s'. page_server_serve S n (s\<lparr>s_in := cl_sk x3\<rparr>) = Inr (0, s') \<and> s_out s' = s_out s @ [0]
          \<and> lx_disk (s_loc s') (key_of d) = Some (cl_view x))"
    if n: "length (cl_sk x3) < n" for n
  proof -
    have "s_dst (s\<lparr>s_in := cl_sk x3\<rparr>) = NO_DST" "lx_pipes (s_loc (s\<lparr>s_in := cl_sk x3\<rparr>)) 0 = []"
        "s_in (s\<lparr>s_in := cl_sk x3\<rparr>) = stream_of (ms @ [SFlush])" "length (s_in (s\<lparr>s_in := cl_sk x3\<rparr>)) < n"
      using assms(3,4) f(2) n by simp_all
    from page_server_serve_session [OF assms(2) this(1,2) f(3) this(3,4)] obtain s' where
      s': "page_server_serve S n (s\<lparr>s_in := cl_sk x3\<rparr>) = Inr (0, s')" "s_out s' = s_out s @ [0]"
        "lx_disk (s_loc s') (key_of d) = Some (cl_view x)"
      using dk one by auto
    then have "server_answer S n s (cl_sk x3) = Some 0"
      by (simp add: server_answer_def)
    with f(1) s' show ?thesis by blast
  qed
  then show ?thesis by blast
qed

section \<open>Properties\<close>

text \<open>C9: A dump over the network arrives. Let no call of the client or the server fail, the server be
  without auto-dedup, types be below 255 and ids below \<open>2 ^ 55\<close>. The client opens image \<open>i\<close> of type \<open>t\<close>,
  transfers a filled page pipe (pages and holes added in ascending order, every hole
  shorter than 4 GiB), closes the transfer and disconnects. The server, fed with exactly the bytes
  the client wrote and with more fuel than there are bytes, ends with success and sends back one status
  word, 0, the answer to the one flush; the client, which reads the word that this server
  sends, disconnects with 0. The server's disk holds for (t, i) an image that, on top of a parent chain
  (sorted pagemaps, entries below \<open>2 ^ 20\<close> pages; empty only when there is no hole), is
  a chain the page reader serves: added pages read as the task's memory and holes as the parent has
  them.\<close>

theorem remote_dump_image:
  assumes "cl_healthy C" "srv_healthy S" "0 \<le> t" "t < 255" "0 \<le> i" "i < 2 ^ 55"
    and "cl_conn x" "cl_sk x = []" "s_dst s = NO_DST" "lx_pipes (s_loc s) 0 = []"
    and "pp_wf pp" "pp_ordered pp" "pp_small pp" "pipes_hold mem 0 (pp_segs pp) (cl_pipes x)"
    and "\<And>a. length (mem a) = PAGE_SIZE" "chain_ok ss" "ss \<noteq> [] \<or> free_hole pp = 0"
  shows "\<exists>x1 pp' x2 x3. open_page_server_xfer C t i x = (0, x1)
     \<and> page_xfer_dump_pages (srv_ops C) pp 0 x1 = Inr (0, pp', x2)
     \<and> (\<forall>n > length (cl_sk x3). disconnect_from_page_server C True (server_answer S n s) (close_server_xfer x2) = (0, x3)
         \<and> (\<exists>s' img. page_server_serve S n (s\<lparr>s_in := cl_sk x3\<rparr>) = Inr (0, s') \<and> s_out s' = s_out s @ [0]
           \<and> lx_disk (s_loc s') (t, i) = Some img \<and> chain_ok (img # ss)
           \<and> (\<forall>va \<in> set (pp_pages pp). snap_page (img # ss) va = Some (mem va))
           \<and> (\<forall>va \<in> set (pp_hole_pages pp). snap_page (img # ss) va = snap_page ss va)))"
proof -
  let ?d = "encode_pm_id t i"
  obtain r x1 where o: "open_page_server_xfer C t i x = (r, x1)" by (cases "open_page_server_xfer C t i x")
  note rd = open_page_server_xfer_ready [OF assms(1,3-6) o assms(7,8)]
  have rd1: "cl_ready_at C ?d x1" "cl_view x1 = ([], [])" and h: "pipes_hold mem 0 (pp_segs pp) (cl_pipes x1)"
    using rd assms(14) by simp_all
  from srv.dump_pages_image [OF assms(11,13) rd1 h assms(15)] obtain pp' x2 where
    d: "page_xfer_dump_pages (srv_ops C) pp 0 x1 = Inr (0, pp', x2)" "cl_ready_at C ?d x2"
       "cl_view x2 = plan_image mem (pp_plan pp)" by blast
  let ?img = "plan_image mem (pp_plan pp)"
  have key: "key_of ?d = (t, i)" using decode_encode_pm_id [of t i] assms(3-6) by (simp add: key_of_def)
  from flush_and_serve [OF d(2) assms(2,9,10)] obtain x3 where
    sv: "\<forall>n > length (cl_sk x3). disconnect_from_page_server C True (server_answer S n s) (close_server_xfer x2) = (0, x3)
      \<and> (\<exists>s'. page_server_serve S n (s\<lparr>s_in := cl_sk x3\<rparr>) = Inr (0, s') \<and> s_out s' = s_out s @ [0]
          \<and> lx_disk (s_loc s') (t, i) = Some ?img)"
    unfolding d(3) key by blast
  have lk: "chain_ok (?img # ss)" "\<forall>va \<in> set (pp_pages pp). snap_page (?img # ss) va = Some (mem va)"
      "\<forall>va \<in> set (pp_hole_pages pp). snap_page (?img # ss) va = snap_page ss va"
    using plan_image_chain [OF assms(11-13,16,17)] plan_image_page [where mem = mem, OF assms(11-13,15)]
      plan_image_hole [OF assms(11-13)] by blast+
  show ?thesis
    by (rule exI [of _ x1], rule exI [of _ pp'], rule exI [of _ x2], rule exI [of _ x3])
      (use o rd d(1) sv lk in blast)
qed

definition ex_cl_env :: cl_env where
  "ex_cl_env = \<lparr>cl_write_ok = (\<lambda>_. True), cl_splice = (\<lambda>_ n. int n)\<rparr>"

definition ex_cl :: cl_xfer where
  "ex_cl = \<lparr>cl_conn = True, cl_fd = False, cl_dst = 0, cl_sk = [], cl_pipes = ex_pipes, cl_tick = 0\<rparr>"

definition ex_srv_env :: srv_env where
  "ex_srv_env = \<lparr>sv_xfer = ex_xenv, sv_pipe = True, sv_pipe_sz = 65536, sv_read = (\<lambda>_. int pi_size),
     sv_splice = (\<lambda>_ n. int n), sv_write_ok = (\<lambda>_. True)\<rparr>"

definition ex_srv :: page_server where
  "ex_srv = \<lparr>s_dst = NO_DST, s_loc = ex_lx\<lparr>lx_disk := Map.empty, lx_pipes := (\<lambda>_. [])\<rparr>, s_psize = 0, s_in = [],
     s_out = [], s_tick = 0\<rparr>"

lemma ex_healthy: "cl_healthy ex_cl_env" "srv_healthy ex_srv_env"
  by (simp_all add: cl_healthy_def ex_cl_env_def srv_healthy_def ex_srv_env_def ex_xenv_def)

theorem remote_dump_image_witness:
  "\<exists>x1 pp' x2 x3 n s' img. open_page_server_xfer ex_cl_env 16 7 ex_cl = (0, x1)
     \<and> page_xfer_dump_pages (srv_ops ex_cl_env) ex_hpp 0 x1 = Inr (0, pp', x2)
     \<and> disconnect_from_page_server ex_cl_env True (server_answer ex_srv_env n ex_srv) (close_server_xfer x2) = (0, x3)
     \<and> page_server_serve ex_srv_env n (ex_srv\<lparr>s_in := cl_sk x3\<rparr>) = Inr (0, s') \<and> s_out s' = [0]
     \<and> lx_disk (s_loc s') (16, 7) = Some img
     \<and> snap_page [img, ex_parent] 8192 = Some (ex_mem 8192) \<and> snap_page [img, ex_parent] 12288 = snap_page [ex_parent] 12288"
proof -
  have a: "cl_conn ex_cl" "cl_sk ex_cl = []" "s_dst ex_srv = NO_DST" "lx_pipes (s_loc ex_srv) 0 = []"
      "pipes_hold ex_mem 0 (pp_segs ex_hpp) (cl_pipes ex_cl)" "\<And>a. length (ex_mem a) = PAGE_SIZE"
      "chain_ok [ex_parent]" "[ex_parent] \<noteq> [] \<or> free_hole ex_hpp = 0"
    using ex_pipes_hold
    by (simp_all add: ex_cl_def ex_srv_def ex_lx_def ex_mem_def ex_parent_def pe_small_def pe_end_def PAGE_SIZE_def)
  have b: "(0::int) \<le> 16" "(16::int) < 255" "(0::int) \<le> 7" "(7::int) < 2 ^ 55" by simp_all
  from remote_dump_image [OF ex_healthy b a(1-4) ex_hpp_facts(1) ex_hpp_ordered ex_hpp_facts(4) a(5-8)]
  obtain x1 pp' x2 x3 where r: "open_page_server_xfer ex_cl_env 16 7 ex_cl = (0, x1)"
     "page_xfer_dump_pages (srv_ops ex_cl_env) ex_hpp 0 x1 = Inr (0, pp', x2)"
     and n: "\<forall>n > length (cl_sk x3). disconnect_from_page_server ex_cl_env True (server_answer ex_srv_env n ex_srv) (close_server_xfer x2) = (0, x3)
       \<and> (\<exists>s' img. page_server_serve ex_srv_env n (ex_srv\<lparr>s_in := cl_sk x3\<rparr>) = Inr (0, s') \<and> s_out s' = s_out ex_srv @ [0]
         \<and> lx_disk (s_loc s') (16, 7) = Some img \<and> chain_ok (img # [ex_parent])
         \<and> (\<forall>va \<in> set (pp_pages ex_hpp). snap_page (img # [ex_parent]) va = Some (ex_mem va))
         \<and> (\<forall>va \<in> set (pp_hole_pages ex_hpp). snap_page (img # [ex_parent]) va = snap_page [ex_parent] va))"
    by blast
  have "s_out ex_srv = []" by (simp add: ex_srv_def)
  with n [rule_format, OF lessI] obtain s' img where
    "disconnect_from_page_server ex_cl_env True (server_answer ex_srv_env (Suc (length (cl_sk x3))) ex_srv) (close_server_xfer x2) = (0, x3)"
    "page_server_serve ex_srv_env (Suc (length (cl_sk x3))) (ex_srv\<lparr>s_in := cl_sk x3\<rparr>) = Inr (0, s')" "s_out s' = [0]"
    "lx_disk (s_loc s') (16, 7) = Some img"
    "snap_page [img, ex_parent] 8192 = Some (ex_mem 8192)" "snap_page [img, ex_parent] 12288 = snap_page [ex_parent] 12288"
    unfolding ex_hpp_facts by auto
  with r show ?thesis by blast
qed

text \<open>C10: A server whose system calls work, without auto-dedup and with no image open yet, executes any
  well-formed session that ends in a flush, given more fuel than there are bytes:
  whatever sizes the socket delivers the pages in, it returns 0, the image files are what
  the messages, applied in order, make of them, and every flush has been answered with 0.\<close>

theorem serve_session:
  assumes "srv_healthy E" "s_dst s = NO_DST" "lx_pipes (s_loc s) 0 = []" "session_ok NO_DST (ms @ [SFlush])"
    and "s_in s = stream_of (ms @ [SFlush])" "length (s_in s) < n"
  shows "\<exists>s'. page_server_serve E n s = Inr (0, s')
     \<and> lx_disk (s_loc s') = fold apply_msg (ms @ [SFlush]) (lx_disk (s_loc s))
     \<and> s_out s' = s_out s @ replicate (Suc (length (filter ((=) SFlush) ms))) 0"
  using page_server_serve_session [OF assms] by (simp add: replicate_append_same)

theorem serve_session_witness:
  "\<exists>s'. page_server_serve ex_srv_env 100 (ex_srv\<lparr>s_in := stream_of [SOpen 272, SHole 272 4096 2, SFlush]\<rparr>) = Inr (0, s')
     \<and> lx_disk (s_loc s') (16, 1) = Some ([\<lparr>vaddr = 4096, nr_pages = 2, in_parent = True\<rparr>], []) \<and> s_out s' = [0]"
proof -
  have k: "key_of 272 = (16, 1)"
    by (simp add: key_of_def decode_pm_type_def decode_pm_id_def PS_TYPE_BITS_def mask_eq_exp_minus_1)
  let ?ms = "[SOpen 272, SHole 272 4096 2]"
  let ?s = "ex_srv\<lparr>s_in := stream_of (?ms @ [SFlush])\<rparr>"
  have "s_dst ?s = NO_DST" "lx_pipes (s_loc ?s) 0 = []" "session_ok NO_DST (?ms @ [SFlush])"
    "s_in ?s = stream_of (?ms @ [SFlush])" "length (s_in ?s) < 100"
    by (simp_all add: ex_srv_def NO_DST_def pi_size_def)
  from serve_session [OF ex_healthy(2) this] show ?thesis
    by (auto simp: k add_entry_def ex_srv_def)
qed

text \<open>An image id survives the wire: for every image type of 8 bits and id of 55 bits, the
  type and the id that the server decodes are those that the client encoded, and they come
  out of the 24 header bytes unchanged together with the command, address and page count.\<close>

theorem header_roundtrip:
  assumes "0 \<le> t" "t < 2 ^ 8" "0 \<le> i" "i < 2 ^ 55" "c < 2 ^ 32" "n < 2 ^ 32" "a < 2 ^ 64"
  shows "let pi = pi_of_bytes (pi_bytes \<lparr>ps_cmd = c, ps_nr_pages = n, ps_vaddr = a, ps_dst_id = encode_pm_id t i\<rparr>)
     in ps_cmd pi = c \<and> ps_nr_pages pi = n \<and> ps_vaddr pi = a
        \<and> decode_pm_type (ps_dst_id pi) = t \<and> decode_pm_id (ps_dst_id pi) = i"
  using assms by (simp add: pi_bytes_inverse pi_ok_def decode_encode_pm_id)

theorem header_roundtrip_witness:
  "decode_pm_id (ps_dst_id (pi_of_bytes (pi_bytes \<lparr>ps_cmd = 1, ps_nr_pages = 5, ps_vaddr = 4096,
     ps_dst_id = encode_pm_id 16 4711\<rparr>))) = 4711"
  using header_roundtrip [of 16 4711 1 5 4096] by (simp add: Let_def)

text \<open>C23: A connection that ends within the pages of a segment leaves the server in an endless
  loop: splice then returns 0, which the code takes for progress, so with no bound on the
  number of rounds does the session end.\<close>

theorem truncated_stream_hangs:
  assumes "srv_healthy E" "s_dst s = NO_DST" "lx_pipes (s_loc s) 0 = []" "d \<noteq> NO_DST" "va < 2 ^ 64" "k < 2 ^ 20"
    and "s_in s = stream_of [SOpen d] @ pi_bytes (smsg_pi (SAdd d va k [])) @ bs" "length bs < k * PAGE_SIZE"
  shows "page_server_serve E n s = Inl HANG"
proof -
  let ?s = "s\<lparr>s_psize := sv_pipe_sz E\<rparr>" and ?m = "SAdd d va k []"
  have inv: "srv_inv ?s" using assms(1-3) by (simp add: srv_inv_def srv_healthy_def)
  obtain s1 where s1: "sk_read E ?s = (int pi_size, pi_bytes (smsg_pi (SOpen d)), s1)"
      "s_in s1 = smsg_data (SOpen d) @ pi_bytes (smsg_pi ?m) @ bs" "srv_same ?s s1" "s_loc s1 = s_loc ?s"
    using sk_read_header [OF assms(1), of ?s "smsg_pi (SOpen d)"] assms(7) by auto
  have inv1: "srv_inv s1" using srv_inv_same [OF inv s1(3,4)] by simp
  have "length (s_in s1) < Suc (length (s_in s1))" by simp
  from serve_cmd_msg [OF assms(1) inv1 _ _ s1(2) this] assms(4) obtain s2 where
    s2: "serve_cmd E (Suc (length (s_in s1))) (smsg_pi (SOpen d)) s1 = Inr (0, False, s2)" "srv_inv s2"
      "s_in s2 = pi_bytes (smsg_pi ?m) @ bs" "s_dst s2 = d" by auto
  have c1: "serve_cmd E n (smsg_pi (SOpen d)) s1 = Inr (0, False, s2)"
    using s2(1) by (simp add: serve_cmd_def)
  obtain s3 where s3: "sk_read E s2 = (int pi_size, pi_bytes (smsg_pi ?m), s3)" "s_in s3 = bs" "srv_same s2 s3" "s_loc s3 = s_loc s2"
    using sk_read_header [OF assms(1) s2(3)] by blast
  have inv3: "srv_inv s3" "s_dst s3 = d" using srv_inv_same [OF s2(2) s3(3,4)] s2(4) by auto
  have c2: "serve_cmd E n (smsg_pi ?m) s3 = Inl HANG"
    using serve_add_eof [OF assms(1) inv3(1)] inv3(2) assms(4,6,8) s3(2) by simp
  have pi: "pi_of_bytes (pi_bytes (smsg_pi (SOpen d))) = smsg_pi (SOpen d)" "pi_of_bytes (pi_bytes (smsg_pi ?m)) = smsg_pi ?m"
    using assms(4-6) by (auto intro!: pi_bytes_inverse simp: pi_ok_def ps_cmds)
  have "serve_loop E n k False ?s = Inl HANG" for k
  proof (cases k)
    case (Suc k1)
    show ?thesis
    proof (cases k1)
      case 0
      with Suc s1(1) c1 pi show ?thesis by (simp add: pi_size_def del: smsg_pi.simps)
    next
      case (Suc k2)
      with \<open>k = Suc k1\<close> s1(1) c1 s3(1) c2 pi show ?thesis by (simp add: pi_size_def del: smsg_pi.simps)
    qed
  qed simp
  then show ?thesis using assms(1) by (simp add: page_server_serve_def srv_healthy_def)
qed

theorem truncated_stream_hangs_witness:
  "\<forall>n. page_server_serve ex_srv_env n
     (ex_srv\<lparr>s_in := stream_of [SOpen 272] @ pi_bytes (smsg_pi (SAdd 272 4096 1 [])) @ replicate 100 0\<rparr>) = Inl HANG"
proof
  fix n
  let ?s = "ex_srv\<lparr>s_in := stream_of [SOpen 272] @ pi_bytes (smsg_pi (SAdd 272 4096 1 [])) @ replicate 100 0\<rparr>"
  have "s_dst ?s = NO_DST" "lx_pipes (s_loc ?s) 0 = []" "(272 :: u64) \<noteq> NO_DST" "(4096 :: nat) < 2 ^ 64" "(1 :: nat) < 2 ^ 20"
    "s_in ?s = stream_of [SOpen 272] @ pi_bytes (smsg_pi (SAdd 272 4096 1 [])) @ replicate 100 0"
    "length (replicate 100 (0 :: byte)) < 1 * PAGE_SIZE"
    by (simp_all add: ex_srv_def NO_DST_def PAGE_SIZE_def)
  from truncated_stream_hangs [OF ex_healthy(2) this] show "page_server_serve ex_srv_env n ?s = Inl HANG" .
qed

end
