(* ===== verification/MemDump.thy ===== *)
theory MemDump
  imports PageServer
begin

text \<open>
  Dumping the memory of a task, mem.c with the two parasite commands of pie/parasite.c it
  drives: which pages are taken and which are left to the parent snapshot, filling the page
  pipe, having the parasite splice the pages into the pipes, and the transfer into the
  image. The locale \<open>page_sink\<close> is what the scan relies on of a page pipe.
\<close>

section \<open>Memory areas and page flags\<close>

definition VMA_AREA_REGULAR :: u32 where "VMA_AREA_REGULAR = push_bit 0 1"
definition VMA_AREA_VDSO :: u32 where "VMA_AREA_VDSO = push_bit 3 1"
definition VMA_FILE_PRIVATE :: u32 where "VMA_FILE_PRIVATE = push_bit 6 1"
definition VMA_FILE_SHARED :: u32 where "VMA_FILE_SHARED = push_bit 7 1"
definition VMA_ANON_SHARED :: u32 where "VMA_ANON_SHARED = push_bit 8 1"
definition VMA_ANON_PRIVATE :: u32 where "VMA_ANON_PRIVATE = push_bit 9 1"
definition VMA_AREA_SYSVIPC :: u32 where "VMA_AREA_SYSVIPC = push_bit 10 1"

lemmas vma_flags = VMA_AREA_REGULAR_def VMA_AREA_VDSO_def VMA_FILE_PRIVATE_def VMA_FILE_SHARED_def
  VMA_ANON_SHARED_def VMA_ANON_PRIVATE_def VMA_AREA_SYSVIPC_def

definition PROT_READ :: u32 where "PROT_READ = 1"

definition TASK_SIZE :: nat where "TASK_SIZE = 2 ^ 47 - PAGE_SIZE"

record vma_area =
  vma_start :: nat
  vma_end :: nat
  vma_prot :: u32
  vma_status :: u32

definition vma_entry_is :: "vma_area \<Rightarrow> u32 \<Rightarrow> bool" where
  "vma_entry_is vma s \<longleftrightarrow> vma_status vma AND s = s"

definition vma_area_len :: "vma_area \<Rightarrow> nat" where
  "vma_area_len vma = vma_end vma - vma_start vma"

definition privately_dump_vma :: "vma_area \<Rightarrow> bool" where
  "privately_dump_vma vma =
     (if vma_status vma AND VMA_AREA_REGULAR = 0 then False
      else if vma_status vma AND VMA_FILE_SHARED \<noteq> 0 then False
      else if vma_status vma AND VMA_AREA_SYSVIPC \<noteq> 0 then False
      else if vma_entry_is vma VMA_ANON_SHARED then False
      else if \<not> vma_entry_is vma VMA_ANON_PRIVATE \<and> \<not> vma_entry_is vma VMA_FILE_PRIVATE then False
      else if TASK_SIZE < vma_end vma then False
      else True)"

text \<open>The collected areas with the accounting that proc_parse.c does for them.\<close>

record vm_area_list =
  vm_h :: "vma_area list"
  vm_nr :: nat
  priv_size :: nat
  longest :: nat

definition add_vma_area :: "vma_area \<Rightarrow> vm_area_list \<Rightarrow> vm_area_list" where
  "add_vma_area vma l =
     (let l1 = l\<lparr>vm_h := vm_h l @ [vma], vm_nr := vm_nr l + 1\<rparr> in
      if privately_dump_vma vma then
        (let pages = vma_area_len vma div PAGE_SIZE in
         l1\<lparr>priv_size := priv_size l + pages, longest := max (longest l) pages\<rparr>)
      else l1)"

definition PME_PRESENT :: u64 where "PME_PRESENT = push_bit 63 1"
definition PME_SWAP :: u64 where "PME_SWAP = push_bit 62 1"
definition PME_FILE :: u64 where "PME_FILE = push_bit 61 1"
definition PME_SOFT_DIRTY :: u64 where "PME_SOFT_DIRTY = push_bit 55 1"

lemmas pme_flags = PME_PRESENT_def PME_SWAP_def PME_FILE_def PME_SOFT_DIRTY_def

definition should_dump_page :: "vma_area \<Rightarrow> u64 \<Rightarrow> bool" where
  "should_dump_page vmae pme =
     (if vma_entry_is vmae VMA_AREA_VDSO then True
      else if vma_entry_is vmae VMA_FILE_PRIVATE \<and> pme AND PME_FILE \<noteq> 0 then False
      else if pme AND (PME_PRESENT OR PME_SWAP) \<noteq> 0 then True
      else False)"

section \<open>The parent's pagemap\<close>

text \<open>
  \<^verbatim>\<open>struct mem_snap_ctx\<close>: the array has \<^verbatim>\<open>alloc\<close> entries, of which the
  first \<open>snap_nr\<close> are filled; the others hold what the allocator left there.
\<close>

record mem_snap_ctx =
  snap_nr :: nat
  snap_iovs :: "iovec list"
  rover :: nat

definition MEM_SNAP_BATCH :: nat where
  "MEM_SNAP_BATCH = 64"

text \<open>
  What \<^verbatim>\<open>mem_snap_init\<close> meets: whether there is a parent directory, its pagemap
  image (the head, or a failure to read it, and the records), the allocations (the n-th
  \<^verbatim>\<open>xrealloc\<close> by the number of entries), and the contents of fresh memory.
\<close>

record snap_env =
  parent_fd :: bool
  parent_pm :: "(bool \<times> pagemap_entry option list) img_open"
  ctx_malloc :: bool
  iovs_malloc :: bool
  iovs_realloc :: "nat \<Rightarrow> bool"
  snap_junk :: iovec

fun snap_collect :: "snap_env \<Rightarrow> pagemap_entry option list \<Rightarrow> mem_snap_ctx \<Rightarrow> mem_snap_ctx option" where
  "snap_collect E [] ctx = Some ctx"
| "snap_collect E (None # recs) ctx = None"
| "snap_collect E (Some pe # recs) ctx =
     (let iov = \<lparr>iov_base = vaddr pe, iov_len = u32_of (nr_pages pe * PAGE_SIZE)\<rparr>;
          ctx1 = ctx\<lparr>snap_iovs := (snap_iovs ctx)[snap_nr ctx := iov], snap_nr := snap_nr ctx + 1\<rparr> in
      if length (snap_iovs ctx1) \<le> snap_nr ctx1 then
        (if \<not> iovs_realloc E (snap_nr ctx1) then None
         else snap_collect E recs (ctx1\<lparr>snap_iovs := snap_iovs ctx1 @ replicate MEM_SNAP_BATCH (snap_junk E)\<rparr>))
      else snap_collect E recs ctx1)"

text \<open>\<open>Inl\<close> is \<^verbatim>\<open>ERR_PTR\<close>, \<open>Inr None\<close> is NULL: a full dump.\<close>

definition mem_snap_init :: "snap_env \<Rightarrow> unit + mem_snap_ctx option" where
  "mem_snap_init E =
     (if \<not> parent_fd E then Inr None
      else case parent_pm E of
        ImgErr enoent \<Rightarrow> if enoent then Inr None else Inl ()
      | Img (head_ok, recs) \<Rightarrow>
          if \<not> ctx_malloc E then Inl ()
          else if \<not> iovs_malloc E then Inl ()
          else if \<not> head_ok then Inl ()
          else case snap_collect E recs \<lparr>snap_nr = 0, snap_iovs = replicate MEM_SNAP_BATCH (snap_junk E), rover = 0\<rparr> of
                 None \<Rightarrow> Inl ()
               | Some ctx \<Rightarrow> Inr (Some ctx))"

text \<open>
  The loop of \<^verbatim>\<open>page_in_parent\<close>: the bound check comes after the first look at
  \<^verbatim>\<open>iovs[rover]\<close>, so a rover that has reached \<open>snap_nr\<close> reads an unfilled
  entry, and one past the allocation is out of range.
\<close>

function pip_loop :: "mem_snap_ctx \<Rightarrow> nat \<Rightarrow> (int \<times> mem_snap_ctx) outcome" where
  "pip_loop snap va =
     (if length (snap_iovs snap) \<le> rover snap then Inl UB
      else let iov = snap_iovs snap ! rover snap; snap1 = snap\<lparr>rover := rover snap + 1\<rparr> in
        if va < iov_base iov then Inr (0, snap)
        else if va < iov_base iov + iov_len iov then Inr (1, snap)
        else if snap_nr snap \<le> rover snap1 then Inr (0, snap1)
        else pip_loop snap1 va)"
  by pat_completeness auto
termination
  by (relation "measure (\<lambda>(snap, va). length (snap_iovs snap) - rover snap)") auto

declare pip_loop.simps [simp del]

definition page_in_parent :: "nat \<Rightarrow> u64 \<Rightarrow> mem_snap_ctx \<Rightarrow> (int \<times> mem_snap_ctx) outcome" where
  "page_in_parent va pme snap =
     (if pme AND PME_SOFT_DIRTY \<noteq> 0 then Inr (0, snap) else pip_loop snap va)"

section \<open>Scanning one area\<close>

text \<open>
  /proc/pid/pagemap: the flags of every page by page number, and whether seeking to and
  reading the part of an area (by its first page number) works.
\<close>

record pagemap_file =
  pme_of :: "nat \<Rightarrow> u64"
  pagemap_io :: "nat \<Rightarrow> bool"

fun gen_loop ::
  "pipe_env \<Rightarrow> vma_area \<Rightarrow> (nat \<Rightarrow> u64) \<Rightarrow> nat list \<Rightarrow> page_pipe \<Rightarrow> mem_snap_ctx option
   \<Rightarrow> (int \<times> page_pipe \<times> mem_snap_ctx option) outcome" where
  "gen_loop E vma pme [] pp snap = Inr (0, pp, snap)"
| "gen_loop E vma pme (pfn # pfns) pp snap =
     (let va = vma_start vma + pfn * PAGE_SIZE; map_pfn = pme (vma_start vma div PAGE_SIZE + pfn) in
      if \<not> should_dump_page vma map_pfn then gen_loop E vma pme pfns pp snap
      else
        bindF (case snap of None \<Rightarrow> Inr (0, None)
               | Some sn \<Rightarrow> bindF (page_in_parent va map_pfn sn) (\<lambda>(r, sn1). Inr (r, Some sn1)))
          (\<lambda>(hole, snap1).
            bindF (if hole \<noteq> 0 then page_pipe_add_hole E pp va else page_pipe_add_page E pp va)
              (\<lambda>(ret, pp1). if ret \<noteq> 0 then Inr (-1, pp1, snap1) else gen_loop E vma pme pfns pp1 snap1)))"

definition generate_iovs ::
  "pipe_env \<Rightarrow> vma_area \<Rightarrow> pagemap_file \<Rightarrow> page_pipe \<Rightarrow> mem_snap_ctx option
   \<Rightarrow> (int \<times> page_pipe \<times> mem_snap_ctx option) outcome" where
  "generate_iovs E vma pm pp snap =
     (if \<not> pagemap_io pm (vma_start vma div PAGE_SIZE) then Inr (-1, pp, snap)
      else gen_loop E vma (pme_of pm) [0..<vma_area_len vma div PAGE_SIZE] pp snap)"

fun generate_all ::
  "pipe_env \<Rightarrow> vma_area list \<Rightarrow> pagemap_file \<Rightarrow> page_pipe \<Rightarrow> mem_snap_ctx option
   \<Rightarrow> (int \<times> page_pipe \<times> mem_snap_ctx option) outcome" where
  "generate_all E [] pm pp snap = Inr (0, pp, snap)"
| "generate_all E (vma # vmas) pm pp snap =
     (if \<not> privately_dump_vma vma then generate_all E vmas pm pp snap
      else bindF (generate_iovs E vma pm pp snap) (\<lambda>(ret, pp1, snap1).
             if ret < 0 then Inr (ret, pp1, snap1) else generate_all E vmas pm pp1 snap1))"

section \<open>The parasite's commands\<close>

text \<open>The arguments of the dump commands, in the area shared with the parasite.\<close>

record parasite_vma_entry =
  pv_start :: nat
  pv_len :: nat
  pv_prot :: u32

record parasite_dump_pages_args =
  pa_vmas :: "parasite_vma_entry list"
  add_prot :: u32
  args_off :: nat
  args_nr_segs :: nat
  args_nr_pages :: nat

text \<open>
  What the arguments of a dump need, as the \<^verbatim>\<open>unsigned int\<close> it is returned as: the header, an entry for
  every area and an iovec for every second page of the private areas.
\<close>

definition dump_pages_args_size :: "vm_area_list \<Rightarrow> nat" where
  "dump_pages_args_size vmas = u32_of (20 + vm_nr vmas * 24 + (priv_size vmas + 1) * 16 mod 2 ^ 64 div 2)"

text \<open>The arguments of the other commands whose size depends on the task, returned as \<^verbatim>\<open>int\<close>.\<close>

definition drain_fds_size :: "nat \<Rightarrow> int" where
  "drain_fds_size nr_fds = int_of_ulong (4 + nr_fds * 4)"

definition posix_timers_dump_size :: "nat \<Rightarrow> int" where
  "posix_timers_dump_size timer_n = int_of_ulong (4 + 48 * timer_n)"

definition PARASITE_ARG_SIZE_MIN :: nat where
  "PARASITE_ARG_SIZE_MIN = 4096"

text \<open>
  The area shared with the parasite is made for the largest of them, rounded up to pages. The second argument is
  the number of descriptors to drain, if there is such a set.
\<close>

definition parasite_args_size :: "vm_area_list \<Rightarrow> nat option \<Rightarrow> nat \<Rightarrow> nat" where
  "parasite_args_size vmas dfds timer_n =
     (let size = PARASITE_ARG_SIZE_MIN;
          size = (case dfds of None \<Rightarrow> size | Some nr_fds \<Rightarrow> max size (ulong_of_int (drain_fds_size nr_fds)));
          size = (if timer_n \<noteq> 0 then max size (ulong_of_int (posix_timers_dump_size timer_n)) else size);
          size = max size (dump_pages_args_size vmas)
      in ((size - 1) div PAGE_SIZE * PAGE_SIZE + PAGE_SIZE) mod 2 ^ 64)"

text \<open>
  \<^verbatim>\<open>parasite_args_s\<close> takes the size as an \<^verbatim>\<open>int\<close> and compares it with the \<^verbatim>\<open>unsigned long\<close> size of the area.
\<close>

definition parasite_args_s :: "nat \<Rightarrow> int \<Rightarrow> unit outcome" where
  "parasite_args_s ctl_args_size args_size = (if ctl_args_size < ulong_of_int args_size then Inl BUG else Inr ())"

text \<open>What \<^verbatim>\<open>prep_dump_pages_args\<close> leaves in the area; entries that do not fit are \<open>UB\<close>.\<close>

definition dump_args_of :: "vm_area_list \<Rightarrow> parasite_dump_pages_args" where
  "dump_args_of vmas =
     \<lparr>pa_vmas = map (\<lambda>vma. \<lparr>pv_start = vma_start vma, pv_len = vma_area_len vma, pv_prot = vma_prot vma\<rparr>)
                  (filter (\<lambda>vma. privately_dump_vma vma \<and> vma_prot vma AND PROT_READ = 0) (vm_h vmas)),
      add_prot = 0, args_off = 0, args_nr_segs = 0, args_nr_pages = 0\<rparr>"

definition prep_dump_pages_args :: "nat \<Rightarrow> vm_area_list \<Rightarrow> parasite_dump_pages_args outcome" where
  "prep_dump_pages_args ctl_args_size vmas =
     bindF (parasite_args_s ctl_args_size (int_of_ulong (dump_pages_args_size vmas))) (\<lambda>_.
       if ctl_args_size < 20 + length (pa_vmas (dump_args_of vmas)) * 24 then Inl UB else Inr (dump_args_of vmas))"

text \<open>
  How many iovecs fit into the rest of the area, behind the entries that are really
  used (\<^verbatim>\<open>pargs_iovs\<close> starts after \<^verbatim>\<open>nr_vmas\<close> of them).
\<close>

definition args_iov_room :: "nat \<Rightarrow> parasite_dump_pages_args \<Rightarrow> nat" where
  "args_iov_room ctl_args_size args = (ctl_args_size - 20 - length (pa_vmas args) * 24) div 16"

text \<open>
  \<^verbatim>\<open>mprotect_vmas\<close> on the protections of the task, by start of the area;
  \<open>mprot\<close> is the result of \<^verbatim>\<open>mprotect\<close>.
\<close>

type_synonym prots = "nat \<Rightarrow> u32"

fun mprotect_vmas :: "(nat \<Rightarrow> u32 \<Rightarrow> int) \<Rightarrow> u32 \<Rightarrow> parasite_vma_entry list \<Rightarrow> prots \<Rightarrow> int \<times> prots" where
  "mprotect_vmas mprot ap [] pr = (0, pr)"
| "mprotect_vmas mprot ap (v # vs) pr =
     (let ret = mprot (pv_start v) (pv_prot v OR ap) in
      if ret \<noteq> 0 then (ret, pr) else mprotect_vmas mprot ap vs (pr(pv_start v := pv_prot v OR ap)))"

text \<open>
  The parasite's \<^verbatim>\<open>dump_pages\<close>: \<^verbatim>\<open>vmsplice\<close> of the segments
  \<open>off\<close> \dots of the array into the pipe it was sent. \<open>vmspl\<close> is what the kernel
  is ready to take; \<open>mem\<close> is the memory of the task.
\<close>

definition dump_pages ::
  "(nat \<Rightarrow> nat \<Rightarrow> int) \<Rightarrow> (nat \<Rightarrow> byte list) \<Rightarrow> parasite_dump_pages_args \<Rightarrow> iovec list \<Rightarrow> nat
   \<Rightarrow> (nat \<Rightarrow> byte list) \<Rightarrow> int \<times> (nat \<Rightarrow> byte list)" where
  "dump_pages vmspl mem args vs p pipes =
     (let data = concat (map (seg_bytes mem) (take (args_nr_segs args) (drop (args_off args) vs)));
          r = vmspl p (length data) in
      if r < 0 then (-1, pipes)
      else let n = min (nat r) (length data); pipes1 = pipes(p := pipes p @ take n data) in
           if n \<noteq> u32_of (PAGE_SIZE * args_nr_pages args) then (-1, pipes1) else (0, pipes1))"

section \<open>Dumping a task\<close>

text \<open>
  Everything outside of the program that a dump of one task meets: the parent snapshot,
  the other allocations and files, the page pipe's environment, the parasite protocol
  (by number of the buffer), the resetting of the dirty tracking, and the numbers of descriptors and timers
  that the area for arguments was sized for as well.
\<close>

record dump_env =
  de_snap :: snap_env
  de_map_malloc :: bool
  de_open_pagemap :: int
  de_pagemap :: pagemap_file
  de_pipe :: pipe_env
  de_iov_junk :: iovec
  de_exec :: "nat \<Rightarrow> int"
  de_send_fd :: "nat \<Rightarrow> int"
  de_ack :: "nat \<Rightarrow> bool"
  de_vmsplice :: "nat \<Rightarrow> nat \<Rightarrow> int"
  de_mem :: "nat \<Rightarrow> byte list"
  de_track_mem :: bool
  de_has_dirty_track :: bool
  de_clear_refs :: "bool \<times> int"
  de_mprot_cmd :: "u32 \<Rightarrow> bool"
  de_nr_fds :: "nat option"
  de_timer_n :: nat

text \<open>\<^verbatim>\<open>ctl->args_size\<close>, set when the parasite was put into the task.\<close>

definition ctl_args_size :: "dump_env \<Rightarrow> vm_area_list \<Rightarrow> nat" where
  "ctl_args_size D vmas = parasite_args_size vmas (de_nr_fds D) (de_timer_n D)"

definition do_task_reset_dirty_track :: "dump_env \<Rightarrow> int" where
  "do_task_reset_dirty_track D =
     (if \<not> fst (de_clear_refs D) then -1
      else if snd (de_clear_refs D) < 0 then -1
      else 0)"

definition task_reset_dirty_track :: "dump_env \<Rightarrow> int" where
  "task_reset_dirty_track D =
     (if \<not> de_track_mem D then 0
      else if \<not> de_has_dirty_track D then -1
      else do_task_reset_dirty_track D)"

text \<open>Step 2: one command per buffer. The acknowledgement carries the parasite's result.\<close>

fun grab_loop ::
  "dump_env \<Rightarrow> parasite_dump_pages_args \<Rightarrow> iovec list \<Rightarrow> page_pipe_buf list \<Rightarrow> (nat \<Rightarrow> byte list)
   \<Rightarrow> int \<times> (nat \<Rightarrow> byte list)" where
  "grab_loop D args vs [] pipes = (0, pipes)"
| "grab_loop D args vs (b # bs) pipes =
     (let args1 = args\<lparr>args_nr_segs := nr_segs b, args_nr_pages := pages_in b\<rparr> in
      if de_exec D (ppb_p b) < 0 then (de_exec D (ppb_p b), pipes)
      else if de_send_fd D (ppb_p b) \<noteq> 0 then (de_send_fd D (ppb_p b), pipes)
      else case dump_pages (de_vmsplice D) (de_mem D) args1 vs (ppb_p b) pipes of (err, pipes1) \<Rightarrow>
        if \<not> de_ack D (ppb_p b) then (-1, pipes1)
        else if err \<noteq> 0 then (-1, pipes1)
        else grab_loop D (args1\<lparr>args_off := args_off args1 + args_nr_segs args1\<rparr>) vs bs pipes1)"

text \<open>
  \<^verbatim>\<open>__parasite_dump_pages_seized\<close>. The backend is given by its operations and by
  what \<^verbatim>\<open>open_page_xfer\<close> makes of the filled pipes. \<open>delay\<close> is
  \<open>pp_ret != NULL\<close>: then the page pipe is handed out instead of being transferred. The
  result has the return code, the page pipe handed out, and the backend if it was opened.
  The result of the transfer is overwritten by that of \<^verbatim>\<open>task_reset_dirty_track\<close>.
\<close>

type_synonym 'x dump_result = "int \<times> page_pipe option \<times> 'x option"

definition dump_step3 ::
  "dump_env \<Rightarrow> 'x page_xfer \<Rightarrow> ((nat \<Rightarrow> byte list) \<Rightarrow> int \<times> 'x) \<Rightarrow> bool \<Rightarrow> page_pipe \<Rightarrow> (nat \<Rightarrow> byte list)
   \<Rightarrow> 'x dump_result outcome" where
  "dump_step3 D xf open_xfer delay pp pipes =
     (if delay then
        (let ret = task_reset_dirty_track D in Inr (ret, if ret \<noteq> 0 then None else Some pp, None))
      else case open_xfer pipes of (ret, x) \<Rightarrow>
        if ret < 0 then Inr (ret, None, None)
        else bindF (page_xfer_dump_pages xf pp 0 x) (\<lambda>(ret2, pp1, x1).
               Inr (task_reset_dirty_track D, None, Some (xfer_close xf x1))))"

definition parasite_dump_pages_seized_inner ::
  "dump_env \<Rightarrow> 'x page_xfer \<Rightarrow> ((nat \<Rightarrow> byte list) \<Rightarrow> int \<times> 'x) \<Rightarrow> bool \<Rightarrow> parasite_dump_pages_args
   \<Rightarrow> vm_area_list \<Rightarrow> 'x dump_result outcome" where
  "parasite_dump_pages_seized_inner D xf open_xfer delay args vmas =
     (case mem_snap_init (de_snap D) of
        Inl _ \<Rightarrow> Inr (-1, None, None)
      | Inr snap \<Rightarrow>
          if \<not> de_map_malloc D then Inr (-1, None, None)
          else if de_open_pagemap D < 0 then Inr (de_open_pagemap D, None, None)
          else case create_page_pipe (de_pipe D) (u32_of (priv_size vmas div 2))
                      (replicate (args_iov_room (ctl_args_size D vmas) args) (de_iov_junk D)) of
            None \<Rightarrow> Inr (-1, None, None)
          | Some pp \<Rightarrow>
              bindF (generate_all (de_pipe D) (vm_h vmas) (de_pagemap D) pp snap) (\<lambda>(ret, pp1, snap1).
                if ret < 0 then Inr (ret, None, None)
                else case grab_loop D (args\<lparr>args_off := 0\<rparr>) (iovs pp1) (bufs pp1) (\<lambda>_. []) of (ret2, pipes) \<Rightarrow>
                  if ret2 \<noteq> 0 then Inr (ret2, None, None)
                  else dump_step3 D xf open_xfer delay pp1 pipes))"

text \<open>Areas that cannot be read get \<^verbatim>\<open>PROT_READ\<close> for the time of the dump.\<close>

definition mprotect_cmd ::
  "dump_env \<Rightarrow> (u32 \<Rightarrow> nat \<Rightarrow> u32 \<Rightarrow> int) \<Rightarrow> u32 \<Rightarrow> parasite_vma_entry list \<Rightarrow> prots \<Rightarrow> int \<times> prots" where
  "mprotect_cmd D mprot ap vs pr =
     (if \<not> de_mprot_cmd D ap then (-1, pr)
      else case mprotect_vmas (mprot ap) ap vs pr of (err, pr1) \<Rightarrow> (if err \<noteq> 0 then -1 else 0, pr1))"

definition parasite_dump_pages_seized ::
  "dump_env \<Rightarrow> (u32 \<Rightarrow> nat \<Rightarrow> u32 \<Rightarrow> int) \<Rightarrow> 'x page_xfer \<Rightarrow> ((nat \<Rightarrow> byte list) \<Rightarrow> int \<times> 'x) \<Rightarrow> bool
   \<Rightarrow> vm_area_list \<Rightarrow> prots \<Rightarrow> ('x dump_result \<times> prots) outcome" where
  "parasite_dump_pages_seized D mprot xf open_xfer delay vmas pr =
     bindF (prep_dump_pages_args (ctl_args_size D vmas) vmas) (\<lambda>args.
      case mprotect_cmd D mprot PROT_READ (pa_vmas args) pr of (ret, pr1) \<Rightarrow>
        if ret \<noteq> 0 then Inr ((ret, None, None), pr1)
        else bindF (parasite_dump_pages_seized_inner D xf open_xfer delay (args\<lparr>add_prot := PROT_READ\<rparr>) vmas)
          (\<lambda>(ret2, ppr, x). case mprotect_cmd D mprot 0 (pa_vmas args) pr1 of (ret3, pr2) \<Rightarrow>
             Inr ((if ret3 \<noteq> 0 then -1 else ret2, ppr, x), pr2)))"

section \<open>What the scan relies on\<close>

text \<open>Adding a list of pages, each as a hole (True) or to be dumped, stopping at a failure.\<close>

fun sink_all ::
  "('s \<Rightarrow> nat \<Rightarrow> (int \<times> 's) outcome) \<Rightarrow> ('s \<Rightarrow> nat \<Rightarrow> (int \<times> 's) outcome) \<Rightarrow> (bool \<times> nat) list \<Rightarrow> 's
   \<Rightarrow> (int \<times> 's) outcome" where
  "sink_all ap ah [] s = Inr (0, s)"
| "sink_all ap ah ((h, a) # ds) s =
     bindF (if h then ah s a else ap s a) (\<lambda>(r, s1). if r \<noteq> 0 then Inr (-1, s1) else sink_all ap ah ds s1)"

definition dec_pages :: "(bool \<times> nat) list \<Rightarrow> nat list" where
  "dec_pages ds = map snd (filter (\<lambda>d. \<not> fst d) ds)"

definition dec_holes :: "(bool \<times> nat) list \<Rightarrow> nat list" where
  "dec_holes ds = map snd (filter fst ds)"

lemma dec_simps [simp]:
  "dec_pages [] = []" "dec_holes [] = []"
  "dec_pages (d # ds) = (if fst d then dec_pages ds else snd d # dec_pages ds)"
  "dec_holes (d # ds) = (if fst d then snd d # dec_holes ds else dec_holes ds)"
  "dec_pages (ds @ es) = dec_pages ds @ dec_pages es" "dec_holes (ds @ es) = dec_holes ds @ dec_holes es"
  by (simp_all add: dec_pages_def dec_holes_def)

locale page_sink =
  fixes add_page add_hole :: "'s \<Rightarrow> nat \<Rightarrow> (int \<times> 's) outcome"
    and pages hole_pages :: "'s \<Rightarrow> nat list"
    and inv :: "'s \<Rightarrow> bool"
    and room :: "'s \<Rightarrow> nat"
  assumes page_law: "inv s \<Longrightarrow> add_page s a = Inr (0, s') \<Longrightarrow>
      inv s' \<and> pages s' = pages s @ [a] \<and> hole_pages s' = hole_pages s"
    and hole_law: "inv s \<Longrightarrow> add_hole s a = Inr (0, s') \<Longrightarrow>
      inv s' \<and> pages s' = pages s \<and> hole_pages s' = hole_pages s @ [a]"
    and page_room: "inv s \<Longrightarrow> 0 < room s \<Longrightarrow> \<exists>r s'. add_page s a = Inr (r, s') \<and> room s \<le> room s' + 1"
    and hole_room: "inv s \<Longrightarrow> \<exists>r s'. add_hole s a = Inr (r, s') \<and> (r = 0 \<longrightarrow> room s' = room s)"
begin

lemma sink_contents:
  "sink_all add_page add_hole ds s = Inr (0, s') \<Longrightarrow> inv s \<Longrightarrow>
   inv s' \<and> pages s' = pages s @ dec_pages ds \<and> hole_pages s' = hole_pages s @ dec_holes ds"
proof (induction ds arbitrary: s)
  case (Cons d ds)
  obtain h a where d: "d = (h, a)" by (cases d) auto
  from Cons.prems(1) d obtain s1 where
    s1: "(if h then add_hole s a else add_page s a) = Inr (0, s1)" "sink_all add_page add_hole ds s1 = Inr (0, s')"
    by (auto simp: bindF_eq_Inr split: if_splits)
  then have "inv s1 \<and> pages s1 = pages s @ (if h then [] else [a]) \<and> hole_pages s1 = hole_pages s @ (if h then [a] else [])"
    using page_law [of s a s1] hole_law [of s a s1] Cons.prems(2) by (auto split: if_splits)
  with Cons.IH [OF s1(2)] d show ?case by simp
qed simp

lemma sink_no_fault:
  "inv s \<Longrightarrow> length (dec_pages ds) \<le> room s \<Longrightarrow> \<exists>r s'. sink_all add_page add_hole ds s = Inr (r, s')"
proof (induction ds arbitrary: s)
  case (Cons d ds)
  obtain h a where d: "d = (h, a)" by (cases d) auto
  show ?case
  proof (cases h)
    case True
    obtain r s1 where "add_hole s a = Inr (r, s1)" "r = 0 \<longrightarrow> room s1 = room s"
      using hole_room [OF Cons.prems(1)] by blast
    moreover from this have "r = 0 \<longrightarrow> inv s1" using hole_law Cons.prems(1) by blast
    ultimately show ?thesis using Cons.IH [of s1] Cons.prems(2) d True by auto
  next
    case False
    then have "0 < room s" using Cons.prems(2) d by simp
    then obtain r s1 where "add_page s a = Inr (r, s1)" "room s \<le> room s1 + 1"
      using page_room [OF Cons.prems(1)] by blast
    moreover from this have "r = 0 \<longrightarrow> inv s1" using page_law Cons.prems(1) by blast
    ultimately show ?thesis using Cons.IH [of s1] Cons.prems(2) d False by auto
  qed
qed simp

end

interpretation pp_sink: page_sink "page_pipe_add_page E" "page_pipe_add_hole E" pp_pages pp_hole_pages
  "\<lambda>pp. pp_wf pp \<and> pipe_env_ok E" "\<lambda>pp. nr_iovs pp - free_iov pp" for E
proof
  fix s s' a
  assume "pp_wf s \<and> pipe_env_ok E" "page_pipe_add_page E s a = Inr (0, s')"
  then show "(pp_wf s' \<and> pipe_env_ok E) \<and> pp_pages s' = pp_pages s @ [a] \<and> pp_hole_pages s' = pp_hole_pages s"
    using page_pipe_add_page_cases [of E s a] by (auto simp: pp_frame_def pp_hole_pages_def)
next
  fix s s' a
  assume "pp_wf s \<and> pipe_env_ok E" "page_pipe_add_hole E s a = Inr (0, s')"
  then show "(pp_wf s' \<and> pipe_env_ok E) \<and> pp_pages s' = pp_pages s \<and> pp_hole_pages s' = pp_hole_pages s @ [a]"
    using page_pipe_add_hole_spec [of s E a] by auto
next
  fix s a
  assume "pp_wf s \<and> pipe_env_ok E" "0 < nr_iovs s - free_iov s"
  then show "\<exists>r s'. page_pipe_add_page E s a = Inr (r, s') \<and> nr_iovs s - free_iov s \<le> nr_iovs s' - free_iov s' + 1"
    using page_pipe_add_page_spec [of E s a] by (fastforce simp: pp_frame_def)
next
  fix s a
  assume "pp_wf s \<and> pipe_env_ok E"
  then show "\<exists>r s'. page_pipe_add_hole E s a = Inr (r, s') \<and> (r = 0 \<longrightarrow> nr_iovs s' - free_iov s' = nr_iovs s - free_iov s)"
    using page_pipe_add_hole_spec [of s E a] by auto
qed

section \<open>The rover in the parent's pagemap\<close>

definition covered :: "pagemap_entry list \<Rightarrow> nat \<Rightarrow> bool" where
  "covered es va \<longleftrightarrow> (\<exists>e \<in> set es. vaddr e \<le> va \<and> va < pe_end e)"

text \<open>The array holds the entries of the parent's pagemap, with room for one more.\<close>

definition snap_wf :: "pagemap_entry list \<Rightarrow> mem_snap_ctx \<Rightarrow> bool" where
  "snap_wf es sn \<longleftrightarrow> snap_nr sn = length es \<and> length es < length (snap_iovs sn)
     \<and> (\<forall>i < length es. snap_iovs sn ! i = pagemap2iovec (es ! i))"

definition rover_below :: "pagemap_entry list \<Rightarrow> mem_snap_ctx \<Rightarrow> nat \<Rightarrow> bool" where
  "rover_below es sn va \<longleftrightarrow> (\<forall>i < length es. i < rover sn \<longrightarrow> pe_end (es ! i) \<le> va)"

lemma pm_wf_nth: "pm_wf es \<Longrightarrow> i < j \<Longrightarrow> j < length es \<Longrightarrow> pe_end (es ! i) \<le> vaddr (es ! j)"
proof (induction es arbitrary: i j)
  case (Cons e es)
  then show ?case by (cases i; cases j) auto
qed simp

lemma pip_loop_hit:
  assumes "snap_wf es sn" "pm_wf es" "rover_below es sn va" "covered es va"
  shows "\<exists>k. pip_loop sn va = Inr (1, sn\<lparr>rover := k\<rparr>) \<and> rover_below es (sn\<lparr>rover := k\<rparr>) va"
proof -
  from assms(4) obtain j where j: "j < length es" "vaddr (es ! j) \<le> va" "va < pe_end (es ! j)"
    by (auto simp: covered_def in_set_conv_nth)
  have small: "pe_small (es ! i)" if "i < length es" for i
    using pm_wf_small [OF assms(2)] that by simp
  have end_eq: "iov_base (pagemap2iovec (es ! i)) + iov_len (pagemap2iovec (es ! i)) = pe_end (es ! i)"
    if "i < length es" for i
    using pagemap2iovec_end [OF small [OF that]] by (simp add: iov_end_def)
  have le: "rover sn \<le> j" using assms(3) j by (auto simp: rover_below_def not_le)
  have "\<exists>k. pip_loop (sn\<lparr>rover := r\<rparr>) va = Inr (1, sn\<lparr>rover := k\<rparr>) \<and> rover_below es (sn\<lparr>rover := k\<rparr>) va"
    if "r \<le> j" "rover_below es (sn\<lparr>rover := r\<rparr>) va" for r
    using that
  proof (induction "j - r" arbitrary: r)
    case 0
    then have "r = j" by simp
    with j assms(1) end_eq [of j] 0 show ?case
      by (subst pip_loop.simps) (auto simp: snap_wf_def Let_def)
  next
    case (Suc n)
    then have rj: "r < j" by simp
    then have e: "pe_end (es ! r) \<le> va" using pm_wf_nth [OF assms(2) rj j(1)] j(2) by simp
    then have b: "vaddr (es ! r) \<le> va" using vaddr_le_pe_end [of "es ! r"] by simp
    have "pip_loop (sn\<lparr>rover := r\<rparr>) va = pip_loop (sn\<lparr>rover := Suc r\<rparr>) va"
      using rj j(1) e b assms(1) end_eq [of r]
      by (subst pip_loop.simps) (simp add: snap_wf_def Let_def)
    moreover have "rover_below es (sn\<lparr>rover := Suc r\<rparr>) va"
      using Suc.prems(2) e by (auto simp: rover_below_def less_Suc_eq)
    ultimately show ?case using Suc.hyps(1) [of "Suc r"] Suc.hyps(2) rj by simp
  qed
  from this [OF le] assms(3) show ?thesis by simp
qed

text \<open>The snapshot context through the scan, at address \<open>va\<close>.\<close>

definition snap_ok :: "pagemap_entry list \<Rightarrow> mem_snap_ctx option \<Rightarrow> nat \<Rightarrow> bool" where
  "snap_ok es so va \<longleftrightarrow> (case so of None \<Rightarrow> True | Some sn \<Rightarrow> snap_wf es sn \<and> rover_below es sn va)"

lemma snap_ok_mono: "snap_ok es so a \<Longrightarrow> a \<le> b \<Longrightarrow> snap_ok es so b"
  by (auto simp: snap_ok_def rover_below_def split: option.splits intro: le_trans)

definition clean :: "u64 \<Rightarrow> bool" where
  "clean pme \<longleftrightarrow> pme AND PME_SOFT_DIRTY = 0"

lemma snap_lookup:
  assumes "snap_ok es so va" "pm_wf es" "so \<noteq> None \<and> clean pme \<Longrightarrow> covered es va"
  shows "\<exists>so'. (case so of None \<Rightarrow> Inr (0, None)
               | Some sn \<Rightarrow> bindF (page_in_parent va pme sn) (\<lambda>(r, sn1). Inr (r, Some sn1)))
             = Inr (if so \<noteq> None \<and> clean pme then 1 else 0, so') \<and> snap_ok es so' va \<and> (so' = None \<longleftrightarrow> so = None)"
proof (cases so)
  case (Some sn)
  show ?thesis
  proof (cases "clean pme")
    case True
    then obtain k where "pip_loop sn va = Inr (1, sn\<lparr>rover := k\<rparr>)" "rover_below es (sn\<lparr>rover := k\<rparr>) va"
      using pip_loop_hit [of es sn va] assms Some by (auto simp: snap_ok_def)
    with True Some assms(1) show ?thesis by (auto simp: page_in_parent_def clean_def snap_ok_def snap_wf_def)
  next
    case False
    with Some assms(1) show ?thesis by (auto simp: page_in_parent_def clean_def)
  qed
qed (simp add: snap_ok_def)

section \<open>The scan adds the right pages\<close>

definition vma_page :: "vma_area \<Rightarrow> nat \<Rightarrow> nat" where
  "vma_page vma pfn = vma_start vma + pfn * PAGE_SIZE"

definition vma_pme :: "(nat \<Rightarrow> u64) \<Rightarrow> vma_area \<Rightarrow> nat \<Rightarrow> u64" where
  "vma_pme pme vma pfn = pme (vma_start vma div PAGE_SIZE + pfn)"

text \<open>The reference: which pages of an area are dumped, and which of these are left to the parent.\<close>

definition decide :: "bool \<Rightarrow> (nat \<Rightarrow> u64) \<Rightarrow> vma_area \<Rightarrow> nat list \<Rightarrow> (bool \<times> nat) list" where
  "decide snap pme vma pfns =
     map (\<lambda>pfn. (snap \<and> clean (vma_pme pme vma pfn), vma_page vma pfn))
       (filter (\<lambda>pfn. should_dump_page vma (vma_pme pme vma pfn)) pfns)"

lemma gen_loop_Cons:
  "gen_loop E vma pme (pfn # pfns) pp so =
     (if \<not> should_dump_page vma (vma_pme pme vma pfn) then gen_loop E vma pme pfns pp so
      else bindF (case so of None \<Rightarrow> Inr (0, None)
               | Some sn \<Rightarrow> bindF (page_in_parent (vma_page vma pfn) (vma_pme pme vma pfn) sn) (\<lambda>(r, sn1). Inr (r, Some sn1)))
          (\<lambda>(hole, so1).
            bindF (if hole \<noteq> 0 then page_pipe_add_hole E pp (vma_page vma pfn) else page_pipe_add_page E pp (vma_page vma pfn))
              (\<lambda>(ret, pp1). if ret \<noteq> 0 then Inr (-1, pp1, so1) else gen_loop E vma pme pfns pp1 so1)))"
  unfolding vma_page_def vma_pme_def gen_loop.simps Let_def by simp

lemma gen_loop_sink:
  assumes "pm_wf es" "sorted pfns" "snap_ok es so lo" "\<forall>pfn \<in> set pfns. lo \<le> vma_page vma pfn"
    and "\<forall>pfn \<in> set pfns. vma_page vma pfn \<le> hi" "lo \<le> hi"
    and "\<forall>d \<in> set (decide (so \<noteq> None) pme vma pfns). fst d \<longrightarrow> covered es (snd d)"
  shows "map_sum id (\<lambda>(r, pp', so'). (r, pp')) (gen_loop E vma pme pfns pp so)
       = sink_all (page_pipe_add_page E) (page_pipe_add_hole E) (decide (so \<noteq> None) pme vma pfns) pp
     \<and> (\<forall>pp' so'. gen_loop E vma pme pfns pp so = Inr (0, pp', so') \<longrightarrow>
          snap_ok es so' hi \<and> (so' = None \<longleftrightarrow> so = None))"
  using assms(2-)
proof (induction pfns arbitrary: pp so lo)
  case Nil
  then show ?case by (auto simp: decide_def intro: snap_ok_mono)
next
  case (Cons pfn pfns)
  let ?va = "vma_page vma pfn" and ?pme = "vma_pme pme vma pfn"
  have up: "\<forall>p \<in> set pfns. ?va \<le> vma_page vma p" using Cons.prems(1) by (auto simp: vma_page_def)
  have here: "snap_ok es so ?va" using Cons.prems(2,3) snap_ok_mono by auto
  show ?case
  proof (cases "should_dump_page vma ?pme")
    case False
    have "\<forall>p \<in> set pfns. vma_page vma p \<le> hi" "?va \<le> hi" using Cons.prems(4) by auto
    from Cons.IH [OF _ here up this] Cons.prems(1,6) False
    show ?thesis by (simp add: decide_def vma_page_def vma_pme_def Let_def)
  next
    case True
    have cov: "so \<noteq> None \<and> clean ?pme \<Longrightarrow> covered es ?va"
      using Cons.prems(6) True by (simp add: decide_def)
    obtain so1 where l: "(case so of None \<Rightarrow> Inr (0, None)
               | Some sn \<Rightarrow> bindF (page_in_parent ?va ?pme sn) (\<lambda>(r, sn1). Inr (r, Some sn1)))
             = (Inr (if so \<noteq> None \<and> clean ?pme then 1 else 0, so1) :: (int \<times> mem_snap_ctx option) outcome)"
        "snap_ok es so1 ?va" "so1 = None \<longleftrightarrow> so = None"
      using snap_lookup [OF here assms(1) cov] by blast
    have hi: "\<forall>p \<in> set pfns. vma_page vma p \<le> hi" "?va \<le> hi" using Cons.prems(4) by auto
    have srt: "sorted pfns" using Cons.prems(1) by simp
    have cov1: "\<forall>d \<in> set (decide (so1 \<noteq> None) pme vma pfns). fst d \<longrightarrow> covered es (snd d)"
      using Cons.prems(6) l(3) True by (simp add: decide_def)
    note ih = Cons.IH [OF srt l(2) up hi cov1]
    have run: "gen_loop E vma pme (pfn # pfns) pp so =
       bindF (if so \<noteq> None \<and> clean ?pme then page_pipe_add_hole E pp ?va else page_pipe_add_page E pp ?va)
         (\<lambda>(ret, pp1). if ret \<noteq> 0 then Inr (-1, pp1, so1) else gen_loop E vma pme pfns pp1 so1)"
      unfolding gen_loop_Cons l(1) using True by simp
    have dec: "decide (so \<noteq> None) pme vma (pfn # pfns)
        = (so \<noteq> None \<and> clean ?pme, ?va) # decide (so1 \<noteq> None) pme vma pfns"
      using True l(3) by (simp add: decide_def)
    show ?thesis
    proof (cases "if so \<noteq> None \<and> clean ?pme then page_pipe_add_hole E pp ?va else page_pipe_add_page E pp ?va")
      case (Inl f)
      then show ?thesis unfolding run dec by simp
    next
      case (Inr q)
      obtain r pp1 where q: "q = (r, pp1)" by (cases q) auto
      with Inr ih [of pp1] l(3) show ?thesis unfolding run dec by (cases "r = 0") simp_all
    qed
  qed
qed

text \<open>All areas: in order, not overlapping, page aligned.\<close>

definition vmas_ok :: "vma_area list \<Rightarrow> bool" where
  "vmas_ok vmas \<longleftrightarrow> sorted_wrt (\<lambda>a b. vma_end a \<le> vma_start b) vmas
     \<and> (\<forall>v \<in> set vmas. vma_start v \<le> vma_end v \<and> PAGE_SIZE dvd vma_start v \<and> PAGE_SIZE dvd vma_end v)"

definition vma_pfns :: "vma_area \<Rightarrow> nat list" where
  "vma_pfns vma = [0..<vma_area_len vma div PAGE_SIZE]"

definition decide_all :: "bool \<Rightarrow> (nat \<Rightarrow> u64) \<Rightarrow> vma_area list \<Rightarrow> (bool \<times> nat) list" where
  "decide_all snap pme vmas = concat (map (\<lambda>v. decide snap pme v (vma_pfns v)) (filter privately_dump_vma vmas))"

lemma sink_all_append:
  "sink_all ap ah (xs @ ys) s = bindF (sink_all ap ah xs s) (\<lambda>(r, s1). if r \<noteq> 0 then Inr (-1, s1) else sink_all ap ah ys s1)"
proof (induction xs arbitrary: s)
  case (Cons x xs)
  obtain h a where x: "x = (h, a)" by (cases x) auto
  show ?case by (cases "if h then ah s a else ap s a") (auto simp: x Cons.IH)
qed simp

lemma sink_all_ret: "sink_all ap ah ds s = Inr (r, s') \<Longrightarrow> r = 0 \<or> r = -1"
  by (induction ap ah ds s rule: sink_all.induct) (auto simp: bindF_eq_Inr split: if_splits)

lemma vma_page_bounds:
  assumes "vmas_ok (v # vmas)" "pfn \<in> set (vma_pfns v)"
  shows "vma_start v \<le> vma_page v pfn" "vma_page v pfn + PAGE_SIZE \<le> vma_end v" "PAGE_SIZE dvd vma_page v pfn"
proof -
  have al: "PAGE_SIZE dvd vma_end v - vma_start v" "vma_start v \<le> vma_end v" "PAGE_SIZE dvd vma_start v"
    using assms(1) by (auto simp: vmas_ok_def)
  from assms(2) have "Suc pfn \<le> vma_area_len v div PAGE_SIZE" by (simp add: vma_pfns_def)
  then have "Suc pfn * PAGE_SIZE \<le> vma_area_len v div PAGE_SIZE * PAGE_SIZE" by (rule mult_le_mono1)
  then have "Suc pfn * PAGE_SIZE \<le> vma_area_len v" using al by (simp add: vma_area_len_def)
  then show "vma_page v pfn + PAGE_SIZE \<le> vma_end v" using al(2) by (simp add: vma_page_def vma_area_len_def)
  show "vma_start v \<le> vma_page v pfn" "PAGE_SIZE dvd vma_page v pfn" using al by (simp_all add: vma_page_def)
qed

lemma generate_all_sink:
  assumes "pm_wf es" "vmas_ok vmas" "snap_ok es so lo" "\<forall>v \<in> set vmas. lo \<le> vma_start v"
    and "\<forall>d \<in> set (decide_all (so \<noteq> None) (pme_of pm) vmas). fst d \<longrightarrow> covered es (snd d)"
    and "ds = decide_all (so \<noteq> None) (pme_of pm) vmas"
  shows "(generate_all E vmas pm pp so = Inr (0, pp', so') \<longrightarrow>
            sink_all (page_pipe_add_page E) (page_pipe_add_hole E) ds pp = Inr (0, pp'))
     \<and> (\<forall>p. (\<forall>n. pagemap_io pm n) \<longrightarrow>
            sink_all (page_pipe_add_page E) (page_pipe_add_hole E) ds pp = Inr (0, p) \<longrightarrow>
            (\<exists>so'. generate_all E vmas pm pp so = Inr (0, p, so')))"
  using assms(2-)
proof (induction vmas arbitrary: pp so lo ds)
  case Nil
  then show ?case by (simp add: decide_all_def)
next
  case (Cons v vmas)
  have ok': "vmas_ok vmas" using Cons.prems(1) by (simp add: vmas_ok_def)
  have lo: "\<forall>w \<in> set vmas. vma_end v \<le> vma_start w" using Cons.prems(1) by (simp add: vmas_ok_def)
  have se: "lo \<le> vma_start v" "vma_start v \<le> vma_end v" using Cons.prems(1,3) by (simp_all add: vmas_ok_def)
  show ?case
  proof (cases "privately_dump_vma v")
    case False
    then have "decide_all (so \<noteq> None) (pme_of pm) (v # vmas) = decide_all (so \<noteq> None) (pme_of pm) vmas"
      by (simp add: decide_all_def)
    with Cons.IH [OF ok' Cons.prems(2) _ _ refl] Cons.prems(3-5) False show ?thesis by simp
  next
    case True
    let ?d = "decide (so \<noteq> None) (pme_of pm) v (vma_pfns v)"
    let ?ds = "decide_all (so \<noteq> None) (pme_of pm) vmas"
    let ?sink = "sink_all (page_pipe_add_page E) (page_pipe_add_hole E)"
    let ?g = "gen_loop E v (pme_of pm) (vma_pfns v) pp so"
    have ds: "ds = ?d @ ?ds" using True Cons.prems(5) by (simp add: decide_all_def)
    have pg: "\<forall>p \<in> set (vma_pfns v). lo \<le> vma_page v p" "\<forall>p \<in> set (vma_pfns v). vma_page v p \<le> vma_end v"
      using vma_page_bounds [OF Cons.prems(1)] se(1) by (fastforce dest: le_trans)+
    have cov: "\<forall>d \<in> set ?d. fst d \<longrightarrow> covered es (snd d)" "\<forall>d \<in> set ?ds. fst d \<longrightarrow> covered es (snd d)"
      using Cons.prems(4) True by (auto simp: decide_all_def)
    have srt: "sorted (vma_pfns v)" by (simp add: vma_pfns_def)
    have le: "lo \<le> vma_end v" using se by simp
    note g = gen_loop_sink [OF assms(1) srt Cons.prems(2) pg le cov(1), of E pp]
    have gen: "generate_iovs E v pm pp so = (if \<not> pagemap_io pm (vma_start v div PAGE_SIZE) then Inr (-1, pp, so) else ?g)"
      by (simp add: generate_iovs_def vma_pfns_def)
    have snk: "?sink ds pp = bindF (?sink ?d pp) (\<lambda>(r, s1). if r \<noteq> 0 then Inr (-1, s1) else ?sink ?ds s1)"
      unfolding ds by (rule sink_all_append)
    show ?thesis
    proof (cases ?g)
      case (Inl f)
      then have "\<exists>f. ?sink ?d pp = Inl f" using g by (metis map_sum.simps(1))
      with Inl snk gen True show ?thesis by auto
    next
      case (Inr q)
      obtain r pp1 so1 where q: "q = (r, pp1, so1)" by (cases q) auto
      have sd: "?sink ?d pp = Inr (r, pp1)" using g Inr q by simp
      from sink_all_ret [OF this] consider (ok) "r = 0" | (fail) "r = -1" by blast
      then show ?thesis
      proof cases
        case ok
        have s1: "snap_ok es so1 (vma_end v)" "so1 = None \<longleftrightarrow> so = None" using g Inr q ok by auto
        have b: "(so1 \<noteq> None) = (so \<noteq> None)" using s1(2) by simp
        have "\<forall>d \<in> set (decide_all (so1 \<noteq> None) (pme_of pm) vmas). fst d \<longrightarrow> covered es (snd d)"
          unfolding b using cov(2) .
        from Cons.IH [OF ok' s1(1) lo this refl, of pp1]
        show ?thesis unfolding b using snk sd Inr q gen True ok by auto
      next
        case fail
        with snk sd Inr q gen True show ?thesis by auto
      qed
    qed
  qed
qed

text \<open>The pages chosen come in increasing order, so the filled page pipe is ordered.\<close>

lemma map_snd_decide: "map snd (decide b pme v pfns)
   = map (vma_page v) (filter (\<lambda>pfn. should_dump_page v (vma_pme pme v pfn)) pfns)"
  by (simp add: decide_def)

lemma decide_sorted: "sorted_wrt (<) (map snd (decide b pme v (vma_pfns v)))"
proof -
  have "sorted_wrt (<) (vma_pfns v)" by (simp add: vma_pfns_def)
  then have "sorted_wrt (<) (filter (\<lambda>pfn. should_dump_page v (vma_pme pme v pfn)) (vma_pfns v))"
    by (rule sorted_wrt_filter)
  then show ?thesis unfolding map_snd_decide sorted_wrt_map
    by (rule sorted_wrt_mono_rel [rotated]) (simp add: vma_page_def)
qed

lemma decide_all_mem:
  assumes "d \<in> set (decide_all b pme vmas)" "vmas_ok vmas"
  shows "\<exists>v \<in> set vmas. privately_dump_vma v \<and> vma_start v \<le> snd d \<and> snd d < vma_end v \<and> PAGE_SIZE dvd snd d"
proof -
  from assms(1) obtain v pfn where v: "v \<in> set vmas" "privately_dump_vma v" "pfn \<in> set (vma_pfns v)" "snd d = vma_page v pfn"
    by (auto simp: decide_all_def decide_def)
  have "vmas_ok (v # [])" using assms(2) v(1) by (auto simp: vmas_ok_def)
  note b = vma_page_bounds [OF this v(3)]
  have "vma_page v pfn < vma_end v" using b(2) PAGE_SIZE_pos by linarith
  with b v show ?thesis by auto
qed

lemma decide_all_sorted: "vmas_ok vmas \<Longrightarrow> sorted_wrt (<) (map snd (decide_all b pme vmas))"
proof (induction vmas)
  case Nil
  then show ?case by (simp add: decide_all_def)
next
  case (Cons v vmas)
  have ok: "vmas_ok vmas" "vmas_ok [v]" using Cons.prems by (auto simp: vmas_ok_def)
  have "x < y" if x: "x \<in> set (map snd (decide b pme v (vma_pfns v)))" and y: "y \<in> set (map snd (decide_all b pme vmas))" for x y
  proof -
    from x obtain pfn where "pfn \<in> set (vma_pfns v)" "x = vma_page v pfn" by (auto simp: decide_def)
    then have "x + PAGE_SIZE \<le> vma_end v" using vma_page_bounds [OF ok(2)] by auto
    moreover from y obtain w where "w \<in> set vmas" "vma_start w \<le> y"
      using decide_all_mem [OF _ ok(1)] by fastforce
    then have "vma_end v \<le> y" using Cons.prems by (fastforce simp: vmas_ok_def)
    ultimately show ?thesis using PAGE_SIZE_pos by linarith
  qed
  with Cons.IH [OF ok(1)] decide_sorted [of b pme v] show ?case
    by (auto simp: decide_all_def sorted_wrt_append)
qed

lemma dec_ordered:
  assumes "sorted_wrt (<) (map snd ds)" "\<forall>d \<in> set ds. PAGE_SIZE dvd snd d"
    and "pp_pages pp = dec_pages ds" "pp_hole_pages pp = dec_holes ds"
  shows "pp_ordered pp"
proof -
  have s: "sorted_wrt (\<lambda>a b. snd a < snd b) ds" using assms(1) by (simp add: sorted_wrt_map)
  have "sorted_wrt (<) (dec_pages ds)" "sorted_wrt (<) (dec_holes ds)"
    unfolding dec_pages_def dec_holes_def sorted_wrt_map using s by (auto intro: sorted_wrt_filter)
  moreover have "set (dec_pages ds) \<inter> set (dec_holes ds) = {}"
    using s
  proof (induction ds)
    case (Cons d ds)
    have "snd d \<notin> set (dec_pages ds)" "snd d \<notin> set (dec_holes ds)"
      using Cons.prems by (fastforce simp: dec_pages_def dec_holes_def)+
    with Cons show ?case by simp
  qed simp
  moreover have "\<forall>a \<in> set (dec_pages ds) \<union> set (dec_holes ds). PAGE_SIZE dvd a"
    using assms(2) by (auto simp: dec_pages_def dec_holes_def)
  ultimately show ?thesis using assms(3,4) by (simp add: pp_ordered_def)
qed

section \<open>Grabbing the pages\<close>

lemma concat_seg_bytes_len:
  "(\<And>a. length (mem a) = PAGE_SIZE) \<Longrightarrow>
   length (concat (map (seg_bytes mem) vs)) = length (concat (map iov_pages vs)) * PAGE_SIZE"
  by (induction vs) (auto simp: seg_bytes_def length_concat_map_const [where n = PAGE_SIZE] algebra_simps)

lemma dump_pages_done:
  assumes "dump_pages vmspl mem args vs p pipes = (0, pipes')" "\<And>a. length (mem a) = PAGE_SIZE"
    and "data = concat (map (seg_bytes mem) (take (args_nr_segs args) (drop (args_off args) vs)))"
    and "args_nr_pages args = length (concat (map iov_pages (take (args_nr_segs args) (drop (args_off args) vs))))"
    and "args_nr_pages args < 2 ^ 19"
  shows "pipes' = pipes(p := pipes p @ data)"
proof -
  have "length data = args_nr_pages args * PAGE_SIZE"
    using concat_seg_bytes_len [of mem] assms(2-4) by simp
  moreover have "u32_of (PAGE_SIZE * args_nr_pages args) = args_nr_pages args * PAGE_SIZE"
    using assms(5) by (simp add: PAGE_SIZE_def)
  ultimately show ?thesis
    using assms(1,3) by (auto simp: dump_pages_def Let_def split: if_splits)
qed

lemma grab_loop_done:
  assumes "grab_loop D args vs bs pipes = (0, pipes')" "bufs_chain (args_off args) bs e" "e \<le> length vs"
    and "\<And>a. length (de_mem D a) = PAGE_SIZE" "list_all (buf_ok vs) bs" "distinct (map ppb_p bs)"
  shows "pipes' = (\<lambda>p. pipes p @ concat (map (\<lambda>b. if ppb_p b = p then concat (map (seg_bytes (de_mem D)) (segs vs b)) else []) bs))"
  using assms(1,2,5,6)
proof (induction bs arbitrary: args pipes)
  case Nil
  then show ?case by simp
next
  case (Cons b bs)
  let ?args1 = "args\<lparr>args_nr_segs := nr_segs b, args_nr_pages := pages_in b\<rparr>"
  let ?data = "concat (map (seg_bytes (de_mem D)) (segs vs b))"
  from Cons.prems(1) obtain pipes1 where
    d: "dump_pages (de_vmsplice D) (de_mem D) ?args1 vs (ppb_p b) pipes = (0, pipes1)" and
    g: "grab_loop D (?args1\<lparr>args_off := args_off args + nr_segs b\<rparr>) vs bs pipes1 = (0, pipes')"
    by (auto simp: Let_def split: if_splits prod.splits)
  have off: "ppb_iov b = args_off args" using Cons.prems(2) by simp
  have b: "pages_in b = length (concat (map iov_pages (segs vs b)))" "pages_in b < 2 ^ 19"
    using Cons.prems(3) by (auto simp: buf_ok_def)
  have p1: "pipes1 = pipes(ppb_p b := pipes (ppb_p b) @ ?data)"
    by (rule dump_pages_done [OF d assms(4)]) (use b off in \<open>simp_all add: segs_def\<close>)
  have "pipes' = (\<lambda>p. pipes1 p @ concat (map (\<lambda>b. if ppb_p b = p then concat (map (seg_bytes (de_mem D)) (segs vs b)) else []) bs))"
    using Cons.IH [OF g] Cons.prems(2-4) by simp
  then show ?case unfolding p1 by (auto simp: fun_eq_iff)
qed

lemma grab_loop_pipes:
  assumes "pp_wf pp" "grab_loop D args (iovs pp) (bufs pp) (\<lambda>_. []) = (0, pipes)" "args_off args = 0"
    and "\<And>a. length (de_mem D a) = PAGE_SIZE"
  shows "pipes_hold (de_mem D) 0 (pp_segs pp) pipes"
proof -
  let ?f = "\<lambda>p b. if ppb_p b = p then concat (map (seg_bytes (de_mem D)) (segs (iovs pp) b)) else []"
  have wf: "bufs_chain 0 (bufs pp) (free_iov pp)" "free_iov pp \<le> length (iovs pp)" "list_all (buf_ok (iovs pp)) (bufs pp)"
     "distinct (map ppb_p (bufs pp))"
    using assms(1) by (auto simp: pp_wf_def pp_bufs_wf_def)
  have "pipes = (\<lambda>p. [] @ concat (map (?f p) (bufs pp)))"
    using grab_loop_done [OF assms(2) _ wf(2) assms(4) wf(3,4)] wf(1) assms(3) by simp
  moreover have "concat (map (?f p) bs) = concat (map (\<lambda>(q, v). seg_bytes (de_mem D) (v\<lparr>iov_base := iov_base v - 0\<rparr>))
      (filter (\<lambda>(q, v). q = p) (concat (map (buf_segs (iovs pp)) bs))))" for p bs
    by (induction bs) (auto simp: buf_segs_def filter_map o_def)
  ultimately show ?thesis by (simp add: pipes_hold_def pp_segs_def)
qed

section \<open>The image of a dump\<close>

text \<open>
  The areas are counted, and the arguments of every command stay below 2 GiB. For a dump that bounds
  the private memory by about 1 TiB.
\<close>

definition args_fit :: "dump_env \<Rightarrow> vm_area_list \<Rightarrow> bool" where
  "args_fit D vmas \<longleftrightarrow> vm_nr vmas = length (vm_h vmas) \<and> 20 + vm_nr vmas * 24 + (priv_size vmas + 1) * 8 < 2 ^ 31
     \<and> (\<forall>n. de_nr_fds D = Some n \<longrightarrow> 4 + n * 4 < 2 ^ 31) \<and> 4 + 48 * de_timer_n D < 2 ^ 31"

lemma args_size_fit: "args_fit D vmas \<Longrightarrow> dump_pages_args_size vmas = 20 + vm_nr vmas * 24 + (priv_size vmas + 1) * 8"
  by (simp add: args_fit_def dump_pages_args_size_def)

lemma round_up_page:
  assumes "n \<le> m" "m < 2 ^ 31"
  shows "n \<le> ((m - 1) div PAGE_SIZE * PAGE_SIZE + PAGE_SIZE) mod 2 ^ 64"
proof -
  have "m \<le> (m - 1) div PAGE_SIZE * PAGE_SIZE + PAGE_SIZE"
    using mod_less_divisor [of PAGE_SIZE "m - 1"] div_mult_mod_eq [of "m - 1" PAGE_SIZE] PAGE_SIZE_pos by linarith
  moreover have "(m - 1) div PAGE_SIZE * PAGE_SIZE + PAGE_SIZE < 2 ^ 64"
    using div_times_less_eq_dividend [of "m - 1" PAGE_SIZE] assms(2) by (simp add: PAGE_SIZE_def)
  ultimately show ?thesis
    using assms(1) by simp
qed

lemma ctl_args_size_fit:
  assumes "args_fit D vmas"
  shows "dump_pages_args_size vmas \<le> ctl_args_size D vmas"
  unfolding ctl_args_size_def parasite_args_size_def Let_def
proof (rule round_up_page)
  have "dump_pages_args_size vmas < 2 ^ 31"
    using args_size_fit [OF assms] assms by (simp add: args_fit_def)
  then show "max (if de_timer_n D \<noteq> 0
      then max (case de_nr_fds D of None \<Rightarrow> PARASITE_ARG_SIZE_MIN | Some nr_fds \<Rightarrow> max PARASITE_ARG_SIZE_MIN (ulong_of_int (drain_fds_size nr_fds)))
             (ulong_of_int (posix_timers_dump_size (de_timer_n D)))
      else (case de_nr_fds D of None \<Rightarrow> PARASITE_ARG_SIZE_MIN | Some nr_fds \<Rightarrow> max PARASITE_ARG_SIZE_MIN (ulong_of_int (drain_fds_size nr_fds))))
      (dump_pages_args_size vmas) < 2 ^ 31"
    using assms by (simp add: args_fit_def PARASITE_ARG_SIZE_MIN_def drain_fds_size_def posix_timers_dump_size_def ulong_of_int_small split: option.split)
qed simp

lemma dump_args_length: "args_fit D vmas \<Longrightarrow> length (pa_vmas (dump_args_of vmas)) \<le> vm_nr vmas"
  by (simp add: args_fit_def dump_args_of_def)

lemma prep_dump_pages_args_fit:
  assumes "args_fit D vmas"
  shows "prep_dump_pages_args (ctl_args_size D vmas) vmas = Inr (dump_args_of vmas)"
proof -
  have "dump_pages_args_size vmas < 2 ^ 31"
    using args_size_fit [OF assms] assms by (simp add: args_fit_def)
  then have "ulong_of_int (int_of_ulong (dump_pages_args_size vmas)) \<le> ctl_args_size D vmas"
    using ctl_args_size_fit [OF assms] by (simp add: ulong_of_int_small)
  moreover have "20 + length (pa_vmas (dump_args_of vmas)) * 24 \<le> ctl_args_size D vmas"
    using ctl_args_size_fit [OF assms] args_size_fit [OF assms] dump_args_length [OF assms] by simp
  ultimately show ?thesis
    by (simp add: prep_dump_pages_args_def parasite_args_s_def)
qed

lemma args_iov_room_enough:
  assumes "args_fit D vmas"
  shows "priv_size vmas div 2 \<le> args_iov_room (ctl_args_size D vmas) (dump_args_of vmas\<lparr>add_prot := ap\<rparr>)"
    "u32_of (priv_size vmas div 2) = priv_size vmas div 2"
proof -
  have "priv_size vmas div 2 * 16 \<le> ctl_args_size D vmas - 20 - length (pa_vmas (dump_args_of vmas)) * 24"
    using ctl_args_size_fit [OF assms] args_size_fit [OF assms] dump_args_length [OF assms] by simp
  then show "priv_size vmas div 2 \<le> args_iov_room (ctl_args_size D vmas) (dump_args_of vmas\<lparr>add_prot := ap\<rparr>)"
    by (simp add: args_iov_room_def less_eq_div_iff_mult_less_eq)
  have "priv_size vmas div 2 < 2 ^ 32"
    using assms by (auto simp: args_fit_def)
  then show "u32_of (priv_size vmas div 2) = priv_size vmas div 2"
    by simp
qed

text \<open>
  From 2 GiB of arguments on, before they wrap around, the size is a negative \<^verbatim>\<open>int\<close> and a huge
  \<^verbatim>\<open>unsigned long\<close>: the dump aborts although the area was made large enough.
\<close>

lemma large_args_abort:
  assumes "2 ^ 31 \<le> 20 + vm_nr vmas * 24 + (priv_size vmas + 1) * 8" "20 + vm_nr vmas * 24 + (priv_size vmas + 1) * 8 < 2 ^ 32"
    and "ctl_args_size D vmas < 2 ^ 63"
  shows "parasite_dump_pages_seized D mprot xf open_xfer delay vmas pr = Inl BUG"
proof -
  have "dump_pages_args_size vmas = 20 + vm_nr vmas * 24 + (priv_size vmas + 1) * 8"
    using assms(2) by (simp add: dump_pages_args_size_def)
  then have "2 ^ 63 \<le> ulong_of_int (int_of_ulong (dump_pages_args_size vmas))"
    using assms(1,2) by (intro ulong_of_int_large) simp_all
  then show ?thesis
    using assms(3) by (simp add: parasite_dump_pages_seized_def prep_dump_pages_args_def parasite_args_s_def)
qed

lemma holes_len:
  assumes "pp_wf pp" "h \<in> set (take (free_hole pp) (holes pp))"
  shows "iov_len h \<le> length (pp_hole_pages pp) * PAGE_SIZE" "iov_base h \<in> set (pp_hole_pages pp)"
proof -
  have ok: "iov_ok h" using assms by (auto simp: pp_wf_def pp_holes_wf_def list_all_iff)
  have "length (iov_pages h) \<le> length (pp_hole_pages pp)"
    using assms(2) by (simp add: pp_hole_pages_def length_concat member_le_sum_list)
  then have "iov_len h div PAGE_SIZE * PAGE_SIZE \<le> length (pp_hole_pages pp) * PAGE_SIZE"
    by (simp add: iov_pages_def)
  with ok show "iov_len h \<le> length (pp_hole_pages pp) * PAGE_SIZE" by (simp add: iov_ok_def)
  show "iov_base h \<in> set (pp_hole_pages pp)"
    using assms(2) iov_first_last(1) [OF ok] by (auto simp: pp_hole_pages_def)
qed

lemma pp_small_pages:
  assumes "pp_wf pp" "length (pp_hole_pages pp) < 2 ^ 20" "\<forall>a \<in> set (pp_pages pp) \<union> set (pp_hole_pages pp). a < 2 ^ 64"
  shows "pp_small pp"
proof -
  have "iov_base v < 2 ^ 64" if "v \<in> set (take (free_iov pp) (iovs pp))" for v
  proof -
    have "iov_ok v" using assms(1) that by (simp add: pp_wf_def pp_bufs_wf_def list_all_iff)
    then have "iov_base v \<in> set (pp_pages pp)" using that iov_first_last(1) by (fastforce simp: pp_pages_def)
    with assms(3) show ?thesis by auto
  qed
  moreover have "iov_len h < 2 ^ 32 \<and> iov_base h < 2 ^ 64" if "h \<in> set (take (free_hole pp) (holes pp))" for h
    using holes_len [OF assms(1) that] assms(2,3) by (auto simp: PAGE_SIZE_def)
  ultimately show ?thesis by (simp add: pp_small_def)
qed

text \<open>
  The parent snapshot as the dump sees it: \<open>es\<close> are the entries of its pagemap, all of
  which were collected, and every clean page that is dumped is among them (the kernel's
  promise for soft-dirty tracking: a page that is not in the parent's map was written since).
\<close>

definition parent_ok :: "dump_env \<Rightarrow> mem_snap_ctx option \<Rightarrow> pagemap_entry list \<Rightarrow> vma_area list \<Rightarrow> bool" where
  "parent_ok D so es vmas \<longleftrightarrow> mem_snap_init (de_snap D) = Inr so \<and> pm_wf es \<and> snap_ok es so 0 \<and>
     (\<forall>d \<in> set (decide_all (so \<noteq> None) (pme_of (de_pagemap D)) vmas). fst d \<longrightarrow> covered es (snd d))"

lemma generate_all_pipe:
  assumes "parent_ok D so es vmas" "vmas_ok vmas" "pipe_env_ok (de_pipe D)" "pp_wf pp"
    and "pp_pages pp = []" "pp_hole_pages pp = []"
    and "generate_all (de_pipe D) vmas (de_pagemap D) pp so = Inr (0, pp', so')"
    and "ds = decide_all (so \<noteq> None) (pme_of (de_pagemap D)) vmas"
  shows "pp_wf pp' \<and> pp_pages pp' = dec_pages ds \<and> pp_hole_pages pp' = dec_holes ds \<and> pp_ordered pp'"
proof -
  have "sink_all (page_pipe_add_page (de_pipe D)) (page_pipe_add_hole (de_pipe D)) ds pp = Inr (0, pp')"
    using generate_all_sink [of es vmas so 0 "de_pagemap D" ds "de_pipe D" pp pp' so'] assms
    by (auto simp: parent_ok_def)
  from pp_sink.sink_contents [OF this] assms(3-6)
  have c: "pp_wf pp'" "pp_pages pp' = dec_pages ds" "pp_hole_pages pp' = dec_holes ds" by auto
  have "\<forall>d \<in> set ds. PAGE_SIZE dvd snd d" using decide_all_mem [OF _ assms(2)] assms(8) by blast
  with dec_ordered [OF _ _ c(2,3)] decide_all_sorted [OF assms(2)] assms(8) c show ?thesis by auto
qed

lemma gen_loop_ret: "gen_loop E v pme pfns pp so = Inr (ret, q) \<Longrightarrow> ret = 0 \<or> ret = -1"
  by (induction pfns arbitrary: pp so) (auto simp: Let_def bindF_eq_Inr split: if_splits)

lemma generate_all_ret: "generate_all E vmas pm pp so = Inr (ret, q) \<Longrightarrow> ret = 0 \<or> ret = -1"
  by (induction E vmas pm pp so rule: generate_all.induct)
     (auto simp: generate_iovs_def bindF_eq_Inr split: if_splits dest: gen_loop_ret)

lemma snap_collect_ok:
  assumes "snap_wf ds ctx" "rover ctx = 0" "\<forall>n. iovs_realloc E n"
  shows "\<exists>ctx'. snap_collect E (map Some es) ctx = Some ctx' \<and> snap_wf (ds @ es) ctx' \<and> rover ctx' = 0"
  using assms(1,2)
proof (induction es arbitrary: ds ctx)
  case (Cons e es)
  define ctx1 where "ctx1 = ctx\<lparr>snap_iovs := (snap_iovs ctx)[snap_nr ctx := pagemap2iovec e], snap_nr := snap_nr ctx + 1\<rparr>"
  define ctx2 where "ctx2 = (if length (snap_iovs ctx1) \<le> snap_nr ctx1
     then ctx1\<lparr>snap_iovs := snap_iovs ctx1 @ replicate MEM_SNAP_BATCH (snap_junk E)\<rparr> else ctx1)"
  have nth: "(snap_iovs ctx)[length ds := pagemap2iovec e] ! i = pagemap2iovec ((ds @ [e]) ! i)" if "i < Suc (length ds)" for i
    using that Cons.prems(1) by (auto simp: snap_wf_def nth_append nth_list_update less_Suc_eq)
  have "snap_wf (ds @ [e]) ctx2" "rover ctx2 = 0"
    using Cons.prems nth by (auto simp: snap_wf_def ctx1_def ctx2_def MEM_SNAP_BATCH_def nth_append)
  from Cons.IH [OF this] obtain ctx' where
    "snap_collect E (map Some es) ctx2 = Some ctx'" "snap_wf ((ds @ [e]) @ es) ctx'" "rover ctx' = 0" by blast
  moreover have "snap_collect E (map Some (e # es)) ctx = snap_collect E (map Some es) ctx2"
    using assms(3) by (simp add: Let_def ctx2_def ctx1_def pagemap2iovec_def)
  ultimately show ?case by simp
qed simp

lemma mem_snap_init_ok:
  assumes "parent_fd E" "parent_pm E = Img (True, map Some es)" "ctx_malloc E" "iovs_malloc E" "\<forall>n. iovs_realloc E n"
  shows "\<exists>sn. mem_snap_init E = Inr (Some sn) \<and> snap_ok es (Some sn) 0"
proof -
  let ?c = "\<lparr>snap_nr = 0, snap_iovs = replicate MEM_SNAP_BATCH (snap_junk E), rover = 0\<rparr>"
  have "snap_wf [] ?c" "rover ?c = 0" by (simp_all add: snap_wf_def MEM_SNAP_BATCH_def)
  from snap_collect_ok [OF this assms(5), of es] assms(1-4) show ?thesis
    by (auto simp: mem_snap_init_def snap_ok_def rover_below_def)
qed

text \<open>What a backend has to be given by \<^verbatim>\<open>open_page_xfer\<close>: an empty image and the pipes.\<close>

context page_xfer_live
begin

lemma dump_seized_image:
  assumes par: "parent_ok D so es (vm_h vmas)" and vmas: "vmas_ok (vm_h vmas)" "args_fit D vmas"
    and env: "pipe_env_ok (de_pipe D)" and mem: "\<And>a. length (de_mem D a) = PAGE_SIZE"
    and opn: "\<And>pipes r x. open_xfer pipes = (r, x) \<Longrightarrow> 0 \<le> r \<Longrightarrow> inv x \<and> view x = ([], []) \<and> pipe x = pipes"
    and args: "args = dump_args_of vmas\<lparr>add_prot := ap\<rparr>"
    and ds: "ds = decide_all (so \<noteq> None) (pme_of (de_pagemap D)) (vm_h vmas)" "length (dec_holes ds) < 2 ^ 20"
       "\<forall>d \<in> set ds. snd d < 2 ^ 64"
    and run: "parasite_dump_pages_seized_inner D xf open_xfer False args vmas = Inr (0, q, Some x')"
  shows "\<exists>pp. pp_wf pp \<and> pp_ordered pp \<and> pp_small pp \<and> pp_pages pp = dec_pages ds \<and> pp_hole_pages pp = dec_holes ds
     \<and> view x' = plan_image (de_mem D) (pp_plan pp)"
proof -
  have init: "mem_snap_init (de_snap D) = Inr so" using par by (simp add: parent_ok_def)
  from run init obtain pp0 where
    c: "create_page_pipe (de_pipe D) (priv_size vmas div 2) (replicate (args_iov_room (ctl_args_size D vmas) args) (de_iov_junk D)) = Some pp0" and
    r1: "bindF (generate_all (de_pipe D) (vm_h vmas) (de_pagemap D) pp0 so) (\<lambda>(ret, pp1, snap1).
                if ret < 0 then Inr (ret, None, None)
                else case grab_loop D (args\<lparr>args_off := 0\<rparr>) (iovs pp1) (bufs pp1) (\<lambda>_. []) of (ret2, pipes) \<Rightarrow>
                  if ret2 \<noteq> 0 then Inr (ret2, None, None)
                  else dump_step3 D xf open_xfer False pp1 pipes) = Inr (0, q, Some x')"
    by (auto simp: parasite_dump_pages_seized_inner_def args_iov_room_enough(2) [OF vmas(2)] split: if_splits option.splits)
  have "priv_size vmas div 2 \<le> length (replicate (args_iov_room (ctl_args_size D vmas) args) (de_iov_junk D))"
    using args_iov_room_enough(1) [OF vmas(2)] args by simp
  note p0 = create_page_pipe_spec [OF env this c]
  from r1 obtain ret pp so1 where g: "generate_all (de_pipe D) (vm_h vmas) (de_pagemap D) pp0 so = Inr (ret, pp, so1)"
    by (auto simp: bindF_eq_Inr)
  have "ret = 0" using generate_all_ret [OF g] r1 g by auto
  with g have g0: "generate_all (de_pipe D) (vm_h vmas) (de_pagemap D) pp0 so = Inr (0, pp, so1)" by simp
  have pp: "pp_wf pp" "pp_pages pp = dec_pages ds" "pp_hole_pages pp = dec_holes ds" "pp_ordered pp"
    using generate_all_pipe [OF par vmas(1) env p0(1-3) g0 ds(1)] by auto
  have sm: "pp_small pp"
    by (rule pp_small_pages [OF pp(1)]) (use pp(2,3) ds(2,3) in \<open>auto simp: dec_pages_def dec_holes_def\<close>)
  from r1 g0 obtain pipes where
    gr: "grab_loop D (args\<lparr>args_off := 0\<rparr>) (iovs pp) (bufs pp) (\<lambda>_. []) = (0, pipes)" and
    st: "dump_step3 D xf open_xfer False pp pipes = Inr (0, q, Some x')"
    by (auto split: prod.splits if_splits)
  have hold: "pipes_hold (de_mem D) 0 (pp_segs pp) pipes"
    using grab_loop_pipes [OF pp(1) gr _ mem] by simp
  obtain r x where o: "open_xfer pipes = (r, x)" by fastforce
  with st have r: "0 \<le> r" by (auto simp: dump_step3_def split: if_splits)
  note x = opn [OF o r]
  from x have "inv x" "view x = ([], [])" "pipes_hold (de_mem D) 0 (pp_segs pp) (pipe x)" using hold by simp_all
  from dump_pages_image [OF pp(1) sm this mem] obtain pp' x1 where
    "page_xfer_dump_pages xf pp 0 x = Inr (0, pp', x1)" "view x1 = plan_image (de_mem D) (pp_plan pp)" by blast
  with st o r have "view x' = plan_image (de_mem D) (pp_plan pp)"
    by (auto simp: dump_step3_def close_law)
  with pp sm show ?thesis by blast
qed

end

section \<open>A dump whose calls succeed\<close>

definition dump_live :: "dump_env \<Rightarrow> bool" where
  "dump_live D \<longleftrightarrow> de_map_malloc D \<and> 0 \<le> de_open_pagemap D
     \<and> pp_malloc (de_pipe D) \<and> (\<forall>n. ppb_malloc (de_pipe D) n) \<and> (\<forall>n. sys_pipe (de_pipe D) n)
     \<and> (\<forall>n. holes_realloc (de_pipe D) n) \<and> pipe_env_ok (de_pipe D) \<and> (\<forall>n. pagemap_io (de_pagemap D) n)
     \<and> (\<forall>n. 0 \<le> de_exec D n \<and> de_send_fd D n = 0 \<and> de_ack D n) \<and> (\<forall>p k. de_vmsplice D p k = int k)
     \<and> task_reset_dirty_track D = 0 \<and> (\<forall>ap. de_mprot_cmd D ap) \<and> (\<forall>a. length (de_mem D a) = PAGE_SIZE)"

lemma try_add_page_ret: "try_add_page E pp a = Inr (r, pp') \<Longrightarrow> r = 0 \<or> r = 1"
  unfolding try_add_page_def try_add_page_to_def Let_def
  by (cases "grow_pipe E (bufs pp ! (length (bufs pp) - 1))") (simp_all split: if_split_asm option.split_asm)

lemma page_pipe_grow_ok: "\<forall>n. ppb_malloc E n \<Longrightarrow> \<forall>n. sys_pipe E n \<Longrightarrow> fst (page_pipe_grow E pp) = 0"
  by (simp add: page_pipe_grow_def Let_def)

lemma page_pipe_add_page_ret:
  assumes "\<forall>n. ppb_malloc E n" "\<forall>n. sys_pipe E n" "page_pipe_add_page E pp a = Inr (r, pp')"
  shows "r = 0"
proof -
  from assms(3) obtain r1 p1 where t: "try_add_page E pp a = Inr (r1, p1)"
    by (auto simp: page_pipe_add_page_def bindF_eq_Inr)
  obtain p2 where g: "page_pipe_grow E p1 = (0, p2)"
    using page_pipe_grow_ok [OF assms(1,2), of p1] by (cases "page_pipe_grow E p1") auto
  from try_add_page_ret [OF t] show ?thesis
  proof
    assume "r1 = 1"
    with assms(3) t g have "bindF (try_add_page E p2 a) (\<lambda>(ret3, pp3). if 0 < ret3 then Inl BUG else Inr (ret3, pp3)) = Inr (r, pp')"
      by (simp add: page_pipe_add_page_def)
    then obtain r3 p3 where "try_add_page E p2 a = Inr (r3, p3)" "(if 0 < r3 then Inl BUG else Inr (r3, p3)) = Inr (r, pp')"
      by (auto simp: bindF_eq_Inr)
    with try_add_page_ret show ?thesis by (fastforce split: if_splits)
  qed (use assms(3) t in \<open>simp add: page_pipe_add_page_def\<close>)
qed

lemma page_pipe_add_hole_ret:
  "\<forall>n. holes_realloc E n \<Longrightarrow> page_pipe_add_hole E pp a = Inr (r, pp') \<Longrightarrow> r = 0"
  unfolding page_pipe_add_hole_def Let_def by (simp split: if_split_asm)

lemma sink_all_zero:
  assumes "\<And>s a r s'. ap s a = Inr (r, s') \<Longrightarrow> r = 0" "\<And>s a r s'. ah s a = Inr (r, s') \<Longrightarrow> r = 0"
  shows "sink_all ap ah ds s = Inr (r, s') \<Longrightarrow> r = 0"
proof (induction ds arbitrary: s)
  case (Cons d ds)
  obtain h a where d: "d = (h, a)" by (cases d) auto
  from Cons.prems d obtain r1 s1 where q: "(if h then ah s a else ap s a) = Inr (r1, s1)"
      "(if r1 \<noteq> 0 then Inr (-1, s1) else sink_all ap ah ds s1) = Inr (r, s')"
    by (auto simp: bindF_eq_Inr)
  have "r1 = 0" using q(1) assms by (cases h) auto
  with Cons.IH q(2) show ?case by simp
qed simp

lemma generate_all_live:
  assumes "dump_live D" "parent_ok D so es vmas" "vmas_ok vmas" "pp_wf pp"
    and "length (dec_pages (decide_all (so \<noteq> None) (pme_of (de_pagemap D)) vmas)) \<le> nr_iovs pp - free_iov pp"
  shows "\<exists>pp' so'. generate_all (de_pipe D) vmas (de_pagemap D) pp so = Inr (0, pp', so')"
proof -
  let ?ds = "decide_all (so \<noteq> None) (pme_of (de_pagemap D)) vmas"
  let ?sink = "sink_all (page_pipe_add_page (de_pipe D)) (page_pipe_add_hole (de_pipe D)) ?ds pp"
  from pp_sink.sink_no_fault [of pp "de_pipe D" ?ds] assms(1,4,5) obtain r p where s: "?sink = Inr (r, p)"
    by (auto simp: dump_live_def)
  moreover have "r = 0"
    by (rule sink_all_zero [OF _ _ s])
      (use assms(1) page_pipe_add_page_ret page_pipe_add_hole_ret in \<open>auto simp: dump_live_def\<close>)
  ultimately have s0: "?sink = Inr (0, p)" by simp
  have a: "pm_wf es" "snap_ok es so 0" "\<forall>d \<in> set ?ds. fst d \<longrightarrow> covered es (snd d)" "\<forall>v \<in> set vmas. 0 \<le> vma_start v"
    "\<forall>n. pagemap_io (de_pagemap D) n"
    using assms(1,2) unfolding parent_ok_def dump_live_def by blast+
  from generate_all_sink [OF a(1) assms(3) a(2,4,3) refl, of "de_pipe D" pp pp so] a(5) s0 show ?thesis by blast
qed

lemma parasite_dump_pages_ok:
  assumes "\<And>p k. vmspl p k = int k" "\<And>a. length (mem a) = PAGE_SIZE"
    and "args_nr_pages args = length (concat (map iov_pages (take (args_nr_segs args) (drop (args_off args) vs))))"
    and "args_nr_pages args < 2 ^ 19"
  shows "fst (dump_pages vmspl mem args vs p pipes) = 0"
proof -
  have "u32_of (PAGE_SIZE * args_nr_pages args) = args_nr_pages args * PAGE_SIZE"
    using assms(4) by (simp add: PAGE_SIZE_def)
  with assms(1-3) concat_seg_bytes_len [of mem] show ?thesis by (simp add: dump_pages_def Let_def)
qed

lemma grab_loop_live:
  assumes "dump_live D" "bufs_chain (args_off args) bs e" "list_all (buf_ok vs) bs"
  shows "\<exists>pipes'. grab_loop D args vs bs pipes = (0, pipes')"
  using assms(2,3)
proof (induction bs arbitrary: args pipes)
  case (Cons b bs)
  let ?args1 = "args\<lparr>args_nr_segs := nr_segs b, args_nr_pages := pages_in b\<rparr>"
  have b: "pages_in b = length (concat (map iov_pages (segs vs b)))" "pages_in b < 2 ^ 19" "ppb_iov b = args_off args"
    using Cons.prems by (auto simp: buf_ok_def)
  have "fst (dump_pages (de_vmsplice D) (de_mem D) ?args1 vs (ppb_p b) pipes) = 0"
    by (rule parasite_dump_pages_ok) (use assms(1) b in \<open>auto simp: dump_live_def segs_def\<close>)
  then obtain pipes1 where d: "dump_pages (de_vmsplice D) (de_mem D) ?args1 vs (ppb_p b) pipes = (0, pipes1)"
    by (cases "dump_pages (de_vmsplice D) (de_mem D) ?args1 vs (ppb_p b) pipes") auto
  have "bufs_chain (args_off (?args1\<lparr>args_off := args_off ?args1 + args_nr_segs ?args1\<rparr>)) bs e"
    "list_all (buf_ok vs) bs" using Cons.prems by simp_all
  from Cons.IH [OF this, of pipes1] obtain pipes' where
    g: "grab_loop D (?args1\<lparr>args_off := args_off ?args1 + args_nr_segs ?args1\<rparr>) vs bs pipes1 = (0, pipes')" by blast
  have "0 \<le> de_exec D (ppb_p b)" "de_send_fd D (ppb_p b) = 0" "de_ack D (ppb_p b)"
    using assms(1) unfolding dump_live_def by blast+
  then have "grab_loop D args vs (b # bs) pipes = (0, pipes')" using d g by (simp add: Let_def)
  then show ?case by blast
qed simp

text \<open>With every call succeeding, the dump gets as far as the transfer.\<close>

lemma dump_reaches_transfer:
  assumes "dump_live D" "parent_ok D so es (vm_h vmas)" "vmas_ok (vm_h vmas)" "args_fit D vmas"
    and "args = dump_args_of vmas\<lparr>add_prot := ap\<rparr>"
    and "ds = decide_all (so \<noteq> None) (pme_of (de_pagemap D)) (vm_h vmas)" "length (dec_pages ds) \<le> priv_size vmas div 2"
    and "length (dec_holes ds) < 2 ^ 20" "\<forall>d \<in> set ds. snd d < 2 ^ 64"
  shows "\<exists>pp pipes. parasite_dump_pages_seized_inner D xf open_xfer delay args vmas = dump_step3 D xf open_xfer delay pp pipes
     \<and> pp_wf pp \<and> pp_ordered pp \<and> pp_small pp \<and> pp_pages pp = dec_pages ds \<and> pp_hole_pages pp = dec_holes ds
     \<and> pipes_hold (de_mem D) 0 (pp_segs pp) pipes"
proof -
  have init: "mem_snap_init (de_snap D) = Inr so" using assms(2) by (simp add: parent_ok_def)
  have env: "pipe_env_ok (de_pipe D)" using assms(1) by (simp add: dump_live_def)
  let ?vs = "replicate (args_iov_room (ctl_args_size D vmas) args) (de_iov_junk D)"
  obtain pp0 where c: "create_page_pipe (de_pipe D) (priv_size vmas div 2) ?vs = Some pp0"
    using assms(1) by (auto simp: create_page_pipe_def page_pipe_grow_def dump_live_def Let_def)
  have "priv_size vmas div 2 \<le> length ?vs" using args_iov_room_enough(1) [OF assms(4)] assms(5) by simp
  note p0 = create_page_pipe_spec [OF env this c]
  from generate_all_live [OF assms(1-3) p0(1)] assms(6,7) p0(4,5) obtain pp so1 where
    g: "generate_all (de_pipe D) (vm_h vmas) (de_pagemap D) pp0 so = Inr (0, pp, so1)" by auto
  note pp = generate_all_pipe [OF assms(2,3) env p0(1-3) g assms(6)]
  have sm: "pp_small pp"
    by (rule pp_small_pages) (use pp assms(8,9) in \<open>auto simp: dec_pages_def dec_holes_def\<close>)
  have "bufs_chain (args_off (args\<lparr>args_off := 0\<rparr>)) (bufs pp) (free_iov pp)" "list_all (buf_ok (iovs pp)) (bufs pp)"
    using pp by (auto simp: pp_wf_def pp_bufs_wf_def)
  from grab_loop_live [OF assms(1) this] obtain pipes where
    gr: "grab_loop D (args\<lparr>args_off := 0\<rparr>) (iovs pp) (bufs pp) (\<lambda>_. []) = (0, pipes)" by blast
  have "pipes_hold (de_mem D) 0 (pp_segs pp) pipes"
    using grab_loop_pipes [of pp D, OF _ gr] pp assms(1) by (simp add: dump_live_def)
  moreover have "parasite_dump_pages_seized_inner D xf open_xfer delay args vmas = dump_step3 D xf open_xfer delay pp pipes"
    using init c g gr assms(1) args_iov_room_enough(2) [OF assms(4)] by (simp add: parasite_dump_pages_seized_inner_def dump_live_def not_less)
  ultimately show ?thesis using pp sm by blast
qed

text \<open>The whole dump, for any live backend that starts from an empty image.\<close>

context page_xfer_live
begin

lemma dump_seized_live:
  assumes "dump_live D" "parent_ok D so es (vm_h vmas)" "vmas_ok (vm_h vmas)" "args_fit D vmas"
    and opn: "\<And>pipes. \<exists>x. open_xfer pipes = (0, x) \<and> inv x \<and> view x = ([], []) \<and> pipe x = pipes"
    and ds: "ds = decide_all (so \<noteq> None) (pme_of (de_pagemap D)) (vm_h vmas)" "length (dec_pages ds) \<le> priv_size vmas div 2"
       "length (dec_holes ds) < 2 ^ 20" "\<forall>d \<in> set ds. snd d < 2 ^ 64"
    and mp: "\<And>ap a p. mprot ap a p = 0"
  shows "\<exists>x1 pr' pp. parasite_dump_pages_seized D mprot xf open_xfer False vmas pr = Inr ((0, None, Some (xfer_close xf x1)), pr')
     \<and> inv x1 \<and> pp_wf pp \<and> pp_ordered pp \<and> pp_small pp \<and> pp_pages pp = dec_pages ds \<and> pp_hole_pages pp = dec_holes ds
     \<and> view x1 = plan_image (de_mem D) (pp_plan pp)"
proof -
  let ?args = "dump_args_of vmas"
  from dump_reaches_transfer [where ap = PROT_READ and xf = xf and open_xfer = open_xfer and delay = False, OF assms(1-4) refl ds]
  obtain pp pipes where
    st: "parasite_dump_pages_seized_inner D xf open_xfer False (?args\<lparr>add_prot := PROT_READ\<rparr>) vmas
           = dump_step3 D xf open_xfer False pp pipes"
    and pp: "pp_wf pp" "pp_ordered pp" "pp_small pp" "pp_pages pp = dec_pages ds" "pp_hole_pages pp = dec_holes ds"
      "pipes_hold (de_mem D) 0 (pp_segs pp) pipes"
    by blast
  have mem: "\<And>a. length (de_mem D a) = PAGE_SIZE" using assms(1) by (simp add: dump_live_def)
  from opn obtain x where x: "open_xfer pipes = (0, x)" "inv x" "view x = ([], [])" "pipe x = pipes" by blast
  from dump_pages_image [where mem = "de_mem D", OF pp(1,3) x(2,3) _ mem] pp(6) x(4) obtain pp' x1 where
    d: "page_xfer_dump_pages xf pp 0 x = Inr (0, pp', x1)" "inv x1" "view x1 = plan_image (de_mem D) (pp_plan pp)" by auto
  have s3: "dump_step3 D xf open_xfer False pp pipes = Inr (0, None, Some (xfer_close xf x1))"
    using x(1) d(1) assms(1) by (simp add: dump_step3_def dump_live_def)
  have m: "\<exists>q. mprotect_vmas (mprot ap) ap vs p = (0, q)" for ap vs p
    by (induction vs arbitrary: p) (simp_all add: mp)
  have cmd: "\<exists>q. mprotect_cmd D mprot ap vs p = (0, q)" for ap vs p
    using m [of ap vs p] assms(1) by (auto simp: mprotect_cmd_def dump_live_def)
  obtain pr1 where c1: "mprotect_cmd D mprot PROT_READ (pa_vmas ?args) pr = (0, pr1)" using cmd by blast
  obtain pr2 where c2: "mprotect_cmd D mprot 0 (pa_vmas ?args) pr1 = (0, pr2)" using cmd by blast
  have "parasite_dump_pages_seized D mprot xf open_xfer False vmas pr = Inr ((0, None, Some (xfer_close xf x1)), pr2)"
    by (simp add: parasite_dump_pages_seized_def prep_dump_pages_args_fit [OF assms(4)] c1 c2 st s3)
  with pp d show ?thesis by blast
qed

end

section \<open>Properties\<close>

definition CR_FD_PAGEMAP :: int where
  "CR_FD_PAGEMAP = 16"

text \<open>A page looked up in the image of a dump: what the scan decided for it.\<close>

lemma plan_image_decisions:
  assumes "pp_wf pp" "pp_ordered pp" "pp_small pp" "pp_pages pp = dec_pages ds" "pp_hole_pages pp = dec_holes ds"
    and "\<And>a. length (mem a) = PAGE_SIZE" "chain_ok ss" "ss \<noteq> [] \<or> dec_holes ds = []"
  shows "chain_ok (plan_image mem (pp_plan pp) # ss)
     \<and> (\<forall>(h, a) \<in> set ds. snap_page (plan_image mem (pp_plan pp) # ss) a = (if h then snap_page ss a else Some (mem a)))"
proof
  show "chain_ok (plan_image mem (pp_plan pp) # ss)"
    by (rule plan_image_chain [OF assms(1-3,7)]) (use no_hole_pages [OF assms(1)] assms(5,8) in auto)
  show "\<forall>(h, a) \<in> set ds. snap_page (plan_image mem (pp_plan pp) # ss) a = (if h then snap_page ss a else Some (mem a))"
  proof (clarify)
    fix h a
    assume d: "(h, a) \<in> set ds"
    show "snap_page (plan_image mem (pp_plan pp) # ss) a = (if h then snap_page ss a else Some (mem a))"
    proof (cases h)
      case True
      with d have "a \<in> set (pp_hole_pages pp)" unfolding assms(5) dec_holes_def by force
      with plan_image_hole [OF assms(1-3)] True show ?thesis by simp
    next
      case False
      with d have "a \<in> set (pp_pages pp)" unfolding assms(4) dec_pages_def by force
      with plan_image_page [where mem = mem, OF assms(1-3,6)] False show ?thesis by simp
    qed
  qed
qed

lemma decide_no_holes: "dec_holes (decide_all False pme vmas) = []"
  by (simp add: decide_all_def decide_def dec_holes_def filter_concat o_def filter_map)

lemma dump_local_ok:
  assumes "dump_live D" "parent_ok D so es (vm_h vmas)" "vmas_ok (vm_h vmas)" "args_fit D vmas"
    and "ds = decide_all (so \<noteq> None) (pme_of (de_pagemap D)) (vm_h vmas)" "length (dec_pages ds) \<le> priv_size vmas div 2"
    and "length (dec_holes ds) < 2 ^ 20" "\<forall>d \<in> set ds. snd d < 2 ^ 64"
    and "\<forall>n. pb_ok E n" "\<forall>n len. splice_ret E n len = int len" "\<forall>k. open_pm E k \<and> open_pg E k" "\<not> auto_dedup E"
    and "\<And>ap a p. mprot ap a p = 0" "chain_ok ss" "ss \<noteq> [] \<or> so = None"
  shows "\<exists>x pr' img. parasite_dump_pages_seized D mprot (loc_ops E)
         (\<lambda>pipes. open_page_local_xfer E CR_FD_PAGEMAP pid (lx\<lparr>lx_pipes := pipes\<rparr>)) False vmas pr = Inr ((0, None, Some x), pr')
     \<and> lx_disk x (CR_FD_PAGEMAP, pid) = Some img \<and> chain_ok (img # ss) \<and> set (concat (map pe_pages (fst img))) = snd ` set ds
     \<and> (\<forall>(h, a) \<in> set ds. snap_page (img # ss) a = (if h then snap_page ss a else Some (de_mem D a)))"
proof -
  let ?open = "\<lambda>pipes. open_page_local_xfer E CR_FD_PAGEMAP pid (lx\<lparr>lx_pipes := pipes\<rparr>)"
  have o: "\<And>pipes. \<exists>x. ?open pipes = (0, x) \<and> loc_ready_at E (CR_FD_PAGEMAP, pid) x \<and> loc_view x = ([], []) \<and> lx_pipes x = pipes"
    using open_page_local_xfer_ready [OF assms(9-12)] by fastforce
  from loc_live.dump_seized_live [where pr = pr and mprot = mprot, OF assms(1-4) o assms(5-8,13)] obtain x1 pr' pp where
    r: "parasite_dump_pages_seized D mprot (loc_ops E) ?open False vmas pr = Inr ((0, None, Some (xfer_close (loc_ops E) x1)), pr')"
    and rd: "loc_ready_at E (CR_FD_PAGEMAP, pid) x1" and v: "loc_view x1 = plan_image (de_mem D) (pp_plan pp)"
    and pp: "pp_wf pp" "pp_ordered pp" "pp_small pp" "pp_pages pp = dec_pages ds" "pp_hole_pages pp = dec_holes ds"
    by blast
  have mem: "\<And>a. length (de_mem D a) = PAGE_SIZE" using assms(1) by (simp add: dump_live_def)
  have "ss \<noteq> [] \<or> dec_holes ds = []" using assms(5,15) decide_no_holes by auto
  note lk = plan_image_decisions [where mem = "de_mem D", OF pp mem assms(14) this]
  have "set (dec_pages ds) \<union> set (dec_holes ds) = snd ` set ds" by (force simp: dec_pages_def dec_holes_def)
  with plan_image_pages [OF pp(1,3), of "de_mem D"] pp(4,5)
  have pg: "set (concat (map pe_pages (fst (plan_image (de_mem D) (pp_plan pp))))) = snd ` set ds" by simp
  have "lx_disk x1 (CR_FD_PAGEMAP, pid) = Some (plan_image (de_mem D) (pp_plan pp))"
    using rd v by (auto simp: loc_ready_at_def loc_ready_def loc_open_def loc_view_def)
  with r lk pg show ?thesis by (intro exI [of _ x1] exI [of _ pr'] exI [of _ "plan_image (de_mem D) (pp_plan pp)"]) (simp add: loc_ops_def del: set_concat)
qed

text \<open>C2: Dumping a task into local images. Let the calls to the kernel and the parasite succeed, without
  auto-dedup; let the areas be sorted and page aligned, with 64-bit addresses, and small enough for the
  arguments of the parasite's commands to stay below 2 GiB each (private memory below about 1 TiB). Let
  no more pages be dumped than half of the private pages, which is what the iovec array is sized for,
  fewer than \<open>2 ^ 20\<close> pages be clean, and every page the kernel reports clean be in the parent's
  pagemap. Then the dump returns 0, and the image it leaves gives back, on top of a parent chain of sorted
  pagemaps with entries below \<open>2 ^ 20\<close> pages (empty only without a parent snapshot), the task's memory
  for every page the scan chose to dump and the parent's contents for every clean page.\<close>

theorem dump_task_local:
  assumes "dump_live D" "parent_ok D so es (vm_h vmas)" "vmas_ok (vm_h vmas)" "args_fit D vmas"
    and "ds = decide_all (so \<noteq> None) (pme_of (de_pagemap D)) (vm_h vmas)" "length (dec_pages ds) \<le> priv_size vmas div 2"
    and "length (dec_holes ds) < 2 ^ 20" "\<forall>d \<in> set ds. snd d < 2 ^ 64"
    and "\<forall>n. pb_ok E n" "\<forall>n len. splice_ret E n len = int len" "\<forall>k. open_pm E k \<and> open_pg E k" "\<not> auto_dedup E"
    and "\<And>ap a p. mprot ap a p = 0" "chain_ok ss" "ss \<noteq> [] \<or> so = None"
  shows "\<exists>x pr' img. parasite_dump_pages_seized D mprot (loc_ops E)
         (\<lambda>pipes. open_page_local_xfer E CR_FD_PAGEMAP pid (lx\<lparr>lx_pipes := pipes\<rparr>)) False vmas pr = Inr ((0, None, Some x), pr')
     \<and> lx_disk x (CR_FD_PAGEMAP, pid) = Some img \<and> chain_ok (img # ss)
     \<and> (\<forall>(h, a) \<in> set ds. snap_page (img # ss) a = (if h then snap_page ss a else Some (de_mem D a)))"
  using dump_local_ok [where mprot = mprot and lx = lx and pid = pid and pr = pr, OF assms] by blast

text \<open>A task with one readable area of four pages, of which the last two are mapped to pages:
  page 3 was written since the last snapshot, page 4 is clean and in the parent.\<close>

definition ex_vma :: vma_area where
  "ex_vma = \<lparr>vma_start = 4096, vma_end = 20480, vma_prot = 3, vma_status = VMA_AREA_REGULAR OR VMA_ANON_PRIVATE\<rparr>"

definition ex_vmas :: vm_area_list where
  "ex_vmas = add_vma_area ex_vma \<lparr>vm_h = [], vm_nr = 0, priv_size = 0, longest = 0\<rparr>"

definition ex_pme :: "nat \<Rightarrow> u64" where
  "ex_pme n = (if n = 2 then PME_PRESENT OR PME_SOFT_DIRTY else if n = 3 then PME_PRESENT else 0)"

definition ex_denv :: dump_env where
  "ex_denv = \<lparr>de_snap = \<lparr>parent_fd = True, parent_pm = Img (True, map Some (fst ex_parent)), ctx_malloc = True,
       iovs_malloc = True, iovs_realloc = (\<lambda>_. True), snap_junk = \<lparr>iov_base = 0, iov_len = 0\<rparr>\<rparr>,
     de_map_malloc = True, de_open_pagemap = 3, de_pagemap = \<lparr>pme_of = ex_pme, pagemap_io = (\<lambda>_. True)\<rparr>,
     de_pipe = ex_pipe_env, de_iov_junk = \<lparr>iov_base = 0, iov_len = 0\<rparr>, de_exec = (\<lambda>_. 0), de_send_fd = (\<lambda>_. 0),
     de_ack = (\<lambda>_. True), de_vmsplice = (\<lambda>_ n. int n), de_mem = ex_mem, de_track_mem = True, de_has_dirty_track = True,
     de_clear_refs = (True, 2), de_mprot_cmd = (\<lambda>_. True), de_nr_fds = Some 5, de_timer_n = 2\<rparr>"

lemma ex_vma_priv: "privately_dump_vma ex_vma" "vma_area_len ex_vma = 16384" "vma_start ex_vma = 4096"
  by (simp_all add: privately_dump_vma_def ex_vma_def vma_entry_is_def vma_area_len_def VMA_AREA_REGULAR_def VMA_FILE_SHARED_def
      VMA_AREA_SYSVIPC_def VMA_ANON_SHARED_def VMA_ANON_PRIVATE_def VMA_FILE_PRIVATE_def TASK_SIZE_def PAGE_SIZE_def)

lemma ex_should_dump:
  "should_dump_page ex_vma (ex_pme n) \<longleftrightarrow> n = 2 \<or> n = 3" "clean (ex_pme n) \<longleftrightarrow> n \<noteq> 2"
  by (simp_all add: should_dump_page_def ex_vma_def vma_entry_is_def ex_pme_def clean_def VMA_AREA_VDSO_def VMA_AREA_REGULAR_def
      VMA_ANON_PRIVATE_def VMA_FILE_PRIVATE_def PME_PRESENT_def PME_SWAP_def PME_FILE_def PME_SOFT_DIRTY_def)

lemma ex_decide:
  "decide_all True ex_pme (vm_h ex_vmas) = [(False, 8192), (True, 12288)]"
  by (simp add: decide_all_def decide_def ex_vmas_def add_vma_area_def ex_vma_priv vma_pfns_def vma_pme_def vma_page_def
      PAGE_SIZE_def upt_conv_Cons ex_should_dump Let_def)

lemma ex_vmas_facts: "vm_h ex_vmas = [ex_vma]" "vm_nr ex_vmas = 1" "priv_size ex_vmas = 4" "vmas_ok (vm_h ex_vmas)"
  by (simp_all add: ex_vmas_def add_vma_area_def ex_vma_priv vmas_ok_def Let_def) (simp_all add: ex_vma_def PAGE_SIZE_def)

lemma ex_args_fit: "args_fit ex_denv ex_vmas"
  by (simp add: args_fit_def ex_vmas_facts ex_denv_def)

lemma ex_dump_live: "dump_live ex_denv"
  using ex_pipe_env_ok
  by (simp add: dump_live_def ex_denv_def task_reset_dirty_track_def do_task_reset_dirty_track_def ex_mem_def)
     (simp add: ex_pipe_env_def)

lemma ex_parent_ok: "\<exists>sn. parent_ok ex_denv (Some sn) (fst ex_parent) (vm_h ex_vmas)"
proof -
  obtain sn where "mem_snap_init (de_snap ex_denv) = Inr (Some sn)" "snap_ok (fst ex_parent) (Some sn) 0"
    using mem_snap_init_ok [of "de_snap ex_denv" "fst ex_parent"] by (auto simp: ex_denv_def)
  moreover have "pm_wf (fst ex_parent)" "covered (fst ex_parent) 12288"
    by (simp_all add: ex_parent_def pe_small_def covered_def pe_end_def PAGE_SIZE_def)
  moreover have "pme_of (de_pagemap ex_denv) = ex_pme" by (simp add: ex_denv_def)
  ultimately show ?thesis by (auto simp: parent_ok_def ex_decide)
qed

theorem dump_task_local_witness:
  "\<exists>x pr' img. parasite_dump_pages_seized ex_denv (\<lambda>_ _ _. 0) (loc_ops ex_xenv)
         (\<lambda>pipes. open_page_local_xfer ex_xenv CR_FD_PAGEMAP 1 (ex_lx\<lparr>lx_pipes := pipes\<rparr>)) False ex_vmas (\<lambda>_. 3)
         = Inr ((0, None, Some x), pr')
     \<and> lx_disk x (CR_FD_PAGEMAP, 1) = Some img \<and> snap_page [img, ex_parent] 8192 = Some (ex_mem 8192)
     \<and> snap_page [img, ex_parent] 12288 = snap_page [ex_parent] 12288"
proof -
  from ex_parent_ok obtain sn where par: "parent_ok ex_denv (Some sn) (fst ex_parent) (vm_h ex_vmas)" by blast
  have pm: "pme_of (de_pagemap ex_denv) = ex_pme" by (simp add: ex_denv_def)
  have ds: "[(False, 8192), (True, 12288)] = decide_all (Some sn \<noteq> None) (pme_of (de_pagemap ex_denv)) (vm_h ex_vmas)"
    by (simp add: pm ex_decide)
  have b: "length (dec_pages [(False, 8192), (True, 12288 :: nat)]) \<le> priv_size ex_vmas div 2"
      "length (dec_holes [(False, 8192), (True, 12288 :: nat)]) < 2 ^ 20" "\<forall>d \<in> set [(False, 8192), (True, 12288 :: nat)]. snd d < 2 ^ 64"
      "args_fit ex_denv ex_vmas" "\<And>ap a p. (\<lambda>_ _ _. 0 :: int) ap a p = 0"
    using ex_args_fit by (simp_all add: ex_vmas_facts)
  have e: "\<forall>n. pb_ok ex_xenv n" "\<forall>n len. splice_ret ex_xenv n len = int len" "\<forall>k. open_pm ex_xenv k \<and> open_pg ex_xenv k"
      "\<not> auto_dedup ex_xenv" "chain_ok [ex_parent]" "[ex_parent] \<noteq> [] \<or> Some sn = None"
    by (simp_all add: ex_xenv_def ex_parent_def pe_small_def pe_end_def PAGE_SIZE_def)
  from dump_task_local [where mprot = "\<lambda>_ _ _. 0" and lx = ex_lx and pid = 1 and pr = "\<lambda>_. 3",
      OF ex_dump_live par ex_vmas_facts(4) b(4) ds b(1-3) e(1-4) b(5) e(5,6)]
  show ?thesis by (auto simp: ex_denv_def)
qed

text \<open>C3: The same for a dump to a page server, under the same bounds: areas sorted and page aligned, with
  arguments of the parasite's commands below 2 GiB, no more pages dumped than half of the private pages,
  fewer than \<open>2 ^ 20\<close> clean pages, each in the parent's pagemap; no failing call on either side, no auto-dedup on the
  server, a pid below \<open>2 ^ 55\<close>. The dump returns 0. The server, fed with exactly the bytes the client
  wrote and with more fuel than there are bytes, ends the session with success, sends back one
  status word, 0, and holds, for the task, an image with the same lookups. The client, which reads the
  status word that this server sends, disconnects with 0.\<close>

theorem dump_task_remote:
  assumes "dump_live D" "parent_ok D so es (vm_h vmas)" "vmas_ok (vm_h vmas)" "args_fit D vmas"
    and "ds = decide_all (so \<noteq> None) (pme_of (de_pagemap D)) (vm_h vmas)" "length (dec_pages ds) \<le> priv_size vmas div 2"
    and "length (dec_holes ds) < 2 ^ 20" "\<forall>d \<in> set ds. snd d < 2 ^ 64"
    and "cl_healthy C" "srv_healthy S" "cl_conn cl" "cl_sk cl = []" "0 \<le> pid" "pid < 2 ^ 55"
    and "s_dst s = NO_DST" "lx_pipes (s_loc s) 0 = []"
    and "\<And>ap a p. mprot ap a p = 0" "chain_ok ss" "ss \<noteq> [] \<or> so = None"
  shows "\<exists>x pr' x3. parasite_dump_pages_seized D mprot (srv_ops C)
         (\<lambda>pipes. open_page_server_xfer C CR_FD_PAGEMAP pid (cl\<lparr>cl_pipes := pipes\<rparr>)) False vmas pr = Inr ((0, None, Some x), pr')
     \<and> (\<forall>n > length (cl_sk x3). disconnect_from_page_server C True (server_answer S n s) x = (0, x3)
          \<and> (\<exists>s' img. page_server_serve S n (s\<lparr>s_in := cl_sk x3\<rparr>) = Inr (0, s') \<and> s_out s' = s_out s @ [0]
            \<and> lx_disk (s_loc s') (CR_FD_PAGEMAP, pid) = Some img \<and> chain_ok (img # ss)
            \<and> (\<forall>(h, a) \<in> set ds. snap_page (img # ss) a = (if h then snap_page ss a else Some (de_mem D a)))))"
proof -
  let ?open = "\<lambda>pipes. open_page_server_xfer C CR_FD_PAGEMAP pid (cl\<lparr>cl_pipes := pipes\<rparr>)"
  let ?d = "encode_pm_id CR_FD_PAGEMAP pid"
  have ty: "0 \<le> CR_FD_PAGEMAP" "CR_FD_PAGEMAP < 255" by (simp_all add: CR_FD_PAGEMAP_def)
  have o: "\<exists>x. ?open pipes = (0, x) \<and> cl_ready_at C ?d x \<and> cl_view x = ([], []) \<and> cl_pipes x = pipes" for pipes
    using open_page_server_xfer_ready [OF assms(9) ty assms(13,14), of "cl\<lparr>cl_pipes := pipes\<rparr>"] assms(11,12)
    by (cases "?open pipes") simp
  from srv.dump_seized_live [where pr = pr and mprot = mprot, OF assms(1-4) o assms(5-8,17)] obtain x1 pr' pp where
    r: "parasite_dump_pages_seized D mprot (srv_ops C) ?open False vmas pr = Inr ((0, None, Some (close_server_xfer x1)), pr')"
    and rd: "cl_ready_at C ?d x1" and v: "cl_view x1 = plan_image (de_mem D) (pp_plan pp)"
    and pp: "pp_wf pp" "pp_ordered pp" "pp_small pp" "pp_pages pp = dec_pages ds" "pp_hole_pages pp = dec_holes ds"
    by (auto simp: srv_ops_def)
  have key: "key_of ?d = (CR_FD_PAGEMAP, pid)"
    using decode_encode_pm_id [of CR_FD_PAGEMAP pid] assms(13,14) by (simp add: key_of_def CR_FD_PAGEMAP_def)
  let ?img = "plan_image (de_mem D) (pp_plan pp)"
  from flush_and_serve [OF rd assms(10,15,16)] obtain x3 where
    sv: "\<forall>n > length (cl_sk x3). disconnect_from_page_server C True (server_answer S n s) (close_server_xfer x1) = (0, x3)
      \<and> (\<exists>s'. page_server_serve S n (s\<lparr>s_in := cl_sk x3\<rparr>) = Inr (0, s') \<and> s_out s' = s_out s @ [0]
          \<and> lx_disk (s_loc s') (CR_FD_PAGEMAP, pid) = Some ?img)"
    unfolding v key by blast
  have mem: "\<And>a. length (de_mem D a) = PAGE_SIZE" using assms(1) by (simp add: dump_live_def)
  have "ss \<noteq> [] \<or> dec_holes ds = []" using assms(5,19) decide_no_holes by auto
  note lk = plan_image_decisions [where mem = "de_mem D", OF pp mem assms(18) this]
  show ?thesis
    by (rule exI [of _ "close_server_xfer x1"], rule exI [of _ pr'], rule exI [of _ x3]) (use r sv lk in blast)
qed

theorem dump_task_remote_witness:
  "\<exists>x pr' x3 n s' img. parasite_dump_pages_seized ex_denv (\<lambda>_ _ _. 0) (srv_ops ex_cl_env)
         (\<lambda>pipes. open_page_server_xfer ex_cl_env CR_FD_PAGEMAP 1 (ex_cl\<lparr>cl_pipes := pipes\<rparr>)) False ex_vmas (\<lambda>_. 3)
         = Inr ((0, None, Some x), pr')
     \<and> disconnect_from_page_server ex_cl_env True (server_answer ex_srv_env n ex_srv) x = (0, x3)
     \<and> page_server_serve ex_srv_env n (ex_srv\<lparr>s_in := cl_sk x3\<rparr>) = Inr (0, s') \<and> s_out s' = [0]
     \<and> lx_disk (s_loc s') (CR_FD_PAGEMAP, 1) = Some img \<and> snap_page [img, ex_parent] 8192 = Some (ex_mem 8192)"
proof -
  from ex_parent_ok obtain sn where par: "parent_ok ex_denv (Some sn) (fst ex_parent) (vm_h ex_vmas)" by blast
  let ?ds = "[(False, 8192), (True, 12288 :: nat)]"
  have ds: "?ds = decide_all (Some sn \<noteq> None) (pme_of (de_pagemap ex_denv)) (vm_h ex_vmas)"
    by (simp add: ex_denv_def ex_decide)
  have b: "length (dec_pages ?ds) \<le> priv_size ex_vmas div 2" "length (dec_holes ?ds) < 2 ^ 20" "\<forall>d \<in> set ?ds. snd d < 2 ^ 64"
      "args_fit ex_denv ex_vmas" "\<And>ap a p. (\<lambda>_ _ _. 0 :: int) ap a p = 0" "chain_ok [ex_parent]"
      "[ex_parent] \<noteq> [] \<or> Some sn = None" "(0 :: int) \<le> 1" "(1 :: int) < 2 ^ 55"
      "cl_conn ex_cl" "cl_sk ex_cl = []" "s_dst ex_srv = NO_DST" "lx_pipes (s_loc ex_srv) 0 = []"
    using ex_args_fit by (simp_all add: ex_vmas_facts ex_parent_def pe_small_def pe_end_def PAGE_SIZE_def ex_cl_def ex_srv_def)
  from dump_task_remote [where mprot = "\<lambda>_ _ _. 0" and pr = "\<lambda>_. 3",
      OF ex_dump_live par ex_vmas_facts(4) b(4) ds b(1-3) ex_healthy b(10,11,8,9,12,13,5-7)]
  obtain x pr' x3 where r: "parasite_dump_pages_seized ex_denv (\<lambda>_ _ _. 0) (srv_ops ex_cl_env)
         (\<lambda>pipes. open_page_server_xfer ex_cl_env CR_FD_PAGEMAP 1 (ex_cl\<lparr>cl_pipes := pipes\<rparr>)) False ex_vmas (\<lambda>_. 3)
         = Inr ((0, None, Some x), pr')"
    and n: "\<forall>n > length (cl_sk x3). disconnect_from_page_server ex_cl_env True (server_answer ex_srv_env n ex_srv) x = (0, x3)
       \<and> (\<exists>s' img. page_server_serve ex_srv_env n (ex_srv\<lparr>s_in := cl_sk x3\<rparr>) = Inr (0, s') \<and> s_out s' = s_out ex_srv @ [0]
          \<and> lx_disk (s_loc s') (CR_FD_PAGEMAP, 1) = Some img \<and> chain_ok (img # [ex_parent])
          \<and> (\<forall>(h, a) \<in> set ?ds. snap_page (img # [ex_parent]) a = (if h then snap_page [ex_parent] a else Some (de_mem ex_denv a))))"
    by blast
  have "s_out ex_srv = []" by (simp add: ex_srv_def)
  with n [rule_format, OF lessI] obtain s' img where
    "disconnect_from_page_server ex_cl_env True (server_answer ex_srv_env (Suc (length (cl_sk x3))) ex_srv) x = (0, x3)"
    "page_server_serve ex_srv_env (Suc (length (cl_sk x3))) (ex_srv\<lparr>s_in := cl_sk x3\<rparr>) = Inr (0, s')" "s_out s' = [0]"
    "lx_disk (s_loc s') (CR_FD_PAGEMAP, 1) = Some img" "snap_page [img, ex_parent] 8192 = Some (ex_mem 8192)"
    by (auto simp: ex_denv_def)
  with r show ?thesis by blast
qed

text \<open>The protections after the two commands that surround a dump.\<close>

lemma mprotect_vmas_prots:
  assumes "mprotect_vmas mp ap vs pr = (0, pr')"
  shows "pr' a = pr a \<and> (\<forall>v \<in> set vs. pv_start v \<noteq> a) \<or> (\<exists>v \<in> set vs. pv_start v = a \<and> pr' a = pv_prot v OR ap)"
  using assms
proof (induction vs arbitrary: pr)
  case (Cons v vs)
  from Cons.prems have "mprotect_vmas mp ap vs (pr(pv_start v := pv_prot v OR ap)) = (0, pr')"
    by (simp add: Let_def split: if_splits)
  from Cons.IH [OF this] show ?case by (auto split: if_splits)
qed simp

text \<open>C17: The dump gives the task its memory protections back: when the commands that change
  protections succeed, then after the dump, whether it could transfer the pages or failed
  on the way, every area has the protection it started with.\<close>

theorem dump_restores_protection:
  assumes "parasite_dump_pages_seized D mprot xf open_xfer delay vmas pr = Inr ((ret, q, x), pr')"
    and "\<forall>ap. de_mprot_cmd D ap" "\<And>ap a p. mprot ap a p = 0"
    and "\<forall>v \<in> set (vm_h vmas). pr (vma_start v) = vma_prot v"
  shows "pr' = pr"
proof
  fix a
  let ?vs = "pa_vmas (dump_args_of vmas)"
  have m: "\<exists>p'. mprotect_vmas (mprot ap) ap ?vs p = (0, p') \<and> mprotect_cmd D mprot ap ?vs p = (0, p')" for ap p
  proof -
    have "\<exists>p'. mprotect_vmas (mprot ap) ap vs p = (0, p')" for vs
      by (induction vs arbitrary: p) (simp_all add: assms(3))
    then show ?thesis using assms(2) by (fastforce simp: mprotect_cmd_def)
  qed
  obtain pr1 where c1: "mprotect_vmas (mprot PROT_READ) PROT_READ ?vs pr = (0, pr1)" "mprotect_cmd D mprot PROT_READ ?vs pr = (0, pr1)"
    using m by blast
  obtain pr2 where c2: "mprotect_vmas (mprot 0) 0 ?vs pr1 = (0, pr2)" "mprotect_cmd D mprot 0 ?vs pr1 = (0, pr2)"
    using m by blast
  have "prep_dump_pages_args (ctl_args_size D vmas) vmas = Inr (dump_args_of vmas)"
    using assms(1) by (auto simp: parasite_dump_pages_seized_def bindF_eq_Inr prep_dump_pages_args_def split: if_splits)
  then have "pr' = pr2" using assms(1) c1(2) c2(2) by (auto simp: parasite_dump_pages_seized_def bindF_eq_Inr)
  moreover have "pv_prot v = pr (pv_start v)" if "v \<in> set ?vs" for v
    using that assms(4) by (auto simp: dump_args_of_def)
  ultimately show "pr' a = pr a"
    using mprotect_vmas_prots [OF c1(1), of a] mprotect_vmas_prots [OF c2(1), of a] by auto
qed

text \<open>An area without read permission, and a dump of it that fails for want of memory.\<close>

theorem dump_restores_protection_witness:
  "\<exists>pr'. parasite_dump_pages_seized (ex_denv\<lparr>de_map_malloc := False\<rparr>) (\<lambda>_ _ _. 0) (loc_ops ex_xenv) (\<lambda>pipes. (0, ex_lx)) False
       (add_vma_area (ex_vma\<lparr>vma_prot := 0\<rparr>) \<lparr>vm_h = [], vm_nr = 0, priv_size = 0, longest = 0\<rparr>) (\<lambda>_. 0)
       = Inr ((-1, None, None), pr') \<and> pr' = (\<lambda>_. 0)"
proof -
  let ?D = "ex_denv\<lparr>de_map_malloc := False\<rparr>"
  let ?vs = "add_vma_area (ex_vma\<lparr>vma_prot := 0\<rparr>) \<lparr>vm_h = [], vm_nr = 0, priv_size = 0, longest = 0\<rparr>"
  have s: "\<exists>sn. mem_snap_init (de_snap ?D) = Inr (Some sn)" using ex_parent_ok by (auto simp: parent_ok_def)
  have c: "\<exists>q. mprotect_cmd ?D (\<lambda>_ _ _. 0) ap vs p = (0, q)" for ap vs p
  proof -
    have "\<exists>q. mprotect_vmas (\<lambda>_ _. 0) ap vs p = (0, q)" by (induction vs arbitrary: p) simp_all
    then show ?thesis by (auto simp: mprotect_cmd_def ex_denv_def)
  qed
  have "args_fit ?D ?vs"
    using ex_vma_priv by (simp add: args_fit_def ex_denv_def add_vma_area_def Let_def vma_area_len_def PAGE_SIZE_def)
  note p = prep_dump_pages_args_fit [OF this]
  have "parasite_dump_pages_seized_inner ?D (loc_ops ex_xenv) (\<lambda>pipes. (0, ex_lx)) False args ?vs = Inr (-1, None, None)" for args
    using s by (auto simp: parasite_dump_pages_seized_inner_def)
  moreover obtain pr1 where c1: "mprotect_cmd ?D (\<lambda>_ _ _. 0) PROT_READ (pa_vmas (dump_args_of ?vs)) (\<lambda>_. 0) = (0, pr1)"
    using c by blast
  moreover obtain pr' where "mprotect_cmd ?D (\<lambda>_ _ _. 0) 0 (pa_vmas (dump_args_of ?vs)) pr1 = (0, pr')"
    using c by blast
  ultimately have r: "parasite_dump_pages_seized ?D (\<lambda>_ _ _. 0) (loc_ops ex_xenv) (\<lambda>pipes. (0, ex_lx)) False ?vs (\<lambda>_. 0)
      = Inr ((-1, None, None), pr')"
    unfolding parasite_dump_pages_seized_def p by simp
  have "\<forall>ap. de_mprot_cmd ?D ap" "\<forall>v \<in> set (vm_h ?vs). (\<lambda>_. 0) (vma_start v) = vma_prot v"
    by (simp_all add: ex_denv_def add_vma_area_def Let_def)
  from dump_restores_protection [OF r this(1) _ this(2)] r show ?thesis by simp
qed

lemma xfer_plan_Nil: "xfer_plan off ss hs = [] \<longleftrightarrow> ss = [] \<and> hs = []"
  by (cases ss) auto

lemma run_plan_unwritable:
  assumes "\<forall>n. \<not> pb_ok E n" "\<not> auto_dedup E" "es \<noteq> []"
  shows "\<exists>x'. run_plan (loc_ops E) es x = Inr (-1, x') \<and> lx_disk x' = lx_disk x"
proof (cases es)
  case (Cons e es')
  then show ?thesis using assms
    by (cases e) (simp_all add: write_seg_def write_pagemap_loc_def write_pagehole_loc_def pb_write_pe_def Let_def)
qed (use assms in simp)

text \<open>C19: An error of the transfer is lost. Take a task with something to dump, whose dump would succeed: the
  bounds are those of a local dump (arguments of the parasite's commands below 2 GiB, no more
  pages to dump than half of the private pages, fewer than \<open>2 ^ 20\<close> clean pages) and the calls to the kernel and the parasite
  succeed. When not a single record can be written to the pagemap
  image, the dump still returns 0, and the image of the task is left empty.\<close>

theorem dump_loses_transfer_error:
  assumes "dump_live D" "parent_ok D so es (vm_h vmas)" "vmas_ok (vm_h vmas)" "args_fit D vmas"
    and "ds = decide_all (so \<noteq> None) (pme_of (de_pagemap D)) (vm_h vmas)" "length (dec_pages ds) \<le> priv_size vmas div 2"
    and "length (dec_holes ds) < 2 ^ 20" "\<forall>d \<in> set ds. snd d < 2 ^ 64" "ds \<noteq> []"
    and "\<forall>n. \<not> pb_ok E n" "\<forall>k. open_pm E k \<and> open_pg E k" "\<not> auto_dedup E"
  shows "\<exists>args x. prep_dump_pages_args (ctl_args_size D vmas) vmas = Inr args
     \<and> parasite_dump_pages_seized_inner D (loc_ops E)
         (\<lambda>pipes. open_page_local_xfer E CR_FD_PAGEMAP pid (lx\<lparr>lx_pipes := pipes\<rparr>)) False (args\<lparr>add_prot := ap\<rparr>) vmas
         = Inr (0, None, Some x)
     \<and> lx_disk x (CR_FD_PAGEMAP, pid) = Some ([], [])"
proof -
  let ?open = "\<lambda>pipes. open_page_local_xfer E CR_FD_PAGEMAP pid (lx\<lparr>lx_pipes := pipes\<rparr>)"
  from dump_reaches_transfer [where ap = ap and xf = "loc_ops E" and open_xfer = ?open and delay = False, OF assms(1-4) refl assms(5-8)]
  obtain pp pipes where st: "parasite_dump_pages_seized_inner D (loc_ops E) ?open False (dump_args_of vmas\<lparr>add_prot := ap\<rparr>) vmas
        = dump_step3 D (loc_ops E) ?open False pp pipes"
    and pp: "pp_wf pp" "pp_pages pp = dec_pages ds" "pp_hole_pages pp = dec_holes ds" by blast
  obtain d ds' where "ds = d # ds'" using assms(9) by (cases ds) auto
  then have "dec_pages ds \<noteq> [] \<or> dec_holes ds \<noteq> []" by simp
  moreover have "pp_pages pp = []" if "pp_segs pp = []"
    using that unfolding pp_pages_def map_snd_pp_segs [OF pp(1), symmetric] by simp
  moreover have "pp_hole_pages pp = []" if "take (free_hole pp) (holes pp) = []"
    unfolding pp_hole_pages_def that by simp
  moreover have "pp_segs pp = []" "take (free_hole pp) (holes pp) = []" if "pp_plan pp = []"
    using that unfolding pp_plan_def xfer_plan_Nil by blast+
  ultimately have ne: "pp_plan pp \<noteq> []" using pp(2,3) by auto
  obtain x where x: "?open pipes = (0, x)" "lx_disk x (CR_FD_PAGEMAP, pid) = Some ([], [])"
    using assms(11,12) by (auto simp: open_page_local_xfer_def Let_def)
  from run_plan_unwritable [OF assms(10,12) ne] obtain x1 where
    "run_plan (loc_ops E) (pp_plan pp) x = Inr (-1, x1)" and dk: "lx_disk x1 = lx_disk x" by blast
  then have "map_sum id (\<lambda>(r, pp', x'). (r, x')) (page_xfer_dump_pages (loc_ops E) pp 0 x) = Inr (-1, x1)"
    using page_xfer_dump_pages_plan [OF pp(1), of 0 "loc_ops E" x] by (simp add: pp_plan_def)
  then obtain pp' where "page_xfer_dump_pages (loc_ops E) pp 0 x = Inr (-1, pp', x1)"
    by (cases "page_xfer_dump_pages (loc_ops E) pp 0 x") auto
  then have "dump_step3 D (loc_ops E) ?open False pp pipes = Inr (0, None, Some x1)"
    using x(1) assms(1) by (simp add: dump_step3_def dump_live_def loc_ops_def)
  with st dk x(2) prep_dump_pages_args_fit [OF assms(4)] show ?thesis by simp
qed

theorem dump_loses_transfer_error_witness:
  "\<exists>args x. prep_dump_pages_args (ctl_args_size ex_denv ex_vmas) ex_vmas = Inr args
     \<and> parasite_dump_pages_seized_inner ex_denv (loc_ops (ex_xenv\<lparr>pb_ok := \<lambda>_. False\<rparr>))
         (\<lambda>pipes. open_page_local_xfer (ex_xenv\<lparr>pb_ok := \<lambda>_. False\<rparr>) CR_FD_PAGEMAP 1 (ex_lx\<lparr>lx_pipes := pipes\<rparr>)) False
         (args\<lparr>add_prot := 1\<rparr>) ex_vmas = Inr (0, None, Some x)
     \<and> lx_disk x (CR_FD_PAGEMAP, 1) = Some ([], [])"
proof -
  from ex_parent_ok obtain sn where par: "parent_ok ex_denv (Some sn) (fst ex_parent) (vm_h ex_vmas)" by blast
  let ?ds = "[(False, 8192), (True, 12288 :: nat)]"
  have ds: "?ds = decide_all (Some sn \<noteq> None) (pme_of (de_pagemap ex_denv)) (vm_h ex_vmas)"
    by (simp add: ex_denv_def ex_decide)
  have b: "length (dec_pages ?ds) \<le> priv_size ex_vmas div 2" "length (dec_holes ?ds) < 2 ^ 20" "\<forall>d \<in> set ?ds. snd d < 2 ^ 64"
      "?ds \<noteq> []" "args_fit ex_denv ex_vmas" "\<forall>n. \<not> pb_ok (ex_xenv\<lparr>pb_ok := \<lambda>_. False\<rparr>) n"
      "\<forall>k. open_pm (ex_xenv\<lparr>pb_ok := \<lambda>_. False\<rparr>) k \<and> open_pg (ex_xenv\<lparr>pb_ok := \<lambda>_. False\<rparr>) k"
      "\<not> auto_dedup (ex_xenv\<lparr>pb_ok := \<lambda>_. False\<rparr>)"
    using ex_args_fit by (simp_all add: ex_vmas_facts ex_xenv_def)
  from dump_loses_transfer_error [OF ex_dump_live par ex_vmas_facts(4) b(5) ds b(1-4,6-8)] show ?thesis .
qed

lemma single_page_inner_aborts:
  assumes "dump_live D" "mem_snap_init (de_snap D) = Inr None" "privately_dump_vma v" "vma_area_len v = PAGE_SIZE"
    and "should_dump_page v (pme_of (de_pagemap D) (vma_start v div PAGE_SIZE))"
  defines "vs \<equiv> add_vma_area v \<lparr>vm_h = [], vm_nr = 0, priv_size = 0, longest = 0\<rparr>"
  assumes "60 \<le> ctl_args_size D vs"
  shows "parasite_dump_pages_seized_inner D xf open_xfer False (dump_args_of vs\<lparr>add_prot := ap\<rparr>) vs = Inl BUG"
proof -
  let ?args = "dump_args_of vs\<lparr>add_prot := ap\<rparr>"
  have vs: "vm_h vs = [v]" "vm_nr vs = 1" "priv_size vs = 1"
    using assms(3,4) by (simp_all add: vs_def add_vma_area_def Let_def)
  have "length (pa_vmas ?args) \<le> 1" using vs(1) by (simp add: dump_args_of_def)
  then have room: "0 < args_iov_room (ctl_args_size D vs) ?args" using assms(7) by (simp add: args_iov_room_def)
  let ?n = "getpipe_sz (de_pipe D) 0"
  have g: "1 \<le> ?n div int PAGE_SIZE" 
  proof -
    have "int PAGE_SIZE \<le> ?n" using assms(1) unfolding dump_live_def pipe_env_ok_def by blast
    then show ?thesis by (simp add: PAGE_SIZE_def)
  qed
  define pp where "pp = \<lparr>nr_pipes = 1, bufs = [\<lparr>ppb_p = 0, pipe_size = nat (?n div int PAGE_SIZE), pages_in = 0, nr_segs = 0, ppb_iov = 0\<rparr>],
     nr_iovs = 0, free_iov = 0, iovs = replicate (args_iov_room (ctl_args_size D vs) ?args) (de_iov_junk D), nr_holes = 0, free_hole = 0, holes = []\<rparr>"
  have c: "create_page_pipe (de_pipe D) 0 (replicate (args_iov_room (ctl_args_size D vs) ?args) (de_iov_junk D)) = Some pp"
    using assms(1) by (simp add: create_page_pipe_def page_pipe_grow_def dump_live_def Let_def pp_def)
  have "grow_pipe (de_pipe D) (bufs pp ! 0) = Inr (Some (bufs pp ! 0))" using g by (auto simp: grow_pipe_def pp_def)
  then have a: "page_pipe_add_page (de_pipe D) pp va = Inl BUG" for va
    using room by (simp add: page_pipe_add_page_def try_add_page_def try_add_page_to_def pp_def UIO_MAXIOV_def Let_def)
  have l: "[0..<vma_area_len v div PAGE_SIZE] = [0]" "pagemap_io (de_pagemap D) n" for n
    using assms(1,4) by (simp_all add: dump_live_def)
  have "gen_loop (de_pipe D) v (pme_of (de_pagemap D)) [0] pp None = Inl BUG"
    using assms(5) a by (simp add: Let_def)
  then have "generate_iovs (de_pipe D) v (de_pagemap D) pp None = Inl BUG" 
    unfolding generate_iovs_def l(1) by (simp only: l(2) simp_thms if_True if_False)
  then have "generate_all (de_pipe D) [v] (de_pagemap D) pp None = Inl BUG" using assms(3) by simp
  then show ?thesis
    using assms(1,2) vs c by (simp add: parasite_dump_pages_seized_inner_def dump_live_def not_less)
qed

text \<open>C20: The iovec array is sized for half of the pages of the private areas, counted over all of
  them, which is not the worst case the comment speaks of: dumping a task whose only
  private area is a single page runs into the array's end and aborts on the first page.\<close>

theorem single_page_area_aborts:
  assumes "dump_live D" "mem_snap_init (de_snap D) = Inr None" "\<And>ap a p. mprot ap a p = 0"
    and "privately_dump_vma v" "vma_area_len v = PAGE_SIZE"
    and "should_dump_page v (pme_of (de_pagemap D) (vma_start v div PAGE_SIZE))"
  shows "parasite_dump_pages_seized D mprot xf open_xfer False
     (add_vma_area v \<lparr>vm_h = [], vm_nr = 0, priv_size = 0, longest = 0\<rparr>) pr = Inl BUG"
proof -
  let ?vs = "add_vma_area v \<lparr>vm_h = [], vm_nr = 0, priv_size = 0, longest = 0\<rparr>"
  have vs: "vm_h ?vs = [v]" "vm_nr ?vs = 1" "priv_size ?vs = 1"
    using assms(4,5) by (simp_all add: add_vma_area_def Let_def)
  then have sz: "ulong_of_int (int_of_ulong (dump_pages_args_size ?vs)) = 60" "length (pa_vmas (dump_args_of ?vs)) \<le> 1"
    by (simp_all add: dump_pages_args_size_def ulong_of_int_small dump_args_of_def)
  show ?thesis
  proof (cases "ctl_args_size D ?vs < 60")
    case True
    then show ?thesis
      using sz(1) by (simp add: parasite_dump_pages_seized_def prep_dump_pages_args_def parasite_args_s_def)
  next
    case False
    then have p: "prep_dump_pages_args (ctl_args_size D ?vs) ?vs = Inr (dump_args_of ?vs)"
      using sz by (simp add: prep_dump_pages_args_def parasite_args_s_def)
    note i = single_page_inner_aborts [OF assms(1,2,4-6), of xf open_xfer PROT_READ]
    have "\<exists>q. mprotect_vmas (mprot ap) ap es p = (0, q)" for ap es p
      by (induction es arbitrary: p) (simp_all add: assms(3))
    moreover have "de_mprot_cmd D PROT_READ" using assms(1) by (simp add: dump_live_def)
    moreover obtain pr1 where "mprotect_vmas (mprot PROT_READ) PROT_READ (pa_vmas (dump_args_of ?vs)) pr = (0, pr1)"
      using calculation(1) by blast
    ultimately have "mprotect_cmd D mprot PROT_READ (pa_vmas (dump_args_of ?vs)) pr = (0, pr1)"
      by (simp add: mprotect_cmd_def)
    then show ?thesis
      using i False unfolding parasite_dump_pages_seized_def p by simp
  qed
qed

theorem single_page_area_aborts_witness:
  "parasite_dump_pages_seized (ex_denv\<lparr>de_snap := (de_snap ex_denv)\<lparr>parent_fd := False\<rparr>,
       de_pagemap := \<lparr>pme_of = (\<lambda>_. PME_PRESENT), pagemap_io = (\<lambda>_. True)\<rparr>\<rparr>) (\<lambda>_ _ _. 0) (loc_ops ex_xenv) (\<lambda>pipes. (0, ex_lx)) False
     (add_vma_area (ex_vma\<lparr>vma_end := 8192\<rparr>) \<lparr>vm_h = [], vm_nr = 0, priv_size = 0, longest = 0\<rparr>) (\<lambda>_. 3) = Inl BUG"
proof -
  let ?D = "ex_denv\<lparr>de_snap := (de_snap ex_denv)\<lparr>parent_fd := False\<rparr>, de_pagemap := \<lparr>pme_of = (\<lambda>_. PME_PRESENT), pagemap_io = (\<lambda>_. True)\<rparr>\<rparr>"
  have "dump_live ?D" using ex_pipe_env_ok
    by (simp add: dump_live_def ex_denv_def task_reset_dirty_track_def do_task_reset_dirty_track_def ex_mem_def)
       (simp add: ex_pipe_env_def)
  moreover have "mem_snap_init (de_snap ?D) = Inr None" by (simp add: mem_snap_init_def)
  moreover have "privately_dump_vma (ex_vma\<lparr>vma_end := 8192\<rparr>)" "vma_area_len (ex_vma\<lparr>vma_end := 8192\<rparr>) = PAGE_SIZE"
    using ex_vma_priv by (simp_all add: privately_dump_vma_def ex_vma_def vma_entry_is_def vma_area_len_def TASK_SIZE_def PAGE_SIZE_def split: if_splits)
  moreover have "should_dump_page (ex_vma\<lparr>vma_end := 8192\<rparr>) (pme_of (de_pagemap ?D) (vma_start (ex_vma\<lparr>vma_end := 8192\<rparr>) div PAGE_SIZE))"
    by (simp add: should_dump_page_def ex_vma_def vma_entry_is_def VMA_AREA_VDSO_def VMA_AREA_REGULAR_def
      VMA_ANON_PRIVATE_def VMA_FILE_PRIVATE_def PME_PRESENT_def PME_SWAP_def PME_FILE_def)
  ultimately show ?thesis by (rule single_page_area_aborts [OF _ _ refl])
qed

end
