(* ===== verification/RestoreMem.thy ===== *)
theory RestoreMem
  imports MemDump
begin

text \<open>
  Restoring private memory, cr-restore.c: laying the private areas out in a reserved range
  of the restoring process (\<^verbatim>\<open>prepare_mappings\<close>, \<^verbatim>\<open>map_private_vma\<close>) and
  filling them from the images (\<^verbatim>\<open>restore_priv_vma_content\<close>).
\<close>

section \<open>State\<close>

definition MAP_ANONYMOUS :: u32 where "MAP_ANONYMOUS = 0x20"
definition MAP_GROWSDOWN :: u32 where "MAP_GROWSDOWN = 0x100"

text \<open>
  A \<^verbatim>\<open>struct vma_area\<close> of the restore side. Bitmaps are lists of bits; a NULL
  \<^verbatim>\<open>ppage_bitmap\<close> is \<open>None\<close>.
\<close>

record rst_vma =
  rv_vma :: vma_area
  rv_flags :: u32
  rv_shmid :: nat
  page_bitmap :: "bool list"
  ppage_bitmap :: "bool list option"
  premmaped_addr :: nat

definition vma_priv :: "vma_area \<Rightarrow> bool" where
  "vma_priv vma \<longleftrightarrow> vma_entry_is vma VMA_AREA_REGULAR
     \<and> (vma_entry_is vma VMA_ANON_PRIVATE \<or> vma_entry_is vma VMA_FILE_PRIVATE)"

definition rv_start :: "rst_vma \<Rightarrow> nat" where
  "rv_start v = vma_start (rv_vma v)"

definition rv_end :: "rst_vma \<Rightarrow> nat" where
  "rv_end v = vma_end (rv_vma v)"

definition growsdown :: "rst_vma \<Rightarrow> bool" where
  "growsdown v \<longleftrightarrow> rv_flags v AND MAP_GROWSDOWN \<noteq> 0"

text \<open>The memory of the restoring process, page by page.\<close>

type_synonym pmem = "nat \<Rightarrow> byte list"

section \<open>Mapping the areas\<close>

text \<open>
  What the kernel and the rest of the program answer, by start of the area: the descriptor
  of a private file mapping, the bitmap's allocation, the results of \<^verbatim>\<open>mmap\<close> and
  \<^verbatim>\<open>mremap\<close>, and the contents of a fresh mapping.
\<close>

record map_env =
  me_filemap_fd :: "nat \<Rightarrow> int"
  me_bitmap :: "nat \<Rightarrow> bool"
  me_mmap :: "nat \<Rightarrow> bool"
  me_mremap :: "nat \<Rightarrow> bool"
  me_fresh :: "nat \<Rightarrow> nat \<Rightarrow> byte list"
  me_reserve :: "nat option"
  me_munmap :: bool

text \<open>
  The search for the same area in the parent's list, from the position after \<open>k\<close>. The
  list head is position 0; a loop that runs to the end leaves \<open>p\<close> there. It goes on
  after a match. The result is the final position and whether there was a match.
\<close>

function cow_scan :: "rst_vma list \<Rightarrow> rst_vma \<Rightarrow> nat \<Rightarrow> bool \<Rightarrow> nat \<times> bool" where
  "cow_scan pvs vma k found =
     (if length pvs \<le> k then (0, found)
      else let p = pvs ! k in
        if rv_start vma < rv_start p then (Suc k, found)
        else if \<not> vma_priv (rv_vma p) then cow_scan pvs vma (Suc k) found
        else if rv_end p \<noteq> rv_end vma \<or> rv_start p \<noteq> rv_start vma then cow_scan pvs vma (Suc k) found
        else if (rv_flags vma XOR rv_flags p) AND (MAP_GROWSDOWN OR MAP_ANONYMOUS) \<noteq> 0 then (Suc k, found)
        else if rv_flags vma AND MAP_ANONYMOUS = 0 \<and> rv_shmid vma \<noteq> rv_shmid p then (Suc k, found)
        else cow_scan pvs vma (Suc k) True)"
  by pat_completeness auto
termination
  by (relation "measure (\<lambda>(pvs, vma, k, found). length pvs - k)") auto

definition fresh_map :: "map_env \<Rightarrow> nat \<Rightarrow> nat \<Rightarrow> nat \<Rightarrow> pmem \<Rightarrow> pmem" where
  "fresh_map E start tgt sz mem =
     (\<lambda>a. if tgt \<le> a \<and> a < tgt + sz then me_fresh E start (a - tgt) else mem a)"

definition move_map :: "nat \<Rightarrow> nat \<Rightarrow> nat \<Rightarrow> pmem \<Rightarrow> pmem" where
  "move_map src tgt sz mem =
     (\<lambda>a. if tgt \<le> a \<and> a < tgt + sz then mem (src + (a - tgt)) else mem a)"

text \<open>
  \<^verbatim>\<open>map_private_vma\<close>. The address to inherit from is taken from
  \<^verbatim>\<open>vma->premmaped_addr\<close>, the field of the area being mapped. The result is the
  return value, the new position in the parent's list, the area and the memory.
\<close>

definition map_private_vma ::
  "map_env \<Rightarrow> rst_vma \<Rightarrow> nat \<Rightarrow> nat \<Rightarrow> rst_vma list \<Rightarrow> pmem \<Rightarrow> (int \<times> nat \<times> rst_vma \<times> pmem) outcome" where
  "map_private_vma E vma tgt pvma pvs mem =
     (let start = rv_start vma in
      if vma_entry_is (rv_vma vma) VMA_FILE_PRIVATE \<and> me_filemap_fd E start < 0 then Inr (-1, pvma, vma, mem)
      else if \<not> me_bitmap E start then Inr (-1, pvma, vma, mem)
      else
        (let vma1 = vma\<lparr>page_bitmap := replicate ((rv_end vma - start) div PAGE_SIZE) False\<rparr>;
             (p, found) = cow_scan pvs vma pvma False;
             paddr0 = (if found then premmaped_addr vma else 0);
             guard = (if growsdown vma then PAGE_SIZE else 0);
             paddr = (if paddr0 \<noteq> 0 then paddr0 - guard else 0);
             sz = rv_end vma - (start - guard) in
         if paddr = 0 then
           (if \<not> me_mmap E start then Inr (-1, p, vma1, mem)
            else Inr (int_of_ulong sz, p, vma1\<lparr>premmaped_addr := tgt + guard\<rparr>, fresh_map E start tgt sz mem))
         else if p = 0 \<or> length pvs < p then Inl UB
         else
           (let vma2 = vma1\<lparr>ppage_bitmap := Some (page_bitmap (pvs ! (p - 1)))\<rparr> in
            if \<not> me_mremap E start then Inr (-1, p, vma2, mem)
            else Inr (int_of_ulong sz, p, vma2\<lparr>premmaped_addr := tgt + guard\<rparr>, move_map paddr tgt sz mem))))"

text \<open>The loop of \<^verbatim>\<open>prepare_mappings\<close> over the areas read from the image.\<close>

fun map_vmas ::
  "map_env \<Rightarrow> rst_vma list \<Rightarrow> nat \<Rightarrow> nat \<Rightarrow> nat \<Rightarrow> rst_vma list \<Rightarrow> pmem \<Rightarrow> (int \<times> rst_vma list \<times> pmem) outcome" where
  "map_vmas E [] addr pstart pvma pvs mem = Inr (0, [], mem)"
| "map_vmas E (v # vs) addr pstart pvma pvs mem =
     (if rv_start v < pstart then Inr (-1, v # vs, mem)
      else if \<not> vma_priv (rv_vma v) then
        bindF (map_vmas E vs addr (rv_start v) pvma pvs mem) (\<lambda>(r, vs1, mem1). Inr (r, v # vs1, mem1))
      else bindF (map_private_vma E v addr pvma pvs mem) (\<lambda>(ret, pvma1, v1, mem1).
        if ret < 0 then Inr (ret, v1 # vs, mem1)
        else bindF (map_vmas E vs (addr + nat ret) (rv_start v) pvma1 pvs mem1)
               (\<lambda>(r, vs1, mem2). Inr (r, v1 # vs1, mem2))))"

section \<open>Filling the areas\<close>

text \<open>
  The methods of the page reader that \<^verbatim>\<open>open_page_read\<close> chose: those of an image
  with a pagemap, or those of the old format (\<^verbatim>\<open>put_pagemap\<close> is NULL there).
\<close>

definition rd_get :: "bool \<Rightarrow> pr_chain \<Rightarrow> iovec \<Rightarrow> (int \<times> iovec \<times> pr_chain) outcome" where
  "rd_get old ch iov =
     (case ch of
        [] \<Rightarrow> Inl UB
      | pr # ps \<Rightarrow>
          (case (if old then get_page_vaddr pr iov else get_pagemap (ps \<noteq> []) pr iov) of
             (r, iov1, pr1) \<Rightarrow> Inr (r, iov1, pr1 # ps)))"

definition rd_read :: "bool \<Rightarrow> pr_chain \<Rightarrow> nat \<Rightarrow> (int \<times> byte list \<times> pr_chain) outcome" where
  "rd_read old ch va =
     (if old then (case ch of [] \<Rightarrow> Inl UB | pr # ps \<Rightarrow>
                     (case read_page pr of (r, buf, pr1) \<Rightarrow> Inr (r, buf, pr1 # ps)))
      else read_pagemap_page ch va)"

definition rd_put :: "bool \<Rightarrow> pr_chain \<Rightarrow> pr_chain" where
  "rd_put old ch = (if old then ch else case ch of [] \<Rightarrow> [] | pr # ps \<Rightarrow> put_pagemap pr # ps)"

text \<open>\<^verbatim>\<open>while (va >= vma->vma.end)\<close>: the area pointer moves forward, or the list ends.\<close>

function vma_advance :: "rst_vma list \<Rightarrow> nat \<Rightarrow> nat \<Rightarrow> nat option" where
  "vma_advance vs va k =
     (if length vs \<le> k then None
      else if rv_end (vs ! k) \<le> va then
        (if Suc k = length vs then None else vma_advance vs va (Suc k))
      else Some k)"
  by pat_completeness auto
termination
  by (relation "measure (\<lambda>(vs, va, k). length vs - k)") auto

declare vma_advance.simps [simp del] cow_scan.simps [simp del]

text \<open>
  The state of the restore: the areas, the pointer \<^verbatim>\<open>vma\<close> as an index, the
  readers and the memory.
\<close>

record rst_state =
  rs_vmas :: "rst_vma list"
  rs_k :: nat
  rs_rd :: pr_chain
  rs_mem :: pmem

text \<open>
  One page. A result of -1 is \<^verbatim>\<open>err_addr\<close> or a failed read, which differ only in
  whether the reader is closed.
\<close>

definition restore_page :: "bool \<Rightarrow> nat \<Rightarrow> rst_state \<Rightarrow> (int \<times> rst_state) outcome" where
  "restore_page old va st =
     (case vma_advance (rs_vmas st) va (rs_k st) of
        None \<Rightarrow> Inr (-1, st)
      | Some k \<Rightarrow>
          (let v = rs_vmas st ! k; st1 = st\<lparr>rs_k := k\<rparr> in
           if va < rv_start v then Inr (-1, st1)
           else if \<not> vma_priv (rv_vma v) then Inr (-1, st1)
           else
             (let off = (va - rv_start v) div PAGE_SIZE;
                  p = off * PAGE_SIZE + premmaped_addr v;
                  v1 = v\<lparr>page_bitmap := (page_bitmap v)[off := True],
                         ppage_bitmap := map_option (\<lambda>bm. bm[off := False]) (ppage_bitmap v)\<rparr>;
                  st2 = st1\<lparr>rs_vmas := (rs_vmas st)[k := v1]\<rparr> in
              bindF (rd_read old (rs_rd st) va) (\<lambda>(ret, buf, ch).
                let st3 = st2\<lparr>rs_rd := ch\<rparr> in
                if ret < 0 then Inr (ret, st3)
                else if ppage_bitmap v \<noteq> None \<and> rs_mem st p = buf then Inr (0, st3)
                else Inr (0, st3\<lparr>rs_mem := (rs_mem st)(p := buf)\<rparr>)))))"

primrec restore_pages :: "bool \<Rightarrow> nat \<Rightarrow> nat \<Rightarrow> rst_state \<Rightarrow> (int \<times> rst_state) outcome" where
  "restore_pages old 0 va st = Inr (0, st)"
| "restore_pages old (Suc n) va st =
     bindF (restore_page old va st) (\<lambda>(ret, st1).
       if ret < 0 then Inr (ret, st1) else restore_pages old n (va + PAGE_SIZE) st1)"

text \<open>The outer loop; \<open>fuel\<close> bounds the number of records.\<close>

primrec restore_loop :: "nat \<Rightarrow> bool \<Rightarrow> rst_state \<Rightarrow> (int \<times> rst_state) outcome" where
  "restore_loop 0 old st = Inl HANG"
| "restore_loop (Suc fuel) old st =
     bindF (rd_get old (rs_rd st) \<lparr>iov_base = 0, iov_len = 0\<rparr>) (\<lambda>(ret, iov, ch).
       if ret \<le> 0 then Inr (ret, st\<lparr>rs_rd := ch\<rparr>)
       else bindF (restore_pages old (iov_len iov div PAGE_SIZE) (iov_base iov) (st\<lparr>rs_rd := ch\<rparr>)) (\<lambda>(ret2, st1).
         if ret2 < 0 then Inr (ret2, st1)
         else restore_loop fuel old (st1\<lparr>rs_rd := rd_put old (rs_rd st1)\<rparr>)))"

text \<open>
  Dropping the pages that the parent had and the child has not: \<^verbatim>\<open>find_next_bit\<close>
  walks the set bits of the remaining bitmap in order.
\<close>

definition set_bits :: "nat \<Rightarrow> bool list \<Rightarrow> nat list" where
  "set_bits sz bm = filter (\<lambda>i. i < length bm \<and> bm ! i) [0..<sz]"

fun drop_pages :: "(nat \<Rightarrow> bool) \<Rightarrow> (nat \<Rightarrow> byte list) \<Rightarrow> nat list \<Rightarrow> pmem \<Rightarrow> int \<times> pmem" where
  "drop_pages madv fresh [] mem = (0, mem)"
| "drop_pages madv fresh (a # as) mem =
     (if \<not> madv a then (-1, mem) else drop_pages madv fresh as (mem(a := fresh a)))"

definition drop_list :: "rst_vma \<Rightarrow> nat list" where
  "drop_list v = (case ppage_bitmap v of None \<Rightarrow> []
     | Some bm \<Rightarrow> map (\<lambda>i. premmaped_addr v + PAGE_SIZE * i) (set_bits ((rv_end v - rv_start v) div PAGE_SIZE) bm))"

definition restore_priv_vma_content ::
  "(nat \<Rightarrow> bool) \<Rightarrow> (nat \<Rightarrow> byte list) \<Rightarrow> bool + (bool \<times> pr_chain) \<Rightarrow> rst_vma list \<Rightarrow> pmem \<Rightarrow> (int \<times> rst_vma list \<times> pmem) outcome" where
  "restore_priv_vma_content madv fresh opened vs mem =
     (case opened of
        Inl _ \<Rightarrow> Inr (-1, vs, mem)
      | Inr (old, ch) \<Rightarrow>
          (let fuel = Suc (sum_list (map (\<lambda>pr. length (pr_pm pr) + length (pr_pg pr)) ch)) in
           bindF (restore_loop fuel old \<lparr>rs_vmas = vs, rs_k = 0, rs_rd = ch, rs_mem = mem\<rparr>) (\<lambda>(ret, st).
             if ret < 0 then Inr (ret, rs_vmas st, rs_mem st)
             else case drop_pages madv fresh (concat (map drop_list (rs_vmas st))) (rs_mem st) of (ret2, mem2) \<Rightarrow>
               Inr (ret2, rs_vmas st, mem2))))"

text \<open>
  \<^verbatim>\<open>prepare_mappings\<close>, after the images were opened: \<open>vmas\<close> are the records of
  the areas image with their \<^verbatim>\<open>fd\<close> fields (\<open>None\<close> cannot be read), \<open>pvs\<close> the areas of the parent, and
  \<open>old\<close> says whether there is an old reservation to unmap.
\<close>

fun read_vmas :: "(int \<times> rst_vma) option list \<Rightarrow> int \<times> rst_vma list \<times> nat" where
  "read_vmas [] = (0, [], 0)"
| "read_vmas (None # rs) = (-1, [], 0)"
| "read_vmas (Some (fd, v) # rs) =
     (if fd \<noteq> -1 then (-1, [v], 0)
      else case read_vmas rs of (ret, vs, priv) \<Rightarrow>
        (ret, v # vs, (if vma_priv (rv_vma v) then (rv_end v - rv_start v) + (if growsdown v then PAGE_SIZE else 0) else 0) + priv))"

definition prepare_mappings ::
  "map_env \<Rightarrow> (nat \<Rightarrow> bool) \<Rightarrow> (nat \<Rightarrow> byte list) \<Rightarrow> (int \<times> rst_vma) option list img_open \<Rightarrow> bool + (bool \<times> pr_chain)
   \<Rightarrow> rst_vma list \<Rightarrow> bool \<Rightarrow> pmem \<Rightarrow> (int \<times> rst_vma list \<times> pmem) outcome" where
  "prepare_mappings E madv fresh img opened pvs old mem =
     (let unmap = (\<lambda>(ret, vs, m). if old \<and> \<not> me_munmap E then Inr (-1, vs, m) else Inr (ret, vs, m)) in
      case img of
        ImgErr enoent \<Rightarrow> Inr (if enoent then 0 else -1, [], mem)
      | Img recs \<Rightarrow>
          (case read_vmas recs of (ret, vs, priv) \<Rightarrow>
             if ret < 0 then Inr (ret, vs, mem)
             else case me_reserve E of
               None \<Rightarrow> Inr (-1, vs, mem)
             | Some addr \<Rightarrow>
                 bindF (map_vmas E vs addr 0 0 pvs mem) (\<lambda>(ret2, vs2, mem2).
                   if ret2 < 0 then unmap (ret2, vs2, mem2)
                   else bindF (restore_priv_vma_content madv fresh opened vs2 mem2) unmap)))"

section \<open>Where a page goes\<close>

definition rv_contains :: "rst_vma \<Rightarrow> nat \<Rightarrow> bool" where
  "rv_contains v va \<longleftrightarrow> rv_start v \<le> va \<and> va < rv_end v"

definition rst_vmas_ok :: "rst_vma list \<Rightarrow> bool" where
  "rst_vmas_ok vs \<longleftrightarrow> sorted_wrt (\<lambda>a b. rv_end a \<le> rv_start b) vs \<and> (\<forall>v \<in> set vs. PAGE_SIZE dvd rv_start v)"

definition in_priv :: "rst_vma list \<Rightarrow> nat \<Rightarrow> bool" where
  "in_priv vs va \<longleftrightarrow> (\<exists>v \<in> set vs. rv_contains v va \<and> vma_priv (rv_vma v))"

definition page_addr :: "rst_vma list \<Rightarrow> nat \<Rightarrow> nat" where
  "page_addr vs va = (case find (\<lambda>v. rv_contains v va) vs of None \<Rightarrow> 0 | Some v \<Rightarrow> va - rv_start v + premmaped_addr v)"

text \<open>What the restore leaves alone in an area.\<close>

definition rv_geom :: "rst_vma \<Rightarrow> vma_area \<times> nat \<times> bool" where
  "rv_geom v = (rv_vma v, premmaped_addr v, ppage_bitmap v = None)"

lemma rv_geom_simps:
  assumes "map rv_geom vs = map rv_geom ws"
  shows "length vs = length ws" "\<And>i. i < length vs \<Longrightarrow> rv_vma (vs ! i) = rv_vma (ws ! i)"
    "\<And>i. i < length vs \<Longrightarrow> premmaped_addr (vs ! i) = premmaped_addr (ws ! i)"
proof -
  show l: "length vs = length ws" using assms map_eq_imp_length_eq by blast
  have "rv_geom (vs ! i) = rv_geom (ws ! i)" if "i < length vs" for i
    using arg_cong [OF assms, of "\<lambda>x. x ! i"] that l by simp
  then show "\<And>i. i < length vs \<Longrightarrow> rv_vma (vs ! i) = rv_vma (ws ! i)"
    "\<And>i. i < length vs \<Longrightarrow> premmaped_addr (vs ! i) = premmaped_addr (ws ! i)"
    by (simp_all add: rv_geom_def)
qed

lemma find_geom:
  "map rv_geom vs = map rv_geom ws \<Longrightarrow>
   map_option rv_geom (find (\<lambda>v. rv_contains v va) vs) = map_option rv_geom (find (\<lambda>v. rv_contains v va) ws)"
proof (induction vs arbitrary: ws)
  case (Cons v vs)
  then obtain w ws' where ws: "ws = w # ws'" "rv_geom v = rv_geom w" "map rv_geom vs = map rv_geom ws'"
    by (cases ws) auto
  have "rv_contains v va = rv_contains w va"
    using ws(2) by (simp add: rv_geom_def rv_contains_def rv_start_def rv_end_def)
  with Cons.IH [OF ws(3)] ws show ?case by simp
qed simp

lemma page_addr_geom:
  assumes "map rv_geom vs = map rv_geom ws"
  shows "page_addr vs va = page_addr ws va"
  using find_geom [OF assms, of va]
  by (auto simp: page_addr_def rv_geom_def rv_start_def split: option.splits)

lemma rst_vmas_ok_geom:
  assumes "map rv_geom vs = map rv_geom ws" "rst_vmas_ok ws"
  shows "rst_vmas_ok vs"
proof -
  note g = rv_geom_simps [OF assms(1)]
  show ?thesis
    using assms(2) g
    by (auto simp: rst_vmas_ok_def sorted_wrt_iff_nth_less rv_start_def rv_end_def all_set_conv_all_nth)
qed

lemma vma_advance_found:
  assumes "rst_vmas_ok vs" "j < length vs" "rv_contains (vs ! j) va" "k \<le> j"
  shows "vma_advance vs va k = Some j"
  using assms(4)
proof (induction "j - k" arbitrary: k)
  case 0
  then have "k = j" by simp
  with assms show ?case by (subst vma_advance.simps) (simp add: rv_contains_def)
next
  case (Suc n)
  then have k: "k < j" by simp
  then have "rv_end (vs ! k) \<le> rv_start (vs ! j)"
    using assms(1,2) by (auto simp: rst_vmas_ok_def sorted_wrt_iff_nth_less)
  with assms(2,3) k have "vma_advance vs va k = vma_advance vs va (Suc k)"
    by (subst vma_advance.simps) (auto simp: rv_contains_def)
  with Suc.hyps(1) [of "Suc k"] Suc.hyps(2) k show ?case by simp
qed

lemma rv_contains_unique:
  assumes "rst_vmas_ok vs" "i < length vs" "j < length vs" "rv_contains (vs ! i) a" "rv_contains (vs ! j) b" "a \<le> b"
  shows "i \<le> j"
proof (rule ccontr)
  assume "\<not> i \<le> j"
  then have "rv_end (vs ! j) \<le> rv_start (vs ! i)"
    using assms(1,2) by (auto simp: rst_vmas_ok_def sorted_wrt_iff_nth_less)
  with assms(4-6) show False by (auto simp: rv_contains_def)
qed

lemma find_nth_contains:
  assumes "rst_vmas_ok vs" "j < length vs" "rv_contains (vs ! j) va"
  shows "find (\<lambda>v. rv_contains v va) vs = Some (vs ! j)"
proof -
  obtain v where f: "find (\<lambda>v. rv_contains v va) vs = Some v"
    using assms(2,3) by (cases "find (\<lambda>v. rv_contains v va) vs") (auto simp: find_None_iff)
  then obtain i where i: "i < length vs" "rv_contains (vs ! i) va" "find (\<lambda>v. rv_contains v va) vs = Some (vs ! i)"
    by (auto simp: find_Some_iff)
  have "i = j" using rv_contains_unique [OF assms(1)] i assms(2,3) by (simp add: order_antisym)
  with i show ?thesis by simp
qed

section \<open>The restore fills every page with its contents in the images\<close>

text \<open>
  The reader stands at \<open>va\<close> in entry \<open>e\<close> of its snapshot, ready to read on; the parents
  are at or below \<open>va\<close>.
\<close>

definition rd_pos :: "snapshot list \<Rightarrow> pagemap_entry list \<Rightarrow> pagemap_entry \<Rightarrow> pagemap_entry list \<Rightarrow> nat \<Rightarrow> pr_chain \<Rightarrow> bool" where
  "rd_pos ss ds e rest va ch \<longleftrightarrow> (\<exists>pr ps pg. ch = pr # ps \<and> ss \<noteq> [] \<and> hd ss = (ds @ e # rest, pg) \<and> pr_pg pr = pg
     \<and> rd_at ds e rest pr \<and> cvaddr pr = va \<and> chain_below (tl ss) ps va)"

lemma rd_pos_read:
  assumes "rd_pos ss ds e rest va ch" "chain_ok ss" "va < pe_end e" "PAGE_SIZE dvd va" "snap_page ss va = Some buf"
  shows "\<exists>ch'. rd_read False ch va = Inr (1, buf, ch') \<and> rd_pos ss ds e rest (va + PAGE_SIZE) ch'"
proof -
  from assms(1) obtain pr ps pg where ch: "ch = pr # ps" "hd ss = (ds @ e # rest, pg)" "pr_pg pr = pg"
      "rd_at ds e rest pr" "cvaddr pr = va" "chain_below (tl ss) ps va" and ne: "ss \<noteq> []"
    by (auto simp: rd_pos_def)
  have ss: "ss = (ds @ e # rest, pg) # tl ss" using ch(2) ne by (cases ss) auto
  have "chain_ok ((ds @ e # rest, pg) # tl ss)" "snap_page ((ds @ e # rest, pg) # tl ss) va = Some buf"
    using assms(2,5) ss by simp_all
  from read_pagemap_page_chain [OF this(1) ch(3-5) assms(3,4) ch(6) this(2)] ch(1)
  obtain pr' ps' where "read_pagemap_page ch va = Inr (1, buf, pr' # ps')" "rd_at ds e rest pr'"
     "cvaddr pr' = va + PAGE_SIZE" "pr_pg pr' = pg" "chain_below (tl ss) ps' (va + PAGE_SIZE)" by blast
  then show ?thesis
    using ch(2) ne unfolding rd_pos_def rd_read_def by (intro exI [of _ "pr' # ps'"]) auto
qed

text \<open>The state of the restore at address \<open>va\<close>; \<open>vs\<close> are the areas it started with.\<close>

definition rst_at :: "rst_vma list \<Rightarrow> nat \<Rightarrow> rst_state \<Rightarrow> bool" where
  "rst_at vs va st \<longleftrightarrow> map rv_geom (rs_vmas st) = map rv_geom vs
     \<and> (\<forall>j < length vs. \<forall>a \<ge> va. rv_contains (vs ! j) a \<longrightarrow> rs_k st \<le> j)"

lemma rst_at_mono: "rst_at vs va st \<Longrightarrow> va \<le> va' \<Longrightarrow> rst_at vs va' st"
  unfolding rst_at_def using le_trans by blast

lemma restore_page_ok:
  assumes "rst_vmas_ok vs" "rst_at vs va st" "in_priv vs va" "PAGE_SIZE dvd va"
    and "rd_read False (rs_rd st) va = Inr (1, buf, ch)"
  shows "\<exists>st'. restore_page False va st = Inr (0, st') \<and> rst_at vs (va + PAGE_SIZE) st' \<and> rs_rd st' = ch
     \<and> rs_mem st' = (rs_mem st)(page_addr vs va := buf)"
proof -
  let ?ws = "rs_vmas st"
  have g: "map rv_geom ?ws = map rv_geom vs" using assms(2) by (simp add: rst_at_def)
  note gs = rv_geom_simps [OF g]
  obtain j where j: "j < length vs" "rv_contains (vs ! j) va" "vma_priv (rv_vma (vs ! j))"
    using assms(3) by (auto simp: in_priv_def in_set_conv_nth)
  have w: "rv_vma (?ws ! j) = rv_vma (vs ! j)" "premmaped_addr (?ws ! j) = premmaped_addr (vs ! j)" "j < length ?ws"
    using gs j(1) by auto
  then have wc: "rv_contains (?ws ! j) va" "rv_start (?ws ! j) = rv_start (vs ! j)"
    using j(2) by (simp_all add: rv_contains_def rv_start_def rv_end_def)
  have k: "rs_k st \<le> j" using assms(2) j by (auto simp: rst_at_def)
  have adv: "vma_advance ?ws va (rs_k st) = Some j"
    by (rule vma_advance_found [OF rst_vmas_ok_geom [OF g assms(1)] w(3) wc(1) k])
  have al: "PAGE_SIZE dvd va - rv_start (vs ! j)"
    using assms(1,4) j(1) by (auto simp: rst_vmas_ok_def)
  have p: "(va - rv_start (vs ! j)) div PAGE_SIZE * PAGE_SIZE + premmaped_addr (vs ! j) = page_addr vs va"
    using al find_nth_contains [OF assms(1) j(1,2)] by (simp add: page_addr_def)
  define off where "off = (va - rv_start (vs ! j)) div PAGE_SIZE"
  define v1 where "v1 = (?ws ! j)\<lparr>page_bitmap := (page_bitmap (?ws ! j))[off := True],
      ppage_bitmap := map_option (\<lambda>bm. bm[off := False]) (ppage_bitmap (?ws ! j))\<rparr>"
  define st' where "st' = st\<lparr>rs_k := j, rs_vmas := ?ws[j := v1], rs_rd := ch, rs_mem := (rs_mem st)(page_addr vs va := buf)\<rparr>"
  have "rv_geom v1 = rv_geom (?ws ! j)" by (simp add: v1_def rv_geom_def)
  then have g1: "map rv_geom (?ws[j := v1]) = map rv_geom vs"
    using g w(3) by (metis list_update_id map_update)
  have run: "restore_page False va st = Inr (0, st')"
  proof (cases "ppage_bitmap (?ws ! j) \<noteq> None \<and> rs_mem st (page_addr vs va) = buf")
    case True
    then have "(rs_mem st)(page_addr vs va := buf) = rs_mem st" by auto
    with True adv wc j(3) w assms(5) p show ?thesis
      by (simp add: restore_page_def Let_def rv_contains_def st'_def v1_def off_def)
  next
    case False
    with adv wc j(3) w assms(5) p show ?thesis
      by (auto simp: restore_page_def Let_def rv_contains_def st'_def v1_def off_def)
  qed
  have "rst_at vs (va + PAGE_SIZE) st'"
    using g1 rv_contains_unique [OF assms(1) j(1)] j(2) by (auto simp: rst_at_def st'_def)
  with run show ?thesis by (auto simp: st'_def)
qed

text \<open>The memory after writing the pages of a list of addresses.\<close>

definition fill :: "snapshot list \<Rightarrow> rst_vma list \<Rightarrow> nat list \<Rightarrow> pmem \<Rightarrow> pmem" where
  "fill ss vs pages mem = fold (\<lambda>va m. m(page_addr vs va := the (snap_page ss va))) pages mem"

lemma restore_pages_ok:
  assumes "rst_vmas_ok vs" "chain_ok ss"
    and "rst_at vs va st" "rd_pos ss ds e rest va (rs_rd st)" "va + n * PAGE_SIZE \<le> pe_end e" "PAGE_SIZE dvd va"
    and "\<forall>a \<in> set (page_range va n). in_priv vs a \<and> snap_page ss a \<noteq> None"
  shows "\<exists>st'. restore_pages False n va st = Inr (0, st') \<and> rst_at vs (va + n * PAGE_SIZE) st'
     \<and> rd_pos ss ds e rest (va + n * PAGE_SIZE) (rs_rd st') \<and> rs_mem st' = fill ss vs (page_range va n) (rs_mem st)"
  using assms(3-)
proof (induction n arbitrary: va st)
  case 0
  then show ?case by (simp add: fill_def)
next
  case (Suc n)
  have pr: "page_range va (Suc n) = va # page_range (va + PAGE_SIZE) n" by (rule page_range_Cons)
  from Suc.prems(5) obtain buf where buf: "snap_page ss va = Some buf" and inp: "in_priv vs va" by (auto simp: pr)
  have lt: "va < pe_end e" using Suc.prems(3) PAGE_SIZE_pos unfolding mult_Suc by linarith
  obtain ch where rd: "rd_read False (rs_rd st) va = Inr (1, buf, ch)" "rd_pos ss ds e rest (va + PAGE_SIZE) ch"
    using rd_pos_read [OF Suc.prems(2) assms(2) lt Suc.prems(4) buf] by blast
  obtain st1 where st1: "restore_page False va st = Inr (0, st1)" "rst_at vs (va + PAGE_SIZE) st1" "rs_rd st1 = ch"
     "rs_mem st1 = (rs_mem st)(page_addr vs va := buf)"
    using restore_page_ok [OF assms(1) Suc.prems(1) inp Suc.prems(4) rd(1)] by blast
  have "rd_pos ss ds e rest (va + PAGE_SIZE) (rs_rd st1)" "va + PAGE_SIZE + n * PAGE_SIZE \<le> pe_end e" "PAGE_SIZE dvd va + PAGE_SIZE"
    "\<forall>a \<in> set (page_range (va + PAGE_SIZE) n). in_priv vs a \<and> snap_page ss a \<noteq> None"
    using rd(2) st1(3) Suc.prems(3-5) by (simp_all add: pr add.assoc)
  from Suc.IH [OF st1(2) this] obtain st' where
    "restore_pages False n (va + PAGE_SIZE) st1 = Inr (0, st')" "rst_at vs (va + PAGE_SIZE + n * PAGE_SIZE) st'"
    "rd_pos ss ds e rest (va + PAGE_SIZE + n * PAGE_SIZE) (rs_rd st')"
    "rs_mem st' = fill ss vs (page_range (va + PAGE_SIZE) n) (rs_mem st1)" by blast
  with st1 buf show ?case by (simp add: pr fill_def add.assoc)
qed

text \<open>The reader between two entries.\<close>

definition rd_between :: "snapshot list \<Rightarrow> pagemap_entry list \<Rightarrow> pagemap_entry list \<Rightarrow> nat \<Rightarrow> pr_chain \<Rightarrow> bool" where
  "rd_between ss ds rest va ch \<longleftrightarrow> (\<exists>pr ps pg. ch = pr # ps \<and> ss \<noteq> [] \<and> hd ss = (ds @ rest, pg) \<and> pr_pg pr = pg
     \<and> pr_pm pr = map Some rest \<and> pr_pos pr = own_sum ds \<and> chain_below (tl ss) ps va)"

lemma rd_between_get:
  assumes "rd_between ss ds (e # rest) va ch" "chain_ok ss" "va \<le> vaddr e"
  shows "\<exists>ch'. rd_get False ch iov = Inr (1, pagemap2iovec e, ch') \<and> rd_pos ss ds e rest (vaddr e) ch'"
proof -
  from assms(1) obtain pr ps pg where ch: "ch = pr # ps" "ss \<noteq> []" "hd ss = (ds @ e # rest, pg)" "pr_pg pr = pg"
      "pr_pm pr = map Some (e # rest)" "pr_pos pr = own_sum ds" "chain_below (tl ss) ps va"
    by (auto simp: rd_between_def)
  have ss: "ss = (ds @ e # rest, pg) # tl ss" using ch(2,3) by (cases ss) auto
  have "chain_ok ((ds @ e # rest, pg) # tl ss)" using assms(2) ss by simp
  then have "tl ss \<noteq> [] \<or> \<not> in_parent e" by auto
  then have hp: "\<not> (in_parent e \<and> ps = [])" using chain_below_length [OF ch(7)] by (cases "tl ss") auto
  let ?pr = "pr\<lparr>pr_pm := map Some rest, pr_pe := PeLive e, cvaddr := vaddr e\<rparr>"
  have "rd_get False ch iov = Inr (1, pagemap2iovec e, ?pr # ps)"
    using ch(1,5) hp by (auto simp: rd_get_def get_pagemap_def Let_def)
  moreover have "rd_at ds e rest ?pr" using ch(6) by (simp add: rd_at_def vaddr_le_pe_end)
  moreover have "chain_below (tl ss) ps (vaddr e)" using chain_below_mono [OF ch(7) assms(3)] .
  ultimately show ?thesis
    using ch(2-4) unfolding rd_pos_def by (intro exI [of _ "?pr # ps"]) auto
qed

lemma rd_pos_put:
  assumes "rd_pos ss ds e rest (pe_end e) ch"
  shows "rd_between ss (ds @ [e]) rest (pe_end e) (rd_put False ch)"
  using assms by (auto simp: rd_pos_def rd_between_def rd_put_def put_pagemap_def rd_at_def own_bytes_def pe_end_def)

lemma fill_append: "fill ss vs (xs @ ys) mem = fill ss vs ys (fill ss vs xs mem)"
  by (simp add: fill_def)

lemma restore_loop_ok:
  assumes "rst_vmas_ok vs" "chain_ok ss"
    and "rst_at vs va st" "rd_between ss ds rest va (rs_rd st)" "\<forall>e \<in> set rest. va \<le> vaddr e" "length rest < fuel"
    and "pm_wf rest" "\<forall>e \<in> set rest. PAGE_SIZE dvd vaddr e"
    and "\<forall>e \<in> set rest. \<forall>a \<in> set (pe_pages e). in_priv vs a \<and> snap_page ss a \<noteq> None"
  shows "\<exists>st'. restore_loop fuel False st = Inr (0, st') \<and> map rv_geom (rs_vmas st') = map rv_geom vs
     \<and> rs_mem st' = fill ss vs (concat (map pe_pages rest)) (rs_mem st)"
  using assms(3-)
proof (induction rest arbitrary: va st ds fuel)
  case Nil
  then obtain f where f: "fuel = Suc f" by (cases fuel) auto
  from Nil.prems(2) obtain pr ps where "rs_rd st = pr # ps" "pr_pm pr = []" by (auto simp: rd_between_def)
  with f Nil.prems(1) show ?case by (auto simp: rd_get_def get_pagemap_def rst_at_def fill_def)
next
  case (Cons e rest)
  obtain f where f: "fuel = Suc f" using Cons.prems(4) by (cases fuel) auto
  have va: "va \<le> vaddr e" and sm: "pe_small e" and al: "PAGE_SIZE dvd vaddr e"
    using Cons.prems(3,5,6) by auto
  obtain ch where get: "rd_get False (rs_rd st) \<lparr>iov_base = 0, iov_len = 0\<rparr> = Inr (1, pagemap2iovec e, ch)"
      "rd_pos ss ds e rest (vaddr e) ch"
    using rd_between_get [OF Cons.prems(2) assms(2) va] by blast
  have n: "iov_len (pagemap2iovec e) div PAGE_SIZE = nr_pages e"
    using sm by (simp add: pagemap2iovec_def pe_small_def PAGE_SIZE_def)
  let ?st = "st\<lparr>rs_rd := ch\<rparr>"
  have at: "rst_at vs (vaddr e) ?st" using rst_at_mono [OF Cons.prems(1) va] by (simp add: rst_at_def)
  have "rd_pos ss ds e rest (vaddr e) (rs_rd ?st)" "vaddr e + nr_pages e * PAGE_SIZE \<le> pe_end e"
    "\<forall>a \<in> set (page_range (vaddr e) (nr_pages e)). in_priv vs a \<and> snap_page ss a \<noteq> None"
    using get(2) Cons.prems(7) by (simp_all add: pe_end_def pe_pages_def)
  from restore_pages_ok [OF assms(1,2) at this(1,2) al this(3)] obtain st1 where st1:
    "restore_pages False (nr_pages e) (vaddr e) ?st = Inr (0, st1)" "rst_at vs (pe_end e) st1"
    "rd_pos ss ds e rest (pe_end e) (rs_rd st1)" "rs_mem st1 = fill ss vs (pe_pages e) (rs_mem st)"
    by (auto simp: pe_end_def pe_pages_def)
  let ?st2 = "st1\<lparr>rs_rd := rd_put False (rs_rd st1)\<rparr>"
  have "rst_at vs (pe_end e) ?st2" "rd_between ss (ds @ [e]) rest (pe_end e) (rs_rd ?st2)"
    "\<forall>x \<in> set rest. pe_end e \<le> vaddr x" "length rest < f" "pm_wf rest" "\<forall>x \<in> set rest. PAGE_SIZE dvd vaddr x"
    "\<forall>x \<in> set rest. \<forall>a \<in> set (pe_pages x). in_priv vs a \<and> snap_page ss a \<noteq> None"
    using st1(2) rd_pos_put [OF st1(3)] Cons.prems(4-7) f by (auto simp: rst_at_def)
  from Cons.IH [OF this] obtain st' where
    "restore_loop f False ?st2 = Inr (0, st')" "map rv_geom (rs_vmas st') = map rv_geom vs"
    "rs_mem st' = fill ss vs (concat (map pe_pages rest)) (rs_mem st1)" by auto
  with st1(1,4) get(1) n f show ?case by (simp add: fill_append)
qed

lemma fill_other: "a \<notin> page_addr vs ` set pages \<Longrightarrow> fill ss vs pages mem a = mem a"
  by (induction pages arbitrary: mem) (auto simp: fill_def)

lemma fill_page:
  assumes "inj_on (page_addr vs) (set pages)" "va \<in> set pages"
  shows "fill ss vs pages mem (page_addr vs va) = the (snap_page ss va)"
  using assms
proof (induction pages arbitrary: mem)
  case (Cons a pages)
  show ?case
  proof (cases "va \<in> set pages")
    case True
    with Cons show ?thesis by (simp add: fill_def)
  next
    case False
    then have "va = a" "page_addr vs va \<notin> page_addr vs ` set pages" using Cons.prems by auto
    with fill_other show ?thesis by (simp add: fill_def)
  qed
qed simp

text \<open>The restore of a chain of images into areas that inherit nothing.\<close>

lemma restore_priv_vma_content_ok:
  assumes "fs_snaps f ss" "chain_ok ss" "rst_vmas_ok vs" "\<forall>v \<in> set vs. ppage_bitmap v = None"
    and "pages = concat (map pe_pages (fst (hd ss)))"
    and "\<forall>a \<in> set pages. in_priv vs a \<and> snap_page ss a \<noteq> None"
  shows "\<exists>vs'. restore_priv_vma_content madv fresh (open_page_read_at f) vs mem = Inr (0, vs', fill ss vs pages mem)
     \<and> map rv_geom vs' = map rv_geom vs"
proof -
  obtain ps where ps: "open_page_read_at f = Inr (False, ps)" "chain_below ss ps 0"
      "list_all2 (\<lambda>s pr. rd_start (fst s) pr) ss ps"
    using open_page_read_chain [OF assms(1)] by blast
  have "ss \<noteq> []" using assms(1) by (auto elim: fs_snaps.cases)
  then obtain es pg ts where ss: "ss = (es, pg) # ts" by (cases ss) auto
  from ps(2,3) ss obtain pr qs where pr: "ps = pr # qs" "rd_below (es, pg) pr 0" "chain_below ts qs 0" "rd_start es pr"
    by auto
  let ?st = "\<lparr>rs_vmas = vs, rs_k = 0, rs_rd = ps, rs_mem = mem\<rparr>"
  let ?fuel = "Suc (sum_list (map (\<lambda>pr. length (pr_pm pr) + length (pr_pg pr)) ps))"
  have btw: "rd_between ss [] es 0 (rs_rd ?st)"
    using pr ss by (auto simp: rd_between_def rd_start_def rd_below_def)
  have fuel: "length es < ?fuel" using pr(1,4) by (simp add: rd_start_def)
  have wf: "pm_wf es" "\<forall>e \<in> set es. PAGE_SIZE dvd vaddr e" using assms(2) ss by auto
  have pg: "\<forall>e \<in> set es. \<forall>a \<in> set (pe_pages e). in_priv vs a \<and> snap_page ss a \<noteq> None"
    using assms(5,6) ss by auto
  have "rst_at vs 0 ?st" by (simp add: rst_at_def)
  from restore_loop_ok [OF assms(3,2) this btw _ fuel wf pg] obtain st' where
    st': "restore_loop ?fuel False ?st = Inr (0, st')" "map rv_geom (rs_vmas st') = map rv_geom vs"
    "rs_mem st' = fill ss vs (concat (map pe_pages es)) mem" by auto
  have "\<forall>v \<in> set (rs_vmas st'). ppage_bitmap v = None"
  proof
    fix v
    assume "v \<in> set (rs_vmas st')"
    then have "rv_geom v \<in> set (map rv_geom vs)" using st'(2) by (metis image_eqI set_map)
    with assms(4) show "ppage_bitmap v = None" by (auto simp: rv_geom_def)
  qed
  then have "concat (map drop_list (rs_vmas st')) = []" by (simp add: drop_list_def)
  then have "drop_pages madv fresh (concat (map drop_list (rs_vmas st'))) (rs_mem st') = (0, rs_mem st')"
    by (simp only: drop_pages.simps)
  with st' ps(1) assms(5) ss show ?thesis
    by (simp add: restore_priv_vma_content_def Let_def del: restore_loop.simps concat_eq_Nil_conv)
qed

section \<open>The layout of the reserved range\<close>

definition rv_guard :: "rst_vma \<Rightarrow> nat" where
  "rv_guard v = (if growsdown v then PAGE_SIZE else 0)"

text \<open>The number of bytes an area takes, guard page included.\<close>

definition rv_size :: "rst_vma \<Rightarrow> nat" where
  "rv_size v = rv_end v - (rv_start v - rv_guard v)"

fun laid_out :: "nat \<Rightarrow> rst_vma list \<Rightarrow> bool" where
  "laid_out a [] \<longleftrightarrow> True"
| "laid_out a (v # vs) \<longleftrightarrow>
     (if vma_priv (rv_vma v) then premmaped_addr v = a + rv_guard v \<and> laid_out (a + rv_size v) vs else laid_out a vs)"

text \<open>An area as it comes from the image: nothing mapped yet, its guard page above 0.\<close>

definition rv_fresh :: "rst_vma \<Rightarrow> bool" where
  "rv_fresh v \<longleftrightarrow> premmaped_addr v = 0 \<and> ppage_bitmap v = None \<and> rv_guard v \<le> rv_start v \<and> rv_start v \<le> rv_end v"

definition map_env_ok :: "map_env \<Rightarrow> bool" where
  "map_env_ok E \<longleftrightarrow> (\<forall>a. 0 \<le> me_filemap_fd E a) \<and> (\<forall>a. me_bitmap E a) \<and> (\<forall>a. me_mmap E a)"

lemma map_private_vma_fresh:
  assumes "map_env_ok E" "rv_fresh v"
  shows "\<exists>p. map_private_vma E v tgt pvma pvs mem =
     Inr (int_of_ulong (rv_size v), p,
          v\<lparr>page_bitmap := replicate ((rv_end v - rv_start v) div PAGE_SIZE) False, premmaped_addr := tgt + rv_guard v\<rparr>,
          fresh_map E (rv_start v) tgt (rv_size v) mem)"
proof -
  obtain p found where "cow_scan pvs v pvma False = (p, found)" by fastforce
  moreover have "\<not> me_filemap_fd E (rv_start v) < 0" "me_bitmap E (rv_start v)" "me_mmap E (rv_start v)"
    using assms(1) by (auto simp: map_env_ok_def not_less)
  ultimately show ?thesis
    using assms(2) by (auto simp: map_private_vma_def Let_def rv_fresh_def rv_size_def rv_guard_def)
qed

lemma map_vmas_layout:
  assumes "map_env_ok E" "\<forall>v \<in> set vs. rv_fresh v \<and> rv_size v < 2 ^ 31" "sorted (map rv_start vs)" "\<forall>v \<in> set vs. ps \<le> rv_start v"
  shows "\<exists>vs' mem'. map_vmas E vs addr ps pvma pvs mem = Inr (0, vs', mem') \<and> laid_out addr vs'
     \<and> map rv_vma vs' = map rv_vma vs \<and> map rv_flags vs' = map rv_flags vs \<and> (\<forall>v \<in> set vs'. ppage_bitmap v = None)"
  using assms(2-)
proof (induction vs arbitrary: addr ps pvma mem)
  case (Cons v vs)
  have f: "rv_fresh v" "rv_size v < 2 ^ 31" "ps \<le> rv_start v" using Cons.prems by auto
  have up: "\<forall>w \<in> set vs. rv_start v \<le> rv_start w" "sorted (map rv_start vs)" "\<forall>w \<in> set vs. rv_fresh w \<and> rv_size w < 2 ^ 31"
    using Cons.prems by auto
  show ?case
  proof (cases "vma_priv (rv_vma v)")
    case False
    from Cons.IH [OF up(3,2,1), of addr pvma mem] obtain vs' mem' where
      "map_vmas E vs addr (rv_start v) pvma pvs mem = Inr (0, vs', mem')" "laid_out addr vs'"
      "map rv_vma vs' = map rv_vma vs" "map rv_flags vs' = map rv_flags vs" "\<forall>v \<in> set vs'. ppage_bitmap v = None" by blast
    with False f show ?thesis by (auto simp: rv_fresh_def)
  next
    case True
    let ?v = "v\<lparr>page_bitmap := replicate ((rv_end v - rv_start v) div PAGE_SIZE) False, premmaped_addr := addr + rv_guard v\<rparr>"
    let ?mem = "fresh_map E (rv_start v) addr (rv_size v) mem"
    obtain p where m: "map_private_vma E v addr pvma pvs mem = Inr (int (rv_size v), p, ?v, ?mem)"
      using map_private_vma_fresh [OF assms(1) f(1), of addr pvma pvs mem] int_of_ulong_small [OF f(2)] by auto
    from Cons.IH [OF up(3,2,1), of "addr + rv_size v" p ?mem] obtain vs' mem' where
      "map_vmas E vs (addr + rv_size v) (rv_start v) p pvs ?mem = Inr (0, vs', mem')" "laid_out (addr + rv_size v) vs'"
      "map rv_vma vs' = map rv_vma vs" "map rv_flags vs' = map rv_flags vs" "\<forall>v \<in> set vs'. ppage_bitmap v = None" by blast
    moreover have "rv_guard ?v = rv_guard v" "rv_size ?v = rv_size v" "ppage_bitmap ?v = None" "rv_vma ?v = rv_vma v" "rv_flags ?v = rv_flags v"
      using f(1) by (simp_all add: rv_fresh_def rv_guard_def rv_size_def growsdown_def rv_end_def rv_start_def)
    ultimately show ?thesis using True m f(3) by (intro exI [of _ "?v # vs'"] exI [of _ mem']) simp
  qed
qed simp

lemma laid_out_bounds:
  "laid_out a vs \<Longrightarrow> v \<in> set vs \<Longrightarrow> vma_priv (rv_vma v) \<Longrightarrow> a \<le> premmaped_addr v"
  by (induction a vs rule: laid_out.induct) (auto split: if_splits)

lemma laid_out_disjoint:
  assumes "laid_out a vs" "i < j" "j < length vs" "vma_priv (rv_vma (vs ! i))" "vma_priv (rv_vma (vs ! j))"
    and "\<forall>v \<in> set vs. rv_guard v \<le> rv_start v \<and> rv_start v \<le> rv_end v"
  shows "premmaped_addr (vs ! i) + (rv_end (vs ! i) - rv_start (vs ! i)) \<le> premmaped_addr (vs ! j)"
  using assms
proof (induction vs arbitrary: a i j)
  case (Cons v vs)
  obtain j' where j: "j = Suc j'" using Cons.prems(2) by (cases j) auto
  show ?case
  proof (cases i)
    case 0
    then have "premmaped_addr v = a + rv_guard v" "laid_out (a + rv_size v) vs" using Cons.prems(1,4) by simp_all
    moreover from this(2) have "a + rv_size v \<le> premmaped_addr (vs ! j')"
      using laid_out_bounds Cons.prems(3,5) j by auto
    ultimately show ?thesis using 0 j Cons.prems(6) by (simp add: rv_size_def)
  next
    case (Suc i')
    with Cons.IH [of _ i' j'] Cons.prems j show ?thesis by (auto split: if_splits)
  qed
qed simp

text \<open>Different pages of private areas go to different places.\<close>

lemma page_addr_inj:
  assumes "rst_vmas_ok vs" "laid_out a vs" "\<forall>v \<in> set vs. rv_guard v \<le> rv_start v \<and> rv_start v \<le> rv_end v"
  shows "inj_on (page_addr vs) {va. in_priv vs va}"
proof (rule linorder_inj_onI)
  fix x y
  assume lt: "x < y" and xy: "x \<in> {va. in_priv vs va}" "y \<in> {va. in_priv vs va}"
  from xy obtain i j where ij: "i < length vs" "rv_contains (vs ! i) x" "vma_priv (rv_vma (vs ! i))"
      "j < length vs" "rv_contains (vs ! j) y" "vma_priv (rv_vma (vs ! j))"
    by (auto simp: in_priv_def in_set_conv_nth)
  have px: "page_addr vs x = x - rv_start (vs ! i) + premmaped_addr (vs ! i)"
    using find_nth_contains [OF assms(1) ij(1,2)] by (simp add: page_addr_def)
  have py: "page_addr vs y = y - rv_start (vs ! j) + premmaped_addr (vs ! j)"
    using find_nth_contains [OF assms(1) ij(4,5)] by (simp add: page_addr_def)
  have le: "i \<le> j" using rv_contains_unique [OF assms(1) ij(1,4,2,5)] lt by simp
  show "page_addr vs x \<noteq> page_addr vs y"
  proof (cases "i = j")
    case True
    with px py lt ij(2,5) show ?thesis by (auto simp: rv_contains_def)
  next
    case False
    then have "premmaped_addr (vs ! i) + (rv_end (vs ! i) - rv_start (vs ! i)) \<le> premmaped_addr (vs ! j)"
      using laid_out_disjoint [OF assms(2) _ ij(4,3,6) assms(3)] le by simp
    with px py ij(2) show ?thesis by (auto simp: rv_contains_def)
  qed
qed auto

section \<open>The whole restore of private memory\<close>

lemma in_priv_vma:
  "in_priv vs va \<longleftrightarrow> (\<exists>w \<in> set (map rv_vma vs). vma_start w \<le> va \<and> va < vma_end w \<and> vma_priv w)"
  by (auto simp: in_priv_def rv_contains_def rv_start_def rv_end_def)

lemma rst_vmas_ok_vma:
  "rst_vmas_ok vs \<longleftrightarrow> sorted_wrt (\<lambda>a b. vma_end a \<le> vma_start b) (map rv_vma vs)
     \<and> (\<forall>w \<in> set (map rv_vma vs). PAGE_SIZE dvd vma_start w)"
  by (simp add: rst_vmas_ok_def sorted_wrt_map rv_start_def rv_end_def)

lemma read_vmas_all: "\<exists>priv. read_vmas (map (\<lambda>v. Some (-1, v)) vs) = (0, vs, priv)"
proof (induction vs)
  case (Cons v vs)
  then obtain priv where "read_vmas (map (\<lambda>v. Some (-1, v)) vs) = (0, vs, priv)" by blast
  then show ?case by simp
qed simp

lemma fresh_sorted:
  assumes "rst_vmas_ok vs" "\<forall>v \<in> set vs. rv_start v \<le> rv_end v"
  shows "sorted (map rv_start vs)"
proof -
  have "sorted_wrt (\<lambda>a b. rv_end a \<le> rv_start b) vs" using assms(1) by (simp add: rst_vmas_ok_def)
  then have "sorted_wrt (\<lambda>a b. rv_start a \<le> rv_start b) vs"
    by (rule sorted_wrt_mono_rel [rotated]) (use assms(2) le_trans in blast)
  then show ?thesis by (simp add: sorted_map)
qed

lemma guard_bounds:
  assumes "map rv_vma vs' = map rv_vma vs" "map rv_flags vs' = map rv_flags vs" "\<forall>v \<in> set vs. rv_fresh v"
  shows "\<forall>v \<in> set vs'. rv_guard v \<le> rv_start v \<and> rv_start v \<le> rv_end v"
proof
  fix v
  assume "v \<in> set vs'"
  then obtain i where i: "i < length vs'" "v = vs' ! i" by (auto simp: in_set_conv_nth)
  have l: "length vs' = length vs" using assms(1) map_eq_imp_length_eq by blast
  have "rv_vma (vs' ! i) = rv_vma (vs ! i)" "rv_flags (vs' ! i) = rv_flags (vs ! i)"
    using arg_cong [OF assms(1), of "\<lambda>x. x ! i"] arg_cong [OF assms(2), of "\<lambda>x. x ! i"] i(1) l by simp_all
  moreover have "rv_fresh (vs ! i)" using assms(3) i(1) l by simp
  ultimately show "rv_guard v \<le> rv_start v \<and> rv_start v \<le> rv_end v"
    using i(2) by (simp add: rv_fresh_def rv_guard_def growsdown_def rv_start_def rv_end_def)
qed

lemma prepare_mappings_ok:
  assumes "map_env_ok E" "me_reserve E = Some addr" "old \<longrightarrow> me_munmap E"
    and "\<forall>v \<in> set vs. rv_fresh v \<and> rv_size v < 2 ^ 31" "rst_vmas_ok vs" "fs_snaps f ss" "chain_ok ss"
    and "pages = concat (map pe_pages (fst (hd ss)))" "\<forall>a \<in> set pages. in_priv vs a \<and> snap_page ss a \<noteq> None"
  shows "\<exists>vs' mem'. prepare_mappings E madv fresh (Img (map (\<lambda>v. Some (-1, v)) vs)) (open_page_read_at f) pvs old mem = Inr (0, vs', mem')
     \<and> map rv_vma vs' = map rv_vma vs \<and> inj_on (page_addr vs') {va. in_priv vs' va}
     \<and> (\<forall>va \<in> set pages. mem' (page_addr vs' va) = the (snap_page ss va))"
proof -
  obtain priv where rd: "read_vmas (map (\<lambda>v. Some (-1, v)) vs) = (0, vs, priv)" using read_vmas_all by blast
  have fr: "\<forall>v \<in> set vs. rv_fresh v" "\<forall>v \<in> set vs. rv_start v \<le> rv_end v" using assms(4) by (auto simp: rv_fresh_def)
  have "\<forall>v \<in> set vs. 0 \<le> rv_start v" by simp
  from map_vmas_layout [OF assms(1,4) fresh_sorted [OF assms(5) fr(2)] this, of addr 0 pvs mem] obtain vs1 mem1 where
    m: "map_vmas E vs addr 0 0 pvs mem = Inr (0, vs1, mem1)" "laid_out addr vs1" "map rv_vma vs1 = map rv_vma vs"
       "map rv_flags vs1 = map rv_flags vs" "\<forall>v \<in> set vs1. ppage_bitmap v = None"
    by blast
  have ok1: "rst_vmas_ok vs1" and ip1: "\<And>va. in_priv vs1 va = in_priv vs va"
    using assms(5) by (simp_all add: rst_vmas_ok_vma in_priv_vma m(3))
  have "\<forall>a \<in> set pages. in_priv vs1 a \<and> snap_page ss a \<noteq> None" using assms(9) ip1 by simp
  from restore_priv_vma_content_ok [OF assms(6,7) ok1 m(5) assms(8) this, of madv fresh mem1] obtain vs2 where
    r: "restore_priv_vma_content madv fresh (open_page_read_at f) vs1 mem1 = Inr (0, vs2, fill ss vs1 pages mem1)"
       "map rv_geom vs2 = map rv_geom vs1"
    by blast
  have v2: "map rv_vma vs2 = map rv_vma vs1"
    using arg_cong [OF r(2), of "map fst"] by (simp add: rv_geom_def o_def)
  have inj: "inj_on (page_addr vs1) {va. in_priv vs1 va}"
    by (rule page_addr_inj [OF ok1 m(2) guard_bounds [OF m(3,4) fr(1)]])
  have pa: "page_addr vs2 = page_addr vs1" using page_addr_geom [OF r(2)] by blast
  have ip2: "\<And>va. in_priv vs2 va = in_priv vs1 va" by (simp add: in_priv_vma v2)
  have "\<forall>va \<in> set pages. fill ss vs1 pages mem1 (page_addr vs1 va) = the (snap_page ss va)"
    using fill_page [of vs1 pages _ ss mem1] inj_on_subset [OF inj] assms(9) ip1 by blast
  moreover have "prepare_mappings E madv fresh (Img (map (\<lambda>v. Some (-1, v)) vs)) (open_page_read_at f) pvs old mem
      = Inr (0, vs2, fill ss vs1 pages mem1)"
    using rd m(1) r(1) assms(2,3) by (simp add: prepare_mappings_def Let_def)
  ultimately show ?thesis using v2 m(3) inj pa ip2 by (intro exI [of _ vs2] exI [of _ "fill ss vs1 pages mem1"]) simp
qed

section \<open>Properties\<close>

text \<open>C4: Restoring private memory. From the images of a readable chain, into freshly read,
  sorted, page aligned areas of less than 2 GiB each, with every mapping succeeding and
  every page of the newest pagemap lying in a private area and found in the chain, the
  restore returns 0; different addresses of private areas are mapped to different places,
  and the place of each page of the pagemap holds the bytes that the chain has for it.\<close>

theorem restore_private_memory:
  assumes "map_env_ok E" "me_reserve E = Some addr" "old \<longrightarrow> me_munmap E"
    and "\<forall>v \<in> set vs. rv_fresh v \<and> rv_size v < 2 ^ 31" "rst_vmas_ok vs" "fs_snaps f ss" "chain_ok ss"
    and "\<forall>a \<in> set (concat (map pe_pages (fst (hd ss)))). in_priv vs a \<and> snap_page ss a \<noteq> None"
  shows "\<exists>vs' mem'. prepare_mappings E madv fresh (Img (map (\<lambda>v. Some (-1, v)) vs)) (open_page_read_at f) pvs old mem = Inr (0, vs', mem')
     \<and> map rv_vma vs' = map rv_vma vs \<and> inj_on (page_addr vs') {va. in_priv vs' va}
     \<and> (\<forall>va \<in> set (concat (map pe_pages (fst (hd ss)))). mem' (page_addr vs' va) = the (snap_page ss va))"
  by (rule prepare_mappings_ok [OF assms(1-7) refl assms(8)])

definition ex_rst_vma :: rst_vma where
  "ex_rst_vma = \<lparr>rv_vma = \<lparr>vma_start = 4096, vma_end = 12288, vma_prot = 3, vma_status = VMA_AREA_REGULAR OR VMA_ANON_PRIVATE\<rparr>,
     rv_flags = MAP_ANONYMOUS, rv_shmid = 0, page_bitmap = [], ppage_bitmap = None, premmaped_addr = 0\<rparr>"

definition ex_map_env :: map_env where
  "ex_map_env = \<lparr>me_filemap_fd = (\<lambda>_. 0), me_bitmap = (\<lambda>_. True), me_mmap = (\<lambda>_. True), me_mremap = (\<lambda>_. True),
     me_fresh = (\<lambda>_ _. replicate PAGE_SIZE 0), me_reserve = Some 1048576, me_munmap = True\<rparr>"

lemma ex_rst_facts:
  "vma_priv (rv_vma ex_rst_vma)" "rv_fresh ex_rst_vma" "rv_size ex_rst_vma = 8192" "rst_vmas_ok [ex_rst_vma]" "map_env_ok ex_map_env"
  by (simp_all add: ex_rst_vma_def vma_priv_def vma_entry_is_def VMA_AREA_REGULAR_def VMA_ANON_PRIVATE_def VMA_FILE_PRIVATE_def
      rv_fresh_def rv_guard_def growsdown_def rv_start_def rv_end_def rv_size_def rst_vmas_ok_def PAGE_SIZE_def
      MAP_ANONYMOUS_def MAP_GROWSDOWN_def ex_map_env_def map_env_ok_def)

lemma ex_pages: "concat (map pe_pages (fst (hd [ex_new, ex_old]))) = [4096, 8192]"
  by (simp add: ex_new_def pe_pages_def page_range_def PAGE_SIZE_def)

theorem restore_private_memory_witness:
  "\<exists>vs' mem'. prepare_mappings ex_map_env (\<lambda>_. True) (\<lambda>_. []) (Img [Some (-1, ex_rst_vma)]) (open_page_read_at ex_fs) [] False (\<lambda>_. [])
       = Inr (0, vs', mem')
     \<and> mem' (page_addr vs' 4096) = replicate PAGE_SIZE 1 \<and> mem' (page_addr vs' 8192) = replicate PAGE_SIZE 3"
proof -
  have "me_reserve ex_map_env = Some 1048576" "False \<longrightarrow> me_munmap ex_map_env"
    "\<forall>v \<in> set [ex_rst_vma]. rv_fresh v \<and> rv_size v < 2 ^ 31"
    by (simp_all add: ex_map_env_def ex_rst_facts)
  moreover have "\<forall>a \<in> set (concat (map pe_pages (fst (hd [ex_new, ex_old])))). in_priv [ex_rst_vma] a \<and> snap_page [ex_new, ex_old] a \<noteq> None"
    unfolding ex_pages using ex_rst_facts(1)
    by (simp add: ex_snap_page in_priv_def rv_contains_def) (simp add: ex_rst_vma_def rv_start_def rv_end_def)
  ultimately show ?thesis
    using restore_private_memory [OF ex_rst_facts(5) _ _ _ ex_rst_facts(4) ex_fs_snaps ex_chain_ok, of 1048576 False "\<lambda>_. True" "\<lambda>_. []" "[]" "\<lambda>_. []"]
    unfolding ex_pages by (auto simp: ex_snap_page)
qed

text \<open>C21: The size of a mapped area comes back as an int. Take a private area of 4 GiB and one below 2 GiB
  after it, neither growing down, on a system whose calls succeed. The first counts as 0 bytes, so
  the second is mapped over it, at the same address: there the memory has the fresh contents of the second area, and
  only behind its end those of the first.\<close>

theorem four_gib_area_overlaps:
  assumes "map_env_ok E" "rv_fresh v" "rv_fresh w" "vma_priv (rv_vma v)" "vma_priv (rv_vma w)"
    and "rv_size v = 2 ^ 32" "rv_size w < 2 ^ 31" "rv_start v \<le> rv_start w" "\<not> growsdown v" "\<not> growsdown w"
  shows "\<exists>v' w' mem'. map_vmas E [v, w] addr 0 0 pvs mem = Inr (0, [v', w'], mem')
     \<and> premmaped_addr v' = addr \<and> premmaped_addr w' = addr
     \<and> (\<forall>off < rv_size w. mem' (addr + off) = me_fresh E (rv_start w) off)
     \<and> (\<forall>off. rv_size w \<le> off \<and> off < rv_size v \<longrightarrow> mem' (addr + off) = me_fresh E (rv_start v) off)"
proof -
  have z: "int_of_ulong (rv_size v) = 0" unfolding assms(6) int_of_ulong_def by (simp add: signed_take_bit_def)
  have g: "rv_guard v = 0" "rv_guard w = 0" using assms(9,10) by (simp_all add: rv_guard_def)
  obtain p where m1: "map_private_vma E v addr 0 pvs mem = Inr (0, p,
      v\<lparr>page_bitmap := replicate ((rv_end v - rv_start v) div PAGE_SIZE) False, premmaped_addr := addr\<rparr>, fresh_map E (rv_start v) addr (rv_size v) mem)"
    using map_private_vma_fresh [OF assms(1,2), of addr 0 pvs mem] z g by auto
  obtain q where m2: "map_private_vma E w addr p pvs (fresh_map E (rv_start v) addr (rv_size v) mem) = Inr (int (rv_size w), q,
      w\<lparr>page_bitmap := replicate ((rv_end w - rv_start w) div PAGE_SIZE) False, premmaped_addr := addr\<rparr>,
      fresh_map E (rv_start w) addr (rv_size w) (fresh_map E (rv_start v) addr (rv_size v) mem))"
    using map_private_vma_fresh [OF assms(1,3), of addr p pvs "fresh_map E (rv_start v) addr (rv_size v) mem"]
      int_of_ulong_small [OF assms(7)] g by auto
  show ?thesis using m1 m2 assms(4,5,8) by (simp add: fresh_map_def)
qed

theorem four_gib_area_overlaps_witness:
  "\<exists>v' w' mem'. map_vmas ex_map_env [ex_rst_vma\<lparr>rv_vma := (rv_vma ex_rst_vma)\<lparr>vma_end := 4096 + 2 ^ 32\<rparr>\<rparr>,
       ex_rst_vma\<lparr>rv_vma := (rv_vma ex_rst_vma)\<lparr>vma_start := 2 ^ 33, vma_end := 2 ^ 33 + 4096\<rparr>\<rparr>] 1048576 0 0 [] (\<lambda>_. []) = Inr (0, [v', w'], mem')
     \<and> premmaped_addr v' = 1048576 \<and> premmaped_addr w' = 1048576 \<and> mem' 1048576 = me_fresh ex_map_env (2 ^ 33) 0"
proof -
  let ?v = "ex_rst_vma\<lparr>rv_vma := (rv_vma ex_rst_vma)\<lparr>vma_end := 4096 + 2 ^ 32\<rparr>\<rparr>"
  let ?w = "ex_rst_vma\<lparr>rv_vma := (rv_vma ex_rst_vma)\<lparr>vma_start := 2 ^ 33, vma_end := 2 ^ 33 + 4096\<rparr>\<rparr>"
  have "rv_fresh ?v" "rv_fresh ?w" "vma_priv (rv_vma ?v)" "vma_priv (rv_vma ?w)" "rv_size ?v = 2 ^ 32" "rv_size ?w < 2 ^ 31"
    "rv_start ?v \<le> rv_start ?w" "\<not> growsdown ?v" "\<not> growsdown ?w"
    by (simp_all add: ex_rst_vma_def vma_priv_def vma_entry_is_def VMA_AREA_REGULAR_def VMA_ANON_PRIVATE_def VMA_FILE_PRIVATE_def
      rv_fresh_def rv_guard_def growsdown_def rv_start_def rv_end_def rv_size_def PAGE_SIZE_def MAP_ANONYMOUS_def MAP_GROWSDOWN_def)
  from four_gib_area_overlaps [OF ex_rst_facts(5) this, of 1048576 "[]" "\<lambda>_. []"] obtain v' w' mem' where
    r: "map_vmas ex_map_env [?v, ?w] 1048576 0 0 [] (\<lambda>_. []) = Inr (0, [v', w'], mem')" "premmaped_addr v' = 1048576" "premmaped_addr w' = 1048576"
      "\<forall>off < rv_size ?w. mem' (1048576 + off) = me_fresh ex_map_env (rv_start ?w) off"
    by blast
  have "rv_size ?w = 4096" "rv_start ?w = 2 ^ 33"
    by (simp_all add: ex_rst_vma_def rv_size_def rv_start_def rv_end_def rv_guard_def growsdown_def MAP_GROWSDOWN_def MAP_ANONYMOUS_def)
  with r(4) have "mem' 1048576 = me_fresh ex_map_env (2 ^ 33) 0"
    by (metis add_0_right zero_less_numeral)
  with r(1-3) show ?thesis by blast
qed

text \<open>C22: Memory is never inherited from the parent: the search through the parent's areas may find
  the same area, but the address it then takes is that of the area being mapped, which is
  still unset, so a fresh mapping is made and no parent bitmap is kept.\<close>

theorem cow_never_inherits:
  assumes "map_env_ok E" "rv_fresh v"
  shows "\<exists>ret p v'. map_private_vma E v tgt pvma pvs mem = Inr (ret, p, v', fresh_map E (rv_start v) tgt (rv_size v) mem)
     \<and> p = fst (cow_scan pvs v pvma False) \<and> ppage_bitmap v' = None"
proof -
  obtain p found where c: "cow_scan pvs v pvma False = (p, found)" by fastforce
  moreover have "\<not> me_filemap_fd E (rv_start v) < 0" "me_bitmap E (rv_start v)" "me_mmap E (rv_start v)"
    using assms(1) by (auto simp: map_env_ok_def not_less)
  ultimately show ?thesis
    using assms(2) by (auto simp: map_private_vma_def Let_def rv_fresh_def rv_size_def rv_guard_def)
qed

theorem cow_never_inherits_witness:
  "snd (cow_scan [ex_rst_vma\<lparr>premmaped_addr := 8388608\<rparr>] ex_rst_vma 0 False)
   \<and> (\<exists>ret p v'. map_private_vma ex_map_env ex_rst_vma 1048576 0 [ex_rst_vma\<lparr>premmaped_addr := 8388608\<rparr>] (\<lambda>_. [])
        = Inr (ret, p, v', fresh_map ex_map_env (rv_start ex_rst_vma) 1048576 (rv_size ex_rst_vma) (\<lambda>_. [])) \<and> ppage_bitmap v' = None)"
proof -
  have "snd (cow_scan [ex_rst_vma\<lparr>premmaped_addr := 8388608\<rparr>] ex_rst_vma 0 False)"
    using ex_rst_facts(1)
    by (subst cow_scan.simps, subst cow_scan.simps) (simp add: rv_start_def rv_end_def Let_def, simp add: ex_rst_vma_def MAP_ANONYMOUS_def, subst cow_scan.simps, simp)
  with cow_never_inherits [OF ex_rst_facts(5,2), of 1048576 0 "[ex_rst_vma\<lparr>premmaped_addr := 8388608\<rparr>]" "\<lambda>_. []"] show ?thesis by blast
qed

end
