(* ===== verification/StrLib.thy ===== *)
theory StrLib
  imports Prelude
begin

text \<open>
  The string helpers of string.c. A character array is a list of characters of the size of
  the array; a string in it ends at the first NUL. Sizes are \<^verbatim>\<open>size_t\<close>, 64 bits.
\<close>

section \<open>Operations\<close>

definition NUL :: char where
  "NUL = CHR 0x00"

definition cstr :: "char list \<Rightarrow> string" where
  "cstr buf = takeWhile (\<lambda>c. c \<noteq> NUL) buf"

definition has_nul :: "char list \<Rightarrow> bool" where
  "has_nul buf \<longleftrightarrow> NUL \<in> set buf"

text \<open>\<^verbatim>\<open>strlen\<close> runs off an array without a NUL.\<close>

definition strlen :: "char list \<Rightarrow> u64 outcome" where
  "strlen buf = (if has_nul buf then Inr (word_of_nat (length (cstr buf))) else Inl UB)"

text \<open>\<^verbatim>\<open>memcpy(dest + at, src, n)\<close> followed by \<^verbatim>\<open>dest[at + n] = 0\<close>.\<close>

definition copy_term :: "char list \<Rightarrow> nat \<Rightarrow> char list \<Rightarrow> nat \<Rightarrow> char list outcome" where
  "copy_term dest at src n =
     (if length src < n \<or> length dest \<le> at + n then Inl UB
      else Inr (take at dest @ take n src @ [NUL] @ drop (at + n + 1) dest))"

definition strlcpy :: "char list \<Rightarrow> char list \<Rightarrow> u64 \<Rightarrow> (u64 \<times> char list) outcome" where
  "strlcpy dest src sz =
     bindF (strlen src) (\<lambda>ret.
       if sz \<noteq> 0 then
         (let len = (if sz \<le> ret then sz - 1 else ret) in
          bindF (copy_term dest 0 src (unat len)) (\<lambda>dest1. Inr (ret, dest1)))
       else Inr (ret, dest))"

definition strlcat :: "char list \<Rightarrow> char list \<Rightarrow> u64 \<Rightarrow> (u64 \<times> char list) outcome" where
  "strlcat dest src count =
     bindF (strlen dest) (\<lambda>dsize.
     bindF (strlen src) (\<lambda>len.
       (let res = dsize + len;
            count1 = count - dsize;
            len1 = (if count1 \<le> len then count1 - 1 else len) in
        bindF (copy_term dest (unat dsize) src (unat len1)) (\<lambda>dest1. Inr (res, dest1)))))"

section \<open>Lemmas\<close>

text \<open>An array of a size that exists.\<close>

definition cbuf_ok :: "char list \<Rightarrow> bool" where
  "cbuf_ok buf \<longleftrightarrow> has_nul buf \<and> length buf < 2 ^ 63"

lemma cstr_length: "has_nul buf \<Longrightarrow> length (cstr buf) < length buf"
proof (induction buf)
  case (Cons c buf)
  then show ?case by (cases "c = NUL") (auto simp: has_nul_def cstr_def)
qed (simp add: has_nul_def)

lemma cstr_prefix: "take (length (cstr buf)) buf = cstr buf"
  unfolding cstr_def by (rule takeWhile_eq_take [symmetric])

lemma cstr_no_nul: "NUL \<notin> set (cstr buf)"
  by (auto simp: cstr_def dest: set_takeWhileD)

lemma cstr_take_src:
  "n \<le> length (cstr buf) \<Longrightarrow> take n buf = take n (cstr buf)"
  by (metis cstr_prefix min.absorb1 take_take)

lemma cstr_terminated:
  "NUL \<notin> set s \<Longrightarrow> cstr (s @ NUL # r) = s"
  unfolding cstr_def by (induction s) auto

lemma strlen_ok:
  assumes "cbuf_ok buf"
  shows "strlen buf = Inr (word_of_nat (length (cstr buf)))" "unat (word_of_nat (length (cstr buf)) :: u64) = length (cstr buf)"
proof -
  show "strlen buf = Inr (word_of_nat (length (cstr buf)))" using assms by (simp add: strlen_def cbuf_ok_def)
  have "length (cstr buf) < 2 ^ 64" using cstr_length [of buf] assms by (simp add: cbuf_ok_def)
  then show "unat (word_of_nat (length (cstr buf)) :: u64) = length (cstr buf)" by (simp add: unat_of_nat)
qed

lemma copy_term_string:
  assumes "n \<le> length (cstr src)" "at \<le> length (cstr dest)" "at + n < length dest"
  shows "\<exists>dest'. copy_term dest at src n = Inr dest' \<and> length dest' = length dest
     \<and> cstr dest' = take at (cstr dest) @ take n (cstr src) \<and> has_nul dest'"
proof -
  have "length (cstr src) \<le> length src" unfolding cstr_def by (rule length_takeWhile_le)
  then have src: "take n src = take n (cstr src)" "n \<le> length src"
    using assms(1) cstr_take_src [OF assms(1)] by simp_all
  have dest: "take at dest = take at (cstr dest)" using assms(2) by (rule cstr_take_src)
  let ?d = "take at (cstr dest) @ take n (cstr src) @ [NUL] @ drop (at + n + 1) dest"
  have "copy_term dest at src n = Inr ?d" using assms(3) src dest by (simp add: copy_term_def)
  moreover have "cstr ?d = take at (cstr dest) @ take n (cstr src)"
    using cstr_terminated [of "take at (cstr dest) @ take n (cstr src)" "drop (at + n + 1) dest"]
      cstr_no_nul [of dest] cstr_no_nul [of src] by (auto dest: in_set_takeD)
  moreover have "length ?d = length dest" using assms by simp
  ultimately show ?thesis by (auto simp: has_nul_def)
qed

lemma unat_pred: "(w :: u64) \<noteq> 0 \<Longrightarrow> unat (w - 1) = unat w - 1"
  by (simp add: unat_minus_one)

lemma clip_len:
  fixes w l :: u64
  assumes "w \<noteq> 0"
  shows "unat (if w \<le> l then w - 1 else l) = min (unat w - 1) (unat l)"
  using unat_pred [OF assms] assms by (simp add: word_le_nat_alt unat_gt_0)

section \<open>Properties\<close>

text \<open>C18: strlcpy into an array of at least the given non-zero size never writes outside
  the array, leaves the longest prefix of the source that fits together with a NUL as a
  terminated string, and returns the length of the source, so that a result not below the
  size tells that the copy was cut.\<close>

theorem strlcpy_correct:
  assumes "cbuf_ok src" "sz \<noteq> 0" "unat sz \<le> length dest"
  shows "\<exists>dest'. strlcpy dest src sz = Inr (word_of_nat (length (cstr src)), dest')
     \<and> length dest' = length dest \<and> has_nul dest'
     \<and> cstr dest' = take (unat sz - 1) (cstr src)
     \<and> (cstr dest' = cstr src \<longleftrightarrow> length (cstr src) < unat sz)"
proof -
  let ?r = "word_of_nat (length (cstr src)) :: u64"
  let ?n = "unat (if sz \<le> ?r then sz - 1 else ?r)"
  have sz: "0 < unat sz" using assms(2) by (simp add: unat_gt_0)
  have n: "?n = min (unat sz - 1) (length (cstr src))"
    using clip_len [OF assms(2), of ?r] unfolding strlen_ok(2) [OF assms(1)] .
  have lt: "0 + ?n < length dest" using n sz assms(3) by (simp add: min_less_iff_disj) linarith
  have "?n \<le> length (cstr src)" unfolding n by simp
  from copy_term_string [OF this _ lt]
  obtain d where d: "copy_term dest 0 src ?n = Inr d" "length d = length dest"
      "cstr d = take ?n (cstr src)" "has_nul d"
    by auto
  have c: "cstr d = take (unat sz - 1) (cstr src)"
    unfolding d(3) n by (simp add: min_def)
  have "strlcpy dest src sz = Inr (?r, d)"
    using d(1) assms(2) strlen_ok(1) [OF assms(1)] by (simp add: strlcpy_def Let_def bindF_simps)
  moreover have "take (unat sz - 1) (cstr src) = cstr src \<longleftrightarrow> length (cstr src) < unat sz"
    using sz by (auto simp: take_all_iff)
  ultimately show ?thesis using c d(2,4) by metis
qed

theorem strlcpy_correct_witness:
  "cstr [CHR ''a'', CHR ''b'', CHR ''c'', NUL] = ''abc''
   \<and> (\<exists>dest'. strlcpy [NUL, NUL, NUL] [CHR ''a'', CHR ''b'', CHR ''c'', NUL] 3
          = Inr (3, dest') \<and> cstr dest' = ''ab'')"
proof -
  have s: "cstr [CHR ''a'', CHR ''b'', CHR ''c'', NUL] = ''abc''" by (simp add: cstr_def NUL_def)
  have "cbuf_ok [CHR ''a'', CHR ''b'', CHR ''c'', NUL]" by (simp add: cbuf_ok_def has_nul_def)
  then show ?thesis
    using s strlcpy_correct [of "[CHR ''a'', CHR ''b'', CHR ''c'', NUL]" 3 "[NUL, NUL, NUL]"] by auto
qed

text \<open>strlcat, called as its comment asks with a terminated string strictly shorter than
  the count and an array of at least that count, never writes outside the array, appends the
  longest prefix of the source that fits, terminates the result and returns the length of the
  untruncated concatenation.\<close>

theorem strlcat_correct:
  assumes "cbuf_ok src" "cbuf_ok dest" "length (cstr dest) < unat count" "unat count \<le> length dest"
  shows "\<exists>dest'. strlcat dest src count = Inr (word_of_nat (length (cstr dest) + length (cstr src)), dest')
     \<and> length dest' = length dest \<and> has_nul dest'
     \<and> cstr dest' = take (unat count - 1) (cstr dest @ cstr src)"
proof -
  let ?d = "word_of_nat (length (cstr dest)) :: u64" and ?l = "word_of_nat (length (cstr src)) :: u64"
  let ?n = "unat (if count - ?d \<le> ?l then count - ?d - 1 else ?l)"
  note ud = strlen_ok(2) [OF assms(2)] and ul = strlen_ok(2) [OF assms(1)]
  have le: "?d \<le> count" using assms(3) ud by (simp add: word_le_nat_alt)
  have c: "unat (count - ?d) = unat count - length (cstr dest)"
    using unat_sub [OF le] ud by simp
  have "0 < unat (count - ?d)" unfolding c using assms(3) by simp
  then have nz: "count - ?d \<noteq> 0" by (simp only: unat_gt_0 simp_thms)
  have n: "?n = min (unat count - length (cstr dest) - 1) (length (cstr src))"
    using clip_len [OF nz, of ?l] unfolding c ul .
  have lt: "unat ?d + ?n < length dest" unfolding n ud using assms(3,4) by linarith
  have "?n \<le> length (cstr src)" unfolding n by simp
  from copy_term_string [OF this eq_imp_le [OF ud] lt] ud
  obtain e where e: "copy_term dest (unat ?d) src ?n = Inr e" "length e = length dest"
      "cstr e = cstr dest @ take ?n (cstr src)" "has_nul e"
    by (metis take_all_iff order_refl)
  have "strlcat dest src count = Inr (?d + ?l, e)"
    using e(1) strlen_ok(1) [OF assms(1)] strlen_ok(1) [OF assms(2)]
    by (simp add: strlcat_def Let_def bindF_simps)
  moreover have "cstr e = take (unat count - 1) (cstr dest @ cstr src)"
    unfolding e(3) n using assms(3) by (simp add: min_def)
  ultimately show ?thesis unfolding of_nat_add using e(2,4) by blast
qed

theorem strlcat_correct_witness:
  "\<exists>dest'. strlcat [CHR ''x'', NUL, NUL, NUL] [CHR ''a'', CHR ''b'', CHR ''c'', NUL] 4 = Inr (4, dest')
     \<and> cstr dest' = ''xab''"
proof -
  have s: "cstr [CHR ''a'', CHR ''b'', CHR ''c'', NUL] = ''abc''" "cstr [CHR ''x'', NUL, NUL, NUL] = ''x''"
    by (simp_all add: cstr_def NUL_def)
  have "cbuf_ok [CHR ''a'', CHR ''b'', CHR ''c'', NUL]" "cbuf_ok [CHR ''x'', NUL, NUL, NUL]"
    by (simp_all add: cbuf_ok_def has_nul_def)
  then show ?thesis
    using s strlcat_correct [of "[CHR ''a'', CHR ''b'', CHR ''c'', NUL]" "[CHR ''x'', NUL, NUL, NUL]" 4] by auto
qed

end
