(* ===== verification/ListHead.thy ===== *)
theory ListHead
  imports Prelude
begin

text \<open>
  include/list.h: the circular doubly linked lists that link nearly every object of the
  program, and the singly headed hash lists.

  The memory of the list heads is a pair of fields \<^verbatim>\<open>next\<close> and \<^verbatim>\<open>prev\<close> for every address;
  an operation is the sequence of its assignments, in the order of the source, so that
  aliasing (an empty list, whose head is its own neighbour) is that of the code. The
  predicate \<open>is_list\<close> relates the memory to the sequence of entries; each operation is shown
  to refine the operation on sequences.
\<close>

section \<open>Memory\<close>

record list_heap =
  l_next :: "nat \<Rightarrow> nat"
  l_prev :: "nat \<Rightarrow> nat"

definition set_next :: "nat \<Rightarrow> nat \<Rightarrow> list_heap \<Rightarrow> list_heap" where
  "set_next a v h = h\<lparr>l_next := (l_next h)(a := v)\<rparr>"

definition set_prev :: "nat \<Rightarrow> nat \<Rightarrow> list_heap \<Rightarrow> list_heap" where
  "set_prev a v h = h\<lparr>l_prev := (l_prev h)(a := v)\<rparr>"

definition LIST_POISON1 :: nat where
  "LIST_POISON1 = 0x00100100"

definition LIST_POISON2 :: nat where
  "LIST_POISON2 = 0x00200200"

section \<open>Operations\<close>

definition INIT_LIST_HEAD :: "nat \<Rightarrow> list_heap \<Rightarrow> list_heap" where
  "INIT_LIST_HEAD list h = (let h = set_next list list h in set_prev list list h)"

definition raw_list_add :: "nat \<Rightarrow> nat \<Rightarrow> nat \<Rightarrow> list_heap \<Rightarrow> list_heap" where
  "raw_list_add new prev next h =
     (let h = set_prev next new h;
          h = set_next new next h;
          h = set_prev new prev h
      in set_next prev new h)"

definition list_add :: "nat \<Rightarrow> nat \<Rightarrow> list_heap \<Rightarrow> list_heap" where
  "list_add new head h = raw_list_add new head (l_next h head) h"

definition list_add_tail :: "nat \<Rightarrow> nat \<Rightarrow> list_heap \<Rightarrow> list_heap" where
  "list_add_tail new head h = raw_list_add new (l_prev h head) head h"

definition raw_list_del :: "nat \<Rightarrow> nat \<Rightarrow> list_heap \<Rightarrow> list_heap" where
  "raw_list_del prev next h = (let h = set_prev next prev h in set_next prev next h)"

definition list_del_entry :: "nat \<Rightarrow> list_heap \<Rightarrow> list_heap" where
  "list_del_entry entry h = raw_list_del (l_prev h entry) (l_next h entry) h"

definition list_del :: "nat \<Rightarrow> list_heap \<Rightarrow> list_heap" where
  "list_del entry h =
     (let h = raw_list_del (l_prev h entry) (l_next h entry) h;
          h = set_next entry LIST_POISON1 h
      in set_prev entry LIST_POISON2 h)"

definition list_replace :: "nat \<Rightarrow> nat \<Rightarrow> list_heap \<Rightarrow> list_heap" where
  "list_replace old new h =
     (let h = set_next new (l_next h old) h;
          h = set_prev (l_next h new) new h;
          h = set_prev new (l_prev h old) h
      in set_next (l_prev h new) new h)"

definition list_replace_init :: "nat \<Rightarrow> nat \<Rightarrow> list_heap \<Rightarrow> list_heap" where
  "list_replace_init old new h = INIT_LIST_HEAD old (list_replace old new h)"

definition list_del_init :: "nat \<Rightarrow> list_heap \<Rightarrow> list_heap" where
  "list_del_init entry h = INIT_LIST_HEAD entry (list_del_entry entry h)"

definition list_move :: "nat \<Rightarrow> nat \<Rightarrow> list_heap \<Rightarrow> list_heap" where
  "list_move list head h = list_add list head (list_del_entry list h)"

definition list_move_tail :: "nat \<Rightarrow> nat \<Rightarrow> list_heap \<Rightarrow> list_heap" where
  "list_move_tail list head h = list_add_tail list head (list_del_entry list h)"

definition list_is_last :: "nat \<Rightarrow> nat \<Rightarrow> list_heap \<Rightarrow> bool" where
  "list_is_last list head h \<longleftrightarrow> l_next h list = head"

definition list_is_first :: "nat \<Rightarrow> nat \<Rightarrow> list_heap \<Rightarrow> bool" where
  "list_is_first list head h \<longleftrightarrow> l_prev h list = head"

definition list_empty :: "nat \<Rightarrow> list_heap \<Rightarrow> bool" where
  "list_empty head h \<longleftrightarrow> l_next h head = head"

definition list_empty_careful :: "nat \<Rightarrow> list_heap \<Rightarrow> bool" where
  "list_empty_careful head h \<longleftrightarrow> (let next = l_next h head in next = head \<and> next = l_prev h head)"

definition list_rotate_left :: "nat \<Rightarrow> list_heap \<Rightarrow> list_heap" where
  "list_rotate_left head h = (if \<not> list_empty head h then list_move_tail (l_next h head) head h else h)"

definition list_is_singular :: "nat \<Rightarrow> list_heap \<Rightarrow> bool" where
  "list_is_singular head h \<longleftrightarrow> \<not> list_empty head h \<and> l_next h head = l_prev h head"

definition raw_list_cut_position :: "nat \<Rightarrow> nat \<Rightarrow> nat \<Rightarrow> list_heap \<Rightarrow> list_heap" where
  "raw_list_cut_position list head entry h =
     (let new_first = l_next h entry;
          h = set_next list (l_next h head) h;
          h = set_prev (l_next h list) list h;
          h = set_prev list entry h;
          h = set_next entry list h;
          h = set_next head new_first h
      in set_prev new_first head h)"

definition list_cut_position :: "nat \<Rightarrow> nat \<Rightarrow> nat \<Rightarrow> list_heap \<Rightarrow> list_heap" where
  "list_cut_position list head entry h =
     (if list_empty head h then h
      else if list_is_singular head h \<and> l_next h head \<noteq> entry \<and> head \<noteq> entry then h
      else if entry = head then INIT_LIST_HEAD list h
      else raw_list_cut_position list head entry h)"

definition raw_list_splice :: "nat \<Rightarrow> nat \<Rightarrow> nat \<Rightarrow> list_heap \<Rightarrow> list_heap" where
  "raw_list_splice list prev next h =
     (let first = l_next h list;
          last = l_prev h list;
          h = set_prev first prev h;
          h = set_next prev first h;
          h = set_next last next h
      in set_prev next last h)"

definition list_splice :: "nat \<Rightarrow> nat \<Rightarrow> list_heap \<Rightarrow> list_heap" where
  "list_splice list head h = (if \<not> list_empty list h then raw_list_splice list head (l_next h head) h else h)"

definition list_splice_tail :: "nat \<Rightarrow> nat \<Rightarrow> list_heap \<Rightarrow> list_heap" where
  "list_splice_tail list head h = (if \<not> list_empty list h then raw_list_splice list (l_prev h head) head h else h)"

definition list_splice_init :: "nat \<Rightarrow> nat \<Rightarrow> list_heap \<Rightarrow> list_heap" where
  "list_splice_init list head h =
     (if \<not> list_empty list h then INIT_LIST_HEAD list (raw_list_splice list head (l_next h head) h) else h)"

definition list_splice_tail_init :: "nat \<Rightarrow> nat \<Rightarrow> list_heap \<Rightarrow> list_heap" where
  "list_splice_tail_init list head h =
     (if \<not> list_empty list h then INIT_LIST_HEAD list (raw_list_splice list (l_prev h head) head h) else h)"

text \<open>
  The loops \<^verbatim>\<open>list_for_each\<close>, \<^verbatim>\<open>list_for_each_prev\<close> and \<^verbatim>\<open>list_for_each_safe\<close> over a body that
  changes a state \<open>'s\<close> and the memory. The first argument bounds the number of rounds; a
  loop that has not reached the head by then is \<open>HANG\<close>.
\<close>

type_synonym 's list_body = "nat \<Rightarrow> 's \<times> list_heap \<Rightarrow> 's \<times> list_heap"

primrec list_for_each :: "nat \<Rightarrow> 's list_body \<Rightarrow> nat \<Rightarrow> nat \<Rightarrow> 's \<times> list_heap \<Rightarrow> ('s \<times> list_heap) outcome" where
  "list_for_each 0 body head pos s = Inl HANG"
| "list_for_each (Suc n) body head pos s =
     (if pos \<noteq> head then (let s = body pos s in list_for_each n body head (l_next (snd s) pos) s) else Inr s)"

primrec list_for_each_prev :: "nat \<Rightarrow> 's list_body \<Rightarrow> nat \<Rightarrow> nat \<Rightarrow> 's \<times> list_heap \<Rightarrow> ('s \<times> list_heap) outcome" where
  "list_for_each_prev 0 body head pos s = Inl HANG"
| "list_for_each_prev (Suc n) body head pos s =
     (if pos \<noteq> head then (let s = body pos s in list_for_each_prev n body head (l_prev (snd s) pos) s) else Inr s)"

primrec list_for_each_safe :: "nat \<Rightarrow> 's list_body \<Rightarrow> nat \<Rightarrow> nat \<Rightarrow> nat \<Rightarrow> 's \<times> list_heap \<Rightarrow> ('s \<times> list_heap) outcome" where
  "list_for_each_safe 0 body head pos n s = Inl HANG"
| "list_for_each_safe (Suc k) body head pos n s =
     (if pos \<noteq> head then (let s = body pos s in list_for_each_safe k body head n (l_next (snd s) n) s) else Inr s)"

section \<open>Lists in memory\<close>

text \<open>From \<open>a\<close> over the entries \<open>xs\<close> to \<open>b\<close>, linked in both directions.\<close>

fun chain :: "list_heap \<Rightarrow> nat \<Rightarrow> nat list \<Rightarrow> nat \<Rightarrow> bool" where
  "chain h a [] b \<longleftrightarrow> l_next h a = b \<and> l_prev h b = a"
| "chain h a (x # xs) b \<longleftrightarrow> l_next h a = x \<and> l_prev h x = a \<and> chain h x xs b"

definition is_list :: "list_heap \<Rightarrow> nat \<Rightarrow> nat list \<Rightarrow> bool" where
  "is_list h head xs \<longleftrightarrow> distinct (head # xs) \<and> chain h head xs head"

named_theorems list_upd \<open>reading a field after an assignment\<close>

lemma set_fields [list_upd, simp]:
  "l_next (set_next a v h) x = (if x = a then v else l_next h x)" "l_prev (set_next a v h) x = l_prev h x"
  "l_prev (set_prev a v h) x = (if x = a then v else l_prev h x)" "l_next (set_prev a v h) x = l_next h x"
  by (simp_all add: set_next_def set_prev_def)

lemmas list_prims = raw_list_add_def raw_list_del_def raw_list_splice_def raw_list_cut_position_def list_replace_def
  INIT_LIST_HEAD_def Let_def

lemma chain_cong:
  assumes "\<forall>x \<in> insert a (set xs). l_next h' x = l_next h x" "\<forall>x \<in> insert b (set xs). l_prev h' x = l_prev h x"
  shows "chain h' a xs b \<longleftrightarrow> chain h a xs b"
  using assms by (induction xs arbitrary: a) auto

lemma chain_append: "chain h a (xs @ y # ys) b \<longleftrightarrow> chain h a xs y \<and> chain h y ys b"
  by (induction xs arbitrary: a) auto

lemma chain_ends:
  assumes "chain h a xs b"
  shows "l_next h a = hd (xs @ [b])" "l_prev h b = last (a # xs)"
proof -
  show "l_next h a = hd (xs @ [b])" using assms by (cases xs) auto
  show "l_prev h b = last (a # xs)" using assms by (induction xs arbitrary: a) auto
qed

lemma chain_middle:
  assumes "chain h a (xs @ e # ys) b"
  shows "l_prev h e = last (a # xs)" "l_next h e = hd (ys @ [b])"
  using assms chain_ends [of h a xs e] chain_ends [of h e ys b] by (simp_all add: chain_append)

text \<open>The three primitive surgeries.\<close>

lemma chain_insert:
  assumes "chain h a (xs @ ys) b" "distinct (xs @ ys)" "a \<notin> set (xs @ ys)" "b \<notin> set (xs @ ys)"
    and "new \<notin> set (xs @ ys)" "new \<noteq> a" "new \<noteq> b"
  shows "chain (raw_list_add new (last (a # xs)) (hd (ys @ [b])) h) a (xs @ new # ys) b"
  using assms
proof (induction xs arbitrary: a)
  case Nil
  show ?case
  proof (cases ys)
    case (Cons y zs)
    let ?h = "raw_list_add new a y h"
    have "chain ?h y zs b \<longleftrightarrow> chain h y zs b"
      by (rule chain_cong) (use Nil Cons in \<open>auto simp: list_prims\<close>)
    with Nil Cons show ?thesis by (auto simp: list_prims)
  qed (use Nil in \<open>auto simp: list_prims\<close>)
next
  case (Cons x xs)
  let ?h = "raw_list_add new (last (x # xs)) (hd (ys @ [b])) h"
  have l: "last (x # xs) \<in> set (x # xs)" "hd (ys @ [b]) \<in> set (ys @ [b])" by (rule last_in_set, simp) (rule hd_in_set, simp)
  have "chain ?h x (xs @ new # ys) b" by (rule Cons.IH) (use Cons.prems in auto)
  moreover have "l_next ?h a = x" "l_prev ?h x = a"
    using Cons.prems l by (auto simp: list_prims simp del: last.simps)
  ultimately show ?case by simp
qed

lemma chain_delete:
  assumes "chain h a (xs @ e # ys) b" "distinct (xs @ e # ys)" "a \<notin> set (xs @ e # ys)" "b \<notin> set (xs @ e # ys)"
  shows "chain (raw_list_del (last (a # xs)) (hd (ys @ [b])) h) a (xs @ ys) b"
  using assms
proof (induction xs arbitrary: a)
  case Nil
  show ?case
  proof (cases ys)
    case (Cons y zs)
    have "chain (raw_list_del a y h) y zs b \<longleftrightarrow> chain h y zs b"
      by (rule chain_cong) (use Nil Cons in \<open>auto simp: list_prims\<close>)
    with Nil Cons show ?thesis by (auto simp: list_prims)
  qed (use Nil in \<open>auto simp: list_prims\<close>)
next
  case (Cons x xs)
  let ?h = "raw_list_del (last (x # xs)) (hd (ys @ [b])) h"
  have l: "last (x # xs) \<in> set (x # xs)" "hd (ys @ [b]) \<in> set (ys @ [b])" by (rule last_in_set, simp) (rule hd_in_set, simp)
  have "chain ?h x (xs @ ys) b" by (rule Cons.IH) (use Cons.prems in auto)
  moreover have "l_next ?h a = x" "l_prev ?h x = a"
    using Cons.prems l by (auto simp: list_prims simp del: last.simps)
  ultimately show ?case by simp
qed

lemma is_list_insert:
  assumes "is_list h head (xs @ ys)" "new \<notin> set (head # xs @ ys)"
  shows "is_list (raw_list_add new (last (head # xs)) (hd (ys @ [head])) h) head (xs @ new # ys)"
  using assms chain_insert [of h head xs ys head new] by (auto simp: is_list_def)

lemma list_add_refines:
  assumes "is_list h head xs" "new \<notin> set (head # xs)"
  shows "is_list (list_add new head h) head (new # xs)"
  using is_list_insert [of h head "[]" xs new] assms chain_ends(1) [of h head xs head]
  by (simp add: list_add_def is_list_def)

lemma list_add_tail_refines:
  assumes "is_list h head xs" "new \<notin> set (head # xs)"
  shows "is_list (list_add_tail new head h) head (xs @ [new])"
  using is_list_insert [of h head xs "[]" new] assms chain_ends(2) [of h head xs head]
  by (simp add: list_add_tail_def is_list_def)

lemma list_del_entry_refines:
  assumes "is_list h head (xs @ e # ys)"
  shows "is_list (list_del_entry e h) head (xs @ ys)"
  using assms chain_middle [of h head xs e ys head] chain_delete [of h head xs e ys head]
  by (auto simp: list_del_entry_def is_list_def)

text \<open>Assignments to fields of an address that is not on the list do not matter.\<close>

lemma is_list_frame:
  assumes "is_list h head xs" "\<forall>x \<in> set (head # xs). l_next h' x = l_next h x \<and> l_prev h' x = l_prev h x"
  shows "is_list h' head xs"
  using assms chain_cong [of head xs h' h head] by (auto simp: is_list_def)

lemma list_del_refines:
  assumes "is_list h head (xs @ e # ys)"
  shows "is_list (list_del e h) head (xs @ ys)"
proof (rule is_list_frame [OF list_del_entry_refines [OF assms]])
  have "e \<notin> set (head # xs @ ys)" using assms by (auto simp: is_list_def)
  then show "\<forall>x \<in> set (head # xs @ ys). l_next (list_del e h) x = l_next (list_del_entry e h) x
     \<and> l_prev (list_del e h) x = l_prev (list_del_entry e h) x"
    by (auto simp: list_del_def list_del_entry_def Let_def)
qed

lemma INIT_LIST_HEAD_refines: "is_list (INIT_LIST_HEAD head h) head []"
  by (simp add: is_list_def list_prims)

lemma list_del_init_refines:
  assumes "is_list h head (xs @ e # ys)"
  shows "is_list (list_del_init e h) head (xs @ ys)" "is_list (list_del_init e h) e []"
proof -
  have "e \<notin> set (head # xs @ ys)" using assms by (auto simp: is_list_def)
  then show "is_list (list_del_init e h) head (xs @ ys)"
    by (intro is_list_frame [OF list_del_entry_refines [OF assms]]) (auto simp: list_del_init_def INIT_LIST_HEAD_def Let_def)
qed (simp add: list_del_init_def INIT_LIST_HEAD_refines)

lemma list_move_refines:
  assumes "is_list h head (xs @ e # ys)"
  shows "is_list (list_move e head h) head (e # xs @ ys)" "is_list (list_move_tail e head h) head (xs @ ys @ [e])"
proof -
  have e: "e \<notin> set (head # xs @ ys)" using assms by (auto simp: is_list_def)
  show "is_list (list_move e head h) head (e # xs @ ys)"
    unfolding list_move_def by (rule list_add_refines [OF list_del_entry_refines [OF assms] e])
  show "is_list (list_move_tail e head h) head (xs @ ys @ [e])"
    unfolding list_move_tail_def using list_add_tail_refines [OF list_del_entry_refines [OF assms] e] by simp
qed

lemma list_empty_refines: "is_list h head xs \<Longrightarrow> list_empty head h \<longleftrightarrow> xs = []"
  by (cases xs) (auto simp: is_list_def list_empty_def)

lemma list_rotate_left_refines: "is_list h head xs \<Longrightarrow> is_list (list_rotate_left head h) head (rotate1 xs)"
  using list_move_refines(2) [of h head "[]"]
  by (cases xs) (auto simp: list_rotate_left_def list_empty_def is_list_def)

text \<open>Splicing the entries of one list into another.\<close>

lemma chain_retarget:
  assumes "chain h z zs l" "distinct (z # zs)" "\<forall>x \<in> set (z # zs). x \<noteq> last (z # zs) \<longrightarrow> l_next h' x = l_next h x"
    and "\<forall>x \<in> set zs. l_prev h' x = l_prev h x" "l_next h' (last (z # zs)) = n" "l_prev h' n = last (z # zs)"
  shows "chain h' z zs n"
  using assms
proof (induction zs arbitrary: z)
  case (Cons x zs)
  have "z \<noteq> last (x # zs)" using Cons.prems(2) last_in_set [of "x # zs"] by auto
  moreover have "chain h' x zs n" by (rule Cons.IH) (use Cons.prems in auto)
  ultimately show ?case using Cons.prems(1,3,4) by simp
qed simp

lemma splice_fields:
  assumes "l_next h l = z" "l_prev h l = e"
  shows "l_next (raw_list_splice l p n h) x = (if x = e then n else if x = p then z else l_next h x)"
    "l_prev (raw_list_splice l p n h) x = (if x = n then e else if x = z then p else l_prev h x)"
  by (simp_all add: list_prims assms)

lemma chain_splice:
  assumes "chain h a (xs @ ys) b" "chain h l (z # zs) l" "distinct (xs @ ys)" "distinct (z # zs)" "a \<notin> set (xs @ ys)" "b \<notin> set (xs @ ys)"
    and "set (z # zs) \<inter> set (a # b # xs @ ys) = {}" "l \<notin> set (z # zs)"
  shows "chain (raw_list_splice l (last (a # xs)) (hd (ys @ [b])) h) a (xs @ z # zs @ ys) b"
  using assms
proof (induction xs arbitrary: a)
  case Nil
  let ?n = "hd (ys @ [b])" and ?e = "last (z # zs)"
  let ?h = "raw_list_splice l a ?n h"
  have e: "?e \<in> set (z # zs)" "?n \<in> set (b # ys)" by (rule last_in_set, simp) (cases ys, auto)
  have lz: "l_next h l = z" "l_prev h l = ?e" using chain_ends [OF Nil(2)] by simp_all
  have d: "z \<noteq> a" "z \<noteq> ?n" "?e \<noteq> a" "?e \<noteq> ?n" "z \<notin> set zs" using Nil(4,7) e by auto
  note f = splice_fields [OF lz]
  have nz: "?n \<notin> set zs" using Nil(7) e(2) by auto
  have zs: "chain ?h z zs ?n"
  proof (rule chain_retarget)
    show "chain h z zs l" "distinct (z # zs)" using Nil(2,4) by simp_all
    show "\<forall>x \<in> set (z # zs). x \<noteq> ?e \<longrightarrow> l_next ?h x = l_next h x" using Nil(7) by (auto simp: f simp del: last.simps)
    show "\<forall>x \<in> set zs. l_prev ?h x = l_prev h x" using d(5) nz by (auto simp: f simp del: last.simps)
    show "l_next ?h ?e = ?n" "l_prev ?h ?n = ?e" by (simp_all only: f simp_thms if_True)
  qed
  have first: "l_next ?h a = z" "l_prev ?h z = a" using d by (simp_all only: f simp_thms if_False if_True not_sym [OF d(3)])
  show ?case
  proof (cases ys)
    case (Cons y us)
    have "chain ?h y us b \<longleftrightarrow> chain h y us b"
    proof (rule chain_cong)
      show "\<forall>x \<in> insert y (set us). l_next ?h x = l_next h x" unfolding f using e(1) Nil(5,7) Cons by (auto simp del: last.simps)
      show "\<forall>x \<in> insert b (set us). l_prev ?h x = l_prev h x" unfolding f using Nil(3,6,7) Cons by (auto simp del: last.simps)
    qed
    moreover have "chain h y us b" using Nil(1) Cons by simp
    ultimately show ?thesis using zs first Cons by (simp add: chain_append)
  qed (use zs first in simp)
next
  case (Cons x xs)
  let ?h = "raw_list_splice l (last (x # xs)) (hd (ys @ [b])) h"
  have k: "last (x # xs) \<in> set (x # xs)" "hd (ys @ [b]) \<in> set (ys @ [b])" by (rule last_in_set, simp) (rule hd_in_set, simp)
  have lz: "l_next h l = z" "l_prev h l = last (z # zs)" "last (z # zs) \<in> set (z # zs)"
    using chain_ends [OF Cons.prems(2)] last_in_set [of "z # zs"] by simp_all
  have "chain ?h x (xs @ z # zs @ ys) b" by (rule Cons.IH) (use Cons.prems in auto)
  moreover have "a \<noteq> last (z # zs)" "a \<noteq> last (x # xs)" "x \<noteq> hd (ys @ [b])" "x \<noteq> z"
    using Cons.prems(3,5-7) k lz(3) by (auto simp del: last.simps)
  then have "l_next ?h a = x" "l_prev ?h x = a"
    unfolding splice_fields [OF lz(1,2)] using Cons.prems(1) by (simp_all del: last.simps)
  ultimately show ?case by simp
qed

lemma is_list_splice:
  assumes "is_list h head (xs @ ys)" "is_list h l zs" "zs \<noteq> []" "set (l # zs) \<inter> set (head # xs @ ys) = {}"
  shows "is_list (raw_list_splice l (last (head # xs)) (hd (ys @ [head])) h) head (xs @ zs @ ys)"
  using assms chain_splice [of h head xs ys head l] by (cases zs) (auto simp: is_list_def)

lemma list_splice_refines:
  assumes "is_list h head xs" "is_list h l zs" "set (l # zs) \<inter> set (head # xs) = {}"
  shows "is_list (list_splice l head h) head (zs @ xs)" "is_list (list_splice_tail l head h) head (xs @ zs)"
    "is_list (list_splice_init l head h) head (zs @ xs)" "is_list (list_splice_init l head h) l []"
    "is_list (list_splice_tail_init l head h) head (xs @ zs)" "is_list (list_splice_tail_init l head h) l []"
proof -
  have n: "l_next h head = hd (xs @ [head])" "l_prev h head = last (head # xs)"
    using assms(1) chain_ends [of h head xs head] by (simp_all add: is_list_def)
  have e: "list_empty l h \<longleftrightarrow> zs = []" using list_empty_refines [OF assms(2)] .
  have lz: "l \<notin> set zs" using assms(2) by (simp add: is_list_def)
  show a: "is_list (list_splice l head h) head (zs @ xs)"
    using is_list_splice [of h head "[]" xs l zs] assms n e by (auto simp: list_splice_def)
  show b: "is_list (list_splice_tail l head h) head (xs @ zs)"
    using is_list_splice [of h head xs "[]" l zs] assms n e by (auto simp: list_splice_tail_def)
  show "is_list (list_splice_init l head h) head (zs @ xs)"
    by (rule is_list_frame [OF a]) (use assms(3) lz in \<open>auto simp: list_splice_def list_splice_init_def INIT_LIST_HEAD_def Let_def\<close>)
  show "is_list (list_splice_tail_init l head h) head (xs @ zs)"
    by (rule is_list_frame [OF b]) (use assms(3) lz in \<open>auto simp: list_splice_tail_def list_splice_tail_init_def INIT_LIST_HEAD_def Let_def\<close>)
  show "is_list (list_splice_init l head h) l []" "is_list (list_splice_tail_init l head h) l []"
    using assms(2) e by (auto simp: list_splice_init_def list_splice_tail_init_def INIT_LIST_HEAD_refines)
qed

lemma list_cut_position_refines:
  assumes "is_list h head (xs @ e # ys)" "l \<notin> set (head # xs @ e # ys)"
  shows "is_list (list_cut_position l head e h) l (xs @ [e]) \<and> is_list (list_cut_position l head e h) head ys"
proof -
  let ?h = "raw_list_cut_position l head e h"
  have d: "distinct (head # xs @ e # ys)" "chain h head xs e" "chain h e ys head" using assms(1) by (auto simp: is_list_def chain_append)
  have n: "l_next h e = hd (ys @ [head])" "l_next h head = hd (xs @ [e])" using chain_ends d(2,3) by auto
  have "list_cut_position l head e h = ?h"
    using d n list_empty_refines [OF assms(1)] chain_ends(2) [OF d(3)]
    by (cases xs; cases ys) (auto simp: list_cut_position_def list_is_singular_def)
  moreover have "is_list ?h l (xs @ [e])"
  proof -
    have k: "hd (xs @ [e]) \<in> set (xs @ [e])" "hd (ys @ [head]) \<in> set (ys @ [head])" by (rule hd_in_set, simp)+
    have "chain ?h l xs e"
    proof (cases xs)
      case (Cons x us)
      have "chain ?h x us e \<longleftrightarrow> chain h x us e"
        by (rule chain_cong) (use d(1) assms(2) n k Cons in \<open>auto simp: list_prims\<close>)
      with d(1,2) assms(2) n k Cons show ?thesis by (auto simp: list_prims)
    qed (use d(1) assms(2) n k in \<open>auto simp: list_prims\<close>)
    moreover have "l_next ?h e = l" "l_prev ?h l = e" using d(1) assms(2) n k by (auto simp: list_prims)
    ultimately show ?thesis using d(1) assms(2) by (auto simp: is_list_def chain_append)
  qed
  moreover have "is_list ?h head ys"
  proof (cases ys)
    case (Cons y us)
    have k: "hd (xs @ [e]) \<in> set (xs @ [e])" by (rule hd_in_set) simp
    have "chain ?h y us head \<longleftrightarrow> chain h y us head"
      by (rule chain_cong) (use d(1) assms(2) n k Cons in \<open>auto simp: list_prims\<close>)
    with d(1,3) assms(2) n k Cons show ?thesis by (auto simp: is_list_def list_prims)
  qed (use d(1) assms(2) n in \<open>auto simp: is_list_def list_prims\<close>)
  ultimately show ?thesis by simp
qed

lemma list_replace_refines:
  assumes "is_list h head (xs @ old # ys)" "new \<notin> set (head # xs @ old # ys)"
  shows "is_list (list_replace old new h) head (xs @ new # ys)"
proof -
  have d: "distinct (head # xs @ old # ys)" "chain h head (xs @ old # ys) head" using assms(1) by (auto simp: is_list_def)
  note m = chain_middle [OF d(2)]
  let ?p = "last (head # xs)" and ?n = "hd (ys @ [head])"
  let ?h = "raw_list_add new ?p ?n (list_del_entry old h)"
  have "is_list ?h head (xs @ new # ys)"
    by (rule is_list_insert [OF list_del_entry_refines [OF assms(1)]]) (use assms(2) in auto)
  moreover have "?p \<in> set (head # xs)" "?n \<in> set (head # ys)" by (rule last_in_set, simp) (cases ys, auto)
  then have "\<forall>x \<in> set (head # xs @ new # ys). l_next (list_replace old new h) x = l_next ?h x \<and> l_prev (list_replace old new h) x = l_prev ?h x"
    using m d(1) assms(2) by (auto simp: list_prims list_del_entry_def simp del: last.simps)
  ultimately show ?thesis using is_list_frame by blast
qed

section \<open>Loops over a list\<close>

text \<open>A body that leaves the memory of the list alone is run once for each entry, in order.\<close>

lemma list_for_each_chain:
  assumes "chain h a xs head" "head \<notin> set xs" "\<And>x s. snd (body x (s, h)) = h" "length xs < n"
  shows "list_for_each n body head (l_next h a) (s, h) = Inr (fold body xs (s, h))"
  using assms(1,2,4)
proof (induction xs arbitrary: a s n)
  case Nil
  then show ?case by (cases n) auto
next
  case (Cons x xs)
  obtain m where n: "n = Suc m" using Cons.prems(3) by (cases n) auto
  obtain s' where b: "body x (s, h) = (s', h)" using assms(3) [of x s] by (cases "body x (s, h)") auto
  have "list_for_each m body head (l_next h x) (s', h) = Inr (fold body xs (s', h))"
    by (rule Cons.IH) (use Cons.prems n in auto)
  with Cons.prems b n show ?case by (auto simp: Let_def)
qed

lemma list_for_each_prev_chain:
  assumes "chain h head xs b" "head \<notin> set xs" "\<And>x s. snd (body x (s, h)) = h" "length xs < n"
  shows "list_for_each_prev n body head (l_prev h b) (s, h) = Inr (fold body (rev xs) (s, h))"
  using assms(1,2,4)
proof (induction xs arbitrary: b s n rule: rev_induct)
  case Nil
  then show ?case by (cases n) auto
next
  case (snoc x xs)
  obtain m where n: "n = Suc m" using snoc.prems(3) by (cases n) auto
  obtain s' where b: "body x (s, h) = (s', h)" using assms(3) [of x s] by (cases "body x (s, h)") auto
  have "list_for_each_prev m body head (l_prev h x) (s', h) = Inr (fold body (rev xs) (s', h))"
    by (rule snoc.IH) (use snoc.prems n in \<open>auto simp: chain_append\<close>)
  with snoc.prems b n show ?case by (auto simp: chain_append Let_def)
qed

text \<open>The safe loop allows its body to unlink the entry it is given.\<close>

lemma list_for_each_safe_drain:
  assumes "is_list h head xs" "length xs < n"
  shows "\<exists>h'. list_for_each_safe n (\<lambda>e (s, h). (s @ [e], list_del_init e h)) head (l_next h head) (l_next h (l_next h head)) (s, h) = Inr (s @ xs, h')
     \<and> is_list h' head []"
  using assms
proof (induction xs arbitrary: h s n)
  case Nil
  then show ?case by (cases n) (auto simp: is_list_def)
next
  case (Cons x xs)
  obtain m where n: "n = Suc m" using Cons.prems(2) by (cases n) auto
  have x: "l_next h head = x" "x \<noteq> head" "l_next h x = hd (xs @ [head])" "x \<notin> set xs"
    using Cons.prems(1) chain_ends(1) [of h x xs head] by (auto simp: is_list_def)
  let ?h = "list_del_init x h"
  have r: "is_list ?h head xs" using list_del_init_refines(1) [of h head "[]" x xs] Cons.prems(1) by simp
  then have nx: "l_next ?h head = hd (xs @ [head])" using chain_ends(1) [of ?h head xs head] by (simp add: is_list_def)
  from Cons.IH [OF r, of m "s @ [x]"] Cons.prems(2) n nx x show ?case by (auto simp: Let_def)
qed

section \<open>Hash lists\<close>

text \<open>
  A hash list node points back to the pointer that points to it: the \<^verbatim>\<open>first\<close> field of a
  head or the \<^verbatim>\<open>next\<close> field of a node. NULL is 0; a NULL or poisoned back pointer that is
  written through is undefined behaviour.
\<close>

datatype hloc = HFirst nat | HNext nat | HPoison

record hlist_heap =
  h_first :: "nat \<Rightarrow> nat"
  h_next :: "nat \<Rightarrow> nat"
  h_pprev :: "nat \<Rightarrow> hloc option"

definition set_hnext :: "nat \<Rightarrow> nat \<Rightarrow> hlist_heap \<Rightarrow> hlist_heap" where
  "set_hnext a v h = h\<lparr>h_next := (h_next h)(a := v)\<rparr>"

definition set_pprev :: "nat \<Rightarrow> hloc option \<Rightarrow> hlist_heap \<Rightarrow> hlist_heap" where
  "set_pprev a v h = h\<lparr>h_pprev := (h_pprev h)(a := v)\<rparr>"

definition set_first :: "nat \<Rightarrow> nat \<Rightarrow> hlist_heap \<Rightarrow> hlist_heap" where
  "set_first a v h = h\<lparr>h_first := (h_first h)(a := v)\<rparr>"

fun hread :: "hlist_heap \<Rightarrow> hloc \<Rightarrow> nat" where
  "hread h (HFirst a) = h_first h a"
| "hread h (HNext a) = h_next h a"
| "hread h HPoison = 0"

fun hwrite :: "hloc option \<Rightarrow> nat \<Rightarrow> hlist_heap \<Rightarrow> hlist_heap outcome" where
  "hwrite (Some (HFirst a)) v h = Inr (set_first a v h)"
| "hwrite (Some (HNext a)) v h = Inr (set_hnext a v h)"
| "hwrite (Some HPoison) v h = Inl UB"
| "hwrite None v h = Inl UB"

definition INIT_HLIST_HEAD :: "nat \<Rightarrow> hlist_heap \<Rightarrow> hlist_heap" where
  "INIT_HLIST_HEAD ptr h = set_first ptr 0 h"

definition INIT_HLIST_NODE :: "nat \<Rightarrow> hlist_heap \<Rightarrow> hlist_heap" where
  "INIT_HLIST_NODE n h = (let h = set_hnext n 0 h in set_pprev n None h)"

definition hlist_unhashed :: "nat \<Rightarrow> hlist_heap \<Rightarrow> bool" where
  "hlist_unhashed n h \<longleftrightarrow> h_pprev h n = None"

definition hlist_empty :: "nat \<Rightarrow> hlist_heap \<Rightarrow> bool" where
  "hlist_empty hh h \<longleftrightarrow> h_first h hh = 0"

definition raw_hlist_del :: "nat \<Rightarrow> hlist_heap \<Rightarrow> hlist_heap outcome" where
  "raw_hlist_del n h =
     (let next = h_next h n; pprev = h_pprev h n
      in bindF (hwrite pprev next h) (\<lambda>h. Inr (if next \<noteq> 0 then set_pprev next pprev h else h)))"

definition hlist_del :: "nat \<Rightarrow> hlist_heap \<Rightarrow> hlist_heap outcome" where
  "hlist_del n h = bindF (raw_hlist_del n h)
     (\<lambda>h. let h = set_hnext n LIST_POISON1 h in Inr (set_pprev n (Some HPoison) h))"

definition hlist_del_init :: "nat \<Rightarrow> hlist_heap \<Rightarrow> hlist_heap outcome" where
  "hlist_del_init n h =
     (if \<not> hlist_unhashed n h then bindF (raw_hlist_del n h) (\<lambda>h. Inr (INIT_HLIST_NODE n h)) else Inr h)"

definition hlist_add_head :: "nat \<Rightarrow> nat \<Rightarrow> hlist_heap \<Rightarrow> hlist_heap" where
  "hlist_add_head n hh h =
     (let first = h_first h hh;
          h = set_hnext n first h;
          h = (if first \<noteq> 0 then set_pprev first (Some (HNext n)) h else h);
          h = set_first hh n h
      in set_pprev n (Some (HFirst hh)) h)"

definition hlist_add_before :: "nat \<Rightarrow> nat \<Rightarrow> hlist_heap \<Rightarrow> hlist_heap outcome" where
  "hlist_add_before n next h =
     (let h = set_pprev n (h_pprev h next) h;
          h = set_hnext n next h;
          h = set_pprev next (Some (HNext n)) h
      in hwrite (h_pprev h n) n h)"

definition hlist_add_after :: "nat \<Rightarrow> nat \<Rightarrow> hlist_heap \<Rightarrow> hlist_heap" where
  "hlist_add_after n next h =
     (let h = set_hnext next (h_next h n) h;
          h = set_hnext n next h;
          h = set_pprev next (Some (HNext n)) h
      in if h_next h next \<noteq> 0 then set_pprev (h_next h next) (Some (HNext next)) h else h)"

definition hlist_add_fake :: "nat \<Rightarrow> hlist_heap \<Rightarrow> hlist_heap" where
  "hlist_add_fake n h = set_pprev n (Some (HNext n)) h"

definition hlist_move_list :: "nat \<Rightarrow> nat \<Rightarrow> hlist_heap \<Rightarrow> hlist_heap" where
  "hlist_move_list old new h =
     (let h = set_first new (h_first h old) h;
          h = (if h_first h new \<noteq> 0 then set_pprev (h_first h new) (Some (HFirst new)) h else h)
      in set_first old 0 h)"

text \<open>The entries reached from a pointer, each pointing back to the pointer it was reached by.\<close>

fun hchain :: "hlist_heap \<Rightarrow> hloc \<Rightarrow> nat list \<Rightarrow> bool" where
  "hchain h l [] \<longleftrightarrow> hread h l = 0"
| "hchain h l (x # xs) \<longleftrightarrow> hread h l = x \<and> h_pprev h x = Some l \<and> hchain h (HNext x) xs"

definition is_hlist :: "hlist_heap \<Rightarrow> nat \<Rightarrow> nat list \<Rightarrow> bool" where
  "is_hlist h hh xs \<longleftrightarrow> distinct xs \<and> 0 \<notin> set xs \<and> hchain h (HFirst hh) xs"

lemma hset_fields [list_upd, simp]:
  "h_next (set_hnext a v h) = (h_next h)(a := v)" "h_first (set_hnext a v h) = h_first h" "h_pprev (set_hnext a v h) = h_pprev h"
  "h_pprev (set_pprev a p h) = (h_pprev h)(a := p)" "h_first (set_pprev a p h) = h_first h" "h_next (set_pprev a p h) = h_next h"
  "h_first (set_first a v h) = (h_first h)(a := v)" "h_next (set_first a v h) = h_next h" "h_pprev (set_first a v h) = h_pprev h"
  by (simp_all add: set_hnext_def set_pprev_def set_first_def)

lemma hchain_cong:
  assumes "hread h' l = hread h l" "\<forall>x \<in> set xs. h_next h' x = h_next h x \<and> h_pprev h' x = h_pprev h x"
  shows "hchain h' l xs \<longleftrightarrow> hchain h l xs"
  using assms by (induction xs arbitrary: l) auto

fun hlast :: "hloc \<Rightarrow> nat list \<Rightarrow> hloc" where
  "hlast l [] = l"
| "hlast l (x # xs) = hlast (HNext x) xs"

lemma hlast_cases: "hlast l xs = l \<and> xs = [] \<or> (\<exists>x \<in> set xs. hlast l xs = HNext x)"
  by (induction xs arbitrary: l) auto

fun hlocs :: "hloc \<Rightarrow> nat list \<Rightarrow> hloc list" where
  "hlocs l [] = []"
| "hlocs l (x # xs) = l # hlocs (HNext x) xs"

fun hpre :: "hlist_heap \<Rightarrow> hloc \<Rightarrow> nat list \<Rightarrow> bool" where
  "hpre h l [] \<longleftrightarrow> True"
| "hpre h l (x # xs) \<longleftrightarrow> hread h l = x \<and> h_pprev h x = Some l \<and> hpre h (HNext x) xs"

text \<open>What stands behind the pointer \<open>hlast l xs\<close> can be exchanged.\<close>

lemma hchain_append: "hchain h l (xs @ ys) \<longleftrightarrow> hpre h l xs \<and> hchain h (hlast l xs) ys"
  by (induction xs arbitrary: l) auto

lemma hlocs_subset: "set (hlocs l xs) \<subseteq> insert l (HNext ` set xs)"
  by (induction xs arbitrary: l) auto

lemma hpre_cong:
  assumes "\<forall>m \<in> set (hlocs l xs). hread h' m = hread h m" "\<forall>x \<in> set xs. h_pprev h' x = h_pprev h x"
  shows "hpre h' l xs \<longleftrightarrow> hpre h l xs"
  using assms by (induction xs arbitrary: l) auto

lemma hlast_fresh:
  assumes "distinct xs" "l \<notin> HNext ` set xs"
  shows "hlast l xs \<notin> set (hlocs l xs)"
  using assms
proof (induction xs arbitrary: l)
  case (Cons x xs)
  then have "hlast (HNext x) xs \<notin> set (hlocs (HNext x) xs)" by auto
  moreover have "hlast (HNext x) xs \<noteq> l" using hlast_cases [of "HNext x" xs] Cons.prems by auto
  ultimately show ?case by simp
qed simp

lemma hread_set:
  "hread (set_first a v h) m = (if m = HFirst a then v else hread h m)" "hread (set_hnext a v h) m = (if m = HNext a then v else hread h m)"
  "hread (set_pprev a p h) m = hread h m"
  by (cases m; simp)+

lemma hwrite_spec:
  assumes "l \<noteq> HPoison"
  shows "\<exists>h'. hwrite (Some l) v h = Inr h' \<and> (\<forall>m. m \<noteq> HPoison \<longrightarrow> hread h' m = (if m = l then v else hread h m))
     \<and> h_pprev h' = h_pprev h \<and> (\<forall>x. h_next h' x = (if HNext x = l then v else h_next h x))"
  using assms by (cases l) (simp_all add: hread_set)

lemma hlist_add_head_refines:
  assumes "is_hlist h hh xs" "n \<notin> set xs" "n \<noteq> 0"
  shows "is_hlist (hlist_add_head n hh h) hh (n # xs)"
proof (cases xs)
  case (Cons x us)
  have "hchain (hlist_add_head n hh h) (HNext x) us \<longleftrightarrow> hchain h (HNext x) us"
    by (rule hchain_cong) (use assms Cons in \<open>auto simp: is_hlist_def hlist_add_head_def Let_def\<close>)
  with assms Cons show ?thesis by (auto simp: is_hlist_def hlist_add_head_def Let_def)
qed (use assms in \<open>auto simp: is_hlist_def hlist_add_head_def Let_def\<close>)

lemma hlist_add_after_refines:
  assumes "is_hlist h hh (xs @ e # ys)" "n \<notin> set (xs @ e # ys)" "n \<noteq> 0"
  shows "is_hlist (hlist_add_after e n h) hh (xs @ e # n # ys)"
proof -
  let ?h = "hlist_add_after e n h"
  have c: "hpre h (HFirst hh) xs" "hchain h (hlast (HFirst hh) xs) (e # ys)" and d: "distinct (xs @ e # ys)" "0 \<notin> set (xs @ e # ys)"
    using assms(1) by (auto simp: is_hlist_def hchain_append)
  have nx: "h_next h e = (case ys of [] \<Rightarrow> 0 | y # us \<Rightarrow> y)" using c(2) by (cases ys) auto
  have fr: "\<forall>x \<in> set (e # xs). h_pprev ?h x = h_pprev h x" "\<forall>x \<in> set xs. h_next ?h x = h_next h x" "h_first ?h = h_first h"
    using d assms(2) nx by (cases ys; auto simp: hlist_add_after_def Let_def)+
  have "hread ?h m = hread h m" if "m \<in> set (hlocs (HFirst hh) xs) \<or> m = hlast (HFirst hh) xs" for m
    using that hlocs_subset [of "HFirst hh" xs] hlast_cases [of "HFirst hh" xs] fr by auto
  moreover from this have "hpre ?h (HFirst hh) xs" using hpre_cong [of "HFirst hh" xs ?h h] fr(1) c(1) by simp
  moreover have "hchain ?h (HNext e) (n # ys)"
  proof (cases ys)
    case (Cons y us)
    have "hchain ?h (HNext y) us \<longleftrightarrow> hchain h (HNext y) us"
      by (rule hchain_cong) (use d assms(2) nx Cons in \<open>auto simp: hlist_add_after_def Let_def\<close>)
    with c d assms(2,3) nx Cons show ?thesis by (auto simp: hlist_add_after_def Let_def)
  qed (use d assms(2,3) nx in \<open>auto simp: hlist_add_after_def Let_def\<close>)
  ultimately have "hchain ?h (HFirst hh) (xs @ e # n # ys)" using c(2) fr(1) by (simp add: hchain_append)
  with d assms(2,3) show ?thesis by (auto simp: is_hlist_def)
qed

lemma hlast_not_poison: "hlast (HFirst hh) xs \<noteq> HPoison"
  using hlast_cases [of "HFirst hh" xs] by auto

lemma hlocs_not_poison: "m \<in> set (hlocs (HFirst hh) xs) \<Longrightarrow> m \<noteq> HPoison"
  using hlocs_subset [of "HFirst hh" xs] by auto

lemma hlist_add_before_refines:
  assumes "is_hlist h hh (xs @ e # ys)" "n \<notin> set (xs @ e # ys)" "n \<noteq> 0"
  shows "\<exists>h'. hlist_add_before n e h = Inr h' \<and> is_hlist h' hh (xs @ n # e # ys)"
proof -
  let ?l = "hlast (HFirst hh) xs"
  have c: "hpre h (HFirst hh) xs" "hread h ?l = e" "h_pprev h e = Some ?l" "hchain h (HNext e) ys" and d: "distinct (xs @ e # ys)" "0 \<notin> set (xs @ e # ys)"
    using assms(1) by (auto simp: is_hlist_def hchain_append)
  let ?g = "set_pprev e (Some (HNext n)) (set_hnext n e (set_pprev n (Some ?l) h))"
  obtain h' where w: "hwrite (Some ?l) n ?g = Inr h'" "\<forall>m. m \<noteq> HPoison \<longrightarrow> hread h' m = (if m = ?l then n else hread ?g m)"
      "h_pprev h' = h_pprev ?g" "\<forall>x. h_next h' x = (if HNext x = ?l then n else h_next ?g x)"
    using hwrite_spec [OF hlast_not_poison [of hh xs], of n ?g] by (elim exE conjE)
  have r: "hlist_add_before n e h = Inr h'" using w(1) c(3) assms(2) by (simp add: hlist_add_before_def Let_def)
  have ln: "?l \<noteq> HNext n" "?l \<noteq> HNext e" "\<forall>y \<in> set ys. ?l \<noteq> HNext y" using hlast_cases [of "HFirst hh" xs] assms(2) d by auto
  have "hpre h' (HFirst hh) xs \<longleftrightarrow> hpre h (HFirst hh) xs"
  proof (rule hpre_cong)
    have "hread ?g m = hread h m" if "m \<in> set (hlocs (HFirst hh) xs)" for m
      using that hlocs_subset [of "HFirst hh" xs] assms(2) by auto
    moreover have "?l \<notin> set (hlocs (HFirst hh) xs)" using hlast_fresh [of xs "HFirst hh"] d by auto
    ultimately show "\<forall>m \<in> set (hlocs (HFirst hh) xs). hread h' m = hread h m"
      using hlocs_not_poison by (auto simp: w(2))
  qed (use d assms(2) in \<open>auto simp: w(3)\<close>)
  moreover have "hchain h' (HNext e) ys \<longleftrightarrow> hchain h (HNext e) ys"
    by (rule hchain_cong) (use ln d assms(2) in \<open>auto simp: w(3,4)\<close>)
  moreover have "hread h' ?l = n" using w(2) hlast_not_poison by simp
  moreover have "h_pprev h' n = Some ?l" "h_pprev h' e = Some (HNext n)" "h_next h' n = e"
    using ln(1) assms(2) by (auto simp: w(3,4))
  ultimately have "hchain h' (HFirst hh) (xs @ n # e # ys)" using c(1,4) by (simp add: hchain_append)
  with r d assms(2,3) show ?thesis by (auto simp: is_hlist_def)
qed

lemma raw_hlist_del_refines:
  assumes "is_hlist h hh (xs @ e # ys)"
  shows "\<exists>h'. raw_hlist_del e h = Inr h' \<and> is_hlist h' hh (xs @ ys)"
proof -
  let ?l = "hlast (HFirst hh) xs" and ?n = "h_next h e"
  have c: "hpre h (HFirst hh) xs" "hread h ?l = e" "h_pprev h e = Some ?l" "hchain h (HNext e) ys" and d: "distinct (xs @ e # ys)" "0 \<notin> set (xs @ e # ys)"
    using assms(1) by (auto simp: is_hlist_def hchain_append)
  have nx: "?n = (case ys of [] \<Rightarrow> 0 | y # us \<Rightarrow> y)" using c(4) by (cases ys) auto
  obtain g where w: "hwrite (Some ?l) ?n h = Inr g" "\<forall>m. m \<noteq> HPoison \<longrightarrow> hread g m = (if m = ?l then ?n else hread h m)"
      "h_pprev g = h_pprev h" "\<forall>x. h_next g x = (if HNext x = ?l then ?n else h_next h x)"
    using hwrite_spec [OF hlast_not_poison [of hh xs], of ?n h] by (elim exE conjE)
  let ?h = "if ?n \<noteq> 0 then set_pprev ?n (Some ?l) g else g"
  have r: "raw_hlist_del e h = Inr ?h" using w(1) c(3) by (simp add: raw_hlist_del_def Let_def)
  have rd: "hread ?h m = hread g m" for m by (cases m) auto
  have ln: "\<forall>y \<in> set ys. ?l \<noteq> HNext y" using hlast_cases [of "HFirst hh" xs] d by auto
  have "hpre ?h (HFirst hh) xs \<longleftrightarrow> hpre h (HFirst hh) xs"
  proof (rule hpre_cong)
    show "\<forall>m \<in> set (hlocs (HFirst hh) xs). hread ?h m = hread h m"
      using hlast_fresh [of xs "HFirst hh"] hlocs_not_poison w(2) d unfolding rd by auto
  qed (use w(3) d nx in \<open>auto split: list.splits\<close>)
  moreover have "hchain ?h ?l ys"
  proof (cases ys)
    case (Cons y us)
    have "hchain ?h (HNext y) us \<longleftrightarrow> hchain h (HNext y) us"
      by (rule hchain_cong) (use w(3,4) ln d nx Cons in auto)
    with c(4) d nx Cons w(2) hlast_not_poison [of hh xs] show ?thesis unfolding Cons hchain.simps rd by auto
  qed (use w(2) hlast_not_poison [of hh xs] nx in \<open>simp add: rd\<close>)
  ultimately have "hchain ?h (HFirst hh) (xs @ ys)" using c(1) by (simp add: hchain_append)
  with r d show ?thesis by (auto simp: is_hlist_def)
qed

lemma is_hlist_frame:
  assumes "is_hlist h hh xs" "h_first h' hh = h_first h hh" "\<forall>x \<in> set xs. h_next h' x = h_next h x \<and> h_pprev h' x = h_pprev h x"
  shows "is_hlist h' hh xs"
  using assms hchain_cong [of h' "HFirst hh" h xs] by (auto simp: is_hlist_def)

lemma hlist_del_refines:
  assumes "is_hlist h hh (xs @ e # ys)"
  shows "\<exists>h'. hlist_del e h = Inr h' \<and> is_hlist h' hh (xs @ ys)"
    "\<exists>h'. hlist_del_init e h = Inr h' \<and> is_hlist h' hh (xs @ ys) \<and> hlist_unhashed e h'"
proof -
  obtain g where g: "raw_hlist_del e h = Inr g" "is_hlist g hh (xs @ ys)" using raw_hlist_del_refines [OF assms] by blast
  have e: "e \<notin> set (xs @ ys)" "\<not> hlist_unhashed e h"
    using assms by (auto simp: is_hlist_def hchain_append hlist_unhashed_def)
  show "\<exists>h'. hlist_del e h = Inr h' \<and> is_hlist h' hh (xs @ ys)"
    using g e by (auto simp: hlist_del_def Let_def intro!: is_hlist_frame [OF g(2)])
  show "\<exists>h'. hlist_del_init e h = Inr h' \<and> is_hlist h' hh (xs @ ys) \<and> hlist_unhashed e h'"
    using g e by (auto simp: hlist_del_init_def INIT_HLIST_NODE_def Let_def hlist_unhashed_def intro!: is_hlist_frame [OF g(2)])
qed

lemma hlist_move_list_refines:
  assumes "is_hlist h old xs" "old \<noteq> new"
  shows "is_hlist (hlist_move_list old new h) new xs" "is_hlist (hlist_move_list old new h) old []"
proof -
  show "is_hlist (hlist_move_list old new h) new xs"
  proof (cases xs)
    case (Cons x us)
    have "hchain (hlist_move_list old new h) (HNext x) us \<longleftrightarrow> hchain h (HNext x) us"
      by (rule hchain_cong) (use assms Cons in \<open>auto simp: is_hlist_def hlist_move_list_def Let_def\<close>)
    with assms Cons show ?thesis by (auto simp: is_hlist_def hlist_move_list_def Let_def)
  qed (use assms in \<open>auto simp: is_hlist_def hlist_move_list_def Let_def\<close>)
  show "is_hlist (hlist_move_list old new h) old []" by (simp add: is_hlist_def hlist_move_list_def Let_def)
qed

section \<open>Sequences of operations\<close>

text \<open>The operations on one list, what each does to the sequence of entries, and when it may be
  called.\<close>

datatype list_call = LAdd nat | LAddTail nat | LDel nat | LDelInit nat | LMove nat | LMoveTail nat | LReplace nat nat | LRotate

primrec list_exec :: "nat \<Rightarrow> list_call \<Rightarrow> list_heap \<Rightarrow> list_heap" where
  "list_exec head (LAdd e) = list_add e head"
| "list_exec head (LAddTail e) = list_add_tail e head"
| "list_exec head (LDel e) = list_del e"
| "list_exec head (LDelInit e) = list_del_init e"
| "list_exec head (LMove e) = list_move e head"
| "list_exec head (LMoveTail e) = list_move_tail e head"
| "list_exec head (LReplace old new) = list_replace old new"
| "list_exec head LRotate = list_rotate_left head"

primrec list_spec :: "list_call \<Rightarrow> nat list \<Rightarrow> nat list" where
  "list_spec (LAdd e) xs = e # xs"
| "list_spec (LAddTail e) xs = xs @ [e]"
| "list_spec (LDel e) xs = remove1 e xs"
| "list_spec (LDelInit e) xs = remove1 e xs"
| "list_spec (LMove e) xs = e # remove1 e xs"
| "list_spec (LMoveTail e) xs = remove1 e xs @ [e]"
| "list_spec (LReplace old new) xs = map (\<lambda>x. if x = old then new else x) xs"
| "list_spec LRotate xs = rotate1 xs"

primrec list_call_ok :: "nat \<Rightarrow> nat list \<Rightarrow> list_call \<Rightarrow> bool" where
  "list_call_ok head xs (LAdd e) \<longleftrightarrow> e \<notin> set (head # xs)"
| "list_call_ok head xs (LAddTail e) \<longleftrightarrow> e \<notin> set (head # xs)"
| "list_call_ok head xs (LDel e) \<longleftrightarrow> e \<in> set xs"
| "list_call_ok head xs (LDelInit e) \<longleftrightarrow> e \<in> set xs"
| "list_call_ok head xs (LMove e) \<longleftrightarrow> e \<in> set xs"
| "list_call_ok head xs (LMoveTail e) \<longleftrightarrow> e \<in> set xs"
| "list_call_ok head xs (LReplace old new) \<longleftrightarrow> old \<in> set xs \<and> new \<notin> set (head # xs)"
| "list_call_ok head xs LRotate \<longleftrightarrow> True"

primrec list_calls_ok :: "nat \<Rightarrow> nat list \<Rightarrow> list_call list \<Rightarrow> bool" where
  "list_calls_ok head xs [] \<longleftrightarrow> True"
| "list_calls_ok head xs (c # cs) \<longleftrightarrow> list_call_ok head xs c \<and> list_calls_ok head (list_spec c xs) cs"

lemma is_list_split:
  assumes "is_list h head xs" "e \<in> set xs"
  obtains us vs where "xs = us @ e # vs" "remove1 e xs = us @ vs" "map (\<lambda>x. if x = e then n else x) xs = us @ n # vs"
proof -
  from assms(2) obtain us vs where xs: "xs = us @ e # vs" by (auto dest: split_list)
  moreover have "e \<notin> set us" "e \<notin> set vs" using assms(1) xs by (auto simp: is_list_def)
  moreover from this have "map (\<lambda>x. if x = e then n else x) us = us" "map (\<lambda>x. if x = e then n else x) vs = vs"
    by (auto intro!: map_idI)
  ultimately show ?thesis using that [of us vs] by (simp add: remove1_append)
qed

lemma list_exec_refines:
  assumes "is_list h head xs" "list_call_ok head xs c"
  shows "is_list (list_exec head c h) head (list_spec c xs)"
proof (cases c)
  case (LAdd e)
  with assms show ?thesis using list_add_refines by simp
next
  case (LAddTail e)
  with assms show ?thesis using list_add_tail_refines by simp
next
  case (LDel e)
  with assms have "e \<in> set xs" by simp
  with assms(1) obtain us vs where "xs = us @ e # vs" "remove1 e xs = us @ vs" by (rule is_list_split)
  with LDel assms(1) list_del_refines [of h head us e vs] show ?thesis by simp
next
  case (LDelInit e)
  with assms have "e \<in> set xs" by simp
  with assms(1) obtain us vs where "xs = us @ e # vs" "remove1 e xs = us @ vs" by (rule is_list_split)
  with LDelInit assms(1) list_del_init_refines(1) [of h head us e vs] show ?thesis by simp
next
  case (LMove e)
  with assms have "e \<in> set xs" by simp
  with assms(1) obtain us vs where "xs = us @ e # vs" "remove1 e xs = us @ vs" by (rule is_list_split)
  with LMove assms(1) list_move_refines(1) [of h head us e vs] show ?thesis by simp
next
  case (LMoveTail e)
  with assms have "e \<in> set xs" by simp
  with assms(1) obtain us vs where "xs = us @ e # vs" "remove1 e xs = us @ vs" by (rule is_list_split)
  with LMoveTail assms(1) list_move_refines(2) [of h head us e vs] show ?thesis by simp
next
  case (LReplace old new)
  with assms(2) have "old \<in> set xs" "new \<notin> set (head # xs)" by auto
  moreover from assms(1) this(1) obtain us vs where "xs = us @ old # vs" "map (\<lambda>x. if x = old then new else x) xs = us @ new # vs"
    by (rule is_list_split)
  ultimately show ?thesis using LReplace assms(1) list_replace_refines [of h head us old vs new] by simp
next
  case LRotate
  with assms list_rotate_left_refines show ?thesis by simp
qed

section \<open>Properties\<close>

text \<open>C28: The doubly linked lists refine sequences: any sequence of additions at either end,
  deletions, moves, replacements and rotations, each called as it may be (a new entry is not
  on the list, a removed one is), leaves the memory linked in both directions as a circular
  list whose entries are those that the same operations leave of the sequence.\<close>

theorem list_ops_refine:
  assumes "is_list h head xs" "list_calls_ok head xs cs"
  shows "is_list (fold (list_exec head) cs h) head (fold list_spec cs xs)"
  using assms by (induction cs arbitrary: h xs) (auto dest: list_exec_refines)

theorem list_ops_refine_witness:
  "is_list (fold (list_exec 1) [LAdd 2, LAddTail 3, LAdd 4, LMoveTail 2, LDel 3, LRotate] (INIT_LIST_HEAD 1 \<lparr>l_next = id, l_prev = id\<rparr>)) 1 [2, 4]"
  using list_ops_refine [OF INIT_LIST_HEAD_refines, of 1 "[LAdd 2, LAddTail 3, LAdd 4, LMoveTail 2, LDel 3, LRotate]" "\<lparr>l_next = id, l_prev = id\<rparr>"]
  by simp

text \<open>Cutting a list behind an entry moves everything up to that entry to the other head, and
  splicing it back at the front restores the list.\<close>

theorem list_cut_splice:
  assumes "is_list h head (xs @ e # ys)" "l \<notin> set (head # xs @ e # ys)"
  shows "is_list (list_cut_position l head e h) l (xs @ [e]) \<and> is_list (list_cut_position l head e h) head ys
    \<and> is_list (list_splice_init l head (list_cut_position l head e h)) head (xs @ e # ys)
    \<and> is_list (list_splice_init l head (list_cut_position l head e h)) l []"
proof -
  let ?h = "list_cut_position l head e h"
  have c: "is_list ?h l (xs @ [e])" "is_list ?h head ys" using list_cut_position_refines [OF assms] by auto
  have "distinct (head # xs @ e # ys)" using assms(1) by (simp add: is_list_def)
  then have "set (l # xs @ [e]) \<inter> set (head # ys) = {}" using assms(2) by auto
  note s = list_splice_refines(3,4) [OF c(2,1) this]
  have "is_list (list_splice_init l head ?h) head (xs @ e # ys)" using s(1) by simp
  with c s(2) show ?thesis by blast
qed

definition ex_heap :: list_heap where
  "ex_heap = list_add 4 1 (list_add 3 1 (list_add 2 1 (INIT_LIST_HEAD 1 \<lparr>l_next = id, l_prev = id\<rparr>)))"

lemma ex_heap_list: "is_list ex_heap 1 [4, 3, 2]"
  unfolding ex_heap_def by (intro list_add_refines INIT_LIST_HEAD_refines) simp_all

theorem list_cut_splice_witness:
  "is_list (list_cut_position 9 1 3 ex_heap) 9 [4, 3] \<and> is_list (list_cut_position 9 1 3 ex_heap) 1 [2]
    \<and> is_list (list_splice_init 9 1 (list_cut_position 9 1 3 ex_heap)) 1 [4, 3, 2]"
  using list_cut_splice [of ex_heap 1 "[4]" 3 "[2]" 9] ex_heap_list by simp

text \<open>The loop that remembers the next entry before running its body visits every entry once, in
  order, ends, and empties the list when its body unlinks the entry it is given.\<close>

theorem list_for_each_safe_empties:
  assumes "is_list h head xs" "length xs < n"
  shows "\<exists>h'. list_for_each_safe n (\<lambda>e (s, h). (s @ [e], list_del_init e h)) head (l_next h head) (l_next h (l_next h head)) ([], h) = Inr (xs, h')
     \<and> list_empty head h'"
proof -
  obtain h' where "list_for_each_safe n (\<lambda>e (s, h). (s @ [e], list_del_init e h)) head (l_next h head) (l_next h (l_next h head)) ([], h) = Inr (xs, h')"
      "is_list h' head []"
    using list_for_each_safe_drain [OF assms, of "[]"] by auto
  with list_empty_refines show ?thesis by blast
qed

theorem list_for_each_safe_empties_witness:
  "\<exists>h'. list_for_each_safe 4 (\<lambda>e (s, h). (s @ [e], list_del_init e h)) 1 (l_next ex_heap 1) (l_next ex_heap (l_next ex_heap 1)) ([], ex_heap)
     = Inr ([4, 3, 2], h') \<and> list_empty 1 h'"
  using list_for_each_safe_empties [OF ex_heap_list, of 4] by simp

text \<open>C29: On a hash list, adding at the head, before or behind an entry, and removing an entry do to
  the sequence of entries what they say, without writing through a NULL or poisoned back
  pointer; moving the list to another head moves all entries and leaves the old head empty.\<close>

theorem hlist_ops_refine:
  assumes "is_hlist h hh (xs @ e # ys)" "n \<notin> set (xs @ e # ys)" "n \<noteq> 0" "g \<noteq> hh"
  shows "is_hlist (hlist_add_head n hh h) hh (n # xs @ e # ys)
    \<and> (\<exists>h'. hlist_add_before n e h = Inr h' \<and> is_hlist h' hh (xs @ n # e # ys))
    \<and> is_hlist (hlist_add_after e n h) hh (xs @ e # n # ys)
    \<and> (\<exists>h'. hlist_del e h = Inr h' \<and> is_hlist h' hh (xs @ ys))
    \<and> (\<exists>h'. hlist_del_init e h = Inr h' \<and> is_hlist h' hh (xs @ ys) \<and> hlist_unhashed e h')
    \<and> is_hlist (hlist_move_list hh g h) g (xs @ e # ys) \<and> hlist_empty hh (hlist_move_list hh g h)"
  using hlist_add_head_refines [OF assms(1-3)] hlist_add_before_refines [OF assms(1-3)] hlist_add_after_refines [OF assms(1-3)]
    hlist_del_refines [OF assms(1)] hlist_move_list_refines [OF assms(1) not_sym [OF assms(4)]]
  by (auto simp: is_hlist_def hlist_empty_def)

definition ex_hheap :: hlist_heap where
  "ex_hheap = hlist_add_head 5 1 (hlist_add_head 6 1 \<lparr>h_first = (\<lambda>_. 0), h_next = (\<lambda>_. 0), h_pprev = (\<lambda>_. None)\<rparr>)"

theorem hlist_ops_refine_witness:
  "\<exists>h'. hlist_add_before 7 6 ex_hheap = Inr h' \<and> is_hlist h' 1 [5, 7, 6]"
proof -
  have "is_hlist \<lparr>h_first = (\<lambda>_. 0), h_next = (\<lambda>_. 0), h_pprev = (\<lambda>_. None)\<rparr> 1 []" by (simp add: is_hlist_def)
  then have "is_hlist ex_hheap 1 ([5] @ 6 # [])" unfolding ex_hheap_def by (simp add: hlist_add_head_refines)
  from hlist_ops_refine [OF this, of 7 2] show ?thesis by simp
qed

end
