(* ===== verification/Rbtree.thy ===== *)
theory Rbtree
  imports Prelude
begin

text \<open>
  The red-black trees of rbtree.c and include/rbtree.h: rotations, rebalancing after an insertion and the
  walk in order; erasing and replacing a node are in the theory \<open>RbErase\<close>.

  A node is known by its address, 0 is NULL. The left and the right branch of the code's functions are
  mirror images of each other, so the model has a side as a parameter. \<open>None\<close> is a run that does not
  return or that follows a NULL pointer. The lemmas relate the memory to a tree with a hole and
  the path from the hole to the root; each operation is then a change of that tree.
\<close>

unbundle bit_operations_syntax

section \<open>Nodes\<close>

text \<open>
  The parent pointer and the colour share a word. Nodes are aligned to words, so the two low bits of an
  address are 0, and the macros read and write the two parts independently of each other.
\<close>

definition RB_BLACK_BIT :: u64 where "RB_BLACK_BIT = 1"
definition RB_MASK :: u64 where "RB_MASK = 3"

definition pc_parent :: "u64 \<Rightarrow> u64" where "pc_parent w = w AND NOT RB_MASK"
definition pc_color :: "u64 \<Rightarrow> u64" where "pc_color w = w AND RB_BLACK_BIT"
definition pc_set_parent :: "u64 \<Rightarrow> u64 \<Rightarrow> u64" where "pc_set_parent w p = (w AND RB_MASK) OR p"
definition pc_set_color :: "u64 \<Rightarrow> u64 \<Rightarrow> u64" where "pc_set_color w c = (w AND NOT RB_BLACK_BIT) OR c"
definition pc_set_red :: "u64 \<Rightarrow> u64" where "pc_set_red w = w AND NOT RB_BLACK_BIT"
definition pc_set_black :: "u64 \<Rightarrow> u64" where "pc_set_black w = w OR RB_BLACK_BIT"

lemma low_bits: "bit RB_MASK n \<longleftrightarrow> n < 2" "bit RB_BLACK_BIT n \<longleftrightarrow> n = 0" for n
proof -
  have m: "RB_MASK = mask 2"
    by (simp add: RB_MASK_def mask_eq_exp_minus_1)
  show "bit RB_MASK n \<longleftrightarrow> n < 2"
    unfolding m by (auto simp: bit_mask_iff possible_bit_def)
  show "bit RB_BLACK_BIT n \<longleftrightarrow> n = 0"
    by (simp add: RB_BLACK_BIT_def bit_1_iff)
qed

lemma parent_color_independent:
  assumes "p AND RB_MASK = 0" "c \<in> {0, RB_BLACK_BIT}"
  shows "pc_parent (pc_set_parent w p) = p" "pc_color (pc_set_parent w p) = pc_color w"
    "pc_parent (pc_set_color w c) = pc_parent w" "pc_color (pc_set_color w c) = c"
    "pc_parent (pc_set_red w) = pc_parent w" "pc_color (pc_set_red w) = 0"
    "pc_parent (pc_set_black w) = pc_parent w" "pc_color (pc_set_black w) = RB_BLACK_BIT"
proof -
  have p: "\<not> bit p n" if "n < 2" for n
    using arg_cong [OF assms(1), of "\<lambda>w. bit w n"] that by (simp add: bit_and_iff low_bits)
  have c: "bit c n \<Longrightarrow> n = 0" for n
    using assms(2) by (auto simp: low_bits)
  note bits = pc_parent_def pc_color_def pc_set_parent_def pc_set_color_def pc_set_red_def pc_set_black_def
    bit_and_iff bit_or_iff bit_not_iff low_bits
  show "pc_parent (pc_set_parent w p) = p" "pc_color (pc_set_parent w p) = pc_color w"
    by (rule bit_eqI, use p in \<open>auto simp: bits possible_bit_def dest: bit_imp_le_length\<close>)+
  show "pc_parent (pc_set_color w c) = pc_parent w"
    by (rule bit_eqI) (auto simp: bits possible_bit_def dest: c)
  show "pc_color (pc_set_color w c) = c"
    by (rule bit_eqI) (auto simp: bits possible_bit_def dest: c)
  show "pc_parent (pc_set_red w) = pc_parent w" "pc_color (pc_set_red w) = 0" "pc_parent (pc_set_black w) = pc_parent w"
      "pc_color (pc_set_black w) = RB_BLACK_BIT"
    by (rule bit_eqI, auto simp: bits possible_bit_def)+
qed

text \<open>From here on a node has the two parts as fields.\<close>

datatype rb_color = RB_RED | RB_BLACK

record rb_node =
  rb_parent :: nat
  rb_color :: rb_color
  rb_right :: nat
  rb_left :: nat

type_synonym rb_mem = "nat \<Rightarrow> rb_node"

record rb_root =
  rb_mem :: rb_mem
  rb_node :: nat

datatype side = Lft | Rgt

primrec opp :: "side \<Rightarrow> side" where
  "opp Lft = Rgt"
| "opp Rgt = Lft"

primrec kid :: "side \<Rightarrow> rb_node \<Rightarrow> nat" where
  "kid Lft n = rb_left n"
| "kid Rgt n = rb_right n"

definition upd_node :: "nat \<Rightarrow> (rb_node \<Rightarrow> rb_node) \<Rightarrow> rb_root \<Rightarrow> rb_root" where
  "upd_node a f t = t\<lparr>rb_mem := (rb_mem t)(a := f (rb_mem t a))\<rparr>"

primrec set_kid :: "side \<Rightarrow> nat \<Rightarrow> nat \<Rightarrow> rb_root \<Rightarrow> rb_root" where
  "set_kid Lft a v t = upd_node a (\<lambda>n. n\<lparr>rb_left := v\<rparr>) t"
| "set_kid Rgt a v t = upd_node a (\<lambda>n. n\<lparr>rb_right := v\<rparr>) t"

definition rb_set_parent :: "nat \<Rightarrow> nat \<Rightarrow> rb_root \<Rightarrow> rb_root" where
  "rb_set_parent a p t = upd_node a (\<lambda>n. n\<lparr>rb_parent := p\<rparr>) t"

definition rb_set_color :: "nat \<Rightarrow> rb_color \<Rightarrow> rb_root \<Rightarrow> rb_root" where
  "rb_set_color a c t = upd_node a (\<lambda>n. n\<lparr>rb_color := c\<rparr>) t"

definition is_red :: "rb_root \<Rightarrow> nat \<Rightarrow> bool" where
  "is_red t a \<longleftrightarrow> a \<noteq> 0 \<and> rb_color (rb_mem t a) = RB_RED"

text \<open>A node that is its own parent is not in a tree.\<close>

definition RB_EMPTY_NODE :: "rb_root \<Rightarrow> nat \<Rightarrow> bool" where
  "RB_EMPTY_NODE t a \<longleftrightarrow> rb_parent (rb_mem t a) = a"

definition RB_CLEAR_NODE :: "nat \<Rightarrow> rb_root \<Rightarrow> rb_root" where
  "RB_CLEAR_NODE a t = rb_set_parent a a t"

definition rb_init_node :: "nat \<Rightarrow> rb_root \<Rightarrow> rb_root" where
  "rb_init_node a t = RB_CLEAR_NODE a (upd_node a (\<lambda>_. \<lparr>rb_parent = 0, rb_color = RB_RED, rb_right = 0, rb_left = 0\<rparr>) t)"

section \<open>Rotations and insertion\<close>

text \<open>\<^verbatim>\<open>__rb_rotate_left\<close> for the side \<open>Lft\<close>, \<^verbatim>\<open>__rb_rotate_right\<close> for \<open>Rgt\<close>: the node goes down on that side.\<close>

definition rb_rotate :: "side \<Rightarrow> nat \<Rightarrow> rb_root \<Rightarrow> rb_root option" where
  "rb_rotate s node t =
     (let other = kid (opp s) (rb_mem t node); parent = rb_parent (rb_mem t node) in
      if node = 0 \<or> other = 0 then None
      else
        let t = set_kid (opp s) node (kid s (rb_mem t other)) t;
            t = (if kid (opp s) (rb_mem t node) \<noteq> 0 then rb_set_parent (kid s (rb_mem t other)) node t else t);
            t = set_kid s other node t;
            t = rb_set_parent other parent t;
            t = (if parent \<noteq> 0 then
                   (if node = kid s (rb_mem t parent) then set_kid s parent other t else set_kid (opp s) parent other t)
                 else t\<lparr>rb_node := other\<rparr>)
        in Some (rb_set_parent node other t))"

text \<open>
  The loop of \<^verbatim>\<open>rb_insert_color\<close>. The branch for the parent on the left of the grandparent is that of
  the side \<open>Lft\<close>.
\<close>

partial_function (option) rb_insert_loop :: "nat \<Rightarrow> rb_root \<Rightarrow> rb_root option" where
  "rb_insert_loop node t =
     (let parent = rb_parent (rb_mem t node) in
      if parent = 0 \<or> rb_color (rb_mem t parent) \<noteq> RB_RED then Some t
      else let gparent = rb_parent (rb_mem t parent) in
        if gparent = 0 then None
        else let s = (if parent = rb_left (rb_mem t gparent) then Lft else Rgt);
                 uncle = kid (opp s) (rb_mem t gparent) in
          if is_red t uncle
          then rb_insert_loop gparent (rb_set_color gparent RB_RED (rb_set_color parent RB_BLACK (rb_set_color uncle RB_BLACK t)))
          else Option.bind
                 (if kid (opp s) (rb_mem t parent) = node then map_option (\<lambda>t. (parent, node, t)) (rb_rotate s parent t)
                  else Some (node, parent, t))
                 (\<lambda>(node, parent, t).
                    Option.bind (rb_rotate (opp s) gparent (rb_set_color gparent RB_RED (rb_set_color parent RB_BLACK t)))
                      (rb_insert_loop node)))"

definition rb_insert_color :: "nat \<Rightarrow> rb_root \<Rightarrow> rb_root option" where
  "rb_insert_color node t =
     Option.bind (rb_insert_loop node t) (\<lambda>t. if rb_node t = 0 then None else Some (rb_set_color (rb_node t) RB_BLACK t))"

text \<open>A \<^verbatim>\<open>struct rb_node **\<close> points to the root pointer or to a child pointer of a node.\<close>

datatype rb_link = RootLink | KidLink side nat

primrec set_link :: "rb_link \<Rightarrow> nat \<Rightarrow> rb_root \<Rightarrow> rb_root" where
  "set_link RootLink v t = t\<lparr>rb_node := v\<rparr>"
| "set_link (KidLink s a) v t = set_kid s a v t"

definition rb_link_node :: "nat \<Rightarrow> nat \<Rightarrow> rb_link \<Rightarrow> rb_root \<Rightarrow> rb_root" where
  "rb_link_node node parent link t =
     set_link link node (upd_node node (\<lambda>_. \<lparr>rb_parent = parent, rb_color = RB_RED, rb_right = 0, rb_left = 0\<rparr>) t)"

definition rb_link_and_balance :: "nat \<Rightarrow> nat \<Rightarrow> rb_link \<Rightarrow> rb_root \<Rightarrow> rb_root option" where
  "rb_link_and_balance node parent link t = rb_insert_color node (rb_link_node node parent link t)"

section \<open>The order of the nodes\<close>

partial_function (option) go_down :: "side \<Rightarrow> rb_mem \<Rightarrow> nat \<Rightarrow> nat option" where
  "go_down s m n = (if kid s (m n) = 0 then Some n else go_down s m (kid s (m n)))"

definition rb_first :: "rb_root \<Rightarrow> nat option" where
  "rb_first t = (if rb_node t = 0 then Some 0 else go_down Lft (rb_mem t) (rb_node t))"

definition rb_last :: "rb_root \<Rightarrow> nat option" where
  "rb_last t = (if rb_node t = 0 then Some 0 else go_down Rgt (rb_mem t) (rb_node t))"

text \<open>Up while the node is on the side \<open>s\<close> of its parent.\<close>

partial_function (option) go_up :: "side \<Rightarrow> rb_mem \<Rightarrow> nat \<Rightarrow> nat option" where
  "go_up s m n =
     (let parent = rb_parent (m n) in
      if parent \<noteq> 0 \<and> n = kid s (m parent) then go_up s m parent else Some parent)"

text \<open>\<^verbatim>\<open>rb_next\<close> for the side \<open>Rgt\<close>, \<^verbatim>\<open>rb_prev\<close> for \<open>Lft\<close>.\<close>

definition rb_step :: "side \<Rightarrow> rb_root \<Rightarrow> nat \<Rightarrow> nat option" where
  "rb_step s t node =
     (let m = rb_mem t in
      if rb_parent (m node) = node then Some 0
      else if kid s (m node) \<noteq> 0 then go_down (opp s) m (kid s (m node))
      else go_up s m node)"

definition rb_next :: "rb_root \<Rightarrow> nat \<Rightarrow> nat option" where
  "rb_next = rb_step Rgt"

definition rb_prev :: "rb_root \<Rightarrow> nat \<Rightarrow> nat option" where
  "rb_prev = rb_step Lft"

section \<open>Trees in memory\<close>

datatype rbt = Lf | Nd rb_color rbt nat rbt

text \<open>A node with its subtree \<open>k\<close> on the side \<open>s\<close> and \<open>o\<close> on the other one.\<close>

definition nd :: "side \<Rightarrow> rb_color \<Rightarrow> rbt \<Rightarrow> nat \<Rightarrow> rbt \<Rightarrow> rbt" where
  "nd s c k a u = (if s = Lft then Nd c k a u else Nd c u a k)"

definition mk_node :: "side \<Rightarrow> nat \<Rightarrow> rb_color \<Rightarrow> nat \<Rightarrow> nat \<Rightarrow> rb_node" where
  "mk_node s p c k u = \<lparr>rb_parent = p, rb_color = c, rb_right = (if s = Lft then u else k), rb_left = (if s = Lft then k else u)\<rparr>"

fun rid :: "rbt \<Rightarrow> nat" where
  "rid Lf = 0"
| "rid (Nd c l a r) = a"

fun addrs :: "rbt \<Rightarrow> nat list" where
  "addrs Lf = []"
| "addrs (Nd c l a r) = addrs l @ a # addrs r"

fun tree_at :: "rb_mem \<Rightarrow> nat \<Rightarrow> rbt \<Rightarrow> bool" where
  "tree_at m p Lf \<longleftrightarrow> True"
| "tree_at m p (Nd c l a r) \<longleftrightarrow> a \<noteq> 0 \<and> m a = \<lparr>rb_parent = p, rb_color = c, rb_right = rid r, rb_left = rid l\<rparr> \<and> tree_at m a l \<and> tree_at m a r"

text \<open>The way from a hole up to the root: on which side of which node, and the subtree at the other side.\<close>

type_synonym frame = "side \<times> rb_color \<times> nat \<times> rbt"

fun zid :: "frame list \<Rightarrow> nat" where
  "zid [] = 0"
| "zid ((s, c, a, u) # z) = a"

fun zaddrs :: "frame list \<Rightarrow> nat list" where
  "zaddrs [] = []"
| "zaddrs ((s, c, a, u) # z) = a # addrs u @ zaddrs z"

fun hole_at :: "rb_mem \<Rightarrow> nat \<Rightarrow> frame list \<Rightarrow> nat \<Rightarrow> bool" where
  "hole_at m k [] root \<longleftrightarrow> root = k"
| "hole_at m k ((s, c, a, u) # z) root \<longleftrightarrow> a \<noteq> 0 \<and> m a = mk_node s (zid z) c k (rid u) \<and> tree_at m a u \<and> hole_at m a z root"

fun plug :: "rbt \<Rightarrow> frame list \<Rightarrow> rbt" where
  "plug t [] = t"
| "plug t ((s, c, a, u) # z) = plug (nd s c t a u) z"

text \<open>\<open>F\<close> is the memory outside of the tree, which no operation on the tree may change.\<close>

definition holds :: "rb_mem \<Rightarrow> rbt \<Rightarrow> frame list \<Rightarrow> rb_root \<Rightarrow> bool" where
  "holds F t z T \<longleftrightarrow> tree_at (rb_mem T) (zid z) t \<and> hole_at (rb_mem T) (rid t) z (rb_node T) \<and> distinct (addrs t @ zaddrs z)
     \<and> (\<forall>q. q \<notin> set (addrs t @ zaddrs z) \<longrightarrow> rb_mem T q = F q)"

lemma nd_simps [simp]:
  "rid (nd s c k a u) = a" "set (addrs (nd s c k a u)) = insert a (set (addrs k) \<union> set (addrs u))"
  "distinct (addrs (nd s c k a u)) \<longleftrightarrow> distinct (addrs k) \<and> distinct (addrs u) \<and> a \<notin> set (addrs k) \<and> a \<notin> set (addrs u) \<and> set (addrs k) \<inter> set (addrs u) = {}"
  "tree_at m p (nd s c k a u) \<longleftrightarrow> a \<noteq> 0 \<and> m a = mk_node s p c (rid k) (rid u) \<and> tree_at m a k \<and> tree_at m a u"
  by (auto simp: nd_def mk_node_def)

lemma side_simps [simp]: "opp (opp s) = s" "opp s \<noteq> s" "s \<noteq> opp s"
  by (cases s; simp)+

lemma nd_opp: "nd (opp s) c k a u = nd s c u a k"
  by (cases s) (simp_all add: nd_def)

lemma mk_node_simps [simp]:
  "kid s (mk_node s p c k u) = k" "kid (opp s) (mk_node s p c k u) = u" "rb_parent (mk_node s p c k u) = p" "rb_color (mk_node s p c k u) = c"
  by (cases s; simp add: mk_node_def)+

lemma mk_node_opp: "mk_node (opp s) p c k u = mk_node s p c u k"
  by (cases s) (simp_all add: mk_node_def)

lemma kid_mk: "kid s' (mk_node s p c k u) = (if s' = s then k else u)"
  by (cases s; cases s') (simp_all add: mk_node_def)

lemma mem_set [simp]:
  "rb_mem (upd_node a f t) = (rb_mem t)(a := f (rb_mem t a))" "rb_node (upd_node a f t) = rb_node t"
  "rb_mem (rb_set_parent a p t) = (rb_mem t)(a := (rb_mem t a)\<lparr>rb_parent := p\<rparr>)" "rb_node (rb_set_parent a p t) = rb_node t"
  "rb_mem (rb_set_color a c t) = (rb_mem t)(a := (rb_mem t a)\<lparr>rb_color := c\<rparr>)" "rb_node (rb_set_color a c t) = rb_node t"
  "rb_node (set_kid s a v t) = rb_node t"
  by (cases s; simp add: upd_node_def rb_set_parent_def rb_set_color_def)+

definition put_kid :: "side \<Rightarrow> nat \<Rightarrow> rb_node \<Rightarrow> rb_node" where
  "put_kid s v n = (if s = Lft then n\<lparr>rb_left := v\<rparr> else n\<lparr>rb_right := v\<rparr>)"

lemma mem_set_kid [simp]: "rb_mem (set_kid s a v t) = (rb_mem t)(a := put_kid s v (rb_mem t a))"
  by (cases s) (simp_all add: put_kid_def upd_node_def)

lemma put_kid_mk [simp]: "put_kid s v (mk_node s p c k u) = mk_node s p c v u" "put_kid (opp s) v (mk_node s p c k u) = mk_node s p c k v"
  "(mk_node s p c k u)\<lparr>rb_parent := p'\<rparr> = mk_node s p' c k u" "(mk_node s p c k u)\<lparr>rb_color := c'\<rparr> = mk_node s p c' k u"
  by (cases s; simp add: mk_node_def put_kid_def)+

lemma tree_at_cong: "(\<And>a. a \<in> set (addrs t) \<Longrightarrow> m' a = m a) \<Longrightarrow> tree_at m' p t = tree_at m p t"
  by (induction t arbitrary: p) auto

lemma hole_at_cong: "(\<And>a. a \<in> set (zaddrs z) \<Longrightarrow> m' a = m a) \<Longrightarrow> hole_at m' k z r = hole_at m k z r"
proof (induction z arbitrary: k)
  case (Cons f z)
  then show ?case
    using tree_at_cong [of _ m' m] by (cases f) auto
qed simp

lemma tree_at_nonzero: "tree_at m p t \<Longrightarrow> 0 \<notin> set (addrs t)"
  by (induction t arbitrary: p) auto

lemma rid_in: "t \<noteq> Lf \<Longrightarrow> rid t \<in> set (addrs t)"
  by (cases t) auto

lemma rid_zero: "tree_at m p t \<Longrightarrow> rid t = 0 \<longleftrightarrow> t = Lf"
  by (cases t) auto

lemma rid_cases: "rid t \<noteq> 0 \<Longrightarrow> rid t \<in> set (addrs t)"
  by (cases t) auto

text \<open>Moving a subtree below another parent, and putting another subtree into a hole.\<close>

lemma tree_at_move:
  assumes "tree_at m p t" "distinct (addrs t)" "\<And>a. a \<in> set (addrs t) \<Longrightarrow> m' a = (if a = rid t then (m a)\<lparr>rb_parent := p'\<rparr> else m a)"
  shows "tree_at m' p' t"
proof (cases t)
  case (Nd c l a r)
  then have "tree_at m' a l = tree_at m a l" "tree_at m' a r = tree_at m a r"
    by (intro tree_at_cong; use assms(2,3) in auto)+
  then show ?thesis
    using assms(1,3) Nd by auto
qed simp

lemma hole_at_fill:
  assumes "hole_at m k z root" "distinct (zaddrs z)" "z \<noteq> []"
    and "\<And>a. a \<in> set (zaddrs z) \<Longrightarrow> m' a = (if a = zid z then put_kid (fst (hd z)) k' (m a) else m a)"
  shows "hole_at m' k' z root"
proof -
  obtain s c a u z' where z: "z = (s, c, a, u) # z'"
    using assms(3) by (cases z) auto
  then have "tree_at m' a u = tree_at m a u" "hole_at m' a z' root = hole_at m a z' root"
    by (intro tree_at_cong hole_at_cong; use assms(2,4) z in auto)+
  then show ?thesis
    using assms(1,4) z by auto
qed

definition rot_mem :: "side \<Rightarrow> rb_color \<Rightarrow> rb_color \<Rightarrow> rbt \<Rightarrow> nat \<Rightarrow> rbt \<Rightarrow> nat \<Rightarrow> rbt \<Rightarrow> frame list \<Rightarrow> rb_mem \<Rightarrow> rb_mem" where
  "rot_mem s c c' a x b y d z m = (\<lambda>q.
     if q = x then mk_node s y c (rid a) (rid b)
     else if q = y then mk_node s (zid z) c' x (rid d)
     else if q = rid b \<and> q \<noteq> 0 then (m q)\<lparr>rb_parent := x\<rparr>
     else if q = zid z \<and> z \<noteq> [] then put_kid (fst (hd z)) y (m q)
     else m q)"

text \<open>The child pointer of the parent that is overwritten is the one that led to the node.\<close>

lemma rotate_parent:
  assumes "holds F (nd s c a x (nd s c' b y d)) z T"
    and "m3 = m2(y := n3)" "m2 = (if rid b \<noteq> 0 then m1(rid b := n2) else m1)" "m1 = (rb_mem T)(x := n1)"
  shows "zid z = 0 \<longleftrightarrow> z = []"
    "z \<noteq> [] \<Longrightarrow> m3 (zid z) = rb_mem T (zid z) \<and> fst (hd z) = (if x = kid s (m3 (zid z)) then s else opp s)"
proof -
  show "zid z = 0 \<longleftrightarrow> z = []"
    using assms(1) by (cases z) (auto simp: holds_def)
  assume "z \<noteq> []"
  then obtain s' cp p u z' where z: "z = (s', cp, p, u) # z'"
    by (cases z) auto
  have p: "rb_mem T p = mk_node s' (zid z') cp x (rid u)" "x \<noteq> 0"
    using assms(1) z by (simp_all add: holds_def)
  have np: "p \<noteq> x" "p \<noteq> y" "rid b = 0 \<or> p \<noteq> rid b" "rid u \<noteq> x"
    using assms(1) z p(2) rid_cases [of u] rid_cases [of b] by (auto simp: holds_def)
  have "s' = s \<or> s' = opp s"
    by (cases s; cases s') simp_all
  moreover have "m3 p = rb_mem T p"
    using np(1-3) by (cases "rid b = 0") (simp_all add: assms(2-4))
  moreover have "x = kid s (mk_node s' (zid z') cp x (rid u)) \<longleftrightarrow> s = s'"
    using np(4) by (simp add: kid_mk)
  ultimately show "m3 (zid z) = rb_mem T (zid z) \<and> fst (hd z) = (if x = kid s (m3 (zid z)) then s else opp s)"
    using p(1) z by (elim disjE) (simp_all only: zid.simps list.sel fst_conv simp_thms side_simps if_True if_False)
qed

lemma rotate_mem:
  assumes "holds F (nd s c a x (nd s c' b y d)) z T"
  shows "rb_rotate s x T = Some (T\<lparr>rb_mem := rot_mem s c c' a x b y d z (rb_mem T), rb_node := if z = [] then y else rb_node T\<rparr>)"
proof -
  let ?m = "rb_mem T"
  have m: "?m x = mk_node s (zid z) c (rid a) y" "?m y = mk_node s x c' (rid b) (rid d)" "x \<noteq> 0" "y \<noteq> 0"
    using assms by (simp_all add: holds_def)
  have ne: "x \<noteq> y" "x \<notin> set (addrs b)" "y \<notin> set (addrs b)" "x \<notin> set (zaddrs z)" "y \<notin> set (zaddrs z)" "set (addrs b) \<inter> set (zaddrs z) = {}"
    using assms by (auto simp: holds_def)
  then have b: "rid b \<noteq> x" "rid b \<noteq> y"
    using rid_cases [of b] m(3,4) by auto
  define t1 where "t1 = set_kid (opp s) x (rid b) T"
  define t2 where "t2 = (if rid b \<noteq> 0 then rb_set_parent (rid b) x t1 else t1)"
  define t3 where "t3 = rb_set_parent y (zid z) (set_kid s y x t2)"
  define t4 where "t4 = (if zid z \<noteq> 0 then (if x = kid s (rb_mem t3 (zid z)) then set_kid s (zid z) y t3 else set_kid (opp s) (zid z) y t3)
      else t3\<lparr>rb_node := y\<rparr>)"
  have m1: "rb_mem t1 = ?m(x := mk_node s (zid z) c (rid a) (rid b))"
    by (simp add: t1_def m)
  have m2: "rb_mem t2 = (if rid b \<noteq> 0 then (rb_mem t1)(rid b := (?m (rid b))\<lparr>rb_parent := x\<rparr>) else rb_mem t1)"
    using b by (simp add: t2_def m1)
  have "rb_mem t2 y = mk_node s x c' (rid b) (rid d)"
    using b ne(1) by (simp add: m2 m1 m)
  then have m3: "rb_mem t3 = (rb_mem t2)(y := mk_node s (zid z) c' x (rid d))"
    by (simp add: t3_def)
  have rot: "rb_rotate s x T = Some (rb_set_parent x y t4)"
  proof -
    have k: "kid (opp s) (?m x) = y" "rb_parent (?m x) = zid z" "kid s (?m y) = rid b" "(x = 0) = False" "(y = 0) = False"
      using m by simp_all
    have k1: "kid (opp s) (rb_mem t1 x) = rid b" "kid s (rb_mem t1 y) = rid b"
      using m ne(1) by (simp_all add: m1)
    show ?thesis
      by (simp only: rb_rotate_def Let_def k k1 simp_thms if_False t4_def t3_def t2_def t1_def [symmetric])
  qed
  have n3: "rb_node t3 = rb_node T"
    by (simp add: t3_def t2_def t1_def)
  have m4: "rb_mem t4 = (if z = [] then rb_mem t3 else (rb_mem t3)(zid z := put_kid (fst (hd z)) y (?m (zid z))))" "rb_node t4 = (if z = [] then y else rb_node T)"
    using rotate_parent [OF assms m3 m2 m1] n3 by (simp_all add: t4_def)
  have zne: "z \<noteq> [] \<Longrightarrow> zid z \<noteq> x \<and> zid z \<noteq> y \<and> zid z \<noteq> rid b"
    using ne rid_cases [of b] assms by (cases z) (auto simp: holds_def)
  have "rb_mem (rb_set_parent x y t4) = rot_mem s c c' a x b y d z ?m"
  proof (rule ext)
    fix q
    show "rb_mem (rb_set_parent x y t4) q = rot_mem s c c' a x b y d z ?m q"
      by (cases "z = []"; cases "q = x"; cases "q = y"; cases "q = rid b") (use b ne(1) zne in \<open>auto simp: m4 m3 m2 m1 rot_mem_def\<close>)
  qed
  then show ?thesis
    using rot m4(2) by (simp add: rb_root.equality)
qed

lemma rotate_ok:
  assumes "holds F (nd s c a x (nd s c' b y d)) z T"
  shows "\<exists>T'. rb_rotate s x T = Some T' \<and> holds F (nd s c' (nd s c a x b) y d) z T'"
proof -
  let ?m = "rb_mem T"
  let ?M = "rot_mem s c c' a x b y d z ?m"
  have h: "tree_at ?m x a" "tree_at ?m y b" "tree_at ?m y d" "x \<noteq> 0" "y \<noteq> 0" "hole_at ?m x z (rb_node T)"
    using assms by (simp_all add: holds_def)
  have dist: "distinct (addrs a)" "distinct (addrs b)" "distinct (addrs d)" "distinct (zaddrs z)" "x \<noteq> y"
      "x \<notin> set (addrs a) \<union> set (addrs b) \<union> set (addrs d) \<union> set (zaddrs z)" "y \<notin> set (addrs a) \<union> set (addrs b) \<union> set (addrs d) \<union> set (zaddrs z)"
      "set (addrs a) \<inter> set (addrs b) = {}" "set (addrs a) \<inter> set (addrs d) = {}" "set (addrs b) \<inter> set (addrs d) = {}"
      "(set (addrs a) \<union> set (addrs b) \<union> set (addrs d)) \<inter> set (zaddrs z) = {}"
    using assms by (auto simp: holds_def)
  have zid: "z \<noteq> [] \<Longrightarrow> zid z \<in> set (zaddrs z)"
    by (cases z) auto
  have b: "rid b = 0 \<or> rid b \<in> set (addrs b)"
    using rid_cases by blast
  have "tree_at ?M x a = tree_at ?m x a" "tree_at ?M y d = tree_at ?m y d"
    by (intro tree_at_cong; use dist zid b in \<open>auto simp: rot_mem_def\<close>)+
  moreover have "tree_at ?M x b"
    by (rule tree_at_move [OF h(2) dist(2)]) (use dist zid tree_at_nonzero [OF h(2)] in \<open>auto simp: rot_mem_def\<close>)
  moreover have "hole_at ?M y z (if z = [] then y else rb_node T)"
  proof (cases "z = []")
    case False
    have "hole_at ?M y z (rb_node T)"
      by (rule hole_at_fill [OF h(6) dist(4) False]) (use dist b False in \<open>auto simp: rot_mem_def\<close>)
    then show ?thesis
      using False by simp
  qed simp
  moreover have "?M x = mk_node s y c (rid a) (rid b)" "?M y = mk_node s (zid z) c' x (rid d)"
    using dist(5) by (simp_all add: rot_mem_def)
  moreover have "distinct (addrs (nd s c' (nd s c a x b) y d) @ zaddrs z)"
    using dist by auto
  moreover have "?M q = F q" if "q \<notin> set (addrs (nd s c' (nd s c a x b) y d) @ zaddrs z)" for q
  proof -
    have "?M q = ?m q"
      using that zid b by (auto simp: rot_mem_def)
    then show ?thesis
      using assms that by (simp add: holds_def)
  qed
  ultimately show ?thesis
    using rotate_mem [OF assms] h by (simp add: holds_def)
qed

section \<open>Balance\<close>

text \<open>The two rules: no red node has a red child, and every way down meets the same number \<open>n\<close> of black nodes.\<close>

fun isblack :: "rbt \<Rightarrow> bool" where
  "isblack Lf \<longleftrightarrow> True"
| "isblack (Nd c l a r) \<longleftrightarrow> c = RB_BLACK"

fun rb_ok :: "nat \<Rightarrow> rbt \<Rightarrow> bool" where
  "rb_ok n Lf \<longleftrightarrow> n = 0"
| "rb_ok n (Nd RB_RED l a r) \<longleftrightarrow> rb_ok n l \<and> rb_ok n r \<and> isblack l \<and> isblack r"
| "rb_ok n (Nd RB_BLACK l a r) \<longleftrightarrow> n \<noteq> 0 \<and> rb_ok (n - 1) l \<and> rb_ok (n - 1) r"

fun zcol :: "frame list \<Rightarrow> rb_color" where
  "zcol [] = RB_BLACK"
| "zcol ((s, c, a, u) # z) = c"

text \<open>The same for the surroundings of a hole for a tree of \<open>n\<close> black nodes on every way.\<close>

fun hole_ok :: "nat \<Rightarrow> frame list \<Rightarrow> bool" where
  "hole_ok n [] \<longleftrightarrow> True"
| "hole_ok n ((s, RB_BLACK, a, u) # z) \<longleftrightarrow> rb_ok n u \<and> hole_ok (Suc n) z"
| "hole_ok n ((s, RB_RED, a, u) # z) \<longleftrightarrow> rb_ok n u \<and> isblack u \<and> z \<noteq> [] \<and> zcol z = RB_BLACK \<and> hole_ok n z"

lemma nd_ok [simp]:
  "isblack (nd s c k a u) \<longleftrightarrow> c = RB_BLACK"
  "rb_ok n (nd s RB_RED k a u) \<longleftrightarrow> rb_ok n k \<and> rb_ok n u \<and> isblack k \<and> isblack u"
  "rb_ok n (nd s RB_BLACK k a u) \<longleftrightarrow> n \<noteq> 0 \<and> rb_ok (n - 1) k \<and> rb_ok (n - 1) u"
  by (auto simp: nd_def)

lemma color_cases: "c \<noteq> RB_RED \<longleftrightarrow> c = RB_BLACK" "c \<noteq> RB_BLACK \<longleftrightarrow> c = RB_RED"
  by (cases c; simp)+

lemma plug_ok:
  "rb_ok n t \<Longrightarrow> hole_ok n z \<Longrightarrow> isblack t \<or> zcol z = RB_BLACK \<Longrightarrow> \<exists>k. rb_ok k (plug t z) \<and> (z \<noteq> [] \<longrightarrow> isblack (plug t z))"
proof (induction z arbitrary: n t)
  case (Cons f z)
  obtain s c a u where f: "f = (s, c, a, u)"
    by (cases f)
  show ?case
  proof (cases c)
    case RB_RED
    then have "rb_ok n (nd s c t a u)" "hole_ok n z" "zcol z = RB_BLACK" "z \<noteq> []"
      using Cons.prems f by auto
    then show ?thesis
      using Cons.IH [of n "nd s c t a u"] f by simp
  next
    case RB_BLACK
    then have "rb_ok (Suc n) (nd s c t a u)" "hole_ok (Suc n) z" "isblack (nd s c t a u)"
      using Cons.prems f by auto
    then show ?thesis
      using Cons.IH [of "Suc n" "nd s c t a u"] f by (cases "z = []") auto
  qed
qed auto

lemma addrs_nd_cong: "addrs k = addrs k' \<Longrightarrow> addrs u = addrs u' \<Longrightarrow> addrs (nd s c k a u) = addrs (nd s c' k' a u')"
  by (simp add: nd_def)

lemma addrs_plug_cong: "addrs t = addrs t' \<Longrightarrow> addrs (plug t z) = addrs (plug t' z)"
proof (induction z arbitrary: t t')
  case (Cons f z)
  obtain s c a u where "f = (s, c, a, u)"
    by (cases f)
  then show ?case
    using Cons.IH [OF addrs_nd_cong [OF Cons.prems refl]] by simp
qed simp

lemma addrs_rotate: "addrs (nd s c' (nd s c a x b) y d) = addrs (nd s c a x (nd s c' b y d))"
  by (simp add: nd_def)

lemma refocus: "holds F t ((s, c, a, u) # z) T \<longleftrightarrow> holds F (nd s c t a u) z T"
  by (auto simp: holds_def)

lemma holds_plug: "holds F t z T \<longleftrightarrow> holds F (plug t z) [] T"
proof (induction z arbitrary: t)
  case (Cons f z)
  obtain s c a u where "f = (s, c, a, u)"
    by (cases f)
  then show ?case
    using Cons.IH by (simp add: refocus)
qed simp

lemma recolor:
  assumes "holds F (nd s c k a u) z T"
  shows "holds F (nd s c' k a u) z (rb_set_color a c' T)"
proof -
  let ?m = "rb_mem T"
  let ?M = "rb_mem (rb_set_color a c' T)"
  have h: "?m a = mk_node s (zid z) c (rid k) (rid u)" "tree_at ?m a k" "tree_at ?m a u" "hole_at ?m a z (rb_node T)" "a \<noteq> 0"
      "a \<notin> set (addrs k)" "a \<notin> set (addrs u)" "a \<notin> set (zaddrs z)" "distinct (addrs (nd s c' k a u) @ zaddrs z)"
    using assms by (auto simp: holds_def)
  have "tree_at ?M a k = tree_at ?m a k" "tree_at ?M a u = tree_at ?m a u" "hole_at ?M a z (rb_node T) = hole_at ?m a z (rb_node T)"
    by (intro tree_at_cong hole_at_cong; use h in auto)+
  moreover have "\<forall>q. q \<notin> set (addrs (nd s c' k a u) @ zaddrs z) \<longrightarrow> ?m q = F q"
    using assms by (simp add: holds_def)
  ultimately show ?thesis
    using h by (simp add: holds_def)
qed

lemma recolor_kid:
  assumes "holds F (nd s c (nd s' d k b v) a u) z T"
  shows "holds F (nd s c (nd s' d' k b v) a u) z (rb_set_color b d' T)"
  using recolor [of F s' d k b v "(s, c, a, u) # z" T d'] assms by (simp add: refocus)

lemma recolor_other:
  assumes "holds F (nd s c k a (nd s' d l b v)) z T"
  shows "holds F (nd s c k a (nd s' d' l b v)) z (rb_set_color b d' T)"
  using recolor_kid [of F "opp s" c s' d l b v a k z T d'] assms by (simp add: nd_opp)

section \<open>Insertion\<close>

text \<open>What a node and its two nearest ancestors look like in memory.\<close>

lemma focus_mem:
  assumes "holds F (nd s0 c0 l x r) ((s, c, p, u) # z) T"
  shows "rb_parent (rb_mem T x) = p" "rb_mem T p = mk_node s (zid z) c x (rid u)" "p \<noteq> 0" "x \<noteq> 0" "rid u \<noteq> x" "x \<noteq> p"
  using assms rid_cases [of u] by (auto simp: holds_def)

lemma insert_done:
  assumes "holds F (nd s0 c0 l x r) z T" "zcol z = RB_BLACK"
  shows "rb_insert_loop x T = Some T"
proof (cases z)
  case Nil
  then show ?thesis
    using assms(1) by (subst rb_insert_loop.simps) (simp add: holds_def)
next
  case (Cons f z')
  then obtain s p u where f: "f = (s, RB_BLACK, p, u)"
    using assms(2) by (cases f) auto
  then show ?thesis
    using focus_mem [OF assms(1) [unfolded Cons f]] by (subst rb_insert_loop.simps) simp
qed

definition insert_pre :: "nat \<Rightarrow> nat \<Rightarrow> nat \<Rightarrow> nat \<Rightarrow> side \<Rightarrow> side \<Rightarrow> rbt \<Rightarrow> rbt \<Rightarrow> rb_root \<Rightarrow> bool" where
  "insert_pre x p g q s s' u v T \<longleftrightarrow> rb_parent (rb_mem T x) = p \<and> rb_mem T p = mk_node s g RB_RED x (rid u) \<and> rb_mem T g = mk_node s' q RB_BLACK p (rid v)
     \<and> p \<noteq> 0 \<and> g \<noteq> 0 \<and> rid u \<noteq> x \<and> rid v \<noteq> p"

lemma insert_unfold:
  assumes "insert_pre x p g q s s' u v T"
  shows "is_red T (rid v) \<Longrightarrow> rb_insert_loop x T = rb_insert_loop g (rb_set_color g RB_RED (rb_set_color p RB_BLACK (rb_set_color (rid v) RB_BLACK T)))"
    "\<not> is_red T (rid v) \<Longrightarrow> s = s' \<Longrightarrow> rb_insert_loop x T = Option.bind (rb_rotate (opp s') g (rb_set_color g RB_RED (rb_set_color p RB_BLACK T))) (rb_insert_loop x)"
    "\<not> is_red T (rid v) \<Longrightarrow> s = opp s' \<Longrightarrow> rb_rotate s' p T = Some T1 \<Longrightarrow>
       rb_insert_loop x T = Option.bind (rb_rotate (opp s') g (rb_set_color g RB_RED (rb_set_color x RB_BLACK T1))) (rb_insert_loop p)"
proof -
  have m: "rb_parent (rb_mem T x) = p" "rb_mem T p = mk_node s g RB_RED x (rid u)" "rb_mem T g = mk_node s' q RB_BLACK p (rid v)"
      "(p = 0) = False" "(g = 0) = False" "(rid u = x) = False" "rid v \<noteq> p"
    using assms by (auto simp: insert_pre_def)
  have side: "(if p = rb_left (mk_node s' q RB_BLACK p (rid v)) then Lft else Rgt) = s'"
    using m(7) by (cases s') (auto simp: mk_node_def)
  have inner: "(kid (opp s') (mk_node s g RB_RED x (rid u)) = x) = (s = opp s')"
    using m(6) by (cases s; cases s') (auto simp: mk_node_def)
  note unfold = rb_insert_loop.simps [of x T] Let_def m(1-6) mk_node_simps simp_thms side inner not_True_eq_False not_False_eq_True if_True if_False
    bind.bind_lunit prod.case option.map side_simps
  show "is_red T (rid v) \<Longrightarrow> rb_insert_loop x T = rb_insert_loop g (rb_set_color g RB_RED (rb_set_color p RB_BLACK (rb_set_color (rid v) RB_BLACK T)))"
    by (simp only: unfold)
  show "\<not> is_red T (rid v) \<Longrightarrow> s = s' \<Longrightarrow> rb_insert_loop x T = Option.bind (rb_rotate (opp s') g (rb_set_color g RB_RED (rb_set_color p RB_BLACK T))) (rb_insert_loop x)"
    by (simp only: unfold)
  show "\<not> is_red T (rid v) \<Longrightarrow> s = opp s' \<Longrightarrow> rb_rotate s' p T = Some T1 \<Longrightarrow>
       rb_insert_loop x T = Option.bind (rb_rotate (opp s') g (rb_set_color g RB_RED (rb_set_color x RB_BLACK T1))) (rb_insert_loop p)"
    by (simp only: unfold)
qed

lemma black_not_red: "isblack v \<Longrightarrow> tree_at (rb_mem T) p v \<Longrightarrow> \<not> is_red T (rid v)"
  by (cases v) (auto simp: is_red_def)

lemma insert_pre_holds:
  assumes "holds F (nd s0 RB_RED l x r) ((s, RB_RED, p, u) # (s', RB_BLACK, g, v) # z) T"
  shows "insert_pre x p g (zid z) s s' u v T"
proof -
  have "holds F (nd s RB_RED (nd s0 RB_RED l x r) p u) ((s', RB_BLACK, g, v) # z) T"
    using assms by (simp add: refocus)
  from focus_mem [OF this] focus_mem [OF assms] show ?thesis
    by (simp add: insert_pre_def)
qed

lemma hole_tree:
  assumes "holds F t ((s, c, p, u) # (s', c', g, v) # z) T"
  shows "tree_at (rb_mem T) g v" "tree_at (rb_mem T) p u"
  using assms by (simp_all add: holds_def)

lemma insert_outer:
  assumes "holds F (nd s0 RB_RED l x r) ((s, RB_RED, p, u) # (s, RB_BLACK, g, v) # z) T" "isblack v" "tree_at (rb_mem T) g v"
  shows "\<exists>T'. rb_insert_loop x T = Some T' \<and> holds F (nd s RB_BLACK (nd s0 RB_RED l x r) p (nd s RB_RED u g v)) z T'"
proof -
  let ?t = "nd s0 RB_RED l x r"
  let ?T = "rb_set_color g RB_RED (rb_set_color p RB_BLACK T)"
  have "holds F (nd s RB_BLACK (nd s RB_RED ?t p u) g v) z T"
    using assms(1) by (simp add: refocus)
  then have "holds F (nd s RB_RED (nd s RB_BLACK ?t p u) g v) z ?T"
    by (intro recolor) (rule recolor_kid)
  then have "holds F (nd (opp s) RB_RED v g (nd (opp s) RB_BLACK u p ?t)) z ?T"
    by (simp add: nd_opp)
  from rotate_ok [OF this] obtain T' where T': "rb_rotate (opp s) g ?T = Some T'" "holds F (nd s RB_BLACK ?t p (nd s RB_RED u g v)) z T'"
    by (auto simp: nd_opp)
  have "rb_insert_loop x T' = Some T'"
    by (rule insert_done [of F s0 RB_RED l x r "(s, RB_BLACK, p, nd s RB_RED u g v) # z"]) (simp_all add: refocus T'(2))
  then show ?thesis
    using insert_unfold(2) [OF insert_pre_holds [OF assms(1)] black_not_red [OF assms(2,3)] refl] T' by simp
qed

lemma insert_inner:
  assumes "holds F (nd s RB_RED l x r) ((opp s, RB_RED, p, u) # (s, RB_BLACK, g, v) # z) T" "isblack v" "tree_at (rb_mem T) g v"
  shows "\<exists>T'. rb_insert_loop x T = Some T' \<and> holds F (nd s RB_BLACK (nd s RB_RED u p l) x (nd s RB_RED r g v)) z T'"
proof -
  let ?t = "nd s RB_RED l x r"
  have "holds F (nd s RB_RED u p ?t) ((s, RB_BLACK, g, v) # z) T"
    using assms(1) by (simp add: refocus nd_opp)
  from rotate_ok [OF this] obtain T1 where T1: "rb_rotate s p T = Some T1" "holds F (nd s RB_RED (nd s RB_RED u p l) x r) ((s, RB_BLACK, g, v) # z) T1"
    by blast
  let ?T = "rb_set_color g RB_RED (rb_set_color x RB_BLACK T1)"
  have "holds F (nd s RB_RED (nd s RB_BLACK (nd s RB_RED u p l) x r) g v) z ?T"
    using T1(2) by (intro recolor) (rule recolor_kid, simp add: refocus)
  then have "holds F (nd (opp s) RB_RED v g (nd (opp s) RB_BLACK r x (nd s RB_RED u p l))) z ?T"
    by (simp add: nd_opp)
  from rotate_ok [OF this] obtain T' where T': "rb_rotate (opp s) g ?T = Some T'" "holds F (nd s RB_BLACK (nd s RB_RED u p l) x (nd s RB_RED r g v)) z T'"
    by (auto simp: nd_opp)
  have "rb_insert_loop p T' = Some T'"
    by (rule insert_done [of F s RB_RED u p l "(s, RB_BLACK, x, nd s RB_RED r g v) # z"]) (simp_all add: refocus T'(2))
  then show ?thesis
    using insert_unfold(3) [OF insert_pre_holds [OF assms(1)] black_not_red [OF assms(2,3)] refl T1(1)] T' by simp
qed

lemma insert_uncle:
  assumes "holds F (nd s0 RB_RED l x r) ((s, RB_RED, p, u) # (s', RB_BLACK, g, nd s1 RB_RED vl v vr) # z) T"
  shows "\<exists>T'. rb_insert_loop x T = rb_insert_loop g T' \<and> holds F (nd s' RB_RED (nd s RB_BLACK (nd s0 RB_RED l x r) p u) g (nd s1 RB_BLACK vl v vr)) z T'"
proof -
  let ?t = "nd s0 RB_RED l x r"
  let ?T = "rb_set_color g RB_RED (rb_set_color p RB_BLACK (rb_set_color v RB_BLACK T))"
  have h: "holds F (nd s' RB_BLACK (nd s RB_RED ?t p u) g (nd s1 RB_RED vl v vr)) z T"
    using assms by (simp add: refocus)
  then have "holds F (nd s' RB_RED (nd s RB_BLACK ?t p u) g (nd s1 RB_BLACK vl v vr)) z ?T"
    by (intro recolor) (rule recolor_kid, rule recolor_other)
  moreover have "is_red T (rid (nd s1 RB_RED vl v vr))"
    using h by (simp add: holds_def is_red_def)
  ultimately show ?thesis
    using insert_unfold(1) [OF insert_pre_holds [OF assms]] by (metis nd_simps(1))
qed

lemma red_nd: "t \<noteq> Lf \<Longrightarrow> \<not> isblack t \<Longrightarrow> \<exists>l x r. t = nd s RB_RED l x r"
  by (cases t; cases s) (auto simp: nd_def color_cases)

text \<open>A tree of the given nodes in their order that is balanced once its root is black.\<close>

definition blackened :: "rb_mem \<Rightarrow> nat list \<Rightarrow> rb_root \<Rightarrow> bool" where
  "blackened F xs T \<longleftrightarrow> (\<exists>s c a y d k. holds F (nd s c a y d) [] T \<and> addrs (nd s c a y d) = xs \<and> rb_ok k (nd s RB_BLACK a y d))"

lemma blackenedI:
  assumes "holds F t z T" "t \<noteq> Lf" "rb_ok n t" "hole_ok n z" "z = [] \<or> isblack t \<or> zcol z = RB_BLACK"
  shows "blackened F (addrs (plug t z)) T"
proof -
  have "plug t z \<noteq> Lf"
    using assms(2) by (induction t z rule: plug.induct) (auto simp: nd_def)
  then obtain c a y d where p: "plug t z = nd Lft c a y d"
    by (cases "plug t z") (auto simp: nd_def)
  have "\<exists>k. rb_ok k (nd Lft RB_BLACK a y d)"
  proof (cases "z = []")
    case True
    then show ?thesis
      using assms(3) p by (cases c) (auto intro: exI [of _ "Suc n"] exI [of _ n])
  next
    case False
    then show ?thesis
      using plug_ok [OF assms(3,4)] assms(5) p by auto
  qed
  moreover have "holds F (nd Lft c a y d) [] T"
    using assms(1) holds_plug p by metis
  ultimately show ?thesis
    unfolding blackened_def p by blast
qed

lemma red_hole:
  assumes "hole_ok n z" "zcol z = RB_RED"
  shows "\<exists>s p u s' g v z2. z = (s, RB_RED, p, u) # (s', RB_BLACK, g, v) # z2 \<and> rb_ok n u \<and> isblack u \<and> rb_ok n v \<and> hole_ok (Suc n) z2"
proof -
  obtain s p u z1 where z1: "z = (s, RB_RED, p, u) # z1" "rb_ok n u" "isblack u" "z1 \<noteq> []" "zcol z1 = RB_BLACK" "hole_ok n z1"
    using assms by (cases z rule: zcol.cases) auto
  then obtain s' g v z2 where "z1 = (s', RB_BLACK, g, v) # z2" "rb_ok n v" "hole_ok (Suc n) z2"
    by (cases z1 rule: zcol.cases) auto
  then show ?thesis
    using z1 by auto
qed

text \<open>With a black uncle one or two rotations finish the work.\<close>

lemma insert_rotations:
  assumes "holds F (nd s0 RB_RED l x r) ((s, RB_RED, p, u) # (s', RB_BLACK, g, v) # z) T" "rb_ok n (nd s0 RB_RED l x r)"
    and "rb_ok n u" "isblack u" "rb_ok n v" "isblack v" "hole_ok (Suc n) z"
  shows "\<exists>T'. rb_insert_loop x T = Some T' \<and> blackened F (addrs (plug (nd s' RB_BLACK (nd s RB_RED (nd s0 RB_RED l x r) p u) g v) z)) T'"
proof (cases "s = s'")
  case True
  let ?t = "nd s0 RB_RED l x r"
  let ?new = "nd s RB_BLACK ?t p (nd s RB_RED u g v)"
  from insert_outer [OF assms(1) [folded True] assms(6) hole_tree(1) [OF assms(1)]] obtain T' where
    T': "rb_insert_loop x T = Some T'" "holds F ?new z T'"
    by blast
  have "blackened F (addrs (plug ?new z)) T'"
    using assms by (intro blackenedI [OF T'(2) _ _ assms(7)]) (auto simp: nd_def [of s RB_BLACK])
  moreover have "addrs (plug ?new z) = addrs (plug (nd s' RB_BLACK (nd s RB_RED ?t p u) g v) z)"
    unfolding True by (intro addrs_plug_cong) (simp add: nd_def)
  ultimately show ?thesis
    using T'(1) by simp
next
  case False
  then have s: "s = opp s'"
    by (cases s; cases s') auto
  obtain l' r' where lr: "nd s0 RB_RED l x r = nd s' RB_RED l' x r'" "rb_ok n l'" "rb_ok n r'" "isblack l'" "isblack r'"
    using assms(2) by (cases s0; cases s') (auto simp: nd_def)
  let ?new = "nd s' RB_BLACK (nd s' RB_RED u p l') x (nd s' RB_RED r' g v)"
  from insert_inner [OF assms(1) [unfolded s lr(1)] assms(6) hole_tree(1) [OF assms(1)]] obtain T' where
    T': "rb_insert_loop x T = Some T'" "holds F ?new z T'"
    by blast
  have "blackened F (addrs (plug ?new z)) T'"
    using lr assms(3-6) by (intro blackenedI [OF T'(2) _ _ assms(7)]) (auto simp: nd_def [of s' RB_BLACK])
  moreover have "addrs (plug ?new z) = addrs (plug (nd s' RB_BLACK (nd s RB_RED (nd s0 RB_RED l x r) p u) g v) z)"
    unfolding lr(1) s by (intro addrs_plug_cong) (cases s'; simp add: nd_def)
  ultimately show ?thesis
    using T'(1) by simp
qed

text \<open>
  The loop of \<^verbatim>\<open>rb_insert_color\<close> on a red tree whose only fault may be that its parent is red: it returns, with a
  balanced tree of the same nodes in the same order, up to the colour of the root.
\<close>

lemma insert_loop_ok:
  "holds F (nd s0 RB_RED l x r) z T \<Longrightarrow> rb_ok n (nd s0 RB_RED l x r) \<Longrightarrow> hole_ok n z \<Longrightarrow>
   \<exists>T'. rb_insert_loop x T = Some T' \<and> blackened F (addrs (plug (nd s0 RB_RED l x r) z)) T'"
proof (induction "length z" arbitrary: s0 l x r z T n rule: less_induct)
  case less
  let ?t = "nd s0 RB_RED l x r"
  show ?case
  proof (cases "zcol z = RB_BLACK")
    case True
    have "?t \<noteq> Lf"
      by (simp add: nd_def)
    then show ?thesis
      using insert_done [OF less.prems(1) True] blackenedI [OF less.prems(1) _ less.prems(2,3)] True by auto
  next
    case False
    then obtain s p u s' g v z2 where z: "z = (s, RB_RED, p, u) # (s', RB_BLACK, g, v) # z2" "rb_ok n u" "isblack u" "rb_ok n v" "hole_ok (Suc n) z2"
      using red_hole [OF less.prems(3)] by (auto simp: color_cases)
    note h = less.prems(1) [unfolded z(1)]
    show ?thesis
    proof (cases "isblack v")
      case True
      then show ?thesis
        using insert_rotations [OF h less.prems(2) z(2-4) _ z(5)] z(1) by simp
    next
      case False
      then obtain vl vx vr where v: "v = nd Lft RB_RED vl vx vr"
        using red_nd [of v Lft] by (cases v) auto
      let ?new = "nd s' RB_RED (nd s RB_BLACK ?t p u) g (nd Lft RB_BLACK vl vx vr)"
      from insert_uncle [OF h [unfolded v]] obtain T' where T': "rb_insert_loop x T = rb_insert_loop g T'" "holds F ?new z2 T'"
        by blast
      have "addrs (plug ?new z2) = addrs (plug ?t z)"
        unfolding z(1) v plug.simps by (intro addrs_plug_cong addrs_nd_cong refl)
      moreover have "rb_ok (Suc n) ?new"
        using less.prems(2) z(2,4) v by simp
      ultimately show ?thesis
        using less.hyps [OF _ T'(2) _ z(5)] T'(1) z(1) by simp
    qed
  qed
qed

lemma rb_insert_color_ok:
  assumes "holds F (nd s0 RB_RED l x r) z T" "rb_ok n (nd s0 RB_RED l x r)" "hole_ok n z"
  shows "\<exists>T' t k. rb_insert_color x T = Some T' \<and> holds F t [] T' \<and> addrs t = addrs (plug (nd s0 RB_RED l x r) z) \<and> rb_ok k t \<and> isblack t"
proof -
  from insert_loop_ok [OF assms] obtain T' s c a y d k where
    T': "rb_insert_loop x T = Some T'" "holds F (nd s c a y d) [] T'" "addrs (nd s c a y d) = addrs (plug (nd s0 RB_RED l x r) z)" "rb_ok k (nd s RB_BLACK a y d)"
    by (auto simp: blackened_def)
  have "rb_node T' = y" "y \<noteq> 0"
    using T'(2) by (auto simp: holds_def)
  moreover have "holds F (nd s RB_BLACK a y d) [] (rb_set_color y RB_BLACK T')"
    by (rule recolor [OF T'(2)])
  moreover have "addrs (nd s RB_BLACK a y d) = addrs (nd s c a y d)"
    by (intro addrs_nd_cong refl)
  ultimately show ?thesis
    using T' by (intro exI [of _ "rb_set_color y RB_BLACK T'"] exI [of _ "nd s RB_BLACK a y d"] exI [of _ k]) (simp add: rb_insert_color_def)
qed

fun link_of :: "frame list \<Rightarrow> rb_link" where
  "link_of [] = RootLink"
| "link_of ((s, c, a, u) # z) = KidLink s a"

lemma rb_link_ok:
  assumes "holds F Lf z T" "x \<noteq> 0" "x \<notin> set (zaddrs z)"
  shows "holds F (nd s RB_RED Lf x Lf) z (rb_link_node x (zid z) (link_of z) T)"
proof (cases z)
  case Nil
  then show ?thesis
    using assms by (simp add: holds_def rb_link_node_def mk_node_def)
next
  case (Cons f z')
  obtain s' c p u where f: "f = (s', c, p, u)"
    by (cases f)
  let ?M = "rb_mem (rb_link_node x (zid z) (link_of z) T)"
  have z: "z \<noteq> []" "distinct (zaddrs z)" "p \<noteq> x"
    using assms Cons f by (auto simp: holds_def)
  have M: "?M = (rb_mem T)(x := mk_node s p RB_RED 0 0, p := put_kid s' x (rb_mem T p))"
    using z(3) Cons f by (simp add: rb_link_node_def mk_node_def)
  have "hole_at ?M x z (rb_node T)"
    by (rule hole_at_fill [of "rb_mem T" 0]) (use assms z Cons f M in \<open>auto simp: holds_def\<close>)
  moreover have "rb_node (rb_link_node x (zid z) (link_of z) T) = rb_node T"
    using Cons f by (simp add: rb_link_node_def)
  moreover have "?M x = mk_node s (zid z) RB_RED 0 0"
    unfolding M using z(3) Cons f by simp
  moreover have "?M q = F q" if "q \<notin> set (addrs (nd s RB_RED Lf x Lf) @ zaddrs z)" for q
  proof -
    have "?M q = rb_mem T q"
      unfolding M using that Cons f by auto
    then show ?thesis
      using assms that by (simp add: holds_def)
  qed
  ultimately show ?thesis
    using assms z by (simp add: holds_def)
qed

text \<open>A memory holds one tree only.\<close>

lemma tree_at_unique: "tree_at m p t \<Longrightarrow> tree_at m p t' \<Longrightarrow> rid t = rid t' \<Longrightarrow> t = t'"
proof (induction t arbitrary: p t')
  case Lf
  then show ?case
    by (cases t') auto
next
  case (Nd c l a r)
  then show ?case
    by (cases t') auto
qed

lemma holds_unique: "holds F t [] T \<Longrightarrow> holds F t' [] T \<Longrightarrow> t = t'"
  using tree_at_unique by (auto simp: holds_def)

lemma plug_ok_inv:
  "rb_ok k (plug t z) \<Longrightarrow> isblack (plug t z) \<Longrightarrow> \<exists>n. rb_ok n t \<and> hole_ok n z \<and> (isblack t \<or> z \<noteq> [] \<and> zcol z = RB_BLACK)"
proof (induction z arbitrary: t)
  case (Cons f z)
  obtain s c a u where f: "f = (s, c, a, u)"
    by (cases f)
  obtain n where n: "rb_ok n (nd s c t a u)" "hole_ok n z" "isblack (nd s c t a u) \<or> z \<noteq> [] \<and> zcol z = RB_BLACK"
    using Cons.IH [of "nd s c t a u"] Cons.prems f by auto
  show ?case
  proof (cases c)
    case RB_RED
    then show ?thesis
      using n f by (intro exI [of _ n]) simp
  next
    case RB_BLACK
    then have "rb_ok (n - 1) t" "hole_ok (n - 1) (f # z)"
      using n f by simp_all
    then show ?thesis
      using RB_BLACK f by auto
  qed
qed auto

text \<open>A balanced tree in memory: its nodes in order.\<close>

definition rb_tree :: "rb_mem \<Rightarrow> nat list \<Rightarrow> rb_root \<Rightarrow> bool" where
  "rb_tree F xs T \<longleftrightarrow> (\<exists>t k. holds F t [] T \<and> addrs t = xs \<and> rb_ok k t \<and> isblack t)"

lemma plug_append: "plug t (z1 @ z2) = plug (plug t z1) z2"
  by (induction t z1 rule: plug.induct) auto

text \<open>The nodes on the two sides of a hole, and a way down to every node and every gap.\<close>

fun zbefore :: "frame list \<Rightarrow> nat list" where
  "zbefore [] = []"
| "zbefore ((s, c, a, u) # z) = zbefore z @ (if s = Lft then [] else addrs u @ [a])"

fun zafter :: "frame list \<Rightarrow> nat list" where
  "zafter [] = []"
| "zafter ((s, c, a, u) # z) = (if s = Lft then a # addrs u else []) @ zafter z"

lemma addrs_plug: "addrs (plug t z) = zbefore z @ addrs t @ zafter z"
  by (induction t z rule: plug.induct) (auto simp: nd_def)

lemma set_zaddrs: "set (zaddrs z) = set (zbefore z) \<union> set (zafter z)"
  by (induction z rule: zaddrs.induct) auto

theorem rb_insert_balanced:
  assumes "holds F Lf z T" "rb_tree F (zbefore z @ zafter z) T" "x \<noteq> 0" "x \<notin> set (zbefore z @ zafter z)"
  shows "\<exists>T'. rb_link_and_balance x (zid z) (link_of z) T = Some T' \<and> rb_tree F (zbefore z @ [x] @ zafter z) T'"
proof -
  obtain t k where t: "holds F t [] T" "addrs t = zbefore z @ zafter z" "rb_ok k t" "isblack t"
    using assms(2) by (auto simp: rb_tree_def)
  have "t = plug Lf z"
    using t(1) assms(1) holds_unique holds_plug by blast
  then obtain n where n: "rb_ok n Lf" "hole_ok n z"
    using plug_ok_inv [of k Lf z] t by auto
  have "holds F (nd Lft RB_RED Lf x Lf) z (rb_link_node x (zid z) (link_of z) T)"
    by (rule rb_link_ok [OF assms(1,3)]) (use assms(4) set_zaddrs in auto)
  from rb_insert_color_ok [OF this _ n(2)] n(1) show ?thesis
    by (auto simp: rb_link_and_balance_def rb_tree_def addrs_plug nd_def)
qed

lemma distinct_split_unique:
  "distinct zs \<Longrightarrow> zs = xs @ x # ys \<Longrightarrow> zs = us @ x # vs \<Longrightarrow> xs = us \<and> ys = vs"
  by (auto simp: append_eq_append_conv2 append_eq_Cons_conv Cons_eq_append_conv)

section \<open>Walking in order\<close>

definition in_order :: "side \<Rightarrow> nat list \<Rightarrow> nat list" where
  "in_order s xs = (if s = Rgt then xs else rev xs)"

text \<open>The nodes behind a hole in the direction \<open>s\<close>.\<close>

definition behind :: "side \<Rightarrow> frame list \<Rightarrow> nat list" where
  "behind s z = (if s = Rgt then zafter z else rev (zbefore z))"

lemma behind_Cons: "behind s ((s', c, a, u) # z) = (if s' = s then behind s z else a # in_order s (addrs u) @ behind s z)"
  by (cases s; cases s') (simp_all add: behind_def in_order_def)

lemma in_order_nd: "in_order s (addrs (nd s c k a u)) = in_order s (addrs u) @ a # in_order s (addrs k)"
  by (cases s) (simp_all add: in_order_def nd_def)

lemma go_down_ok: "tree_at m p t \<Longrightarrow> t \<noteq> Lf \<Longrightarrow> go_down (opp s) m (rid t) = Some (hd (in_order s (addrs t)))"
proof (induction t arbitrary: p)
  case (Nd c l a r)
  obtain k u where ku: "Nd c l a r = nd s c k a u" "k \<in> {l, r}" "u \<in> {l, r}"
    by (cases s) (auto simp: nd_def)
  have m: "m a = mk_node s p c (rid k) (rid u)" "tree_at m a u"
    using Nd.prems(1) unfolding ku(1) by simp_all
  show ?case
  proof (cases "u = Lf")
    case True
    then have "hd (in_order s (addrs (nd s c k a u))) = a"
      by (cases s) (simp_all add: in_order_def nd_def)
    then show ?thesis
      using m(1) True unfolding ku(1) by (subst go_down.simps) simp
  next
    case False
    then have "go_down (opp s) m (rid u) = Some (hd (in_order s (addrs u)))" "rid u \<noteq> 0"
      using ku(3) m(2) Nd.IH rid_zero by auto
    moreover have "addrs u \<noteq> []"
      using False by (cases u) auto
    then have "hd (in_order s (addrs (nd s c k a u))) = hd (in_order s (addrs u))"
      by (simp add: in_order_nd) (simp add: in_order_def)
    ultimately show ?thesis
      using m(1) unfolding ku(1) by (subst go_down.simps) simp
  qed
qed simp

lemma go_up_ok: "holds F t z T \<Longrightarrow> t \<noteq> Lf \<Longrightarrow> go_up s (rb_mem T) (rid t) = Some (case behind s z of [] \<Rightarrow> 0 | y # _ \<Rightarrow> y)"
proof (induction z arbitrary: t)
  case Nil
  then have "rb_parent (rb_mem T (rid t)) = 0"
    by (cases t) (auto simp: holds_def)
  then show ?case
    by (subst go_up.simps) (simp add: behind_def)
next
  case (Cons f z)
  obtain s' c a u where f: "f = (s', c, a, u)"
    by (cases f)
  obtain ct l x r where t: "t = nd Lft ct l x r"
    using Cons.prems(2) by (cases t) (auto simp: nd_def)
  note m = focus_mem [OF Cons.prems(1) [unfolded f t]]
  have up: "holds F (nd s' c t a u) z T" "nd s' c t a u \<noteq> Lf"
    using Cons.prems(1) f by (auto simp: refocus nd_def)
  have k: "x = kid s (mk_node s' (zid z) c x (rid u)) \<longleftrightarrow> s' = s"
    using m(5) by (auto simp: kid_mk)
  show ?case
  proof (cases "s' = s")
    case True
    then show ?thesis
      using Cons.IH [OF up] m(1-3) k f t by (subst go_up.simps) (simp add: behind_Cons)
  next
    case False
    then show ?thesis
      using m(1-3) k f t by (subst go_up.simps) (simp add: behind_Cons)
  qed
qed

lemma focus_ex: "x \<in> set (addrs t) \<Longrightarrow> \<exists>c k u z. t = plug (nd s c k x u) z"
proof (induction t)
  case (Nd c l a r)
  consider "x = a" | "x \<in> set (addrs l)" | "x \<in> set (addrs r)"
    using Nd.prems by auto
  then show ?case
  proof cases
    case 1
    then have "Nd c l a r = plug (nd s c (if s = Lft then l else r) x (if s = Lft then r else l)) []"
      by (simp add: nd_def)
    then show ?thesis
      by blast
  next
    case 2
    then obtain c' k u z where "l = plug (nd s c' k x u) z"
      using Nd.IH(1) by blast
    then have "Nd c l a r = plug (nd s c' k x u) (z @ [(Lft, c, a, r)])"
      by (simp add: plug_append nd_def)
    then show ?thesis
      by blast
  next
    case 3
    then obtain c' k u z where "r = plug (nd s c' k x u) z"
      using Nd.IH(2) by blast
    then have "Nd c l a r = plug (nd s c' k x u) (z @ [(Rgt, c, a, l)])"
      by (simp add: plug_append nd_def)
    then show ?thesis
      by blast
  qed
qed simp

lemma in_order_plug: "in_order s (addrs (plug t z)) = in_order s (zbefore z @ addrs t @ zafter z)"
  by (simp add: addrs_plug)

lemma rb_step_ok:
  assumes "holds F t [] T" "in_order s (addrs t) = xs @ x # ys"
  shows "rb_step s T x = Some (case ys of [] \<Rightarrow> 0 | y # _ \<Rightarrow> y)"
proof -
  have "x \<in> set (addrs t)"
    using assms(2) by (metis in_set_conv_decomp in_order_def set_rev)
  then obtain c k u z where t: "t = plug (nd (opp s) c k x u) z"
    using focus_ex by blast
  have h: "holds F (nd (opp s) c k x u) z T"
    using assms(1) t holds_plug by simp
  have d: "distinct (in_order s (addrs t))"
    using assms(1) by (simp add: holds_def in_order_def)
  have split: "in_order s (addrs t) = (if s = Rgt then zbefore z else rev (zafter z)) @ in_order s (addrs k) @ x # in_order s (addrs u) @ behind s z"
    unfolding t in_order_plug by (cases s) (simp_all add: in_order_def nd_def behind_def)
  then have ys: "ys = in_order s (addrs u) @ behind s z"
    using distinct_split_unique [OF d assms(2), of "(if s = Rgt then zbefore z else rev (zafter z)) @ in_order s (addrs k)"] by simp
  have m: "rb_mem T x = mk_node (opp s) (zid z) c (rid k) (rid u)" "tree_at (rb_mem T) x u"
    using h by (simp_all add: holds_def)
  have p: "zid z \<noteq> x"
    using h by (cases z rule: zid.cases) (auto simp: holds_def)
  show ?thesis
  proof (cases "u = Lf")
    case True
    have "nd (opp s) c k x u \<noteq> Lf"
      by (simp add: nd_def)
    then show ?thesis
      using go_up_ok [OF h, of s] m p ys True by (simp add: rb_step_def Let_def mk_node_opp in_order_def)
  next
    case False
    then have "in_order s (addrs u) \<noteq> []" "rid u \<noteq> 0"
      using rid_zero [OF m(2)] by (cases u; auto simp: in_order_def)+
    then obtain y vs where "in_order s (addrs u) = y # vs"
      by (cases "in_order s (addrs u)") auto
    then show ?thesis
      using go_down_ok [OF m(2) False, of s] m(1) p ys \<open>rid u \<noteq> 0\<close> by (simp add: rb_step_def Let_def mk_node_opp)
  qed
qed

lemma insert_place:
  assumes "rb_tree F (xs @ p # ys) T" "kid s (rb_mem T p) = 0"
  shows "\<exists>z. holds F Lf z T \<and> zid z = p \<and> link_of z = KidLink s p \<and> zbefore z = (if s = Lft then xs else xs @ [p]) \<and> zafter z = (if s = Lft then p # ys else ys)"
proof -
  obtain t where t: "holds F t [] T" "addrs t = xs @ p # ys"
    using assms(1) by (auto simp: rb_tree_def)
  then obtain c k u z where z: "t = plug (nd s c k p u) z"
    using focus_ex [of p t s] by auto
  then have h: "holds F (nd s c k p u) z T"
    using t(1) holds_plug by simp
  then have "rid k = 0" "tree_at (rb_mem T) p k"
    using assms(2) by (simp_all add: holds_def)
  then have k: "k = Lf"
    using rid_zero by blast
  have d: "distinct (addrs t)"
    using t(1) by (simp add: holds_def)
  have "addrs t = zbefore z @ addrs (nd s c Lf p u) @ zafter z"
    unfolding z k by (simp add: addrs_plug)
  then have "xs = zbefore z @ (if s = Lft then [] else addrs u) \<and> ys = (if s = Lft then addrs u else []) @ zafter z"
    using distinct_split_unique [OF d t(2), of "zbefore z @ (if s = Lft then [] else addrs u)"] by (simp add: nd_def split: if_splits)
  moreover have "holds F Lf ((s, c, p, u) # z) T"
    using h k by (simp add: refocus)
  ultimately show ?thesis
    by (intro exI [of _ "(s, c, p, u) # z"]) simp
qed

text \<open>C13: Inserting into a red-black tree. Linking a new node at a free child pointer of a node of a balanced tree
  (no red node below a red one, the same number of black nodes on every way down, the root black) and rebalancing
  follows no NULL pointer, returns, and leaves a balanced tree with the same nodes in the same order and
  the new one next to its neighbour, before it for the left pointer and behind it for the right one.\<close>

theorem rb_insert_ordered:
  assumes "rb_tree F (xs @ p # ys) T" "kid s (rb_mem T p) = 0" "x \<noteq> 0" "x \<notin> set (xs @ p # ys)"
  shows "\<exists>T'. rb_link_and_balance x p (KidLink s p) T = Some T' \<and> rb_tree F (if s = Lft then xs @ x # p # ys else xs @ p # x # ys) T'"
proof -
  obtain z where z: "holds F Lf z T" "zid z = p" "link_of z = KidLink s p" "zbefore z = (if s = Lft then xs else xs @ [p])" "zafter z = (if s = Lft then p # ys else ys)"
    using insert_place [OF assms(1,2)] by blast
  have "rb_tree F (zbefore z @ zafter z) T" "x \<notin> set (zbefore z @ zafter z)"
    using assms(1,4) by (auto simp: z(4,5))
  from rb_insert_balanced [OF z(1) this(1) assms(3) this(2)] show ?thesis
    by (cases s) (simp_all add: z(2-5))
qed

lemma rb_tree_empty: "rb_node T = 0 \<Longrightarrow> rb_tree (rb_mem T) [] T"
  by (auto simp: rb_tree_def holds_def intro!: exI [of _ Lf])

text \<open>The first node of a tree.\<close>

lemma rb_insert_first:
  assumes "rb_tree F [] T" "x \<noteq> 0"
  shows "\<exists>T'. rb_link_and_balance x 0 RootLink T = Some T' \<and> rb_tree F [x] T'"
proof -
  have "holds F Lf [] T"
    using assms(1) by (auto simp: rb_tree_def holds_def) (metis addrs.simps(1) rid.simps(1) append_is_Nil_conv list.distinct(1) addrs.elims)
  then show ?thesis
    using rb_insert_balanced [of F "[]" T x] assms by simp
qed

text \<open>C15: The walk over a balanced tree visits its nodes in order: \<^verbatim>\<open>rb_first\<close> is the first one, \<^verbatim>\<open>rb_last\<close> the last, and
  \<^verbatim>\<open>rb_next\<close> and \<^verbatim>\<open>rb_prev\<close> of a node are its neighbours in that order, NULL at the ends. All of them return.\<close>

theorem rb_walk:
  assumes "rb_tree F (xs @ x # ys) T"
  shows "rb_next T x = Some (case ys of [] \<Rightarrow> 0 | y # _ \<Rightarrow> y) \<and> rb_prev T x = Some (case rev xs of [] \<Rightarrow> 0 | y # _ \<Rightarrow> y)
     \<and> rb_first T = Some (hd (xs @ [x])) \<and> rb_last T = Some (last (x # ys))"
proof -
  obtain t where t: "holds F t [] T" "addrs t = xs @ x # ys"
    using assms by (auto simp: rb_tree_def)
  have "rb_next T x = Some (case ys of [] \<Rightarrow> 0 | y # _ \<Rightarrow> y)"
    unfolding rb_next_def by (rule rb_step_ok [OF t(1), of Rgt xs]) (simp add: in_order_def t(2))
  moreover have "rb_prev T x = Some (case rev xs of [] \<Rightarrow> 0 | y # _ \<Rightarrow> y)"
    unfolding rb_prev_def by (rule rb_step_ok [OF t(1), of Lft "rev ys"]) (simp add: in_order_def t(2))
  moreover have ne: "t \<noteq> Lf" "tree_at (rb_mem T) 0 t" "rb_node T = rid t" "rid t \<noteq> 0"
    using t rid_zero by (auto simp: holds_def)
  have "rb_first T = Some (hd (xs @ [x]))" "rb_last T = Some (last (x # ys))"
    using go_down_ok [OF ne(2,1), of Rgt] go_down_ok [OF ne(2,1), of Lft] ne(3,4) t(2)
    by (simp_all add: rb_first_def rb_last_def in_order_def hd_append hd_rev)
  ultimately show ?thesis
    by blast
qed

text \<open>Three nodes inserted one behind the other, which takes a rotation.\<close>

definition ex_rb :: rb_root where
  "ex_rb = \<lparr>rb_mem = (\<lambda>_. \<lparr>rb_parent = 0, rb_color = RB_RED, rb_right = 0, rb_left = 0\<rparr>)(
       4 := \<lparr>rb_parent = 0, rb_color = RB_BLACK, rb_right = 8, rb_left = 0\<rparr>, 8 := \<lparr>rb_parent = 4, rb_color = RB_RED, rb_right = 0, rb_left = 0\<rparr>),
     rb_node = 4\<rparr>"

definition ex_outside :: rb_mem where
  "ex_outside = (\<lambda>_. \<lparr>rb_parent = 0, rb_color = RB_RED, rb_right = 0, rb_left = 0\<rparr>)"

lemma ex_rb_tree: "rb_tree ex_outside [4, 8] ex_rb"
  unfolding rb_tree_def
  by (intro exI [of _ "Nd RB_BLACK Lf 4 (Nd RB_RED Lf 8 Lf)"] exI [of _ 1]) (simp add: holds_def ex_rb_def ex_outside_def)

theorem rb_insert_ordered_witness: "\<exists>T'. rb_link_and_balance 12 8 (KidLink Rgt 8) ex_rb = Some T' \<and> rb_tree ex_outside [4, 8, 12] T'"
  using rb_insert_ordered [of ex_outside "[4]" 8 "[]" ex_rb Rgt 12] ex_rb_tree by (simp add: ex_rb_def)

theorem rb_walk_witness: "rb_next ex_rb 4 = Some 8 \<and> rb_prev ex_rb 4 = Some 0 \<and> rb_first ex_rb = Some 4 \<and> rb_last ex_rb = Some 8"
  using rb_walk [of ex_outside "[]" 4 "[8]" ex_rb] ex_rb_tree by simp

end
