(* ===== verification/RbErase.thy ===== *)
theory RbErase
  imports Rbtree
begin

text \<open>
  Erasing a node of a red-black tree (rbtree.c) and replacing one by another. The loop that repairs the
  colours is followed on a tree with a hole as in the theory before; taking out a node with two
  children is shown to be the same, outside of the old node, as taking out its successor and then
  replacing the node by it.
\<close>

section \<open>Operations\<close>

partial_function (option) rb_erase_loop :: "nat \<Rightarrow> nat \<Rightarrow> rb_root \<Rightarrow> (nat \<times> rb_root) option" where
  "rb_erase_loop node parent t =
     (if is_red t node \<or> node = rb_node t then Some (node, t)
      else if parent = 0 then None
      else let s = (if rb_left (rb_mem t parent) = node then Lft else Rgt);
               other = kid (opp s) (rb_mem t parent) in
        if other = 0 then None
        else Option.bind
          (if rb_color (rb_mem t other) = RB_RED
           then map_option (\<lambda>t. (kid (opp s) (rb_mem t parent), t)) (rb_rotate s parent (rb_set_color parent RB_RED (rb_set_color other RB_BLACK t)))
           else Some (other, t))
          (\<lambda>(other, t).
             if other = 0 then None
             else if \<not> is_red t (rb_left (rb_mem t other)) \<and> \<not> is_red t (rb_right (rb_mem t other))
             then let t = rb_set_color other RB_RED t in rb_erase_loop parent (rb_parent (rb_mem t parent)) t
             else Option.bind
               (if \<not> is_red t (kid (opp s) (rb_mem t other))
                then map_option (\<lambda>t. (kid (opp s) (rb_mem t parent), t))
                       (rb_rotate (opp s) other (rb_set_color other RB_RED (rb_set_color (kid s (rb_mem t other)) RB_BLACK t)))
                else Some (other, t))
               (\<lambda>(other, t).
                  let t = rb_set_color other (rb_color (rb_mem t parent)) t;
                      t = rb_set_color parent RB_BLACK t;
                      t = rb_set_color (kid (opp s) (rb_mem t other)) RB_BLACK t
                  in map_option (\<lambda>t. (rb_node t, t)) (rb_rotate s parent t))))"

definition rb_erase_color :: "nat \<Rightarrow> nat \<Rightarrow> rb_root \<Rightarrow> rb_root option" where
  "rb_erase_color node parent t =
     map_option (\<lambda>(node, t). if node \<noteq> 0 then rb_set_color node RB_BLACK t else t) (rb_erase_loop node parent t)"

definition relink :: "nat \<Rightarrow> nat \<Rightarrow> nat \<Rightarrow> rb_root \<Rightarrow> rb_root" where
  "relink parent old new t =
     (if parent \<noteq> 0 then
        (if rb_left (rb_mem t parent) = old then set_kid Lft parent new t else set_kid Rgt parent new t)
      else t\<lparr>rb_node := new\<rparr>)"

definition rb_erase :: "nat \<Rightarrow> rb_root \<Rightarrow> rb_root option" where
  "rb_erase node t =
     (if node = 0 then None else
      let left = rb_left (rb_mem t node); right = rb_right (rb_mem t node) in
      if left = 0 \<or> right = 0 then
        (let child = (if left = 0 then right else left);
             parent = rb_parent (rb_mem t node); color = rb_color (rb_mem t node);
             t = (if child \<noteq> 0 then rb_set_parent child parent t else t);
             t = relink parent node child t
         in if color = RB_BLACK then rb_erase_color child parent t else Some t)
      else Option.bind (go_down Lft (rb_mem t) right) (\<lambda>succ.
        let old = node;
            t = relink (rb_parent (rb_mem t old)) old succ t;
            child = rb_right (rb_mem t succ); parent = rb_parent (rb_mem t succ); color = rb_color (rb_mem t succ);
            (parent, t) =
              (if parent = old then (succ, t)
               else let t = (if child \<noteq> 0 then rb_set_parent child parent t else t);
                        t = set_kid Lft parent child t;
                        t = set_kid Rgt succ (rb_right (rb_mem t old)) t
                    in (parent, rb_set_parent (rb_right (rb_mem t old)) succ t));
            t = upd_node succ (\<lambda>n. n\<lparr>rb_parent := rb_parent (rb_mem t old), rb_color := rb_color (rb_mem t old)\<rparr>) t;
            t = set_kid Lft succ (rb_left (rb_mem t old)) t;
            t = rb_set_parent (rb_left (rb_mem t old)) succ t
        in if color = RB_BLACK then rb_erase_color child parent t else Some t))"

definition rb_replace_node :: "nat \<Rightarrow> nat \<Rightarrow> rb_root \<Rightarrow> rb_root" where
  "rb_replace_node victim new t =
     (let t = relink (rb_parent (rb_mem t victim)) victim new t;
          t = (if rb_left (rb_mem t victim) \<noteq> 0 then rb_set_parent (rb_left (rb_mem t victim)) new t else t);
          t = (if rb_right (rb_mem t victim) \<noteq> 0 then rb_set_parent (rb_right (rb_mem t victim)) new t else t)
      in upd_node new (\<lambda>_. rb_mem t victim) t)"

section \<open>Repairing the colours\<close>

text \<open>One round of the loop of \<^verbatim>\<open>__rb_erase_color\<close> from where \<^verbatim>\<open>other\<close>, the sibling, is black, and its last rotation.\<close>

definition erase_rot :: "side \<Rightarrow> nat \<Rightarrow> nat \<times> rb_root \<Rightarrow> (nat \<times> rb_root) option" where
  "erase_rot s parent = (\<lambda>(other, t).
     let t = rb_set_color other (rb_color (rb_mem t parent)) t;
         t = rb_set_color parent RB_BLACK t;
         t = rb_set_color (kid (opp s) (rb_mem t other)) RB_BLACK t
     in map_option (\<lambda>t. (rb_node t, t)) (rb_rotate s parent t))"

definition erase_tail :: "side \<Rightarrow> nat \<Rightarrow> nat \<times> rb_root \<Rightarrow> (nat \<times> rb_root) option" where
  "erase_tail s parent = (\<lambda>(other, t).
     if other = 0 then None
     else if \<not> is_red t (rb_left (rb_mem t other)) \<and> \<not> is_red t (rb_right (rb_mem t other))
     then let t = rb_set_color other RB_RED t in rb_erase_loop parent (rb_parent (rb_mem t parent)) t
     else Option.bind
       (if \<not> is_red t (kid (opp s) (rb_mem t other))
        then map_option (\<lambda>t. (kid (opp s) (rb_mem t parent), t))
               (rb_rotate (opp s) other (rb_set_color other RB_RED (rb_set_color (kid s (rb_mem t other)) RB_BLACK t)))
        else Some (other, t))
       (erase_rot s parent))"

text \<open>What the loop leaves: once the node it stopped at is black, the tree is balanced.\<close>

definition erase_post :: "rb_mem \<Rightarrow> nat list \<Rightarrow> (nat \<times> rb_root) option \<Rightarrow> bool" where
  "erase_post F xs r \<longleftrightarrow> (\<exists>t z T. r = Some (rid t, T) \<and> holds F t z T \<and> addrs (plug t z) = xs
     \<and> (t = Lf \<and> z = [] \<or> (\<exists>s c k a u n. t = nd s c k a u \<and> rb_ok n (nd s RB_BLACK k a u) \<and> hole_ok n z)))"

lemma nd_ex: "t \<noteq> Lf \<Longrightarrow> \<exists>c k a u. t = nd s c k a u"
  by (cases t; cases s) (auto simp: nd_def)

lemma nd_not_Lf [simp]: "nd s c k a u \<noteq> Lf" "Lf \<noteq> nd s c k a u"
  by (simp_all add: nd_def)

lemma plug_not_Lf: "t \<noteq> Lf \<Longrightarrow> plug t z \<noteq> Lf"
  by (induction t z rule: plug.induct) auto

lemma erase_stops:
  assumes "holds F t z T" "rb_ok n t" "hole_ok (Suc n) z" "\<not> isblack t \<or> z = []"
  shows "erase_post F (addrs (plug t z)) (rb_erase_loop (rid t) p T)"
proof -
  have "is_red T (rid t) \<or> rid t = rb_node T"
    using assms(1,4) by (cases t) (auto simp: holds_def is_red_def color_cases)
  then have "rb_erase_loop (rid t) p T = Some (rid t, T)"
    by (subst rb_erase_loop.simps) auto
  moreover have "t = Lf \<and> z = [] \<or> (\<exists>s c k a u n. t = nd s c k a u \<and> rb_ok n (nd s RB_BLACK k a u) \<and> hole_ok n z)"
  proof (cases "t = Lf")
    case False
    then obtain c k a u where t: "t = nd Lft c k a u"
      using nd_ex by blast
    then have "\<exists>n. rb_ok n (nd Lft RB_BLACK k a u) \<and> hole_ok n z"
      using assms(2-4) by (cases c) (auto intro: exI [of _ n] exI [of _ "Suc n"])
    then show ?thesis
      using t by blast
  qed (use assms(4) in simp)
  ultimately show ?thesis
    using assms(1) unfolding erase_post_def by blast
qed

text \<open>The last rotation gives a balanced tree; the node the loop stops at is then the root.\<close>

lemma erase_finish:
  assumes "holds F t z T" "rb_ok n t" "hole_ok n z" "isblack t \<or> z \<noteq> [] \<and> zcol z = RB_BLACK" "t \<noteq> Lf" "addrs (plug t z) = xs"
  shows "erase_post F xs (Some (rb_node T, T))"
proof -
  obtain m where m: "rb_ok m (plug t z)" "z \<noteq> [] \<longrightarrow> isblack (plug t z)"
    using plug_ok [OF assms(2,3)] assms(4) by blast
  have "plug t z \<noteq> Lf"
    by (rule plug_not_Lf [OF assms(5)])
  then obtain c k a u where p: "plug t z = nd Lft c k a u"
    using nd_ex by blast
  moreover have "c = RB_BLACK"
    using m(2) assms(4) p by (cases "z = []") auto
  moreover have h: "holds F (plug t z) [] T"
    using assms(1) holds_plug by blast
  then have "rb_node T = rid (plug t z)"
    by (simp add: holds_def)
  ultimately show ?thesis
    using m(1) assms(6) h unfolding erase_post_def
    by (intro exI [of _ "plug t z"] exI [of _ "[]"] exI [of _ T]) (metis hole_ok.simps(1) plug.simps(1))
qed

lemma hole_root: "hole_at m k z r \<Longrightarrow> z \<noteq> [] \<Longrightarrow> r \<in> set (zaddrs z) \<and> r \<noteq> 0"
proof (induction z arbitrary: k)
  case (Cons f z)
  obtain s c a u where "f = (s, c, a, u)"
    by (cases f)
  then show ?case
    using Cons by (cases "z = []") auto
qed simp

lemma is_red_tree: "tree_at (rb_mem T) p t \<Longrightarrow> is_red T (rid t) \<longleftrightarrow> \<not> isblack t"
  by (cases t) (auto simp: is_red_def color_cases)

lemma erase_unfold:
  assumes "holds F t ((s, c, p, u) # z) T" "isblack t" "u \<noteq> Lf"
  shows "rb_erase_loop (rid t) p T = Option.bind
     (if \<not> isblack u
      then map_option (\<lambda>t. (kid (opp s) (rb_mem t p), t)) (rb_rotate s p (rb_set_color p RB_RED (rb_set_color (rid u) RB_BLACK T)))
      else Some (rid u, T))
     (erase_tail s p)"
proof -
  have m: "rb_mem T p = mk_node s (zid z) c (rid t) (rid u)" "(p = 0) = False" "(rid u = 0) = False"
    using assms by (auto simp: holds_def rid_zero)
  have u: "(rb_color (rb_mem T (rid u)) = RB_RED) = (\<not> isblack u)"
    using assms(1,3) by (cases u) (auto simp: holds_def color_cases)
  have ne: "rid u \<noteq> rid t"
    using assms rid_cases [of t] rid_in [of u] m(3) by (auto simp: holds_def)
  have side: "(if rb_left (mk_node s (zid z) c (rid t) (rid u)) = rid t then Lft else Rgt) = s"
    using ne by (cases s) (auto simp: mk_node_def)
  have "is_red T (rid t) = False"
    using assms(1,2) is_red_tree by (auto simp: holds_def)
  moreover have "(rid t = rb_node T) = False"
    using hole_root [of "rb_mem T" "rid t" "(s, c, p, u) # z" "rb_node T"] assms(1) rid_cases [of t] by (auto simp: holds_def)
  ultimately show ?thesis
    by (simp only: rb_erase_loop.simps [of "rid t" p T] Let_def m mk_node_simps simp_thms side u if_True if_False erase_tail_def erase_rot_def)
qed

lemma erase_rot_ok:
  assumes "holds F (nd s c t p (nd s RB_BLACK a y (nd s1 RB_RED d1 x d2))) z T"
  shows "\<exists>T'. erase_rot s p (y, T) = Some (rb_node T', T') \<and> holds F (nd s c (nd s RB_BLACK t p a) y (nd s1 RB_BLACK d1 x d2)) z T'"
proof -
  let ?T1 = "rb_set_color p RB_BLACK (rb_set_color y c T)"
  let ?T2 = "rb_set_color x RB_BLACK ?T1"
  have h1: "holds F (nd s RB_BLACK t p (nd s c a y (nd s1 RB_RED d1 x d2))) z ?T1"
    by (intro recolor) (rule recolor_other [OF assms])
  then have "holds F (nd s1 RB_RED d1 x d2) ((opp s, c, y, a) # (opp s, RB_BLACK, p, t) # z) ?T1"
    by (simp add: refocus nd_opp)
  from recolor [OF this, of RB_BLACK] have "holds F (nd s RB_BLACK t p (nd s c a y (nd s1 RB_BLACK d1 x d2))) z ?T2"
    by (simp only: refocus nd_opp)
  from rotate_ok [OF this] obtain T' where T': "rb_rotate s p ?T2 = Some T'" "holds F (nd s c (nd s RB_BLACK t p a) y (nd s1 RB_BLACK d1 x d2)) z T'"
    by blast
  have "rb_color (rb_mem T p) = c"
    using assms by (simp add: holds_def)
  moreover have "kid (opp s) (rb_mem ?T1 y) = x"
  proof -
    have "rb_mem ?T1 y = mk_node s p c (rid a) x"
      using h1 by (simp only: holds_def nd_simps)
    then show ?thesis
      by (simp only: mk_node_simps)
  qed
  ultimately show ?thesis
    using T' by (simp only: erase_rot_def Let_def prod.case option.map) blast
qed

text \<open>The three cases for a black sibling: both of its children black, the far one red, only the near one red.\<close>

lemma tail_children:
  assumes "holds F (nd s c t p (nd s RB_BLACK a y d)) z T"
  shows "(y = 0) = False" "rb_mem T y = mk_node s p RB_BLACK (rid a) (rid d)"
    "(\<not> is_red T (rb_left (mk_node s p RB_BLACK (rid a) (rid d))) \<and> \<not> is_red T (rb_right (mk_node s p RB_BLACK (rid a) (rid d)))) = (isblack a \<and> isblack d)"
    "is_red T (rid d) = (\<not> isblack d)"
proof -
  have h: "tree_at (rb_mem T) y a" "tree_at (rb_mem T) y d" "y \<noteq> 0" "rb_mem T y = mk_node s p RB_BLACK (rid a) (rid d)"
    using assms by (simp_all add: holds_def)
  then show "(y = 0) = False" "rb_mem T y = mk_node s p RB_BLACK (rid a) (rid d)" "is_red T (rid d) = (\<not> isblack d)"
    using is_red_tree by auto
  show "(\<not> is_red T (rb_left (mk_node s p RB_BLACK (rid a) (rid d))) \<and> \<not> is_red T (rb_right (mk_node s p RB_BLACK (rid a) (rid d)))) = (isblack a \<and> isblack d)"
    using is_red_tree [OF h(1)] is_red_tree [OF h(2)] by (cases s) (auto simp: mk_node_def)
qed

lemma tail_both_black:
  assumes "holds F (nd s c t p (nd s RB_BLACK a y d)) z T" "isblack a" "isblack d"
  shows "\<exists>T'. erase_tail s p (y, T) = rb_erase_loop p (zid z) T' \<and> holds F (nd s c t p (nd s RB_RED a y d)) z T'"
proof -
  let ?T = "rb_set_color y RB_RED T"
  have h: "holds F (nd s c t p (nd s RB_RED a y d)) z ?T"
    by (rule recolor_other [OF assms(1)])
  then have "rb_parent (rb_mem ?T p) = zid z"
    by (simp only: holds_def nd_simps mk_node_simps)
  then show ?thesis
    using h assms(2,3) by (simp only: erase_tail_def prod.case tail_children [OF assms(1)] if_False if_True simp_thms Let_def) blast
qed

lemma tail_far_red:
  assumes "holds F (nd s c t p (nd s RB_BLACK a y (nd s RB_RED d1 x d2))) z T"
  shows "\<exists>T'. erase_tail s p (y, T) = Some (rb_node T', T') \<and> holds F (nd s c (nd s RB_BLACK t p a) y (nd s RB_BLACK d1 x d2)) z T'"
proof -
  have c: "isblack (nd s RB_RED d1 x d2) = False"
    by simp
  have "erase_tail s p (y, T) = erase_rot s p (y, T)"
    by (simp only: erase_tail_def prod.case tail_children [OF assms] mk_node_simps c if_False if_True simp_thms Let_def bind.bind_lunit)
  then show ?thesis
    using erase_rot_ok [OF assms] by simp
qed

lemma tail_near_red:
  assumes "holds F (nd s c t p (nd s RB_BLACK (nd s RB_RED a1 x a2) y d)) z T" "isblack d"
  shows "\<exists>T'. erase_tail s p (y, T) = Some (rb_node T', T') \<and> holds F (nd s c (nd s RB_BLACK t p a1) x (nd s RB_BLACK a2 y d)) z T'"
proof -
  let ?T = "rb_set_color y RB_RED (rb_set_color x RB_BLACK T)"
  have "holds F (nd s RB_BLACK (nd s RB_RED a1 x a2) y d) ((opp s, c, p, t) # z) T"
    using assms(1) by (simp add: refocus nd_opp)
  then have "holds F (nd s RB_RED (nd s RB_BLACK a1 x a2) y d) ((opp s, c, p, t) # z) ?T"
    by (intro recolor) (rule recolor_kid)
  then have "holds F (nd (opp s) RB_RED d y (nd (opp s) RB_BLACK a2 x a1)) ((opp s, c, p, t) # z) ?T"
    by (simp add: nd_opp)
  from rotate_ok [OF this] obtain T1 where T1: "rb_rotate (opp s) y ?T = Some T1" "holds F (nd s c t p (nd s RB_BLACK a1 x (nd s RB_RED a2 y d))) z T1"
    by (auto simp: refocus nd_opp)
  have k: "kid (opp s) (rb_mem T1 p) = x" "isblack (nd s RB_RED a1 x a2) = False"
      "rb_rotate (opp s) y (rb_set_color y RB_RED (rb_set_color (rid (nd s RB_RED a1 x a2)) RB_BLACK T)) = Some T1"
    using T1 by (simp_all add: holds_def)
  have "erase_tail s p (y, T) = erase_rot s p (x, T1)"
    using assms(2) by (simp only: erase_tail_def prod.case tail_children [OF assms(1)] mk_node_simps k option.map if_False if_True simp_thms Let_def bind.bind_lunit)
  then show ?thesis
    using erase_rot_ok [OF T1(2)] by simp
qed

lemma erase_rotated:
  assumes "holds F (nd s c A x B) z T" "rb_ok (Suc n) A" "rb_ok (Suc n) B" "isblack A" "isblack B" "hole_ok (Suc n) ((s, c, p, u) # z)"
    and "addrs (nd s c A x B) = addrs (nd s c t p u)"
  shows "erase_post F (addrs (plug t ((s, c, p, u) # z))) (Some (rb_node T, T))"
proof -
  have eq: "addrs (plug (nd s c A x B) z) = addrs (plug t ((s, c, p, u) # z))"
    using addrs_plug_cong [OF assms(7)] by simp
  show ?thesis
  proof (cases c)
    case RB_RED
    then show ?thesis
      using assms(2-6) by (intro erase_finish [OF assms(1) _ _ _ _ eq, of "Suc n"]) simp_all
  next
    case RB_BLACK
    then show ?thesis
      using assms(2-6) by (intro erase_finish [OF assms(1) _ _ _ _ eq, of "Suc (Suc n)"]) simp_all
  qed
qed

lemma erase_red_stops:
  assumes "holds F (nd s RB_RED k a u) z T" "rb_ok n (nd s RB_BLACK k a u)" "hole_ok n z"
  shows "erase_post F (addrs (plug (nd s RB_RED k a u) z)) (rb_erase_loop a p T)"
proof -
  have "is_red T a"
    using assms(1) by (simp add: holds_def is_red_def)
  then have "rb_erase_loop a p T = Some (rid (nd s RB_RED k a u), T)"
    by (subst rb_erase_loop.simps) simp
  then show ?thesis
    using assms unfolding erase_post_def by blast
qed

text \<open>A round with a black sibling ends the loop, or goes on at a black parent.\<close>

lemma erase_tail_ok:
  assumes "holds F t ((s, c, p, nd s RB_BLACK a y d) # z) T" "isblack t" "rb_ok n t" "hole_ok (Suc n) ((s, c, p, nd s RB_BLACK a y d) # z)"
    and IH: "\<And>T'. c = RB_BLACK \<Longrightarrow> isblack a \<Longrightarrow> isblack d \<Longrightarrow> holds F (nd s RB_BLACK t p (nd s RB_RED a y d)) z T' \<Longrightarrow>
        erase_post F (addrs (plug (nd s RB_BLACK t p (nd s RB_RED a y d)) z)) (rb_erase_loop p (zid z) T')"
  shows "erase_post F (addrs (plug t ((s, c, p, nd s RB_BLACK a y d) # z))) (erase_tail s p (y, T))"
proof -
  have h: "holds F (nd s c t p (nd s RB_BLACK a y d)) z T"
    using assms(1) by (simp add: refocus)
  have ad: "rb_ok n a" "rb_ok n d"
    using assms(4) by (cases c; simp)+
  consider "isblack a" "isblack d" | d1 x d2 where "d = nd s RB_RED d1 x d2" | a1 x a2 where "isblack d" "a = nd s RB_RED a1 x a2"
    using red_nd [of a s] red_nd [of d s] by (metis isblack.simps(1))
  then show ?thesis
  proof cases
    case 1
    from tail_both_black [OF h 1] obtain T' where T': "erase_tail s p (y, T) = rb_erase_loop p (zid z) T'" "holds F (nd s c t p (nd s RB_RED a y d)) z T'"
      by blast
    have eq: "addrs (plug t ((s, c, p, nd s RB_BLACK a y d) # z)) = addrs (plug (nd s c t p (nd s RB_RED a y d)) z)"
      unfolding plug.simps by (intro addrs_plug_cong addrs_nd_cong refl)
    show ?thesis
    proof (cases c)
      case RB_RED
      then show ?thesis
        unfolding T'(1) eq using erase_red_stops [of F s t p _ z T' "Suc n"] T'(2) assms(2-4) ad 1 by simp
    qed (use IH T' eq 1 in simp)
  next
    case 2
    from tail_far_red [OF h [unfolded 2]] obtain T' where T': "erase_tail s p (y, T) = Some (rb_node T', T')"
        "holds F (nd s c (nd s RB_BLACK t p a) y (nd s RB_BLACK d1 x d2)) z T'"
      by blast
    show ?thesis
      unfolding T'(1) by (rule erase_rotated [OF T'(2) _ _ _ _ assms(4)]) (use assms(3) ad 2 in \<open>simp_all, cases s, simp_all add: nd_def\<close>)
  next
    case 3
    from tail_near_red [OF h [unfolded 3(2)] 3(1)] obtain T' where T': "erase_tail s p (y, T) = Some (rb_node T', T')"
        "holds F (nd s c (nd s RB_BLACK t p a1) x (nd s RB_BLACK a2 y d)) z T'"
      by blast
    show ?thesis
      unfolding T'(1) by (rule erase_rotated [OF T'(2) _ _ _ _ assms(4)]) (use assms(3) ad 3 in \<open>simp_all, cases s, simp_all add: nd_def\<close>)
  qed
qed

text \<open>A red sibling is first rotated away, which makes the parent red and the round the last one.\<close>

lemma erase_red_sibling:
  assumes "holds F t ((s, c, p, nd s RB_RED a y d) # z) T" "isblack t" "rb_ok n t" "hole_ok (Suc n) ((s, c, p, nd s RB_RED a y d) # z)"
  shows "erase_post F (addrs (plug t ((s, c, p, nd s RB_RED a y d) # z))) (rb_erase_loop (rid t) p T)"
proof -
  have ad: "rb_ok (Suc n) a" "rb_ok (Suc n) d" "isblack a" "isblack d" "c = RB_BLACK" "hole_ok (Suc (Suc n)) z"
    using assms(4) by (cases c; simp)+
  then obtain ca a1 ax a2 where "a = nd s ca a1 ax a2"
    using nd_ex [of a s] by (cases "a = Lf") auto
  then have a: "a = nd s RB_BLACK a1 ax a2"
    using ad(3) by simp
  let ?T = "rb_set_color p RB_RED (rb_set_color y RB_BLACK T)"
  have "holds F (nd s c t p (nd s RB_RED a y d)) z T"
    using assms(1) by (simp add: refocus)
  then have "holds F (nd s RB_RED t p (nd s RB_BLACK a y d)) z ?T"
    by (intro recolor) (rule recolor_other)
  from rotate_ok [OF this] obtain T1 where T1: "rb_rotate s p ?T = Some T1" "holds F t ((s, RB_RED, p, a) # (s, RB_BLACK, y, d) # z) T1"
    by (auto simp: refocus)
  have p: "kid (opp s) (rb_mem T1 p) = ax" "isblack (nd s RB_RED a y d) = False" "rid (nd s RB_RED a y d) = y"
    using T1(2) a by (simp_all add: holds_def)
  have "rb_erase_loop (rid t) p T = erase_tail s p (ax, T1)"
    using erase_unfold [OF assms(1,2)] by (simp add: T1(1) p)
  moreover have "hole_ok (Suc n) ((s, RB_RED, p, nd s RB_BLACK a1 ax a2) # (s, RB_BLACK, y, d) # z)"
    using ad a by simp
  from erase_tail_ok [OF T1(2) [unfolded a] assms(2,3) this] have
    "erase_post F (addrs (plug t ((s, RB_RED, p, a) # (s, RB_BLACK, y, d) # z))) (erase_tail s p (ax, T1))"
    using a by simp
  moreover have "addrs (plug t ((s, RB_RED, p, a) # (s, RB_BLACK, y, d) # z)) = addrs (plug t ((s, c, p, nd s RB_RED a y d) # z))"
    unfolding plug.simps by (intro addrs_plug_cong) (simp add: nd_def)
  ultimately show ?thesis
    by simp
qed

text \<open>
  A hole that asks for one more black node than the tree in it has: the loop returns, with a tree of the same nodes in
  the same order that is balanced once the node it stopped at is black.
\<close>

lemma erase_loop_ok:
  "holds F t z T \<Longrightarrow> rb_ok n t \<Longrightarrow> hole_ok (Suc n) z \<Longrightarrow> erase_post F (addrs (plug t z)) (rb_erase_loop (rid t) (zid z) T)"
proof (induction z arbitrary: t T n)
  case Nil
  then show ?case
    by (intro erase_stops) simp_all
next
  case (Cons f z)
  obtain s c p u where f: "f = (s, c, p, u)"
    by (cases f)
  note h = Cons.prems(1) [unfolded f] and hole = Cons.prems(3) [unfolded f]
  have "u \<noteq> Lf"
    using hole by (cases c) auto
  then obtain cu a y d where u: "u = nd s cu a y d"
    using nd_ex by blast
  show ?case
  proof (cases "isblack t")
    case False
    then show ?thesis
      using Cons.prems by (intro erase_stops) simp_all
  next
    case True
    show ?thesis
    proof (cases cu)
      case RB_BLACK
      have "erase_post F (addrs (plug t ((s, c, p, u) # z))) (erase_tail s p (y, T))"
        unfolding u RB_BLACK
      proof (rule erase_tail_ok [OF h [unfolded u RB_BLACK] True Cons.prems(2) hole [unfolded u RB_BLACK]])
        fix T'
        assume "c = RB_BLACK" "isblack a" "isblack d" "holds F (nd s RB_BLACK t p (nd s RB_RED a y d)) z T'"
        then show "erase_post F (addrs (plug (nd s RB_BLACK t p (nd s RB_RED a y d)) z)) (rb_erase_loop p (zid z) T')"
          using Cons.IH [of "nd s RB_BLACK t p (nd s RB_RED a y d)" T' "Suc n"] Cons.prems(2) hole u RB_BLACK by simp
      qed
      then show ?thesis
        using erase_unfold [OF h True \<open>u \<noteq> Lf\<close>] u RB_BLACK f by simp
    next
      case RB_RED
      then show ?thesis
        using erase_red_sibling [of F t s c p a y d z T n] h hole u True Cons.prems(2) f by simp
    qed
  qed
qed

lemma rb_erase_color_ok:
  assumes "holds F t z T" "rb_ok n t" "hole_ok (Suc n) z"
  shows "\<exists>T'. rb_erase_color (rid t) (zid z) T = Some T' \<and> rb_tree F (addrs (plug t z)) T'"
proof -
  from erase_loop_ok [OF assms] obtain t' z' T' where T': "rb_erase_loop (rid t) (zid z) T = Some (rid t', T')" "holds F t' z' T'"
      "addrs (plug t' z') = addrs (plug t z)" "t' = Lf \<and> z' = [] \<or> (\<exists>s c k a u n. t' = nd s c k a u \<and> rb_ok n (nd s RB_BLACK k a u) \<and> hole_ok n z')"
    unfolding erase_post_def by blast
  from T'(4) show ?thesis
  proof (elim disjE exE conjE)
    assume "t' = Lf" "z' = []"
    then show ?thesis
      using T'(1-3) by (auto simp: rb_erase_color_def rb_tree_def intro!: exI [of _ Lf])
  next
    fix s c k a u m
    assume t': "t' = nd s c k a u" "rb_ok m (nd s RB_BLACK k a u)" "hole_ok m z'"
    let ?n = "nd s RB_BLACK k a u"
    have "holds F (plug ?n z') [] (rb_set_color a RB_BLACK T')"
      using recolor [OF T'(2) [unfolded t'(1)]] holds_plug by blast
    moreover have "\<exists>j. rb_ok j (plug ?n z') \<and> isblack (plug ?n z')"
      using plug_ok [OF t'(2,3)] t'(2) by (cases "z' = []") auto
    moreover have "addrs (plug ?n z') = addrs (plug t z)"
      using addrs_plug_cong [OF addrs_nd_cong [OF refl refl], of s RB_BLACK k a u z' c] T'(3) t'(1) by simp
    moreover have "a \<noteq> 0"
      using T'(2) t'(1) by (simp add: holds_def)
    ultimately show ?thesis
      using T'(1) t'(1) by (auto simp: rb_erase_color_def rb_tree_def)
  qed
qed

section \<open>Taking a node out and replacing it\<close>

lemma relink_mem:
  assumes "hole_at (rb_mem T) x z (rb_node T)" "x \<noteq> 0" "x \<notin> set (zaddrs z)"
    and "z \<noteq> [] \<Longrightarrow> kid (fst (hd z)) (rb_mem T1 (zid z)) = x \<and> kid (opp (fst (hd z))) (rb_mem T1 (zid z)) \<noteq> x"
  shows "rb_mem (relink (zid z) x v T1) = (if z = [] then rb_mem T1 else (rb_mem T1)(zid z := put_kid (fst (hd z)) v (rb_mem T1 (zid z))))"
    "rb_node (relink (zid z) x v T1) = (if z = [] then v else rb_node T1)"
proof -
  have "zid z = 0 \<longleftrightarrow> z = []"
    using assms(1) by (cases z) auto
  moreover have "z \<noteq> [] \<Longrightarrow> (rb_left (rb_mem T1 (zid z)) = x) = (fst (hd z) = Lft)"
    using assms(4) by (cases "fst (hd z)") auto
  moreover have "fst (hd z) \<noteq> Lft \<Longrightarrow> fst (hd z) = Rgt"
    by (cases "fst (hd z)") auto
  ultimately show "rb_mem (relink (zid z) x v T1) = (if z = [] then rb_mem T1 else (rb_mem T1)(zid z := put_kid (fst (hd z)) v (rb_mem T1 (zid z))))"
      "rb_node (relink (zid z) x v T1) = (if z = [] then v else rb_node T1)"
    by (auto simp: relink_def put_kid_def)
qed

lemma relink_other: "q \<noteq> p \<Longrightarrow> rb_mem (relink p x v T) q = rb_mem T q"
  by (simp add: relink_def)

lemma zid_in: "zid z = 0 \<or> zid z \<in> set (zaddrs z)"
  by (cases z) auto

lemma hole_kid:
  assumes "holds F (nd s c k x u) z T" "z \<noteq> []" 
  shows "kid (fst (hd z)) (rb_mem T (zid z)) = x \<and> kid (opp (fst (hd z))) (rb_mem T (zid z)) \<noteq> x"
proof -
  obtain s' c' a v z' where z: "z = (s', c', a, v) # z'"
    using assms(2) by (cases z) auto
  then show ?thesis
    using assms(1) rid_cases [of v] by (auto simp: holds_def)
qed

definition unlink :: "nat \<Rightarrow> nat \<Rightarrow> nat \<Rightarrow> rb_root \<Rightarrow> rb_root" where
  "unlink p x child t = relink p x child (if child \<noteq> 0 then rb_set_parent child p t else t)"

lemma remove_mem:
  assumes "holds F (nd s c Lf x u) z T"
  defines "T1 \<equiv> unlink (zid z) x (rid u) T"
  shows "rb_mem T1 q = (if q = rid u \<and> q \<noteq> 0 then (rb_mem T q)\<lparr>rb_parent := zid z\<rparr> else if z \<noteq> [] \<and> q = zid z then put_kid (fst (hd z)) (rid u) (rb_mem T q) else rb_mem T q)"
    "rb_node T1 = (if z = [] then rid u else rb_node T)"
proof -
  let ?m = "rb_mem T"
  define T0 where "T0 = (if rid u \<noteq> 0 then rb_set_parent (rid u) (zid z) T else T)"
  have h: "x \<noteq> 0" "hole_at ?m x z (rb_node T)" "x \<notin> set (zaddrs z)" "set (addrs u) \<inter> set (zaddrs z) = {}"
    using assms(1) by (auto simp: holds_def)
  have zid: "z \<noteq> [] \<Longrightarrow> zid z \<in> set (zaddrs z)"
    by (cases z) auto
  have u: "rid u \<noteq> 0 \<Longrightarrow> rid u \<in> set (addrs u)"
    using rid_cases by blast
  have m1: "rb_mem T0 = (\<lambda>q. if q = rid u \<and> q \<noteq> 0 then (?m q)\<lparr>rb_parent := zid z\<rparr> else ?m q)" "rb_node T0 = rb_node T"
    by (auto simp: T0_def)
  have "z \<noteq> [] \<Longrightarrow> rb_mem T0 (zid z) = ?m (zid z)"
    using h(4) zid u by (auto simp: m1)
  then have "z \<noteq> [] \<Longrightarrow> kid (fst (hd z)) (rb_mem T0 (zid z)) = x \<and> kid (opp (fst (hd z))) (rb_mem T0 (zid z)) \<noteq> x"
    using hole_kid [OF assms(1)] by simp
  note rl = relink_mem [OF h(2,1,3) this, of "rid u"]
  have T1: "T1 = relink (zid z) x (rid u) T0"
    by (simp add: T1_def unlink_def T0_def)
  show "rb_mem T1 q = (if q = rid u \<and> q \<noteq> 0 then (?m q)\<lparr>rb_parent := zid z\<rparr> else if z \<noteq> [] \<and> q = zid z then put_kid (fst (hd z)) (rid u) (?m q) else ?m q)"
    using h(4) zid u by (auto simp: T1 rl m1)
  show "rb_node T1 = (if z = [] then rid u else rb_node T)"
    using rl(2) m1(2) by (simp add: T1)
qed

lemma remove_ok:
  assumes "holds F (nd s c Lf x u) z T"
  shows "holds (F(x := rb_mem T x)) u z (unlink (zid z) x (rid u) T)"
proof -
  let ?m = "rb_mem T"
  let ?T = "unlink (zid z) x (rid u) T"
  have h: "tree_at ?m x u" "x \<noteq> 0" "hole_at ?m x z (rb_node T)" "distinct (addrs u)" "distinct (zaddrs z)" "x \<notin> set (addrs u)" "x \<notin> set (zaddrs z)"
      "set (addrs u) \<inter> set (zaddrs z) = {}"
    using assms by (auto simp: holds_def)
  have zid: "z \<noteq> [] \<Longrightarrow> zid z \<in> set (zaddrs z)"
    by (cases z) auto
  have u: "rid u \<noteq> 0 \<Longrightarrow> rid u \<in> set (addrs u)"
    using rid_cases by blast
  note M = remove_mem [OF assms]
  have "tree_at (rb_mem ?T) (zid z) u"
    by (rule tree_at_move [OF h(1,4)]) (use h(8) zid u tree_at_nonzero [OF h(1)] in \<open>auto simp: M(1)\<close>)
  moreover have "hole_at (rb_mem ?T) (rid u) z (rb_node ?T)"
  proof (cases "z = []")
    case False
    have "hole_at (rb_mem ?T) (rid u) z (rb_node T)"
      by (rule hole_at_fill [OF h(3,5) False]) (use h(8) u False in \<open>auto simp: M(1)\<close>)
    then show ?thesis
      using False M(2) by simp
  qed (use M(2) in simp)
  moreover have "rb_mem ?T q = (F(x := ?m x)) q" if "q \<notin> set (addrs u @ zaddrs z)" for q
    using that zid u assms by (auto simp: M(1) holds_def)
  ultimately show ?thesis
    using h by (simp add: holds_def)
qed

definition repl_mem :: "nat \<Rightarrow> nat \<Rightarrow> rbt \<Rightarrow> rbt \<Rightarrow> frame list \<Rightarrow> rb_mem \<Rightarrow> rb_mem" where
  "repl_mem x y l r z m = (\<lambda>q.
     if q = y then m x
     else if (q = rid l \<or> q = rid r) \<and> q \<noteq> 0 then (m q)\<lparr>rb_parent := y\<rparr>
     else if q = zid z \<and> z \<noteq> [] then put_kid (fst (hd z)) y (m q)
     else m q)"

lemma two_updates:
  assumes "A \<longrightarrow> \<not> B \<and> \<not> C" "B \<longrightarrow> \<not> C"
  shows "(if B then f (if A then f (if C then g else n) else if C then g else n) else if A then f (if C then g else n) else if C then g else n)
    = (if A \<or> B then f n else if C then g else n)"
  using assms by (cases A; cases B) simp_all

lemma replace_mem:
  assumes "holds F (nd Lft c l x r) z T" "y \<notin> set (addrs (nd Lft c l x r) @ zaddrs z)" "y \<noteq> 0"
  shows "rb_mem (rb_replace_node x y T) = repl_mem x y l r z (rb_mem T)" "rb_node (rb_replace_node x y T) = (if z = [] then y else rb_node T)"
proof -
  let ?m = "rb_mem T"
  have m: "?m x = mk_node Lft (zid z) c (rid l) (rid r)" "x \<noteq> 0" "hole_at ?m x z (rb_node T)"
    using assms(1) by (simp_all add: holds_def)
  have d: "x \<notin> set (addrs l)" "x \<notin> set (addrs r)" "x \<notin> set (zaddrs z)" "set (addrs l) \<inter> set (addrs r) = {}"
      "(set (addrs l) \<union> set (addrs r)) \<inter> set (zaddrs z) = {}"
    using assms(1) by (auto simp: holds_def)
  have zid: "z \<noteq> [] \<Longrightarrow> zid z \<in> set (zaddrs z)"
    by (cases z) auto
  have lr: "rid l \<noteq> 0 \<Longrightarrow> rid l \<in> set (addrs l)" "rid r \<noteq> 0 \<Longrightarrow> rid r \<in> set (addrs r)"
    using rid_cases by blast+
  define t1 where "t1 = relink (zid z) x y T"
  define t2 where "t2 = (if rid l \<noteq> 0 then rb_set_parent (rid l) y t1 else t1)"
  define t3 where "t3 = (if rid r \<noteq> 0 then rb_set_parent (rid r) y t2 else t2)"
  have rl: "rb_mem t1 = (if z = [] then ?m else ?m(zid z := put_kid (fst (hd z)) y (?m (zid z))))" "rb_node t1 = (if z = [] then y else rb_node T)"
    unfolding t1_def by (rule relink_mem [OF m(3,2) d(3)], rule hole_kid [OF assms(1)], assumption)+
  have m1: "rb_mem t1 q = (if q = zid z \<and> z \<noteq> [] then put_kid (fst (hd z)) y (?m q) else ?m q)" for q
    by (simp add: rl)
  have m2: "rb_mem t2 q = (if q = rid l \<and> q \<noteq> 0 then (rb_mem t1 q)\<lparr>rb_parent := y\<rparr> else rb_mem t1 q)" for q
    by (simp add: t2_def)
  have m3: "rb_mem t3 q = (if q = rid r \<and> q \<noteq> 0 then (rb_mem t2 q)\<lparr>rb_parent := y\<rparr> else rb_mem t2 q)" for q
    by (simp add: t3_def)
  have ne: "z \<noteq> [] \<Longrightarrow> zid z \<noteq> x" "rid l \<noteq> 0 \<Longrightarrow> rid l \<noteq> x \<and> rid l \<noteq> rid r \<and> (z \<noteq> [] \<longrightarrow> rid l \<noteq> zid z)"
      "rid r \<noteq> 0 \<Longrightarrow> rid r \<noteq> x \<and> (z \<noteq> [] \<longrightarrow> rid r \<noteq> zid z)"
    using d zid lr by auto
  have x1: "rb_mem t1 x = ?m x" "rb_mem t2 x = ?m x" "rb_mem t3 x = ?m x"
    using ne m(2) by (simp_all only: m1 m2 m3 split: if_splits) blast+
  have k: "rb_left (?m x) = rid l" "rb_right (?m x) = rid r" "rb_parent (?m x) = zid z"
    using m(1) by (simp_all add: mk_node_def)
  have R: "rb_replace_node x y T = upd_node y (\<lambda>_. rb_mem t3 x) t3"
    by (simp only: rb_replace_node_def Let_def k t1_def [symmetric] x1 t2_def [symmetric] t3_def [symmetric])
  then have RM: "rb_mem (rb_replace_node x y T) q = (if q = y then ?m x else rb_mem t3 q)" for q
    by (simp add: x1)
  show "rb_node (rb_replace_node x y T) = (if z = [] then y else rb_node T)"
    unfolding R by (simp add: t3_def t2_def rl)
  show "rb_mem (rb_replace_node x y T) = repl_mem x y l r z ?m"
  proof (rule ext)
    fix q
    have AB: "((q = rid l \<or> q = rid r) \<and> q \<noteq> 0) = ((q = rid l \<and> q \<noteq> 0) \<or> (q = rid r \<and> q \<noteq> 0))"
      by blast
    have A: "q = rid l \<and> q \<noteq> 0 \<longrightarrow> \<not> (q = rid r \<and> q \<noteq> 0) \<and> \<not> (q = zid z \<and> z \<noteq> [])"
      using ne(2) by metis
    have B: "q = rid r \<and> q \<noteq> 0 \<longrightarrow> \<not> (q = zid z \<and> z \<noteq> [])"
      using ne(3) by metis
    show "rb_mem (rb_replace_node x y T) q = repl_mem x y l r z ?m q"
      unfolding RM repl_mem_def m3 m2 m1 AB 
      using two_updates [of "q = rid l \<and> q \<noteq> 0" "q = rid r \<and> q \<noteq> 0" "q = zid z \<and> z \<noteq> []" "\<lambda>n. n\<lparr>rb_parent := y\<rparr>"
          "put_kid (fst (hd z)) y (?m q)" "?m q", OF A B] by (simp only:)
  qed
qed

lemma replace_ok:
  assumes "holds F (nd Lft c l x r) z T" "y \<notin> set (addrs (nd Lft c l x r) @ zaddrs z)" "y \<noteq> 0"
  shows "holds (F(x := rb_mem T x)) (nd Lft c l y r) z (rb_replace_node x y T)"
proof -
  let ?m = "rb_mem T"
  let ?M = "repl_mem x y l r z ?m"
  have h: "?m x = mk_node Lft (zid z) c (rid l) (rid r)" "x \<noteq> 0" "tree_at ?m x l" "tree_at ?m x r" "hole_at ?m x z (rb_node T)"
    using assms(1) by (simp_all add: holds_def)
  have d: "distinct (addrs l)" "distinct (addrs r)" "distinct (zaddrs z)" "x \<notin> set (addrs l) \<union> set (addrs r) \<union> set (zaddrs z)" "set (addrs l) \<inter> set (addrs r) = {}"
      "(set (addrs l) \<union> set (addrs r)) \<inter> set (zaddrs z) = {}"
    using assms(1) by (auto simp: holds_def)
  have zid: "z \<noteq> [] \<Longrightarrow> zid z \<in> set (zaddrs z)"
    by (cases z) auto
  have lr: "rid l \<noteq> 0 \<Longrightarrow> rid l \<in> set (addrs l)" "rid r \<noteq> 0 \<Longrightarrow> rid r \<in> set (addrs r)"
    using rid_cases by blast+
  have "tree_at ?M y l"
    by (rule tree_at_move [OF h(3) d(1)]) (use d zid lr assms(2) tree_at_nonzero [OF h(3)] in \<open>auto simp: repl_mem_def\<close>)
  moreover have "tree_at ?M y r"
    by (rule tree_at_move [OF h(4) d(2)]) (use d zid lr assms(2) tree_at_nonzero [OF h(4)] in \<open>auto simp: repl_mem_def\<close>)
  moreover have "hole_at ?M y z (if z = [] then y else rb_node T)"
  proof (cases "z = []")
    case False
    have "hole_at ?M y z (rb_node T)"
      by (rule hole_at_fill [OF h(5) d(3) False]) (use d lr False assms(2) in \<open>auto simp: repl_mem_def\<close>)
    then show ?thesis
      using False by simp
  qed simp
  moreover have "?M q = (F(x := ?m x)) q" if "q \<notin> set (addrs (nd Lft c l y r) @ zaddrs z)" for q
  proof -
    have "?M q = ?m q"
      using that zid lr by (auto simp: repl_mem_def)
    then show ?thesis
      using assms(1) that by (auto simp: holds_def)
  qed
  ultimately show ?thesis
    using replace_mem [OF assms] h(1) d assms(2,3) by (simp add: holds_def repl_mem_def)
qed

section \<open>A node with two children\<close>

lemma leftmost_ex: "t \<noteq> Lf \<Longrightarrow> \<exists>c y w z. t = plug (nd Lft c Lf y w) z \<and> (\<forall>f \<in> set z. fst f = Lft)"
proof (induction t)
  case (Nd c l a r)
  show ?case
  proof (cases "l = Lf")
    case True
    then have "Nd c l a r = plug (nd Lft c Lf a r) []"
      by (simp add: nd_def)
    then show ?thesis
      by (metis empty_iff empty_set)
  next
    case False
    then obtain c' y w z where z: "l = plug (nd Lft c' Lf y w) z" "\<forall>f \<in> set z. fst f = Lft"
      using Nd.IH(1) by blast
    have "Nd c l a r = plug (nd Lft c' Lf y w) (z @ [(Lft, c, a, r)])"
      using z(1) by (simp add: plug_append nd_def)
    moreover have "\<forall>f \<in> set (z @ [(Lft, c, a, r)]). fst f = Lft"
      using z(2) by simp
    ultimately show ?thesis
      by blast
  qed
qed simp

lemma leftmost_addrs: "\<forall>f \<in> set z. fst f = Lft \<Longrightarrow> zbefore z = []"
  by (induction z rule: zbefore.induct) auto

text \<open>The two parts of the code for a node with two children: taking the successor out of its place, and putting it into that of the node.\<close>

definition detach :: "nat \<Rightarrow> nat \<Rightarrow> nat \<Rightarrow> nat \<Rightarrow> rb_root \<Rightarrow> rb_root" where
  "detach y w p r t = rb_set_parent r y (set_kid Rgt y r (set_kid Lft p w (if w \<noteq> 0 then rb_set_parent w p t else t)))"

definition swap_in :: "nat \<Rightarrow> nat \<Rightarrow> rb_color \<Rightarrow> nat \<Rightarrow> rb_root \<Rightarrow> rb_root" where
  "swap_in y zp c l t = rb_set_parent l y (set_kid Lft y l (upd_node y (\<lambda>n. n\<lparr>rb_parent := zp, rb_color := c\<rparr>) t))"

lemma rb_erase_two:
  assumes "rb_mem T x = \<lparr>rb_parent = zp, rb_color = c, rb_right = r, rb_left = l\<rparr>" "x \<noteq> 0" "l \<noteq> 0" "r \<noteq> 0" "go_down Lft (rb_mem T) r = Some y"
    and "rb_mem (relink zp x y T) x = rb_mem T x" "rb_mem (relink zp x y T) y = \<lparr>rb_parent = p, rb_color = cy, rb_right = w, rb_left = 0\<rparr>"
    and "x \<noteq> y" "x \<noteq> r" "x \<noteq> w"
  shows "rb_erase x T =
     (let t = swap_in y zp c l (if p = x then relink zp x y T else detach y w p r (relink zp x y T))
      in if cy = RB_BLACK then rb_erase_color w (if p = x then y else p) t else Some t)"
proof -
  let ?t = "relink zp x y T"
  have t: "rb_mem ?t x = \<lparr>rb_parent = zp, rb_color = c, rb_right = r, rb_left = l\<rparr>"
    using assms(1,6) by simp
  note facts = assms(1-5,7) t
  show ?thesis
  proof (cases "p = x")
    case True
    then show ?thesis
      using assms(8-10) by (simp add: rb_erase_def Let_def swap_in_def facts)
  next
    case False
    then show ?thesis
      using assms(8-10) by (cases "w = 0") (simp_all add: rb_erase_def Let_def swap_in_def detach_def facts del: set_kid.simps)
  qed
qed

text \<open>The memory after that, compared with taking out the successor and replacing the node by it.\<close>

lemma mem_swap_in: "l \<noteq> y \<Longrightarrow> rb_mem (swap_in y zp c l t) q = (if q = l then (rb_mem t q)\<lparr>rb_parent := y\<rparr>
    else if q = y then put_kid Lft l ((rb_mem t q)\<lparr>rb_parent := zp, rb_color := c\<rparr>) else rb_mem t q)"
  by (simp add: swap_in_def del: set_kid.simps)

lemma mem_detach: "p \<noteq> y \<Longrightarrow> r \<noteq> y \<Longrightarrow> w \<noteq> p \<Longrightarrow> rb_mem (detach y w p r t) q =
    (if q = r then (if q = p then put_kid Lft w (rb_mem t q) else if q = w \<and> q \<noteq> 0 then (rb_mem t q)\<lparr>rb_parent := p\<rparr> else rb_mem t q)\<lparr>rb_parent := y\<rparr>
     else if q = y then put_kid Rgt r (if q = w \<and> q \<noteq> 0 then (rb_mem t q)\<lparr>rb_parent := p\<rparr> else rb_mem t q)
     else if q = p then put_kid Lft w (rb_mem t q) else if q = w \<and> q \<noteq> 0 then (rb_mem t q)\<lparr>rb_parent := p\<rparr> else rb_mem t q)"
  by (cases "w = 0") (simp_all add: detach_def del: set_kid.simps)

lemma all_fields: "put_kid Lft l ((put_kid Rgt r n)\<lparr>rb_parent := zp, rb_color := c\<rparr>) = \<lparr>rb_parent = zp, rb_color = c, rb_right = r, rb_left = l\<rparr>"
  by (cases n) (simp add: put_kid_def)

lemma swap_far_mem:
  assumes "x \<noteq> y" "p \<noteq> x" "p \<noteq> y" "w = 0 \<or> w \<notin> {x, y, p, l, r}" "l \<notin> {x, y, p, r}" "r \<notin> {x, y}" "b \<Longrightarrow> zp \<notin> {x, y, p, l, r, w}"
    and "m x = \<lparr>rb_parent = zp, rb_color = c, rb_right = r, rb_left = l\<rparr>" "l \<noteq> 0" "r \<noteq> 0" "p \<noteq> 0"
    and "rb_mem T0 = (if b then m(zp := put_kid s y (m zp)) else m)"
    and "m1 = (\<lambda>q. if q = w \<and> q \<noteq> 0 then (m q)\<lparr>rb_parent := p\<rparr> else if q = p then put_kid Lft w (m q) else m q)"
  shows "rb_mem (swap_in y zp c l (detach y w p r T0)) q = (if q = y then m1 x
     else if (q = l \<or> q = r) \<and> q \<noteq> 0 then (m1 q)\<lparr>rb_parent := y\<rparr> else if q = zp \<and> b then put_kid s y (m1 q) else m1 q)"
proof -
  have M0: "rb_mem T0 q = (if b \<and> q = zp then put_kid s y (m q) else m q)" for q
    using assms(12) by auto
  have ne: "b \<Longrightarrow> zp \<noteq> x \<and> zp \<noteq> y \<and> zp \<noteq> p \<and> zp \<noteq> l \<and> zp \<noteq> r \<and> zp \<noteq> w" "w \<noteq> 0 \<Longrightarrow> w \<noteq> x \<and> w \<noteq> y \<and> w \<noteq> l \<and> w \<noteq> r"
      "l \<noteq> x" "l \<noteq> y" "l \<noteq> p" "l \<noteq> r" "r \<noteq> x" "r \<noteq> y" "w \<noteq> p"
    using assms(4-7,11) by auto
  have m1x: "m1 x = m x"
    using assms(2) ne(2) by (auto simp: assms(13))
  note M = mem_swap_in [OF ne(4)] mem_detach [OF assms(3) ne(8,9)]
  note E = M M0 assms(13) if_True if_False simp_thms refl
  consider "q = y" | "q = l" | "q = r" | "q = p" "q \<noteq> r" | "q = w" "q \<noteq> 0" | "b" "q = zp" | "q \<noteq> y" "q \<noteq> l" "q \<noteq> r" "q \<noteq> p" "q \<noteq> w \<or> q = 0" "\<not> (q = zp \<and> b)"
    by blast
  then show ?thesis
  proof cases
    case 1
    then show ?thesis
      using ne(4,8) ne(4,8) [symmetric] assms(3) by (simp only: M m1x assms(8) all_fields if_True if_False simp_thms refl)
  next
    case 2
    then have "q = l" "q \<noteq> y" "q \<noteq> r" "q \<noteq> p" "q \<noteq> 0" "\<not> (q = w \<and> q \<noteq> 0)" "\<not> (b \<and> q = zp)"
      using ne assms(9) by auto
    then show ?thesis
      by (simp only: E)
  next
    case 3
    then have "q = r" "q \<noteq> y" "q \<noteq> l" "q \<noteq> 0" "\<not> (q = w \<and> q \<noteq> 0)" "\<not> (b \<and> q = zp)"
      using ne assms(10) by auto
    then show ?thesis
      by (simp only: E)
  next
    case 4
    then have "q = p" "q \<noteq> y" "q \<noteq> l" "q \<noteq> r" "q \<noteq> 0" "\<not> (q = w \<and> q \<noteq> 0)" "\<not> (b \<and> q = zp)" "\<not> (q = zp \<and> b)"
      using ne assms(3,11) by auto
    then show ?thesis
      by (simp only: E)
  next
    case 5
    then have "q = w" "q \<noteq> y" "q \<noteq> l" "q \<noteq> r" "q \<noteq> p" "q \<noteq> 0" "\<not> (b \<and> q = zp)" "\<not> (q = zp \<and> b)"
      using ne by auto
    then show ?thesis
      by (simp only: E)
  next
    case 6
    then have "q = zp" "q \<noteq> y" "q \<noteq> l" "q \<noteq> r" "q \<noteq> p" "\<not> (q = w \<and> q \<noteq> 0)" "b"
      using ne(1) by auto
    then show ?thesis
      by (simp only: E)
  next
    case 7
    then have "q \<noteq> y" "q \<noteq> l" "q \<noteq> r" "q \<noteq> p" "\<not> (q = w \<and> q \<noteq> 0)" "\<not> (b \<and> q = zp)" "\<not> (q = zp \<and> b)"
      using ne(1) by auto
    then show ?thesis
      by (simp only: E)
  qed
qed

lemma swap_near_mem:
  assumes "x \<noteq> y" "w = 0 \<or> w \<notin> {x, y, l}" "l \<notin> {x, y}" "b \<Longrightarrow> zp \<notin> {x, y, l, w}" "l \<noteq> 0" "x \<noteq> 0"
    and "m x = \<lparr>rb_parent = zp, rb_color = c, rb_right = y, rb_left = l\<rparr>" "m y = \<lparr>rb_parent = x, rb_color = cy, rb_right = w, rb_left = 0\<rparr>"
    and "w \<noteq> 0 \<Longrightarrow> rb_parent (m w) = y"
    and "rb_mem T0 = (if b then m(zp := put_kid s y (m zp)) else m)"
    and "m1 = (\<lambda>q. if q = w \<and> q \<noteq> 0 then (m q)\<lparr>rb_parent := x\<rparr> else if q = x then put_kid Rgt w (m q) else m q)" "q \<noteq> x"
  shows "rb_mem (swap_in y zp c l T0) q = (if q = y then m1 x
     else if (q = l \<or> q = w) \<and> q \<noteq> 0 then (m1 q)\<lparr>rb_parent := y\<rparr> else if q = zp \<and> b then put_kid s y (m1 q) else m1 q)"
proof -
  have M0: "rb_mem T0 q = (if b \<and> q = zp then put_kid s y (m q) else m q)" for q
    using assms(10) by auto
  have ne: "b \<Longrightarrow> zp \<noteq> x \<and> zp \<noteq> y \<and> zp \<noteq> l \<and> zp \<noteq> w" "w \<noteq> 0 \<Longrightarrow> w \<noteq> x \<and> w \<noteq> y \<and> w \<noteq> l" "l \<noteq> x" "l \<noteq> y" "w \<noteq> x"
    using assms(2-4,6) by auto
  have m1x: "m1 x = \<lparr>rb_parent = zp, rb_color = c, rb_right = w, rb_left = l\<rparr>"
    using ne(5) by (simp add: assms(11,7) put_kid_def)
  have w: "w \<noteq> 0 \<Longrightarrow> (m w)\<lparr>rb_parent := y\<rparr> = m w"
    using assms(9) by (cases "m w") simp
  note M = mem_swap_in [OF ne(4)]
  note E = M M0 assms(11) if_True if_False simp_thms refl
  consider "q = y" | "q = l" | "q = w" "q \<noteq> 0" | "b" "q = zp" | "q \<noteq> y" "q \<noteq> l" "q \<noteq> w \<or> q = 0" "\<not> (q = zp \<and> b)"
    by blast
  then show ?thesis
  proof cases
    case 1
    have "rb_mem T0 y = m y"
      using ne(1) by (auto simp: M0)
    then show ?thesis
      using 1 ne(4) by (simp add: M m1x assms(8) put_kid_def)
  next
    case 2
    then have "q = l" "q \<noteq> y" "q \<noteq> x" "q \<noteq> 0" "\<not> (q = w \<and> q \<noteq> 0)" "\<not> (b \<and> q = zp)"
      using ne assms(5) by auto
    then show ?thesis
      by (simp only: E)
  next
    case 3
    then have "q = w" "q \<noteq> y" "q \<noteq> l" "q \<noteq> x" "q \<noteq> 0" "\<not> (b \<and> q = zp)" "((m q)\<lparr>rb_parent := x\<rparr>)\<lparr>rb_parent := y\<rparr> = m q"
      using ne w by auto
    then show ?thesis
      by (simp only: E)
  next
    case 4
    then have "q = zp" "q \<noteq> y" "q \<noteq> l" "q \<noteq> x" "\<not> (q = w \<and> q \<noteq> 0)" "b"
      using ne(1) by auto
    then show ?thesis
      by (simp only: E)
  next
    case 5
    then have "q \<noteq> y" "q \<noteq> l" "q \<noteq> x" "\<not> (q = w \<and> q \<noteq> 0)" "\<not> (b \<and> q = zp)" "\<not> (q = zp \<and> b)"
      using assms(12) by auto
    then show ?thesis
      by (simp only: E)
  qed
qed

lemma zaddrs_append [simp]: "zaddrs (z1 @ z2) = zaddrs z1 @ zaddrs z2"
  by (induction z1 rule: zaddrs.induct) auto

lemma rid_plug: "z \<noteq> [] \<Longrightarrow> rid (plug t z) = rid (plug t' z) \<and> rid (plug t z) \<in> set (zaddrs z)"
proof (induction z arbitrary: t t')
  case (Cons f z)
  obtain s c a u where f: "f = (s, c, a, u)"
    by (cases f)
  show ?case
  proof (cases "z = []")
    case False
    then show ?thesis
      using Cons.IH [of "nd s c t a u" "nd s c t' a u"] f by auto
  qed (simp add: f)
qed simp

lemma holds_agree:
  assumes "holds G t z T2" "x \<notin> set (addrs t @ zaddrs z)" "\<And>q. q \<noteq> x \<Longrightarrow> rb_mem T q = rb_mem T2 q" "rb_node T = rb_node T2"
    and "\<And>q. q \<notin> set (addrs t @ zaddrs z) \<Longrightarrow> q \<noteq> x \<Longrightarrow> G q = F q"
  shows "holds (F(x := rb_mem T x)) t z T"
proof -
  have "tree_at (rb_mem T) (zid z) t = tree_at (rb_mem T2) (zid z) t" "hole_at (rb_mem T) (rid t) z (rb_node T) = hole_at (rb_mem T2) (rid t) z (rb_node T)"
    by (intro tree_at_cong hole_at_cong; use assms(2,3) in force)+
  then show ?thesis
    using assms by (simp add: holds_def)
qed

lemma hole_ok_addr: "hole_ok n (z @ (s, c, a, u) # z') = hole_ok n (z @ (s, c, b, u) # z') \<and> zcol (z @ (s, c, a, u) # z') = zcol (z @ (s, c, b, u) # z')"
proof (induction z arbitrary: n)
  case Nil
  then show ?case
    by (cases c) simp_all
next
  case (Cons f z)
  obtain s' c' d v where "f = (s', c', d, v)"
    by (cases f)
  then show ?case
    using Cons.IH by (cases c') auto
qed

lemma finish_erase:
  assumes "holds F w z T" "rb_ok n (nd s cy Lf y w)" "hole_ok n z" "cy = RB_BLACK \<or> z \<noteq> [] \<and> zcol z = RB_BLACK"
  shows "\<exists>T'. (if cy = RB_BLACK then rb_erase_color (rid w) (zid z) T else Some T) = Some T' \<and> rb_tree F (addrs (plug w z)) T'"
proof (cases cy)
  case RB_BLACK
  then obtain k where "rb_ok k w" "hole_ok (Suc k) z"
    using assms(2,3) by (cases n) simp_all
  then show ?thesis
    using rb_erase_color_ok [OF assms(1)] RB_BLACK by simp
next
  case RB_RED
  then have "rb_ok n w" "isblack w" "z \<noteq> []"
    using assms(2,4) by auto
  then obtain k where "rb_ok k (plug w z)" "isblack (plug w z)"
    using plug_ok [OF _ assms(3)] by blast
  then show ?thesis
    using assms(1) holds_plug [of F w z T] RB_RED unfolding rb_tree_def by auto
qed

text \<open>Where the nodes of the tree are: the node \<open>x\<close>, its successor \<open>y\<close> and the parts around them do not overlap.\<close>

lemma two_parts:
  assumes "holds F (nd Lft c l x (plug (nd Lft cy Lf y w) zr)) z T"
  shows "holds F (nd Lft cy Lf y w) (zr @ (Rgt, c, x, l) # z) T" "x \<noteq> y" "x \<noteq> 0" "y \<noteq> 0"
    "{x, y} \<inter> (set (addrs l) \<union> set (addrs w) \<union> set (zaddrs zr) \<union> set (zaddrs z)) = {}"
    "set (addrs w) \<inter> (set (addrs l) \<union> set (zaddrs zr) \<union> set (zaddrs z)) = {}"
    "set (zaddrs zr) \<inter> (set (addrs l) \<union> set (zaddrs z)) = {}" "set (addrs l) \<inter> set (zaddrs z) = {}"
proof -
  have p: "nd Lft c l x t = nd Rgt c t x l" for t
    by (simp add: nd_def)
  show h: "holds F (nd Lft cy Lf y w) (zr @ (Rgt, c, x, l) # z) T"
    using assms unfolding p by (subst holds_plug) (simp add: plug_append holds_plug [of F _ z, symmetric])
  show "x \<noteq> 0"
    using assms by (simp add: holds_def)
  show "y \<noteq> 0"
    using h by (simp add: holds_def)
  have d: "distinct (addrs (nd Lft cy Lf y w) @ zaddrs zr @ x # addrs l @ zaddrs z)"
    using h by (simp add: holds_def)
  then show "x \<noteq> y" "{x, y} \<inter> (set (addrs l) \<union> set (addrs w) \<union> set (zaddrs zr) \<union> set (zaddrs z)) = {}"
    "set (addrs w) \<inter> (set (addrs l) \<union> set (zaddrs zr) \<union> set (zaddrs z)) = {}"
    "set (zaddrs zr) \<inter> (set (addrs l) \<union> set (zaddrs z)) = {}" "set (addrs l) \<inter> set (zaddrs z) = {}"
    by auto
qed

lemma rb_erase_two_holds:
  assumes "holds F (nd Lft c l x (plug (nd Lft cy Lf y w) zr)) z T" "l \<noteq> Lf" "\<forall>f \<in> set zr. fst f = Lft"
  shows "rb_erase x T =
     (let p = zid (zr @ (Rgt, c, x, l) # z);
          t = swap_in y (zid z) c (rid l) (if p = x then relink (zid z) x y T else detach y (rid w) p (rid (plug (nd Lft cy Lf y w) zr)) (relink (zid z) x y T))
      in if cy = RB_BLACK then rb_erase_color (rid w) (if p = x then y else p) t else Some t)"
proof -
  let ?r = "plug (nd Lft cy Lf y w) zr"
  note P = two_parts [OF assms(1)]
  have m: "rb_mem T x = mk_node Lft (zid z) c (rid l) (rid ?r)" "tree_at (rb_mem T) x ?r" "tree_at (rb_mem T) x l" "hole_at (rb_mem T) x z (rb_node T)"
    using assms(1) by (simp_all add: holds_def)
  have y: "rb_mem T y = mk_node Lft (zid (zr @ (Rgt, c, x, l) # z)) cy 0 (rid w)"
    using P(1) by (simp add: holds_def)
  have r: "?r \<noteq> Lf" "rid ?r \<noteq> 0" "rid l \<noteq> 0"
    using rid_zero [OF m(2)] rid_zero [OF m(3)] assms(2) plug_not_Lf by simp_all
  have "hd (addrs ?r) = y"
    by (simp add: addrs_plug leftmost_addrs [OF assms(3)]) (simp add: nd_def)
  then have "go_down Lft (rb_mem T) (rid ?r) = Some y"
    using go_down_ok [OF m(2) r(1), of Rgt] by (simp add: in_order_def)
  moreover have "x \<noteq> zid z" "y \<noteq> zid z"
    using zid_in [of z] P(3-5) by auto
  then have "rb_mem (relink (zid z) x y T) x = rb_mem T x" "rb_mem (relink (zid z) x y T) y = rb_mem T y"
    by (simp_all add: relink_other)
  moreover have "x \<noteq> rid ?r"
    using rid_plug [of zr] P(2,5) by (cases "zr = []") auto
  moreover have "x \<noteq> rid w"
    using rid_cases [of w] P(3,5) by auto
  ultimately show ?thesis
    using rb_erase_two [of T x "zid z" c "rid ?r" "rid l" y "zid (zr @ (Rgt, c, x, l) # z)" cy "rid w"] m(1) y r P(2,3)
    by (simp add: mk_node_def Let_def)
qed

lemma relink_holds:
  assumes "holds F (nd s c k x u) z T"
  shows "rb_mem (relink (zid z) x v T) = (if z \<noteq> [] then (rb_mem T)(zid z := put_kid (fst (hd z)) v (rb_mem T (zid z))) else rb_mem T)"
    "rb_node (relink (zid z) x v T) = (if z = [] then v else rb_node T)"
proof -
  have h: "hole_at (rb_mem T) x z (rb_node T)" "x \<noteq> 0" "x \<notin> set (zaddrs z)"
    using assms by (auto simp: holds_def)
  have "rb_mem (relink (zid z) x v T) = (if z = [] then rb_mem T else (rb_mem T)(zid z := put_kid (fst (hd z)) v (rb_mem T (zid z))))"
    by (rule relink_mem(1) [OF h], rule hole_kid [OF assms], assumption)
  then show "rb_mem (relink (zid z) x v T) = (if z \<noteq> [] then (rb_mem T)(zid z := put_kid (fst (hd z)) v (rb_mem T (zid z))) else rb_mem T)"
    by simp
  show "rb_node (relink (zid z) x v T) = (if z = [] then v else rb_node T)"
    by (rule relink_mem(2) [OF h], rule hole_kid [OF assms], assumption)
qed

lemma swap_far:
  assumes "holds F (nd Lft c l x (plug (nd Lft cy Lf y w) zr)) z T" "l \<noteq> Lf" "\<forall>f \<in> set zr. fst f = Lft" "zr \<noteq> []"
  shows "rb_mem (swap_in y (zid z) c (rid l) (detach y (rid w) (zid zr) (rid (plug (nd Lft cy Lf y w) zr)) (relink (zid z) x y T))) q
    = repl_mem x y l (plug w zr) z (rb_mem (unlink (zid zr) y (rid w) T)) q"
proof -
  let ?r = "plug (nd Lft cy Lf y w) zr"
  note P = two_parts [OF assms(1)]
  have z: "zid (zr @ (Rgt, c, x, l) # z) = zid zr" "fst (hd (zr @ (Rgt, c, x, l) # z)) = Lft"
    using assms(3,4) by (cases zr; auto)+
  have zr: "zid zr \<in> set (zaddrs zr)"
    using assms(4) by (cases zr) auto
  have m: "rb_mem T x = \<lparr>rb_parent = zid z, rb_color = c, rb_right = rid ?r, rb_left = rid l\<rparr>"
    using assms(1) by (simp add: holds_def mk_node_def)
  have p: "zid zr \<noteq> 0"
    using P(1) assms(4) by (cases zr) (auto simp: holds_def)
  have nz: "rid l \<noteq> 0" "rid ?r \<noteq> 0"
    using assms(1,2) rid_zero plug_not_Lf by (auto simp: holds_def)
  have in_l: "rid l \<in> set (addrs l)" and in_r: "rid ?r \<in> set (zaddrs zr)" and in_w: "rid w = 0 \<or> rid w \<in> set (addrs w)"
    using rid_in [OF assms(2)] rid_plug [OF assms(4)] rid_cases [of w] by auto
  have in_z: "z \<noteq> [] \<Longrightarrow> zid z \<in> set (zaddrs z) \<and> zid z \<noteq> 0"
    using assms(1) by (cases z) (auto simp: holds_def)
  have "rb_mem (unlink (zid zr) y (rid w) T) = (\<lambda>q. if q = rid w \<and> q \<noteq> 0 then (rb_mem T q)\<lparr>rb_parent := zid zr\<rparr> else if q = zid zr then put_kid Lft (rid w) (rb_mem T q) else rb_mem T q)"
    using remove_mem(1) [OF P(1)] by (simp add: z fun_eq_iff)
  note far = swap_far_mem [OF P(2) _ _ _ _ _ _ m nz p relink_holds(1) [OF assms(1)] this]
  have "rid (plug w zr) = rid ?r"
    using rid_plug [OF assms(4)] by blast
  then show ?thesis
    unfolding repl_mem_def
    by (subst far) (use P(2-8) in_l in_r in_w in_z zr nz in \<open>auto\<close>)
qed

lemma swap_near:
  assumes "holds F (nd Lft c l x (nd Lft cy Lf y w)) z T" "l \<noteq> Lf" "q \<noteq> x"
  shows "rb_mem (swap_in y (zid z) c (rid l) (relink (zid z) x y T)) q = repl_mem x y l w z (rb_mem (unlink x y (rid w) T)) q"
proof -
  note P = two_parts [of F c l x cy y w "[]" z T, unfolded plug.simps append_Nil, OF assms(1)]
  have m: "rb_mem T x = \<lparr>rb_parent = zid z, rb_color = c, rb_right = y, rb_left = rid l\<rparr>" "rb_mem T y = \<lparr>rb_parent = x, rb_color = cy, rb_right = rid w, rb_left = 0\<rparr>"
    using assms(1) by (simp_all add: holds_def mk_node_def)
  have w: "rid w \<noteq> 0 \<Longrightarrow> rb_parent (rb_mem T (rid w)) = y"
    using assms(1) by (cases w) (auto simp: holds_def)
  have nz: "rid l \<noteq> 0"
    using assms(1,2) rid_zero by (auto simp: holds_def)
  have in_l: "rid l \<in> set (addrs l)" and in_w: "rid w = 0 \<or> rid w \<in> set (addrs w)"
    using rid_in [OF assms(2)] rid_cases [of w] by auto
  have in_z: "z \<noteq> [] \<Longrightarrow> zid z \<in> set (zaddrs z) \<and> zid z \<noteq> 0"
    using assms(1) by (cases z) (auto simp: holds_def)
  have "rb_mem (unlink x y (rid w) T) = (\<lambda>q. if q = rid w \<and> q \<noteq> 0 then (rb_mem T q)\<lparr>rb_parent := x\<rparr> else if q = x then put_kid Rgt (rid w) (rb_mem T q) else rb_mem T q)"
    using remove_mem(1) [OF P(1)] by (simp add: fun_eq_iff)
  note near = swap_near_mem [OF P(2) _ _ _ nz P(3) m w relink_holds(1) [OF assms(1)] this assms(3)]
  show ?thesis
    unfolding repl_mem_def by (subst near) (use P(2-8) in_l in_w in_z nz in \<open>auto\<close>)
qed

lemma swap_other:
  "q \<notin> {y, l} \<Longrightarrow> rb_mem (swap_in y zp c l t) q = rb_mem t q" "rb_node (swap_in y zp c l t) = rb_node t"
  "q \<notin> {y, w, p, r} \<Longrightarrow> rb_mem (detach y w p r t) q = rb_mem t q" "rb_node (detach y w p r t) = rb_node t"
  by (simp_all add: swap_in_def detach_def)

lemma refocus_down: "holds F t (zr @ (Rgt, c, x, l) # z) T \<longleftrightarrow> holds F (nd Lft c l x (plug t zr)) z T"
proof -
  have "nd Lft c l x (plug t zr) = nd Rgt c (plug t zr) x l"
    by (simp add: nd_def)
  then show ?thesis
    using holds_plug [of F t "zr @ (Rgt, c, x, l) # z" T] holds_plug [of F "nd Lft c l x (plug t zr)" z T] by (simp add: plug_append)
qed

text \<open>The node is replaced by its successor, which has left its old place; nothing else changes.\<close>

lemma swap_ok:
  assumes "holds F (nd Lft c l x (plug (nd Lft cy Lf y w) zr)) z T" "l \<noteq> Lf" "\<forall>f \<in> set zr. fst f = Lft"
  defines "p \<equiv> zid (zr @ (Rgt, c, x, l) # z)"
  defines "Tc \<equiv> swap_in y (zid z) c (rid l) (if p = x then relink (zid z) x y T else detach y (rid w) p (rid (plug (nd Lft cy Lf y w) zr)) (relink (zid z) x y T))"
  shows "holds (F(x := rb_mem T x)) w (zr @ (Rgt, c, y, l) # z) Tc" "zid (zr @ (Rgt, c, y, l) # z) = (if p = x then y else p)"
proof -
  note P = two_parts [OF assms(1)]
  let ?T1 = "unlink p y (rid w) T" and ?r' = "plug w zr"
  let ?T2 = "rb_replace_node x y ?T1"
  have p: "p = (if zr = [] then x else zid zr)"
    by (cases zr) (auto simp: p_def)
  then have px: "p = x \<longleftrightarrow> zr = []"
    using P(5) by (cases zr) auto
  show "zid (zr @ (Rgt, c, y, l) # z) = (if p = x then y else p)"
    unfolding px by (cases zr) (auto simp: p)
  have h1: "holds (F(y := rb_mem T y)) (nd Lft c l x ?r') z ?T1"
    using remove_ok [OF P(1)] by (simp add: p_def refocus_down)
  have r': "set (addrs ?r') = set (addrs w) \<union> set (zaddrs zr)"
    by (auto simp: addrs_plug set_zaddrs)
  have out: "y \<notin> set (addrs (nd Lft c l x ?r') @ zaddrs z)" "x \<notin> set (addrs (nd Lft c l y ?r') @ zaddrs z)"
    using P(2,5) r' by auto
  have "x \<noteq> rid l" "x \<noteq> rid w" "x \<noteq> zid z"
    using P(3,5) rid_cases [of l] rid_cases [of w] zid_in [of z] by auto
  moreover have "x \<noteq> rid (plug (nd Lft cy Lf y w) zr)"
    using P(2,5) rid_plug [of zr "nd Lft cy Lf y w"] by (cases "zr = []") auto
  ultimately have Tx: "rb_mem Tc x = rb_mem T x"
    using P(2) by (simp add: Tc_def swap_other relink_other)
  have "rb_mem Tc q = rb_mem ?T2 q" if "q \<noteq> x" for q
    unfolding replace_mem(1) [OF h1 out(1) P(4)]
    using swap_far [OF assms(1-3), of q] swap_near [of F c l x cy y w z T q] assms(1,2) that by (cases "zr = []") (simp_all add: Tc_def px, simp_all add: p)
  moreover have "rb_node Tc = rb_node ?T2"
    using replace_mem(2) [OF h1 out(1) P(4)] remove_mem(2) [OF P(1)] relink_holds(2) [OF assms(1), of y]
    by (cases "z = []") (simp_all add: Tc_def swap_other p_def)
  ultimately have "holds (F(x := rb_mem Tc x)) (nd Lft c l y ?r') z Tc"
    using out(2) P(2) by (intro holds_agree [OF replace_ok [OF h1 out(1) P(4)]]) auto
  then show "holds (F(x := rb_mem T x)) w (zr @ (Rgt, c, y, l) # z) Tc"
    by (simp add: refocus_down Tx)
qed

text \<open>Erasing at a place of the tree: with one child at most, and with two.\<close>

lemma erase_one:
  assumes "holds F (nd s c Lf x u) z T" "rb_ok n (nd s c Lf x u)" "hole_ok n z" "c = RB_BLACK \<or> z \<noteq> [] \<and> zcol z = RB_BLACK"
  shows "\<exists>T'. rb_erase x T = Some T' \<and> rb_tree (F(x := rb_mem T x)) (addrs (plug u z)) T'"
proof -
  have m: "rb_mem T x = mk_node s (zid z) c 0 (rid u)" "x \<noteq> 0"
    using assms(1) by (simp_all add: holds_def)
  have "rb_erase x T = (if c = RB_BLACK then rb_erase_color (rid u) (zid z) (unlink (zid z) x (rid u) T) else Some (unlink (zid z) x (rid u) T))"
    using m(2) by (cases s) (simp_all add: rb_erase_def m(1) mk_node_def unlink_def Let_def)
  then show ?thesis
    using finish_erase [OF remove_ok [OF assms(1)] assms(2-4)] by simp
qed

lemma erase_two:
  assumes "holds F (nd Lft c l x r) z T" "l \<noteq> Lf" "r \<noteq> Lf" "rb_ok k (plug (nd Lft c l x r) z)" "isblack (plug (nd Lft c l x r) z)"
  shows "\<exists>T'. rb_erase x T = Some T' \<and> rb_tree (F(x := rb_mem T x)) (zbefore z @ addrs l @ addrs r @ zafter z) T'"
proof -
  obtain cy y w zr where r: "r = plug (nd Lft cy Lf y w) zr" "\<forall>f \<in> set zr. fst f = Lft"
    using leftmost_ex [OF assms(3)] by blast
  let ?zx = "zr @ (Rgt, c, x, l) # z" and ?zy = "zr @ (Rgt, c, y, l) # z"
  have "plug (nd Lft c l x r) z = plug (nd Lft cy Lf y w) ?zx"
    by (simp add: r(1) plug_append) (simp add: nd_def)
  then obtain n where n: "rb_ok n (nd Lft cy Lf y w)" "hole_ok n ?zx" "cy = RB_BLACK \<or> zcol ?zx = RB_BLACK"
    using plug_ok_inv [of k "nd Lft cy Lf y w" ?zx] assms(4,5) by auto
  then have zy: "hole_ok n ?zy" "cy = RB_BLACK \<or> ?zy \<noteq> [] \<and> zcol ?zy = RB_BLACK"
    using hole_ok_addr [of n zr Rgt c x l z y] by auto
  note h = assms(1) [unfolded r(1)]
  from finish_erase [OF swap_ok(1) [OF h assms(2) r(2)] n(1) zy] obtain T' where
    "rb_erase x T = Some T'" "rb_tree (F(x := rb_mem T x)) (addrs (plug w ?zy)) T'"
    unfolding rb_erase_two_holds [OF h assms(2) r(2)] swap_ok(2) [OF h assms(2) r(2)] Let_def by blast
  moreover have "addrs (plug w ?zy) = zbefore z @ addrs l @ addrs r @ zafter z"
    using leftmost_addrs [OF r(2)] by (simp add: r(1) addrs_plug plug_append) (simp add: nd_def addrs_plug)
  ultimately show ?thesis
    by auto
qed

lemma tree_focus:
  assumes "rb_tree F (xs @ x # ys) T"
  shows "\<exists>c l r z k. holds F (nd Lft c l x r) z T \<and> xs = zbefore z @ addrs l \<and> ys = addrs r @ zafter z
    \<and> rb_ok k (plug (nd Lft c l x r) z) \<and> isblack (plug (nd Lft c l x r) z)"
proof -
  obtain t k where t: "holds F t [] T" "addrs t = xs @ x # ys" "rb_ok k t" "isblack t"
    using assms by (auto simp: rb_tree_def)
  then obtain c l r z where z: "t = plug (nd Lft c l x r) z"
    using focus_ex [of x t Lft] by auto
  have h: "holds F (nd Lft c l x r) z T"
    using t(1) holds_plug z by simp
  have d: "distinct (addrs t)"
    using t(1) by (simp add: holds_def)
  have "addrs t = (zbefore z @ addrs l) @ x # (addrs r @ zafter z)"
    by (simp add: z addrs_plug) (simp add: nd_def)
  from distinct_split_unique [OF d t(2) this] show ?thesis
    using h t(3,4) z by blast
qed

lemma empty_node:
  "RB_EMPTY_NODE (rb_init_node x T) x \<and> rb_next (rb_init_node x T) x = Some 0" "rb_tree F (xs @ x # ys) T \<Longrightarrow> \<not> RB_EMPTY_NODE T x"
proof -
  show "RB_EMPTY_NODE (rb_init_node x T) x \<and> rb_next (rb_init_node x T) x = Some 0"
    by (simp add: RB_EMPTY_NODE_def rb_init_node_def RB_CLEAR_NODE_def rb_next_def rb_step_def)
  assume "rb_tree F (xs @ x # ys) T"
  then obtain c l r z where h: "holds F (nd Lft c l x r) z T"
    using tree_focus by blast
  then have "rb_parent (rb_mem T x) = zid z"
    by (simp add: holds_def)
  moreover have "zid z \<noteq> x"
    using h zid_in [of z] by (auto simp: holds_def)
  ultimately show "\<not> RB_EMPTY_NODE T x"
    by (simp add: RB_EMPTY_NODE_def)
qed

text \<open>C14: Erasing from a red-black tree. For every node of a balanced tree \<^verbatim>\<open>rb_erase\<close> follows no NULL pointer, returns, and
  leaves a balanced tree of the other nodes in the same order. The erased node itself and everything outside of the tree
  are left as they were.\<close>

theorem rb_erase_ordered:
  assumes "rb_tree F (xs @ x # ys) T"
  shows "\<exists>T'. rb_erase x T = Some T' \<and> rb_tree (F(x := rb_mem T x)) (xs @ ys) T'"
proof -
  obtain c l r z k where h: "holds F (nd Lft c l x r) z T" and xy: "xs = zbefore z @ addrs l" "ys = addrs r @ zafter z"
      and k: "rb_ok k (plug (nd Lft c l x r) z)" "isblack (plug (nd Lft c l x r) z)"
    using tree_focus [OF assms] by blast
  obtain n where n: "rb_ok n (nd Lft c l x r)" "hole_ok n z" "c = RB_BLACK \<or> z \<noteq> [] \<and> zcol z = RB_BLACK"
    using plug_ok_inv [OF k] by auto
  consider "l = Lf" | "r = Lf" | "l \<noteq> Lf" "r \<noteq> Lf"
    by blast
  then show ?thesis
  proof cases
    case 1
    then show ?thesis
      using erase_one [of F Lft c x r z T n] h n by (simp add: addrs_plug xy)
  next
    case 2
    have "nd Lft c l x r = nd Rgt c r x l"
      by (simp add: nd_def)
    then show ?thesis
      using erase_one [of F Rgt c x l z T n] h n 2 by (simp add: addrs_plug xy)
  next
    case 3
    then show ?thesis
      using erase_two [OF h _ _ k] by (simp add: xy)
  qed
qed

text \<open>Replacing a node by one that is not in the tree keeps its place and the balance.\<close>

lemma rb_replace_ordered:
  assumes "rb_tree F (xs @ x # ys) T" "y \<noteq> 0" "y \<notin> set (xs @ x # ys)"
  shows "rb_tree (F(x := rb_mem T x)) (xs @ y # ys) (rb_replace_node x y T)"
proof -
  obtain c l r z k where h: "holds F (nd Lft c l x r) z T" and xy: "xs = zbefore z @ addrs l" "ys = addrs r @ zafter z"
      and k: "rb_ok k (plug (nd Lft c l x r) z)" "isblack (plug (nd Lft c l x r) z)"
    using tree_focus [OF assms(1)] by blast
  have "holds (F(x := rb_mem T x)) (plug (nd Lft c l y r) z) [] (rb_replace_node x y T)"
    using replace_ok [OF h _ assms(2)] assms(3) xy holds_plug by (auto simp: set_zaddrs)
  moreover obtain n where "rb_ok n (nd Lft c l x r)" "hole_ok n z" "c = RB_BLACK \<or> z \<noteq> [] \<and> zcol z = RB_BLACK"
    using plug_ok_inv [OF k] by auto
  then have "\<exists>j. rb_ok j (plug (nd Lft c l y r) z) \<and> isblack (plug (nd Lft c l y r) z)"
    using plug_ok [of n "nd Lft c l y r" z] by (cases c; cases "z = []") auto
  moreover have "addrs (plug (nd Lft c l y r) z) = xs @ y # ys"
    by (simp add: addrs_plug xy) (simp add: nd_def)
  ultimately show ?thesis
    unfolding rb_tree_def by metis
qed

theorem rb_erase_ordered_witness: "\<exists>T'. rb_erase 4 ex_rb = Some T' \<and> rb_tree (ex_outside(4 := rb_mem ex_rb 4)) [8] T'"
  using rb_erase_ordered [of ex_outside "[]" 4 "[8]" ex_rb] ex_rb_tree by simp

end
