(* ===== verification/BitOps.thy ===== *)
theory BitOps
  imports Prelude
begin

text \<open>
  The bitmap operations of arch/x86/include/asm/bitops.h and arch/arm/include/asm/bitops.h.

  A bitmap is an array of \<^verbatim>\<open>unsigned long\<close>, here a list of words of the width
  \<open>LENGTH('a)\<close> that stands for \<^verbatim>\<open>BITS_PER_LONG\<close> (64 on x86, 32 on arm). Bit numbers and sizes
  are far below the wrap of an \<^verbatim>\<open>unsigned long\<close> and are \<open>nat\<close>; an access outside of the
  array is \<open>UB\<close>. The inline assembly is modelled by what the instructions do.
\<close>

unbundle bit_operations_syntax

type_synonym 'a bitmap_words = "'a word list"

definition DIV_ROUND_UP :: "nat \<Rightarrow> nat \<Rightarrow> nat" where
  "DIV_ROUND_UP n d = (n + d - 1) div d"

definition BITS_TO_LONGS :: "'a::len itself \<Rightarrow> nat \<Rightarrow> nat" where
  "BITS_TO_LONGS _ nr = DIV_ROUND_UP nr LENGTH('a)"

section \<open>Single bits\<close>

definition upd_word :: "nat \<Rightarrow> ('a::len word \<Rightarrow> 'a word) \<Rightarrow> 'a word list \<Rightarrow> 'a word list outcome" where
  "upd_word i f addr = (if i < length addr then Inr (addr[i := f (addr ! i)]) else Inl UB)"

text \<open>x86: \<^verbatim>\<open>btsl\<close>, \<^verbatim>\<open>btcl\<close>, \<^verbatim>\<open>btrl\<close> set, flip and clear the addressed bit of the bit string at the
  address; \<^verbatim>\<open>bt\<close> copies it to the carry, of which \<^verbatim>\<open>sbb\<close> makes -1 or 0.\<close>

definition set_bit_nr :: "nat \<Rightarrow> 'a::len word list \<Rightarrow> 'a word list outcome" where
  "set_bit_nr nr = upd_word (nr div LENGTH('a)) (set_bit (nr mod LENGTH('a)))"

definition change_bit :: "nat \<Rightarrow> 'a::len word list \<Rightarrow> 'a word list outcome" where
  "change_bit nr = upd_word (nr div LENGTH('a)) (flip_bit (nr mod LENGTH('a)))"

definition clear_bit :: "nat \<Rightarrow> 'a::len word list \<Rightarrow> 'a word list outcome" where
  "clear_bit nr = upd_word (nr div LENGTH('a)) (unset_bit (nr mod LENGTH('a)))"

definition test_bit :: "nat \<Rightarrow> 'a::len word list \<Rightarrow> int outcome" where
  "test_bit nr addr =
     (if nr div LENGTH('a) < length addr then Inr (if bit (addr ! (nr div LENGTH('a))) (nr mod LENGTH('a)) then -1 else 0) else Inl UB)"

text \<open>arm: the same in C, with shifts of 1.\<close>

definition arm_set_bit :: "nat \<Rightarrow> 'a::len word list \<Rightarrow> 'a word list outcome" where
  "arm_set_bit nr = upd_word (nr div LENGTH('a)) (\<lambda>w. w OR push_bit (nr mod LENGTH('a)) 1)"

definition arm_change_bit :: "nat \<Rightarrow> 'a::len word list \<Rightarrow> 'a word list outcome" where
  "arm_change_bit nr = upd_word (nr div LENGTH('a)) (\<lambda>w. w XOR push_bit (nr mod LENGTH('a)) 1)"

definition arm_clear_bit :: "nat \<Rightarrow> 'a::len word list \<Rightarrow> 'a word list outcome" where
  "arm_clear_bit nr = upd_word (nr div LENGTH('a)) (\<lambda>w. w AND NOT (push_bit (nr mod LENGTH('a)) 1))"

definition arm_test_bit :: "nat \<Rightarrow> 'a::len word list \<Rightarrow> int outcome" where
  "arm_test_bit nr addr =
     (if nr div LENGTH('a) < length addr
      then Inr (if addr ! (nr div LENGTH('a)) AND push_bit (nr mod LENGTH('a)) 1 \<noteq> 0 then -1 else 0) else Inl UB)"

section \<open>The first set bit of a word\<close>

text \<open>x86: \<^verbatim>\<open>bsf\<close> gives the lowest set bit and leaves its target undefined for 0.\<close>

definition ffs :: "'a::len word \<Rightarrow> nat outcome" where
  "ffs w = (if w = 0 then Inl UB else Inr (hd (filter (bit w) [0..<LENGTH('a)])))"

text \<open>arm: a loop over the bits.\<close>

primrec ffs_loop :: "nat \<Rightarrow> nat \<Rightarrow> 'a::len word \<Rightarrow> nat" where
  "ffs_loop 0 p w = p"
| "ffs_loop (Suc k) p w = (if w AND 1 \<noteq> 0 then p else ffs_loop k (Suc p) (drop_bit 1 w))"

definition arm_ffs :: "'a::len word \<Rightarrow> nat outcome" where
  "arm_ffs w = Inr (ffs_loop LENGTH('a) 0 w)"

section \<open>The next set bit of a bitmap\<close>

text \<open>
  \<^verbatim>\<open>find_next_bit\<close>, over the routine that finds the first bit of a word. \<open>found_middle\<close> and
  \<open>found_first\<close> are the labels the code jumps to, \<open>find_loop\<close> is the loop over whole words.
\<close>

definition load :: "'a word list \<Rightarrow> nat \<Rightarrow> ('a word \<Rightarrow> 'b outcome) \<Rightarrow> 'b outcome" where
  "load addr p f = (if p < length addr then f (addr ! p) else Inl UB)"

definition found_middle :: "('a::len word \<Rightarrow> nat outcome) \<Rightarrow> nat \<Rightarrow> 'a word \<Rightarrow> nat outcome" where
  "found_middle ff result tmp = bindF (ff tmp) (\<lambda>b. Inr (result + b))"

definition found_first :: "('a::len word \<Rightarrow> nat outcome) \<Rightarrow> nat \<Rightarrow> nat \<Rightarrow> 'a word \<Rightarrow> nat outcome" where
  "found_first ff sz result tmp =
     (let tmp = tmp AND drop_bit (LENGTH('a) - sz) (- 1)
      in if tmp = 0 then Inr (result + sz) else found_middle ff result tmp)"

function find_loop :: "('a::len word \<Rightarrow> nat outcome) \<Rightarrow> 'a word list \<Rightarrow> nat \<Rightarrow> nat \<Rightarrow> nat \<Rightarrow> nat outcome" where
  "find_loop ff addr p sz result =
     (if LENGTH('a) \<le> sz
      then load addr p (\<lambda>tmp. if tmp \<noteq> 0 then found_middle ff result tmp
                              else find_loop ff addr (p + 1) (sz - LENGTH('a)) (result + LENGTH('a)))
      else if sz = 0 then Inr result
      else load addr p (found_first ff sz result))"
  by auto
termination
  by (relation "measure (\<lambda>(ff, addr, p, sz, result). sz)") (auto intro: diff_less order_less_le_trans [OF len_gt_0])

declare find_loop.simps [simp del]

definition find_next_by :: "('a::len word \<Rightarrow> nat outcome) \<Rightarrow> 'a word list \<Rightarrow> nat \<Rightarrow> nat \<Rightarrow> nat outcome" where
  "find_next_by ff addr sz offset =
     (let p = offset div LENGTH('a);
          result = offset - offset mod LENGTH('a)
      in if sz \<le> offset then Inr sz
         else let sz = sz - result;
                  offset = offset mod LENGTH('a)
         in if offset \<noteq> 0
            then load addr p (\<lambda>tmp.
                   let tmp = tmp AND push_bit offset (- 1)
                   in if sz < LENGTH('a) then found_first ff sz result tmp
                      else if tmp \<noteq> 0 then found_middle ff result tmp
                      else find_loop ff addr (p + 1) (sz - LENGTH('a)) (result + LENGTH('a)))
            else find_loop ff addr p sz result)"

definition find_next_bit :: "'a::len word list \<Rightarrow> nat \<Rightarrow> nat \<Rightarrow> nat outcome" where
  "find_next_bit = find_next_by ffs"

definition arm_find_next_bit :: "'a::len word list \<Rightarrow> nat \<Rightarrow> nat \<Rightarrow> nat outcome" where
  "arm_find_next_bit = find_next_by arm_ffs"

text \<open>
  The loop \<^verbatim>\<open>for_each_bit\<close>, here collecting the bits it hands to its body. \<^verbatim>\<open>sizeof(bitmask)\<close> is
  the size of the array in bytes. The first argument bounds the rounds.
\<close>

primrec bit_walk :: "nat \<Rightarrow> 'a::len word list \<Rightarrow> nat \<Rightarrow> nat \<Rightarrow> nat list outcome" where
  "bit_walk 0 addr sz i = Inl HANG"
| "bit_walk (Suc n) addr sz i =
     bindF (find_next_bit addr sz i) (\<lambda>i.
       if i < sz then bindF (bit_walk n addr sz (i + 1)) (\<lambda>is. Inr (i # is)) else Inr [])"

definition for_each_bit :: "'a::len word list \<Rightarrow> nat list outcome" where
  "for_each_bit bitmask = (let n = length bitmask * (LENGTH('a) div 8) in bit_walk (Suc n) bitmask n 0)"

section \<open>What the operations compute\<close>

definition bm :: "'a::len word list \<Rightarrow> nat \<Rightarrow> bool" where
  "bm addr i \<longleftrightarrow> bit (addr ! (i div LENGTH('a))) (i mod LENGTH('a))"

lemma bm_at: "j < LENGTH('a) \<Longrightarrow> bm addr (p * LENGTH('a) + j) \<longleftrightarrow> bit (addr ! p :: 'a::len word) j"
  by (simp add: bm_def)

lemma div_less_length: "nr < length (addr :: 'a::len word list) * LENGTH('a) \<Longrightarrow> nr div LENGTH('a) < length addr"
  by (simp add: less_mult_imp_div_less)

lemma same_bit_iff: "i div n = j div n \<and> i mod n = j mod n \<longleftrightarrow> i = (j :: nat)"
  by (metis div_mult_mod_eq)

lemma upd_word_bm:
  assumes "nr < length (addr :: 'a::len word list) * LENGTH('a)" "\<And>w j. j < LENGTH('a) \<Longrightarrow> bit (f w) j = (if j = nr mod LENGTH('a) then g (bit w j) else bit w j)"
  shows "\<exists>addr'. upd_word (nr div LENGTH('a)) f addr = Inr addr' \<and> length addr' = length addr
     \<and> (\<forall>i. bm addr' i = (if i = nr then g (bm addr i) else bm addr i))"
proof -
  have l: "nr div LENGTH('a) < length addr" by (rule div_less_length [OF assms(1)])
  have "bm (addr[nr div LENGTH('a) := f (addr ! (nr div LENGTH('a)))]) i = (if i = nr then g (bm addr i) else bm addr i)" for i
    using l assms(2) [of "i mod LENGTH('a)"] same_bit_iff [of i "LENGTH('a)" nr]
    by (cases "i div LENGTH('a) = nr div LENGTH('a)") (auto simp: bm_def)
  with l show ?thesis by (simp add: upd_word_def)
qed

lemma bit_ops_bm:
  assumes "nr < length (addr :: 'a::len word list) * LENGTH('a)"
  shows "\<exists>a. set_bit_nr nr addr = Inr a \<and> length a = length addr \<and> (\<forall>i. bm a i = (if i = nr then True else bm addr i))"
    "\<exists>a. change_bit nr addr = Inr a \<and> length a = length addr \<and> (\<forall>i. bm a i = (if i = nr then \<not> bm addr i else bm addr i))"
    "\<exists>a. clear_bit nr addr = Inr a \<and> length a = length addr \<and> (\<forall>i. bm a i = (if i = nr then False else bm addr i))"
    "test_bit nr addr = Inr (if bm addr nr then -1 else 0)"
proof -
  show "\<exists>a. set_bit_nr nr addr = Inr a \<and> length a = length addr \<and> (\<forall>i. bm a i = (if i = nr then True else bm addr i))"
    unfolding set_bit_nr_def by (rule upd_word_bm [OF assms, where g = "\<lambda>_. True"]) (simp add: bit_set_bit_iff)
  show "\<exists>a. change_bit nr addr = Inr a \<and> length a = length addr \<and> (\<forall>i. bm a i = (if i = nr then \<not> bm addr i else bm addr i))"
    unfolding change_bit_def by (rule upd_word_bm [OF assms, where g = Not]) (simp add: bit_flip_bit_iff)
  show "\<exists>a. clear_bit nr addr = Inr a \<and> length a = length addr \<and> (\<forall>i. bm a i = (if i = nr then False else bm addr i))"
    unfolding clear_bit_def by (rule upd_word_bm [OF assms, where g = "\<lambda>_. False"]) (simp add: bit_unset_bit_iff)
  show "test_bit nr addr = Inr (if bm addr nr then -1 else 0)"
    using div_less_length [OF assms] by (simp add: test_bit_def bm_def)
qed

lemma arm_bit_ops:
  "arm_set_bit nr addr = set_bit_nr nr addr" "arm_change_bit nr addr = change_bit nr addr"
  "arm_clear_bit nr addr = clear_bit nr addr" "arm_test_bit nr addr = test_bit nr addr"
proof -
  show "arm_set_bit nr addr = set_bit_nr nr addr"
    by (simp add: arm_set_bit_def set_bit_nr_def set_bit_eq_or [abs_def])
  show "arm_change_bit nr addr = change_bit nr addr"
    by (simp add: arm_change_bit_def change_bit_def flip_bit_eq_xor [abs_def])
  show "arm_clear_bit nr addr = clear_bit nr addr"
    by (simp add: arm_clear_bit_def clear_bit_def unset_bit_eq_and_not [abs_def])
  show "arm_test_bit nr addr = test_bit nr addr"
    by (simp add: arm_test_bit_def test_bit_def bit_iff_and_push_bit_not_eq_0)
qed

text \<open>A routine that finds the first bit of a word.\<close>

definition ff_ok :: "('a::len word \<Rightarrow> nat outcome) \<Rightarrow> bool" where
  "ff_ok ff \<longleftrightarrow> (\<forall>w. w \<noteq> 0 \<longrightarrow> (\<exists>b. ff w = Inr b \<and> bit w b \<and> (\<forall>j<b. \<not> bit w j)))"

lemma nonzero_bit:
  fixes w :: "'a::len word"
  assumes "w \<noteq> 0"
  shows "\<exists>j<LENGTH('a). bit w j"
  using assms by (auto simp: bit_eq_iff dest: bit_imp_le_length)

lemma hd_filter_upt:
  assumes "\<exists>j<n. P j"
  shows "P (hd (filter P [0..<n])) \<and> (\<forall>j<hd (filter P [0..<n]). \<not> P j)"
  using assms
proof (induction n)
  case (Suc n)
  show ?case
  proof (cases "\<exists>j<n. P j")
    case True
    then have "filter P [0..<n] \<noteq> []" by (auto simp: filter_empty_conv)
    then have eq: "hd (filter P [0..<Suc n]) = hd (filter P [0..<n])" by simp
    show ?thesis unfolding eq by (rule Suc.IH [OF True])
  next
    case False
    then have "filter P [0..<n] = []" "P n" using Suc.prems by (auto simp: filter_empty_conv less_Suc_eq)
    then have "hd (filter P [0..<Suc n]) = n" by simp
    with False \<open>P n\<close> show ?thesis by (simp only:) blast
  qed
qed simp

lemma ffs_ff_ok: "ff_ok ffs"
  using hd_filter_upt [OF nonzero_bit] by (fastforce simp: ff_ok_def ffs_def)

lemma and_1_bit:
  fixes w :: "'a::len word"
  shows "w AND 1 \<noteq> 0 \<longleftrightarrow> bit w 0"
  using bit_eq_iff [of "w AND 1" 0] by (auto simp: bit_and_iff bit_1_iff)

lemma ffs_loop_bits:
  assumes "\<exists>j<k. bit w j"
  shows "\<exists>b. ffs_loop k p w = p + b \<and> bit w b \<and> (\<forall>j<b. \<not> bit w j)"
  using assms
proof (induction k arbitrary: p w)
  case (Suc k)
  show ?case
  proof (cases "bit w 0")
    case True
    then have "w AND 1 \<noteq> 0" by (simp only: and_1_bit not_False_eq_True)
    with True show ?thesis by (intro exI [of _ 0]) simp
  next
    case False
    then have z: "w AND 1 = 0" using and_1_bit [of w] by blast
    obtain j where "j < Suc k" "bit w j" using Suc.prems by blast
    with False have "\<exists>j<k. bit (drop_bit 1 w) j" by (cases j) (auto simp: bit_drop_bit_eq)
    from Suc.IH [OF this, of "Suc p"] obtain b where
      b: "ffs_loop k (Suc p) (drop_bit 1 w) = Suc p + b" "bit (drop_bit 1 w) b" "\<forall>j<b. \<not> bit (drop_bit 1 w) j" by blast
    have "\<not> bit w j" if "j < Suc b" for j using that b(3) False by (cases j) (auto simp: bit_drop_bit_eq)
    with b z show ?thesis by (intro exI [of _ "Suc b"]) (auto simp: bit_drop_bit_eq)
  qed
qed simp

lemma arm_ffs_ff_ok: "ff_ok arm_ffs"
  using ffs_loop_bits [OF nonzero_bit, of _ 0] by (fastforce simp: ff_ok_def arm_ffs_def)

text \<open>The next set bit at or above \<open>lo\<close>, or \<open>hi\<close> when there is none below \<open>hi\<close>.\<close>

definition is_next :: "'a::len word list \<Rightarrow> nat \<Rightarrow> nat \<Rightarrow> nat \<Rightarrow> bool" where
  "is_next addr lo hi r \<longleftrightarrow> lo \<le> r \<and> r \<le> hi \<and> (\<forall>i. lo \<le> i \<and> i < r \<longrightarrow> \<not> bm addr i) \<and> (r < hi \<longrightarrow> bm addr r)"

lemma is_next_extend:
  "is_next addr mid hi r \<Longrightarrow> lo \<le> mid \<Longrightarrow> \<forall>i. lo \<le> i \<and> i < mid \<longrightarrow> \<not> bm addr i \<Longrightarrow> is_next addr lo hi r"
  unfolding is_next_def by (metis le_trans not_less)

text \<open>One word, of which the bits from \<open>off\<close> to below \<open>m\<close> count.\<close>

lemma word_scan:
  fixes addr :: "'a::len word list" and tmp :: "'a word"
  assumes "\<forall>j. bit tmp j \<longleftrightarrow> bit (addr ! p) j \<and> off \<le> j \<and> j < m" "off \<le> m" "m \<le> LENGTH('a)"
  shows "ff_ok ff \<Longrightarrow> tmp \<noteq> 0 \<Longrightarrow> p * LENGTH('a) + m \<le> hi \<Longrightarrow>
       \<exists>r. found_middle ff (p * LENGTH('a)) tmp = Inr r \<and> is_next addr (p * LENGTH('a) + off) hi r"
    and "tmp = 0 \<Longrightarrow> p * LENGTH('a) + off \<le> i \<Longrightarrow> i < p * LENGTH('a) + m \<Longrightarrow> \<not> bm addr i"
proof -
  let ?b = "p * LENGTH('a)"
  have at: "bm addr i \<longleftrightarrow> bit tmp (i - p * LENGTH('a))" if "p * LENGTH('a) + off \<le> i" "i < p * LENGTH('a) + m" for i
  proof -
    define j where "j = i - p * LENGTH('a)"
    have j: "i = p * LENGTH('a) + j" "off \<le> j" "j < m" using that by (simp_all add: j_def)
    then have "bm addr i \<longleftrightarrow> bit (addr ! p) j" using bm_at [of j addr p] assms(3) by simp
    with j assms(1) show ?thesis by simp
  qed
  show "tmp = 0 \<Longrightarrow> p * LENGTH('a) + off \<le> i \<Longrightarrow> i < p * LENGTH('a) + m \<Longrightarrow> \<not> bm addr i" using at [of i] by simp
  assume ff: "ff_ok ff" and nz: "tmp \<noteq> 0" and hi: "p * LENGTH('a) + m \<le> hi"
  from ff nz obtain b where b: "ff tmp = Inr b" "bit tmp b" "\<forall>j<b. \<not> bit tmp j" by (auto simp: ff_ok_def)
  then have bb: "off \<le> b" "b < m" using assms(1) by blast+
  have "\<not> bm addr i" if "p * LENGTH('a) + off \<le> i" "i < p * LENGTH('a) + b" for i
  proof -
    have "i - p * LENGTH('a) < b" "i < p * LENGTH('a) + m" using that bb by linarith+
    with at [OF that(1)] b(3) show ?thesis by blast
  qed
  moreover have "bm addr (p * LENGTH('a) + b)" using at [of "p * LENGTH('a) + b"] b(2) bb by simp
  ultimately have "is_next addr (p * LENGTH('a) + off) hi (p * LENGTH('a) + b)"
    using bb hi unfolding is_next_def by auto
  with b(1) show "\<exists>r. found_middle ff (p * LENGTH('a)) tmp = Inr r \<and> is_next addr (p * LENGTH('a) + off) hi r"
    by (simp add: found_middle_def)
qed

lemma found_first_ok:
  fixes addr :: "'a::len word list" and tmp :: "'a word"
  assumes "ff_ok ff" "\<forall>j. bit tmp j \<longleftrightarrow> bit (addr ! p) j \<and> off \<le> j" "off < sz" "sz < LENGTH('a)"
  shows "\<exists>r. found_first ff sz (p * LENGTH('a)) tmp = Inr r \<and> is_next addr (p * LENGTH('a) + off) (p * LENGTH('a) + sz) r"
proof -
  define t where "t = tmp AND drop_bit (LENGTH('a) - sz) (- 1)"
  have t: "\<forall>j. bit t j \<longleftrightarrow> bit (addr ! p) j \<and> off \<le> j \<and> j < sz"
    using assms(2,4) by (auto simp: t_def bit_and_iff bit_drop_bit_eq bit_mask_iff)
  have le: "off \<le> sz" "sz \<le> LENGTH('a)" using assms(3,4) by auto
  show ?thesis
  proof (cases "t = 0")
    case True
    with word_scan(2) [OF t le True] have "is_next addr (p * LENGTH('a) + off) (p * LENGTH('a) + sz) (p * LENGTH('a) + sz)"
      using le by (auto simp: is_next_def)
    with True show ?thesis unfolding found_first_def t_def [symmetric] Let_def by simp
  next
    case False
    with word_scan(1) [OF t le assms(1) False, of "p * LENGTH('a) + sz"] show ?thesis
      unfolding found_first_def t_def [symmetric] Let_def by simp
  qed
qed

lemma find_loop_ok:
  fixes addr :: "'a::len word list"
  assumes "ff_ok ff" "p * LENGTH('a) + sz \<le> length addr * LENGTH('a)"
  shows "\<exists>r. find_loop ff addr p sz (p * LENGTH('a)) = Inr r \<and> is_next addr (p * LENGTH('a)) (p * LENGTH('a) + sz) r"
  using assms(2)
proof (induction sz arbitrary: p rule: less_induct)
  case (less sz)
  have len: "0 < LENGTH('a)" by (rule len_gt_0)
  have p: "p < length addr" if "0 < sz"
  proof -
    have "p * LENGTH('a) < length addr * LENGTH('a)" using that less.prems by linarith
    then show ?thesis by simp
  qed
  consider "LENGTH('a) \<le> sz" "addr ! p \<noteq> 0" | "LENGTH('a) \<le> sz" "addr ! p = 0" | "sz < LENGTH('a)" "sz \<noteq> 0" | "sz = 0"
    by fastforce
  then show ?case
  proof cases
    case 1
    then have "\<forall>j. bit (addr ! p) j \<longleftrightarrow> bit (addr ! p) j \<and> 0 \<le> j \<and> j < LENGTH('a)" by (auto dest: bit_imp_le_length)
    from word_scan(1) [OF this _ _ assms(1) 1(2), of "p * LENGTH('a) + sz"] 1 p len show ?thesis
      by (subst find_loop.simps) (simp add: load_def)
  next
    case 2
    then have t: "\<forall>j. bit (addr ! p) j \<longleftrightarrow> bit (addr ! p) j \<and> 0 \<le> j \<and> j < LENGTH('a)" by (auto dest: bit_imp_le_length)
    have lt: "sz - LENGTH('a) < sz" using 2(1) len by linarith
    have nx: "Suc p * LENGTH('a) + (sz - LENGTH('a)) = p * LENGTH('a) + sz" using 2(1) by simp
    obtain r where r: "find_loop ff addr (Suc p) (sz - LENGTH('a)) (Suc p * LENGTH('a)) = Inr r"
        "is_next addr (Suc p * LENGTH('a)) (p * LENGTH('a) + sz) r"
      using less.IH [OF lt, of "Suc p"] less.prems unfolding nx by blast
    have "is_next addr (p * LENGTH('a)) (p * LENGTH('a) + sz) r"
      by (rule is_next_extend [OF r(2)]) (use word_scan(2) [OF t _ _ 2(2)] in \<open>auto simp: add.commute\<close>)
    with r(1) 2 p lt len show ?thesis by (subst find_loop.simps) (simp add: load_def add.commute)
  next
    case 3
    from found_first_ok [of ff "addr ! p" addr p 0 sz] assms(1) 3 p show ?thesis
      by (subst find_loop.simps) (simp add: load_def)
  next
    case 4
    then show ?thesis by (subst find_loop.simps) (auto simp: is_next_def)
  qed
qed
lemma find_next_by_ok:
  fixes addr :: "'a::len word list"
  assumes "ff_ok ff" "sz \<le> length addr * LENGTH('a)" "offset < sz"
  shows "\<exists>r. find_next_by ff addr sz offset = Inr r \<and> is_next addr offset sz r"
proof -
  let ?L = "LENGTH('a)"
  define p off where "p = offset div ?L" and "off = offset mod ?L"
  have o: "offset = p * ?L + off" "off < ?L" "offset - offset mod ?L = p * ?L"
    by (simp_all add: p_def off_def minus_mod_eq_div_mult)
  define s where "s = sz - p * ?L"
  have s: "p * ?L + s = sz" "off < s" using assms(3) o by (simp_all add: s_def)
  have pl: "p < length addr" unfolding p_def using assms(2,3) div_less_length [of offset addr] by linarith
  show ?thesis
  proof (cases "off = 0")
    case True
    obtain r where "find_loop ff addr p s (p * ?L) = Inr r" "is_next addr (p * ?L) (p * ?L + s) r"
      using find_loop_ok [OF assms(1), of p s addr] assms(2) s by auto
    with True o s assms(3) show ?thesis
      by (simp add: find_next_by_def Let_def p_def [symmetric] off_def [symmetric] s_def [symmetric])
  next
    case False
    define t where "t = addr ! p AND push_bit off (- 1)"
    have t: "\<forall>j. bit t j \<longleftrightarrow> bit (addr ! p) j \<and> off \<le> j"
      by (auto simp: t_def bit_and_iff bit_not_iff bit_mask_iff dest: bit_imp_le_length)
    have tL: "\<forall>j. bit t j \<longleftrightarrow> bit (addr ! p) j \<and> off \<le> j \<and> j < ?L" using t by (auto dest: bit_imp_le_length)
    have o3: "offset - off = p * ?L" using o(1) by simp
    have run: "find_next_by ff addr sz offset =
        (if s < ?L then found_first ff s (p * ?L) t else if t \<noteq> 0 then found_middle ff (p * ?L) t
         else find_loop ff addr (p + 1) (s - ?L) (p * ?L + ?L))"
      using False assms(3) pl unfolding find_next_by_def Let_def p_def [symmetric] off_def [symmetric] o3 s_def [symmetric] load_def t_def [symmetric]
      by simp
    consider "s < ?L" | "?L \<le> s" "t \<noteq> 0" | "?L \<le> s" "t = 0" by linarith
    then show ?thesis
    proof cases
      case 1
      with found_first_ok [OF assms(1) t s(2) 1] o(1) s(1) run show ?thesis by simp
    next
      case 2
      then have "\<exists>r. found_middle ff (p * ?L) t = Inr r \<and> is_next addr (p * ?L + off) sz r"
        using word_scan(1) [OF tL _ _ assms(1) 2(2), of sz] o(2) s(1) by simp
      with 2 run o(1) show ?thesis by simp
    next
      case 3
      have nx: "Suc p * ?L + (s - ?L) = sz" using 3(1) s(1) by simp
      obtain r where r: "find_loop ff addr (Suc p) (s - ?L) (Suc p * ?L) = Inr r" "is_next addr (Suc p * ?L) sz r"
        using find_loop_ok [OF assms(1), of "Suc p" "s - ?L" addr] assms(2) unfolding nx by blast
      have "is_next addr offset sz r"
      proof (rule is_next_extend [OF r(2)])
        show "offset \<le> Suc p * ?L" using o by simp
        show "\<forall>i. offset \<le> i \<and> i < Suc p * ?L \<longrightarrow> \<not> bm addr i"
          using word_scan(2) [OF tL _ _ 3(2)] o by (simp add: add.commute)
      qed
      with r(1) 3 run show ?thesis by (simp add: add.commute)
    qed
  qed
qed

lemma find_next_past: "sz \<le> offset \<Longrightarrow> find_next_by ff addr sz offset = Inr sz"
  by (simp add: find_next_by_def Let_def)

lemma is_next_unique: "is_next addr lo hi r \<Longrightarrow> is_next addr lo hi r' \<Longrightarrow> r = r'"
  unfolding is_next_def by (metis le_neq_implies_less nat_neq_iff order_less_le_trans)

lemma filter_upt_from:
  assumes "is_next addr i sz r"
  shows "filter (bm addr) [i..<sz] = (if r < sz then r # filter (bm addr) [Suc r..<sz] else [])"
proof -
  have le: "i \<le> r" "r \<le> sz" using assms by (auto simp: is_next_def)
  then have "[i..<sz] = [i..<r] @ [r..<sz]" using upt_add_eq_append [of i r "sz - r"] by simp
  moreover have "filter (bm addr) [i..<r] = []" using assms by (auto simp: is_next_def filter_empty_conv)
  ultimately show ?thesis using assms le by (auto simp: is_next_def upt_conv_Cons)
qed

lemma bit_walk_filter:
  fixes addr :: "'a::len word list"
  assumes "sz \<le> length addr * LENGTH('a)" "sz - i < n"
  shows "bit_walk n addr sz i = Inr (filter (bm addr) [i..<sz])"
  using assms(2)
proof (induction n arbitrary: i)
  case (Suc n)
  show ?case
  proof (cases "i < sz")
    case True
    from find_next_by_ok [OF ffs_ff_ok assms(1) True] obtain r where
      r: "find_next_bit addr sz i = Inr r" "is_next addr i sz r" unfolding find_next_bit_def by blast
    have "bit_walk n addr sz (Suc r) = Inr (filter (bm addr) [Suc r..<sz])" if "r < sz"
    proof (rule Suc.IH)
      show "sz - Suc r < n" using Suc.prems r(2) that unfolding is_next_def by linarith
    qed
    with r filter_upt_from [OF r(2)] show ?thesis by simp
  next
    case False
    then show ?thesis by (simp add: find_next_bit_def find_next_past)
  qed
qed simp

section \<open>Properties\<close>

text \<open>C30: The search for the next set bit never reads outside of a bitmap that has as many words as
  its size needs, and returns the lowest set bit at or above the offset, or the size when
  there is none below it; the versions of both architectures agree.\<close>

theorem find_next_bit_correct:
  fixes addr :: "'a::len word list"
  assumes "BITS_TO_LONGS TYPE('a) sz \<le> length addr" "offset < sz"
  shows "\<exists>r. find_next_bit addr sz offset = Inr r \<and> arm_find_next_bit addr sz offset = Inr r
     \<and> offset \<le> r \<and> r \<le> sz \<and> (\<forall>i. offset \<le> i \<and> i < r \<longrightarrow> \<not> bm addr i) \<and> (r < sz \<longrightarrow> bm addr r)"
proof -
  let ?L = "LENGTH('a)"
  have L: "0 < ?L" by (rule len_gt_0)
  have "sz \<le> (sz + ?L - 1) div ?L * ?L"
  proof -
    have "(sz + ?L - 1) div ?L * ?L + (sz + ?L - 1) mod ?L = sz + ?L - 1" by (rule div_mult_mod_eq)
    moreover have "(sz + ?L - 1) mod ?L < ?L" using L by (rule mod_less_divisor)
    ultimately show ?thesis by linarith
  qed
  also have "\<dots> \<le> length addr * ?L" using assms(1) by (simp add: BITS_TO_LONGS_def DIV_ROUND_UP_def mult_le_mono1)
  finally have sz: "sz \<le> length addr * ?L" .
  from find_next_by_ok [OF ffs_ff_ok sz assms(2)] obtain r where r: "find_next_bit addr sz offset = Inr r" "is_next addr offset sz r"
    unfolding find_next_bit_def by blast
  moreover from find_next_by_ok [OF arm_ffs_ff_ok sz assms(2)] obtain r' where "arm_find_next_bit addr sz offset = Inr r'" "is_next addr offset sz r'"
    unfolding arm_find_next_bit_def by blast
  ultimately have "find_next_bit addr sz offset = Inr r \<and> arm_find_next_bit addr sz offset = Inr r \<and> is_next addr offset sz r"
    using is_next_unique by blast
  then show ?thesis unfolding is_next_def by blast
qed

theorem find_next_bit_correct_witness:
  "\<exists>r. find_next_bit [0, 256 :: u64] 100 3 = Inr r \<and> arm_find_next_bit [0, 256 :: u64] 100 3 = Inr r \<and> 3 \<le> r \<and> r \<le> 72"
proof -
  obtain r where r: "find_next_bit [0, 256 :: u64] 100 3 = Inr r" "arm_find_next_bit [0, 256 :: u64] 100 3 = Inr r" "3 \<le> r"
      "\<forall>i. 3 \<le> i \<and> i < r \<longrightarrow> \<not> bm [0, 256 :: u64] i"
    using find_next_bit_correct [of 100 "[0, 256 :: u64]" 3] by (auto simp: BITS_TO_LONGS_def DIV_ROUND_UP_def)
  have "bm [0, 256 :: u64] 72" by (simp add: bm_def)
  with r(4) [rule_format, of 72] have "\<not> 72 < r" by auto
  with r(1-3) show ?thesis by auto
qed

text \<open>Setting, flipping and clearing a bit inside of the bitmap change that bit and no other, and
  testing gives -1 for a set bit and 0 for a clear one; the C versions for arm compute the same.\<close>

theorem bit_ops_correct:
  assumes "nr < length (addr :: 'a::len word list) * LENGTH('a)"
  shows "(\<exists>a. set_bit_nr nr addr = Inr a \<and> (\<forall>i. bm a i = (i = nr \<or> bm addr i)))
    \<and> (\<exists>a. change_bit nr addr = Inr a \<and> (\<forall>i. bm a i = (if i = nr then \<not> bm addr i else bm addr i)))
    \<and> (\<exists>a. clear_bit nr addr = Inr a \<and> (\<forall>i. bm a i = (i \<noteq> nr \<and> bm addr i)))
    \<and> test_bit nr addr = Inr (if bm addr nr then -1 else 0)
    \<and> arm_set_bit nr addr = set_bit_nr nr addr \<and> arm_change_bit nr addr = change_bit nr addr
    \<and> arm_clear_bit nr addr = clear_bit nr addr \<and> arm_test_bit nr addr = test_bit nr addr"
proof -
  obtain a where a: "set_bit_nr nr addr = Inr a" "\<forall>i. bm a i = (if i = nr then True else bm addr i)" using bit_ops_bm(1) [OF assms] by blast
  obtain b where b: "change_bit nr addr = Inr b" "\<forall>i. bm b i = (if i = nr then \<not> bm addr i else bm addr i)" using bit_ops_bm(2) [OF assms] by blast
  obtain c where c: "clear_bit nr addr = Inr c" "\<forall>i. bm c i = (if i = nr then False else bm addr i)" using bit_ops_bm(3) [OF assms] by blast
  show ?thesis unfolding arm_bit_ops using a b c bit_ops_bm(4) [OF assms] by simp
qed

theorem bit_ops_correct_witness:
  "\<exists>a. set_bit_nr 70 [0, 0 :: u64] = Inr a \<and> bm a 70 \<and> \<not> bm a 69"
proof -
  have "\<not> bm [0, 0 :: u64] 69" by (simp add: bm_def)
  with bit_ops_correct [of 70 "[0, 0 :: u64]"] show ?thesis by auto
qed

text \<open>C31: The loop over all set bits takes the size of the array in bytes for a number of bits: it
  visits, in order, exactly the set bits below that number and misses every set bit above, seven
  eighths of the bitmap.\<close>

theorem for_each_bit_visits:
  fixes addr :: "'a::len word list"
  shows "for_each_bit addr = Inr (filter (bm addr) [0..<length addr * (LENGTH('a) div 8)])"
  using bit_walk_filter [of "length addr * (LENGTH('a) div 8)" addr 0 "Suc (length addr * (LENGTH('a) div 8))"]
  by (simp add: for_each_bit_def Let_def)

end
