(* ===== verification/RstMalloc.thy ===== *)
theory RstMalloc
  imports Prelude
begin

text \<open>
  rst-malloc.c: the linear allocator of the restore. Objects are carved from a buffer one
  behind the other and only the last one can be given back. A remappable buffer is grown with
  \<^verbatim>\<open>mremap\<close>, which may move it, so that an object is referred to by its position in the
  buffer; in the end the buffers are moved into the restorer's address space.

  Memory is a function from addresses to bytes. The answers of \<^verbatim>\<open>mmap\<close> and \<^verbatim>\<open>mremap\<close> are
  functions of the number of calls made so far (\<open>None\<close> is \<^verbatim>\<open>MAP_FAILED\<close>); what \<^verbatim>\<open>mremap\<close>
  does to the memory is its documented effect, to move the contents. Sizes stay far below the
  wrap of an \<^verbatim>\<open>unsigned long\<close> and are \<open>nat\<close>, NULL is 0.
\<close>

section \<open>State\<close>

type_synonym memory = "nat \<Rightarrow> byte"

definition mem_read :: "memory \<Rightarrow> nat \<Rightarrow> nat \<Rightarrow> byte list" where
  "mem_read m a n = map (\<lambda>i. m (a + i)) [0..<n]"

definition mem_write :: "memory \<Rightarrow> nat \<Rightarrow> byte list \<Rightarrow> memory" where
  "mem_write m a bs = (\<lambda>x. if a \<le> x \<and> x < a + length bs then bs ! (x - a) else m x)"

definition mem_move :: "memory \<Rightarrow> nat \<Rightarrow> nat \<Rightarrow> nat \<Rightarrow> nat \<Rightarrow> memory" where
  "mem_move m from old_size to new_size =
     (\<lambda>x. if to \<le> x \<and> x < to + new_size then if x - to < old_size then m (from + (x - to)) else 0 else m x)"

record mm_env =
  mm_mmap :: "nat \<Rightarrow> nat option"
  mm_mremap :: "nat \<Rightarrow> nat option"
  mm_fixed :: "nat \<Rightarrow> bool"

datatype rst_mem_id = RM_SHARED | RM_SHREMAP | RM_PRIVATE

datatype grow_fn = GrowShared | GrowShremap | GrowPrivate

record rst_mem_type =
  remapable :: bool
  enabled :: bool
  free_bytes :: nat
  free_mem :: nat
  grow :: grow_fn
  last_size :: nat
  buf :: nat
  buf_size :: nat

record rst_state =
  rst_mems :: "rst_mem_id \<Rightarrow> rst_mem_type"
  rst_memory :: memory
  rst_tick :: nat

section \<open>Operations\<close>

definition RST_MEM_BATCH :: nat where
  "RST_MEM_BATCH = 2 * PAGE_SIZE"

definition page_round_up :: "nat \<Rightarrow> nat" where
  "page_round_up n = (n + PAGE_SIZE - 1) div PAGE_SIZE * PAGE_SIZE"

definition rst_mem_grow :: "nat \<Rightarrow> nat" where
  "rst_mem_grow need_size =
     (let need_size = page_round_up need_size in if need_size < RST_MEM_BATCH then RST_MEM_BATCH else need_size)"

text \<open>The growing functions work on one type, the memory and the count of calls.\<close>

type_synonym grow_state = "rst_mem_type \<times> memory \<times> nat"

definition grow_shared :: "mm_env \<Rightarrow> nat \<Rightarrow> grow_state \<Rightarrow> int \<times> grow_state" where
  "grow_shared E sz = (\<lambda>(t, m, k).
     let sz = rst_mem_grow sz in
     case mm_mmap E k of
       None \<Rightarrow> (-1, t, m, Suc k)
     | Some aux \<Rightarrow> (0, t\<lparr>free_mem := aux, free_bytes := sz, last_size := 0\<rparr>, mem_write m aux (replicate sz 0), Suc k))"

definition grow_remap :: "mm_env \<Rightarrow> nat \<Rightarrow> grow_state \<Rightarrow> int \<times> grow_state" where
  "grow_remap E sz = (\<lambda>(t, m, k).
     let sz = rst_mem_grow sz;
         aux = (if buf t = 0 then mm_mmap E k else mm_mremap E k);
         moved = (\<lambda>a. if buf t = 0 then mem_write m a (replicate sz 0) else mem_move m (buf t) (buf_size t) a (buf_size t + sz))
     in case aux of
          None \<Rightarrow> (-1, t, m, Suc k)
        | Some a \<Rightarrow> (0, t\<lparr>free_mem := free_mem t + a - buf t, free_bytes := free_bytes t + sz, buf_size := buf_size t + sz, buf := a\<rparr>,
                        moved a, Suc k))"

definition grow_shremap :: "mm_env \<Rightarrow> nat \<Rightarrow> grow_state \<Rightarrow> int \<times> grow_state" where
  "grow_shremap E sz = grow_remap E sz"

definition grow_private :: "mm_env \<Rightarrow> nat \<Rightarrow> grow_state \<Rightarrow> int \<times> grow_state" where
  "grow_private E sz = grow_remap E sz"

definition call_grow :: "mm_env \<Rightarrow> nat \<Rightarrow> grow_state \<Rightarrow> int \<times> grow_state" where
  "call_grow E sz s = (case grow (fst s) of GrowShared \<Rightarrow> grow_shared E sz s | GrowShremap \<Rightarrow> grow_shremap E sz s | GrowPrivate \<Rightarrow> grow_private E sz s)"

definition rst_mems_init :: "rst_mem_id \<Rightarrow> rst_mem_type" where
  "rst_mems_init i = \<lparr>remapable = (i \<noteq> RM_SHARED), enabled = (i \<noteq> RM_PRIVATE), free_bytes = 0, free_mem = 0,
     grow = (case i of RM_SHARED \<Rightarrow> GrowShared | RM_SHREMAP \<Rightarrow> GrowShremap | RM_PRIVATE \<Rightarrow> GrowPrivate),
     last_size = 0, buf = 0, buf_size = 0\<rparr>"

definition set_mem :: "rst_mem_id \<Rightarrow> rst_mem_type \<Rightarrow> rst_state \<Rightarrow> rst_state" where
  "set_mem i t s = s\<lparr>rst_mems := (rst_mems s)(i := t)\<rparr>"

definition rst_mem_switch_to_private :: "rst_state \<Rightarrow> rst_state" where
  "rst_mem_switch_to_private s =
     (let s = set_mem RM_SHARED ((rst_mems s RM_SHARED)\<lparr>enabled := False\<rparr>) s;
          s = set_mem RM_SHREMAP ((rst_mems s RM_SHREMAP)\<lparr>enabled := False\<rparr>) s
      in set_mem RM_PRIVATE ((rst_mems s RM_PRIVATE)\<lparr>enabled := True\<rparr>) s)"

definition rst_mem_cpos :: "rst_mem_id \<Rightarrow> rst_state \<Rightarrow> nat outcome" where
  "rst_mem_cpos i s = (let t = rst_mems s i in if \<not> remapable t \<or> \<not> enabled t then Inl BUG else Inr (free_mem t - buf t))"

definition rst_mem_remap_ptr :: "nat \<Rightarrow> rst_mem_id \<Rightarrow> rst_state \<Rightarrow> nat outcome" where
  "rst_mem_remap_ptr pos i s = (let t = rst_mems s i in if \<not> remapable t then Inl BUG else Inr (buf t + pos))"

definition rst_mem_alloc :: "mm_env \<Rightarrow> nat \<Rightarrow> rst_mem_id \<Rightarrow> rst_state \<Rightarrow> (nat \<times> rst_state) outcome" where
  "rst_mem_alloc E sz i s =
     (let t = rst_mems s i in
      if \<not> enabled t then Inl BUG
      else case (if free_bytes t < sz then call_grow E sz (t, rst_memory s, rst_tick s) else (0, t, rst_memory s, rst_tick s)) of
        (ret, t1, m1, k1) \<Rightarrow>
          if ret \<noteq> 0 then Inr (0, (set_mem i t1 s)\<lparr>rst_memory := m1, rst_tick := k1\<rparr>)
          else Inr (free_mem t1,
            (set_mem i (t1\<lparr>free_mem := free_mem t1 + sz, free_bytes := free_bytes t1 - sz, last_size := sz\<rparr>) s)
              \<lparr>rst_memory := m1, rst_tick := k1\<rparr>))"

definition rst_mem_free_last :: "rst_mem_id \<Rightarrow> rst_state \<Rightarrow> rst_state outcome" where
  "rst_mem_free_last i s =
     (let t = rst_mems s i in
      if \<not> enabled t then Inl BUG
      else Inr (set_mem i (t\<lparr>free_mem := free_mem t - last_size t, free_bytes := free_bytes t + last_size t, last_size := 0\<rparr>) s))"

definition rst_mem_remap_size :: "rst_state \<Rightarrow> nat" where
  "rst_mem_remap_size s = buf_size (rst_mems s RM_PRIVATE) + buf_size (rst_mems s RM_SHREMAP)"

definition rst_mem_remap_one :: "mm_env \<Rightarrow> rst_mem_id \<Rightarrow> nat \<Rightarrow> rst_state \<Rightarrow> (int \<times> rst_state) outcome" where
  "rst_mem_remap_one E i to s =
     (let t = rst_mems s i in
      if \<not> remapable t then Inl BUG
      else if buf t = 0 then Inr (0, s)
      else if \<not> mm_fixed E (rst_tick s) then Inr (-1, s\<lparr>rst_tick := Suc (rst_tick s)\<rparr>)
      else Inr (0, (set_mem i (t\<lparr>buf := to, enabled := False\<rparr>) s)
             \<lparr>rst_memory := mem_move (rst_memory s) (buf t) (buf_size t) to (buf_size t), rst_tick := Suc (rst_tick s)\<rparr>))"

definition rst_mem_remap :: "mm_env \<Rightarrow> nat \<Rightarrow> rst_state \<Rightarrow> (int \<times> rst_state) outcome" where
  "rst_mem_remap E to s =
     bindF (rst_mem_remap_one E RM_PRIVATE to s) (\<lambda>(ret, s).
       if ret = 0 then rst_mem_remap_one E RM_SHREMAP (to + buf_size (rst_mems s RM_PRIVATE)) s else Inr (ret, s))"

text \<open>util.c: the allocator of objects that all restored processes share.\<close>

definition shmalloc :: "mm_env \<Rightarrow> nat \<Rightarrow> rst_state \<Rightarrow> (nat \<times> rst_state) outcome" where
  "shmalloc E bytes s = rst_mem_alloc E bytes RM_SHARED s"

definition shfree_last :: "rst_state \<Rightarrow> rst_state outcome" where
  "shfree_last s = rst_mem_free_last RM_SHARED s"

section \<open>Memory\<close>

lemma length_mem_read [simp]: "length (mem_read m a n) = n"
  by (simp add: mem_read_def)

lemma mem_read_0 [simp]: "mem_read m a 0 = []"
  by (simp add: mem_read_def)

lemma mem_read_cong: "(\<And>i. i < n \<Longrightarrow> m (a + i) = m' (b + i)) \<Longrightarrow> mem_read m a n = mem_read m' b n"
  by (simp add: mem_read_def)

lemma mem_read_write_same: "mem_read (mem_write m a bs) a (length bs) = bs"
  by (rule nth_equalityI) (simp_all add: mem_read_def mem_write_def)

lemma mem_read_write_other: "b + n \<le> a \<or> a + length bs \<le> b \<Longrightarrow> mem_read (mem_write m a bs) b n = mem_read m b n"
  by (rule mem_read_cong) (auto simp: mem_write_def)

lemma mem_read_move:
  "pos + n \<le> old \<Longrightarrow> old \<le> new \<Longrightarrow> mem_read (mem_move m from old to new) (to + pos) n = mem_read m (from + pos) n"
  by (rule mem_read_cong) (auto simp: mem_move_def add.assoc)

lemma mem_read_move_other:
  "b + n \<le> to \<or> to + new \<le> b \<Longrightarrow> mem_read (mem_move m from old to new) b n = mem_read m b n"
  by (rule mem_read_cong) (auto simp: mem_move_def)

section \<open>One remappable buffer\<close>

definition mm_env_ok :: "mm_env \<Rightarrow> bool" where
  "mm_env_ok E \<longleftrightarrow> (\<forall>k. mm_mmap E k \<noteq> Some 0 \<and> mm_mremap E k \<noteq> Some 0)"

definition rm_at :: "rst_mem_type \<Rightarrow> nat \<Rightarrow> bool" where
  "rm_at t used \<longleftrightarrow> remapable t \<and> grow t \<noteq> GrowShared \<and> free_mem t = buf t + used \<and> used + free_bytes t = buf_size t
     \<and> (buf t = 0 \<longrightarrow> buf_size t = 0)"

lemma rst_mem_grow_enough: "sz \<le> rst_mem_grow sz"
proof -
  have "sz + PAGE_SIZE - 1 = (sz + PAGE_SIZE - 1) div PAGE_SIZE * PAGE_SIZE + (sz + PAGE_SIZE - 1) mod PAGE_SIZE"
    by (simp only: div_mult_mod_eq)
  moreover have "(sz + PAGE_SIZE - 1) mod PAGE_SIZE < PAGE_SIZE" by simp
  ultimately have "sz \<le> page_round_up sz" unfolding page_round_up_def by linarith
  then show ?thesis by (simp add: rst_mem_grow_def Let_def)
qed

lemma call_grow_remap:
  "rm_at t used \<Longrightarrow> call_grow E sz (t, m, k) = grow_remap E sz (t, m, k)"
  by (cases "grow t") (simp_all add: call_grow_def rm_at_def grow_shremap_def grow_private_def)

lemma grow_remap_ok:
  assumes "mm_env_ok E" "rm_at t used" "grow_remap E sz (t, m, k) = (ret, t1, m1, k1)"
  shows "ret \<noteq> 0 \<and> t1 = t \<and> m1 = m \<or>
     ret = 0 \<and> rm_at t1 used \<and> sz \<le> free_bytes t1 \<and> buf t1 \<noteq> 0 \<and> enabled t1 = enabled t \<and> last_size t1 = last_size t
     \<and> (\<forall>pos n. pos + n \<le> used \<longrightarrow> mem_read m1 (buf t1 + pos) n = mem_read m (buf t + pos) n)"
proof (cases "if buf t = 0 then mm_mmap E k else mm_mremap E k")
  case None
  with assms(3) show ?thesis by (simp add: grow_remap_def Let_def)
next
  case (Some a)
  then have a: "a \<noteq> 0" using assms(1) by (cases a) (auto simp: mm_env_ok_def split: if_splits)
  have g: "sz \<le> rst_mem_grow sz" by (rule rst_mem_grow_enough)
  show ?thesis
  proof (cases "buf t = 0")
    case True
    with assms(2) have "used = 0" "free_mem t = 0" by (simp_all add: rm_at_def)
    with assms(2,3) Some a g True show ?thesis by (auto simp: grow_remap_def Let_def rm_at_def)
  next
    case False
    have "mem_read (mem_move m (buf t) (buf_size t) a (buf_size t + rst_mem_grow sz)) (a + pos) n = mem_read m (buf t + pos) n"
      if "pos + n \<le> used" for pos n
      by (rule mem_read_move) (use that assms(2) in \<open>auto simp: rm_at_def\<close>)
    with assms(2,3) Some a g False show ?thesis by (auto simp: grow_remap_def Let_def rm_at_def)
  qed
qed

text \<open>
  Objects are kept by position, the last one first. \<open>rm_inv\<close> says that the buffer holds them, one
  behind the other, and that the size remembered for the last allocation, if any, is that of
  the first of them.
\<close>

type_synonym rm_objs = "(nat \<times> byte list) list"

definition objs_held :: "memory \<Rightarrow> nat \<Rightarrow> nat \<Rightarrow> rm_objs \<Rightarrow> bool" where
  "objs_held m b used objs \<longleftrightarrow> (\<forall>(pos, d) \<in> set objs. pos + length d \<le> used \<and> mem_read m (b + pos) (length d) = d)"

definition objs_stacked :: "rm_objs \<Rightarrow> bool" where
  "objs_stacked objs \<longleftrightarrow> sorted_wrt (\<lambda>(p, d) (q, e). q + length e \<le> p) objs"

definition rm_inv :: "rst_mem_id \<Rightarrow> rst_state \<Rightarrow> rm_objs \<Rightarrow> bool" where
  "rm_inv i s objs \<longleftrightarrow> (\<exists>used. rm_at (rst_mems s i) used \<and> enabled (rst_mems s i)
     \<and> objs_held (rst_memory s) (buf (rst_mems s i)) used objs \<and> objs_stacked objs
     \<and> (last_size (rst_mems s i) \<noteq> 0 \<longrightarrow>
          (\<exists>d rest. objs = (used - last_size (rst_mems s i), d) # rest \<and> length d = last_size (rst_mems s i))
          \<and> last_size (rst_mems s i) \<le> used))"

datatype rm_op = RStore "byte list" | RFreeLast

text \<open>A client: an object is stored behind its position, or the last one is given back.\<close>

primrec rm_step :: "mm_env \<Rightarrow> rst_mem_id \<Rightarrow> rm_op \<Rightarrow> rst_state \<times> rm_objs \<Rightarrow> (rst_state \<times> rm_objs) outcome" where
  "rm_step E i (RStore d) st = (case st of (s, objs) \<Rightarrow>
     bindF (rst_mem_cpos i s) (\<lambda>pos.
       bindF (rst_mem_alloc E (length d) i s) (\<lambda>(p, s).
         Inr (if p = 0 then (s, objs) else (s\<lparr>rst_memory := mem_write (rst_memory s) p d\<rparr>, (pos, d) # objs)))))"
| "rm_step E i RFreeLast st = (case st of (s, objs) \<Rightarrow>
     bindF (rst_mem_free_last i s) (\<lambda>s1. Inr (s1, if last_size (rst_mems s i) = 0 then objs else tl objs)))"

primrec rm_run :: "mm_env \<Rightarrow> rst_mem_id \<Rightarrow> rm_op list \<Rightarrow> rst_state \<times> rm_objs \<Rightarrow> (rst_state \<times> rm_objs) outcome" where
  "rm_run E i [] st = Inr st"
| "rm_run E i (op # ops) st = bindF (rm_step E i op st) (rm_run E i ops)"

lemma set_mem_simps [simp]:
  "rst_mems (set_mem i t s) = (rst_mems s)(i := t)" "rst_memory (set_mem i t s) = rst_memory s" "rst_tick (set_mem i t s) = rst_tick s"
  by (simp_all add: set_mem_def)

lemma alloc_ok:
  assumes "mm_env_ok E" "rm_at (rst_mems s i) used" "enabled (rst_mems s i)"
  obtains (nomem) s' where "rst_mem_alloc E sz i s = Inr (0, s')" "rst_mems s' i = rst_mems s i" "rst_memory s' = rst_memory s"
  | (got) s' where "rst_mem_alloc E sz i s = Inr (buf (rst_mems s' i) + used, s')" "rm_at (rst_mems s' i) (used + sz)"
      "enabled (rst_mems s' i)" "last_size (rst_mems s' i) = sz" "buf (rst_mems s' i) + used \<noteq> 0 \<or> sz = 0"
      "\<forall>pos n. pos + n \<le> used \<longrightarrow> mem_read (rst_memory s') (buf (rst_mems s' i) + pos) n = mem_read (rst_memory s) (buf (rst_mems s i) + pos) n"
proof -
  let ?t = "rst_mems s i"
  obtain ret t1 m1 k1 where c: "(if free_bytes ?t < sz then call_grow E sz (?t, rst_memory s, rst_tick s) else (0, ?t, rst_memory s, rst_tick s)) = (ret, t1, m1, k1)"
    by (cases "if free_bytes ?t < sz then call_grow E sz (?t, rst_memory s, rst_tick s) else (0, ?t, rst_memory s, rst_tick s)") auto
  have "ret \<noteq> 0 \<and> t1 = ?t \<and> m1 = rst_memory s \<or>
     ret = 0 \<and> rm_at t1 used \<and> sz \<le> free_bytes t1 \<and> (buf t1 \<noteq> 0 \<or> sz = 0) \<and> enabled t1
     \<and> (\<forall>pos n. pos + n \<le> used \<longrightarrow> mem_read m1 (buf t1 + pos) n = mem_read (rst_memory s) (buf ?t + pos) n)"
  proof (cases "free_bytes ?t < sz")
    case True
    with c have "grow_remap E sz (?t, rst_memory s, rst_tick s) = (ret, t1, m1, k1)" by (simp add: call_grow_remap [OF assms(2)])
    from grow_remap_ok [OF assms(1,2) this] assms(3) show ?thesis by auto
  next
    case False
    moreover from this assms(2) have "buf ?t \<noteq> 0 \<or> sz = 0" by (auto simp: rm_at_def)
    ultimately show ?thesis using c assms(2,3) by auto
  qed
  then consider "ret \<noteq> 0" "t1 = ?t" "m1 = rst_memory s" | "ret = 0" "rm_at t1 used" "sz \<le> free_bytes t1" "buf t1 \<noteq> 0 \<or> sz = 0" "enabled t1"
      "\<forall>pos n. pos + n \<le> used \<longrightarrow> mem_read m1 (buf t1 + pos) n = mem_read (rst_memory s) (buf ?t + pos) n"
    by blast
  then show ?thesis
  proof cases
    case 1
    have "rst_mem_alloc E sz i s = Inr (0, (set_mem i t1 s)\<lparr>rst_memory := m1, rst_tick := k1\<rparr>)"
      unfolding rst_mem_alloc_def Let_def c using assms(3) 1(1) by simp
    with 1 show ?thesis by (intro nomem [of "(set_mem i t1 s)\<lparr>rst_memory := m1, rst_tick := k1\<rparr>"]) auto
  next
    case 2
    let ?s = "(set_mem i (t1\<lparr>free_mem := free_mem t1 + sz, free_bytes := free_bytes t1 - sz, last_size := sz\<rparr>) s)\<lparr>rst_memory := m1, rst_tick := k1\<rparr>"
    have r: "rst_mem_alloc E sz i s = Inr (free_mem t1, ?s)"
      unfolding rst_mem_alloc_def Let_def c using assms(3) 2(1) by simp
    have f: "free_mem t1 = buf t1 + used" using 2(2) by (simp add: rm_at_def)
    show ?thesis
    proof (rule got [of ?s])
      show "rst_mem_alloc E sz i s = Inr (buf (rst_mems ?s i) + used, ?s)" using r f by simp
      show "rm_at (rst_mems ?s i) (used + sz)" using 2(2,3) by (auto simp: rm_at_def)
    qed (use 2 in auto)
  qed
qed
lemma objs_held_cong:
  assumes "objs_held m b used objs" "\<forall>pos n. pos + n \<le> used \<longrightarrow> mem_read m' (b' + pos) n = mem_read m (b + pos) n"
  shows "objs_held m' b' used objs"
  using assms by (fastforce simp: objs_held_def)

lemma objs_held_mono: "objs_held m b used objs \<Longrightarrow> used \<le> used' \<Longrightarrow> objs_held m b used' objs"
  by (fastforce simp: objs_held_def)

lemma rm_store_inv:
  assumes "mm_env_ok E" "rm_inv i s objs"
  shows "\<exists>s' objs'. rm_step E i (RStore d) (s, objs) = Inr (s', objs') \<and> rm_inv i s' objs'"
proof -
  from assms(2) obtain used where at: "rm_at (rst_mems s i) used" "enabled (rst_mems s i)"
    and h: "objs_held (rst_memory s) (buf (rst_mems s i)) used objs" "objs_stacked objs"
    and l: "last_size (rst_mems s i) \<noteq> 0 \<longrightarrow>
          (\<exists>d rest. objs = (used - last_size (rst_mems s i), d) # rest \<and> length d = last_size (rst_mems s i)) \<and> last_size (rst_mems s i) \<le> used"
    by (auto simp: rm_inv_def)
  have c: "rst_mem_cpos i s = Inr used" using at by (simp add: rst_mem_cpos_def rm_at_def Let_def)
  from assms(1) at show ?thesis
  proof (cases rule: alloc_ok [of E s i used "length d"])
    case (nomem s')
    then have "rm_inv i s' objs" using assms(2) by (simp add: rm_inv_def)
    with c nomem(1) show ?thesis by simp
  next
    case (got s')
    let ?p = "buf (rst_mems s' i) + used"
    have h': "objs_held (rst_memory s') (buf (rst_mems s' i)) used objs" by (rule objs_held_cong [OF h(1) got(6)])
    show ?thesis
    proof (cases "?p = 0")
      case True
      then have "length d = 0" using got(5) by simp
      with got(2-4) h' h(2) have "rm_inv i s' objs" by (auto simp: rm_inv_def)
      with c got(1) True show ?thesis by simp
    next
      case False
      let ?s = "s'\<lparr>rst_memory := mem_write (rst_memory s') ?p d\<rparr>"
      have "objs_held (rst_memory ?s) (buf (rst_mems ?s i)) used objs"
        by (rule objs_held_cong [OF h']) (simp add: mem_read_write_other)
      then have "objs_held (rst_memory ?s) (buf (rst_mems ?s i)) (used + length d) ((used, d) # objs)"
        using objs_held_mono [of _ _ used objs "used + length d"] by (auto simp: objs_held_def mem_read_write_same)
      moreover have "objs_stacked ((used, d) # objs)" using h by (auto simp: objs_stacked_def objs_held_def)
      ultimately have "rm_inv i ?s ((used, d) # objs)" using got(2-4) unfolding rm_inv_def by (intro exI [of _ "used + length d"]) auto
      with c got(1) False show ?thesis by auto
    qed
  qed
qed

lemma rm_free_inv:
  assumes "rm_inv i s objs"
  shows "\<exists>s' objs'. rm_step E i RFreeLast (s, objs) = Inr (s', objs') \<and> rm_inv i s' objs'"
proof -
  let ?t = "rst_mems s i"
  from assms obtain used where at: "rm_at ?t used" "enabled ?t"
    and h: "objs_held (rst_memory s) (buf ?t) used objs" "objs_stacked objs"
    and l: "last_size ?t \<noteq> 0 \<longrightarrow> (\<exists>d rest. objs = (used - last_size ?t, d) # rest \<and> length d = last_size ?t) \<and> last_size ?t \<le> used"
    by (auto simp: rm_inv_def)
  let ?s = "set_mem i (?t\<lparr>free_mem := free_mem ?t - last_size ?t, free_bytes := free_bytes ?t + last_size ?t, last_size := 0\<rparr>) s"
  have r: "rm_step E i RFreeLast (s, objs) = Inr (?s, if last_size ?t = 0 then objs else tl objs)"
    using at(2) by (simp add: rst_mem_free_last_def Let_def)
  show ?thesis
  proof (cases "last_size ?t = 0")
    case True
    with at h have "rm_inv i ?s objs" by (auto simp: rm_inv_def rm_at_def)
    with r True show ?thesis by simp
  next
    case False
    with l obtain d rest where o: "objs = (used - last_size ?t, d) # rest" "last_size ?t \<le> used" by blast
    then have "objs_held (rst_memory s) (buf ?t) (used - last_size ?t) rest" "objs_stacked rest"
      using h by (auto simp: objs_held_def objs_stacked_def)
    then have "rm_inv i ?s rest" unfolding rm_inv_def using at o(2) by (intro exI [of _ "used - last_size ?t"]) (auto simp: rm_at_def)
    with r o(1) False show ?thesis by simp
  qed
qed

lemma rm_run_inv:
  assumes "mm_env_ok E" "rm_inv i s objs"
  shows "\<exists>s' objs'. rm_run E i ops (s, objs) = Inr (s', objs') \<and> rm_inv i s' objs'"
  using assms(2)
proof (induction ops arbitrary: s objs)
  case (Cons op ops)
  obtain s1 o1 where "rm_step E i op (s, objs) = Inr (s1, o1)" "rm_inv i s1 o1"
    using rm_store_inv [OF assms(1) Cons.prems] rm_free_inv [OF Cons.prems] by (cases op) blast+
  with Cons.IH show ?case by fastforce
qed auto

lemma rm_inv_init: "rst_mems s i = (rst_mems_init i)\<lparr>enabled := True\<rparr> \<Longrightarrow> i \<noteq> RM_SHARED \<Longrightarrow> rm_inv i s []"
  by (cases i) (auto simp: rm_inv_def rm_at_def rst_mems_init_def objs_held_def objs_stacked_def)

text \<open>Moving a buffer to a fixed address.\<close>

definition rm_found :: "rst_mem_id \<Rightarrow> rst_state \<Rightarrow> rm_objs \<Rightarrow> bool" where
  "rm_found i s objs \<longleftrightarrow> (\<forall>(pos, d) \<in> set objs. \<exists>p. rst_mem_remap_ptr pos i s = Inr p \<and> mem_read (rst_memory s) p (length d) = d)"

definition rm_held :: "rst_mem_id \<Rightarrow> rst_state \<Rightarrow> rm_objs \<Rightarrow> bool" where
  "rm_held i s objs \<longleftrightarrow> (\<exists>used. rm_at (rst_mems s i) used \<and> objs_held (rst_memory s) (buf (rst_mems s i)) used objs)"

lemma rm_inv_held: "rm_inv i s objs \<Longrightarrow> rm_held i s objs"
  by (auto simp: rm_inv_def rm_held_def)

lemma rm_held_found: "rm_held i s objs \<Longrightarrow> rm_found i s objs"
  by (fastforce simp: rm_held_def rm_found_def rm_at_def objs_held_def rst_mem_remap_ptr_def Let_def)

lemma remap_one_ok:
  assumes "rm_held i s objs" "\<forall>k. mm_fixed E k"
  shows "\<exists>s'. rst_mem_remap_one E i to s = Inr (0, s') \<and> rm_found i s' objs \<and> rst_mems s' = (rst_mems s)(i := rst_mems s' i)
     \<and> buf_size (rst_mems s' i) = buf_size (rst_mems s i) \<and> (buf (rst_mems s i) = 0 \<and> s' = s \<or> buf (rst_mems s' i) = to)
     \<and> (\<forall>b n. b + n \<le> to \<or> to + buf_size (rst_mems s i) \<le> b \<longrightarrow> mem_read (rst_memory s') b n = mem_read (rst_memory s) b n)"
proof -
  let ?t = "rst_mems s i"
  from assms(1) obtain used where at: "rm_at ?t used" and h: "objs_held (rst_memory s) (buf ?t) used objs" by (auto simp: rm_held_def)
  show ?thesis
  proof (cases "buf ?t = 0")
    case True
    with at rm_held_found [OF assms(1)] show ?thesis by (auto simp: rst_mem_remap_one_def rm_at_def Let_def)
  next
    case False
    let ?s = "(set_mem i (?t\<lparr>buf := to, enabled := False\<rparr>) s)
       \<lparr>rst_memory := mem_move (rst_memory s) (buf ?t) (buf_size ?t) to (buf_size ?t), rst_tick := Suc (rst_tick s)\<rparr>"
    have r: "rst_mem_remap_one E i to s = Inr (0, ?s)" using at False assms(2) by (simp add: rst_mem_remap_one_def rm_at_def Let_def)
    have le: "used \<le> buf_size ?t" "remapable ?t" using at by (simp_all add: rm_at_def)
    have "mem_read (rst_memory ?s) (to + pos) n = mem_read (rst_memory s) (buf ?t + pos) n" if "pos + n \<le> used" for pos n
      using mem_read_move [of pos n "buf_size ?t" "buf_size ?t"] that le by simp
    then have "objs_held (rst_memory ?s) to used objs" by (intro objs_held_cong [OF h]) blast
    then have "rm_found i ?s objs" using le(2) by (auto simp: rm_found_def objs_held_def rst_mem_remap_ptr_def Let_def)
    with r mem_read_move_other show ?thesis by (intro exI [of _ ?s]) auto
  qed
qed

section \<open>Properties\<close>

text \<open>C32: Objects of a remappable buffer survive its growth and its move. Starting from the empty
  buffer, any sequence of storing objects (the allocator growing the buffer, to another address,
  whenever the kernel says so, or failing) and giving back the last one runs without an abort;
  the objects left lie one behind the other without overlap; and once the buffer is moved to the
  restorer's address, the pointer made from each object's position leads to its bytes.\<close>

theorem rst_mem_objects_survive:
  assumes "mm_env_ok E" "\<forall>k. mm_fixed E k" "rst_mems s i = (rst_mems_init i)\<lparr>enabled := True\<rparr>" "i \<noteq> RM_SHARED"
  shows "\<exists>s1 objs s2. rm_run E i ops (s, []) = Inr (s1, objs) \<and> sorted_wrt (\<lambda>(p, d) (q, e). q + length e \<le> p) objs
     \<and> rst_mem_remap_one E i to s1 = Inr (0, s2)
     \<and> (\<forall>(pos, d) \<in> set objs. \<exists>p. rst_mem_remap_ptr pos i s2 = Inr p \<and> mem_read (rst_memory s2) p (length d) = d)"
proof -
  obtain s1 objs where r: "rm_run E i ops (s, []) = Inr (s1, objs)" "rm_inv i s1 objs"
    using rm_run_inv [OF assms(1) rm_inv_init [OF assms(3,4)]] by blast
  obtain s2 where m: "rst_mem_remap_one E i to s1 = Inr (0, s2)" "rm_found i s2 objs"
    using remap_one_ok [OF rm_inv_held [OF r(2)] assms(2)] by blast
  have "objs_stacked objs" using r(2) by (auto simp: rm_inv_def)
  with r(1) m show ?thesis unfolding objs_stacked_def rm_found_def by blast
qed

definition ex_mm_env :: mm_env where
  "ex_mm_env = \<lparr>mm_mmap = (\<lambda>k. Some (65536 + k)), mm_mremap = (\<lambda>k. if k = 1 then None else Some 131072), mm_fixed = (\<lambda>_. True)\<rparr>"

definition ex_rst_state :: rst_state where
  "ex_rst_state = \<lparr>rst_mems = rst_mems_init, rst_memory = (\<lambda>_. 0), rst_tick = 0\<rparr>"

theorem rst_mem_objects_survive_witness:
  "\<exists>s1 objs s2. rm_run ex_mm_env RM_SHREMAP [RStore [1, 2], RStore [3], RFreeLast, RStore [4, 5]] (ex_rst_state, []) = Inr (s1, objs)
     \<and> rst_mem_remap_one ex_mm_env RM_SHREMAP 1048576 s1 = Inr (0, s2)"
proof -
  have "mm_env_ok ex_mm_env" "\<forall>k. mm_fixed ex_mm_env k" "rst_mems ex_rst_state RM_SHREMAP = (rst_mems_init RM_SHREMAP)\<lparr>enabled := True\<rparr>"
    by (simp_all add: mm_env_ok_def ex_mm_env_def ex_rst_state_def rst_mems_init_def)
  from rst_mem_objects_survive [OF this, of "[RStore [1, 2], RStore [3], RFreeLast, RStore [4, 5]]" 1048576] show ?thesis by blast
qed

text \<open>Both remappable buffers are moved into one range, the private one first and the shared one
  right behind it, together as long as the size that was announced; when the range is free of the
  shared buffer, every object of either is found by its position afterwards.\<close>

theorem rst_mem_remap_both:
  assumes "rm_held RM_PRIVATE s ps" "rm_held RM_SHREMAP s ss" "\<forall>k. mm_fixed E k"
    and "buf (rst_mems s RM_SHREMAP) + buf_size (rst_mems s RM_SHREMAP) \<le> to \<or> to + rst_mem_remap_size s \<le> buf (rst_mems s RM_SHREMAP)"
  shows "\<exists>s'. rst_mem_remap E to s = Inr (0, s')
     \<and> (\<forall>(pos, d) \<in> set ps. \<exists>p. rst_mem_remap_ptr pos RM_PRIVATE s' = Inr p \<and> mem_read (rst_memory s') p (length d) = d)
     \<and> (\<forall>(pos, d) \<in> set ss. \<exists>p. rst_mem_remap_ptr pos RM_SHREMAP s' = Inr p \<and> mem_read (rst_memory s') p (length d) = d)"
proof -
  let ?sz = "buf_size (rst_mems s RM_PRIVATE)"
  obtain s1 where r1: "rst_mem_remap_one E RM_PRIVATE to s = Inr (0, s1)" "rm_found RM_PRIVATE s1 ps"
      "rst_mems s1 = (rst_mems s)(RM_PRIVATE := rst_mems s1 RM_PRIVATE)" "buf_size (rst_mems s1 RM_PRIVATE) = ?sz"
      "buf (rst_mems s RM_PRIVATE) = 0 \<and> s1 = s \<or> buf (rst_mems s1 RM_PRIVATE) = to"
      "\<forall>b n. b + n \<le> to \<or> to + ?sz \<le> b \<longrightarrow> mem_read (rst_memory s1) b n = mem_read (rst_memory s) b n"
    using remap_one_ok [OF assms(1,3), of to] by blast
  have sh: "rst_mems s1 RM_SHREMAP = rst_mems s RM_SHREMAP" by (subst r1(3)) simp
  have "rm_held RM_SHREMAP s1 ss"
  proof -
    obtain used where u: "rm_at (rst_mems s RM_SHREMAP) used" "objs_held (rst_memory s) (buf (rst_mems s RM_SHREMAP)) used ss"
      using assms(2) by (auto simp: rm_held_def)
    then have "used \<le> buf_size (rst_mems s RM_SHREMAP)" by (simp add: rm_at_def)
    then have "objs_held (rst_memory s1) (buf (rst_mems s RM_SHREMAP)) used ss"
      by (intro objs_held_cong [OF u(2)]) (use assms(4) r1(6) in \<open>auto simp: rst_mem_remap_size_def\<close>)
    with u(1) sh show ?thesis by (auto simp: rm_held_def)
  qed
  from remap_one_ok [OF this assms(3), of "to + ?sz"] obtain s2 where r2: "rst_mem_remap_one E RM_SHREMAP (to + ?sz) s1 = Inr (0, s2)"
      "rm_found RM_SHREMAP s2 ss" "rst_mems s2 = (rst_mems s1)(RM_SHREMAP := rst_mems s2 RM_SHREMAP)"
      "\<forall>b n. b + n \<le> to + ?sz \<or> to + ?sz + buf_size (rst_mems s1 RM_SHREMAP) \<le> b \<longrightarrow> mem_read (rst_memory s2) b n = mem_read (rst_memory s1) b n"
    by blast
  have p2: "rst_mems s2 RM_PRIVATE = rst_mems s1 RM_PRIVATE" by (subst r2(3)) simp
  have "rm_found RM_PRIVATE s2 ps"
  proof -
    have "pos + length d \<le> ?sz" if "(pos, d) \<in> set ps" for pos d
      using assms(1) that by (fastforce simp: rm_held_def rm_at_def objs_held_def)
    moreover have "ps = [] \<or> buf (rst_mems s1 RM_PRIVATE) = to \<or> ?sz = 0" using r1(5) assms(1) by (auto simp: rm_held_def rm_at_def)
    ultimately show ?thesis using r1(2) r2(4) p2 unfolding rm_found_def rst_mem_remap_ptr_def Let_def
      by (fastforce split: if_splits)
  qed
  with r1(1,4) r2(1,2) show ?thesis unfolding rm_found_def rst_mem_remap_def by (simp add: bindF_def)
qed

definition ex_rst_full :: rst_state where
  "ex_rst_full = \<lparr>rst_mems = rst_mems_init(RM_SHREMAP := \<lparr>remapable = True, enabled = False, free_bytes = 8190, free_mem = 65538,
       grow = GrowShremap, last_size = 2, buf = 65536, buf_size = 8192\<rparr>),
     rst_memory = mem_write (\<lambda>_. 0) 65536 [1, 2], rst_tick = 3\<rparr>"

theorem rst_mem_remap_both_witness:
  "\<exists>s' p. rst_mem_remap ex_mm_env 1048576 ex_rst_full = Inr (0, s')
     \<and> rst_mem_remap_ptr 0 RM_SHREMAP s' = Inr p \<and> mem_read (rst_memory s') p 2 = [1, 2]"
proof -
  have "rm_held RM_PRIVATE ex_rst_full []" "rm_held RM_SHREMAP ex_rst_full [(0, [1, 2])]"
    using mem_read_write_same [of "\<lambda>_. 0" 65536 "[1, 2]"]
    by (auto simp: rm_held_def rm_at_def objs_held_def ex_rst_full_def rst_mems_init_def)
  from rst_mem_remap_both [OF this, of ex_mm_env 1048576] show ?thesis
    by (auto simp: ex_mm_env_def ex_rst_full_def rst_mem_remap_size_def rst_mems_init_def numeral_2_eq_2)
qed

end
