(* ===== verification/Lock.thy ===== *)
theory Lock
  imports Prelude
begin

text \<open>
  include/lock.h on top of arch/x86/include/asm/atomic.h: the futexes and mutexes that the
  processes of a restore share.

  An atomic counter is a 32-bit word. A thread is a program counter; a step is one atomic
  instruction or one system call of one thread, so that the relations below contain every
  interleaving of any number of threads. FUTEX_WAIT sleeps only when the word still has the
  value it is given and otherwise fails with EWOULDBLOCK; a sleeper may be woken without a
  reason, and a signal makes the call fail with EINTR, on which the code aborts. FUTEX_WAKE
  on a mapped word does not fail.
\<close>

unbundle bit_operations_syntax

section \<open>Atomic counters\<close>

type_synonym atomic_t = u32

definition atomic_read :: "atomic_t \<Rightarrow> u32" where
  "atomic_read v = v"

definition atomic_set :: "atomic_t \<Rightarrow> u32 \<Rightarrow> atomic_t" where
  "atomic_set v i = i"

definition atomic_add :: "u32 \<Rightarrow> atomic_t \<Rightarrow> atomic_t" where
  "atomic_add i v = v + i"

definition atomic_sub :: "u32 \<Rightarrow> atomic_t \<Rightarrow> atomic_t" where
  "atomic_sub i v = v - i"

definition atomic_inc :: "atomic_t \<Rightarrow> atomic_t" where
  "atomic_inc v = v + 1"

definition atomic_dec :: "atomic_t \<Rightarrow> atomic_t" where
  "atomic_dec v = v - 1"

definition atomic_dec_and_test :: "atomic_t \<Rightarrow> bool \<times> atomic_t" where
  "atomic_dec_and_test v = (v - 1 = 0, v - 1)"

text \<open>\<^verbatim>\<open>xadd\<close> leaves the sum in memory and the old value in the register.\<close>

definition atomic_add_return :: "u32 \<Rightarrow> atomic_t \<Rightarrow> u32 \<times> atomic_t" where
  "atomic_add_return i v = (i + v, v + i)"

definition atomic_sub_return :: "u32 \<Rightarrow> atomic_t \<Rightarrow> u32 \<times> atomic_t" where
  "atomic_sub_return i v = atomic_add_return (- i) v"

definition atomic_inc_return :: "atomic_t \<Rightarrow> u32 \<times> atomic_t" where
  "atomic_inc_return v = atomic_add_return 1 v"

definition atomic_dec_return :: "atomic_t \<Rightarrow> u32 \<times> atomic_t" where
  "atomic_dec_return v = atomic_sub_return 1 v"

section \<open>Mutexes\<close>

text \<open>
  Where a thread is in \<^verbatim>\<open>mutex_lock\<close> and \<^verbatim>\<open>mutex_unlock\<close>: before the increment, before the
  FUTEX_WAIT with the value it got, asleep in it, behind \<^verbatim>\<open>mutex_lock\<close>, before the FUTEX_WAKE, or
  aborted.
\<close>

datatype mutex_pc = MIdle | MTry | MWait u32 | MSleep | MCrit | MUnlock | MBug

record mutex_sys =
  m_raw :: atomic_t
  m_pc :: "nat \<Rightarrow> mutex_pc"

definition mutex_init :: "atomic_t \<Rightarrow> atomic_t" where
  "mutex_init m = atomic_set m 0"

definition mutex_lock_inc :: "atomic_t \<Rightarrow> mutex_pc \<times> atomic_t" where
  "mutex_lock_inc m = (case atomic_inc_return m of (c, m) \<Rightarrow> (if c \<noteq> 1 then MWait c else MCrit, m))"

definition mutex_lock_wait :: "u32 \<Rightarrow> atomic_t \<Rightarrow> mutex_pc" where
  "mutex_lock_wait c m = (if atomic_read m = c then MSleep else MTry)"

definition mutex_unlock_set :: "atomic_t \<Rightarrow> atomic_t" where
  "mutex_unlock_set m = atomic_set m 0"

definition m_at :: "nat \<Rightarrow> mutex_pc \<Rightarrow> mutex_sys \<Rightarrow> mutex_sys" where
  "m_at t p s = s\<lparr>m_pc := (m_pc s)(t := p)\<rparr>"

inductive mutex_step :: "mutex_sys \<Rightarrow> mutex_sys \<Rightarrow> bool" where
  call: "m_pc s t = MIdle \<Longrightarrow> mutex_step s (m_at t MTry s)"
| inc: "m_pc s t = MTry \<Longrightarrow> mutex_lock_inc (m_raw s) = (p, r) \<Longrightarrow> mutex_step s ((m_at t p s)\<lparr>m_raw := r\<rparr>)"
| wait: "m_pc s t = MWait c \<Longrightarrow> mutex_step s (m_at t (mutex_lock_wait c (m_raw s)) s)"
| spurious: "m_pc s t = MSleep \<Longrightarrow> mutex_step s (m_at t MTry s)"
| intr: "m_pc s t = MSleep \<Longrightarrow> mutex_step s (m_at t MBug s)"
| unlock: "m_pc s t = MCrit \<Longrightarrow> mutex_step s ((m_at t MUnlock s)\<lparr>m_raw := mutex_unlock_set (m_raw s)\<rparr>)"
| wake: "m_pc s t = MUnlock \<Longrightarrow> m_pc s u = MSleep \<Longrightarrow> mutex_step s (m_at u MTry (m_at t MIdle s))"
| wake_none: "m_pc s t = MUnlock \<Longrightarrow> \<forall>u. m_pc s u \<noteq> MSleep \<Longrightarrow> mutex_step s (m_at t MIdle s)"

definition mutex_start :: mutex_sys where
  "mutex_start = \<lparr>m_raw = mutex_init 0, m_pc = (\<lambda>_. MIdle)\<rparr>"

text \<open>The states after \<open>n\<close> steps.\<close>

inductive mutex_reach :: "nat \<Rightarrow> mutex_sys \<Rightarrow> bool" where
  start: "mutex_reach 0 mutex_start"
| step: "mutex_reach n s \<Longrightarrow> mutex_step s s' \<Longrightarrow> mutex_reach (Suc n) s'"

inductive_cases mutex_stepE: "mutex_step s s'"

section \<open>Futexes\<close>

definition FUTEX_ABORT_FLAG :: u32 where
  "FUTEX_ABORT_FLAG = 0x80000000"

definition FUTEX_ABORT_RAW :: u32 where
  "FUTEX_ABORT_RAW = - 1"

definition futex_get :: "atomic_t \<Rightarrow> u32" where
  "futex_get f = atomic_read f"

definition futex_set :: "u32 \<Rightarrow> atomic_t \<Rightarrow> atomic_t" where
  "futex_set v f = atomic_set f v"

definition futex_init :: "atomic_t \<Rightarrow> atomic_t" where
  "futex_init f = futex_set 0 f"

definition futex_inc :: "atomic_t \<Rightarrow> atomic_t" where
  "futex_inc f = atomic_inc f"

definition futex_dec :: "atomic_t \<Rightarrow> atomic_t" where
  "futex_dec f = atomic_dec f"

text \<open>
  When a wait ends, as a predicate on the value it reads. \<^verbatim>\<open>futex_wait_if_cond\<close> also ends on the
  abort flag; \<^verbatim>\<open>futex_wait_while\<close> does not look at it.
\<close>

definition futex_wait_if_cond :: "(u32 \<Rightarrow> bool) \<Rightarrow> u32 \<Rightarrow> bool" where
  "futex_wait_if_cond cond tmp \<longleftrightarrow> tmp AND FUTEX_ABORT_FLAG \<noteq> 0 \<or> cond tmp"

definition futex_wait_until :: "u32 \<Rightarrow> u32 \<Rightarrow> bool" where
  "futex_wait_until v = futex_wait_if_cond (\<lambda>tmp. tmp = v)"

definition futex_wait_while_gt :: "u32 \<Rightarrow> u32 \<Rightarrow> bool" where
  "futex_wait_while_gt v = futex_wait_if_cond (\<lambda>tmp. tmp \<le> v)"

definition futex_wait_while_lt :: "u32 \<Rightarrow> u32 \<Rightarrow> bool" where
  "futex_wait_while_lt v = futex_wait_if_cond (\<lambda>tmp. v \<le> tmp)"

definition futex_wait_while_eq :: "u32 \<Rightarrow> u32 \<Rightarrow> bool" where
  "futex_wait_while_eq v = futex_wait_if_cond (\<lambda>tmp. tmp \<noteq> v)"

definition futex_wait_while :: "u32 \<Rightarrow> u32 \<Rightarrow> bool" where
  "futex_wait_while v tmp \<longleftrightarrow> tmp \<noteq> v"

text \<open>
  The changes that wake all waiters: the new value is stored first, the FUTEX_WAKE is a step of
  its own.
\<close>

datatype futex_chg = FutexSetAndWake u32 | FutexAbortAndWake | FutexDecAndWake | FutexIncAndWake

primrec futex_change :: "futex_chg \<Rightarrow> atomic_t \<Rightarrow> atomic_t" where
  "futex_change (FutexSetAndWake v) f = atomic_set f v"
| "futex_change FutexAbortAndWake f = atomic_set f FUTEX_ABORT_RAW"
| "futex_change FutexDecAndWake f = atomic_dec f"
| "futex_change FutexIncAndWake f = atomic_inc f"

datatype futex_pc =
    FIdle
  | FRead "u32 \<Rightarrow> bool"
  | FCall "u32 \<Rightarrow> bool" u32
  | FSleep "u32 \<Rightarrow> bool" u32
  | FWake
  | FBug

record futex_sys =
  f_raw :: atomic_t
  f_pc :: "nat \<Rightarrow> futex_pc"

definition f_at :: "nat \<Rightarrow> futex_pc \<Rightarrow> futex_sys \<Rightarrow> futex_sys" where
  "f_at t p s = s\<lparr>f_pc := (f_pc s)(t := p)\<rparr>"

definition wake_all :: "(nat \<Rightarrow> futex_pc) \<Rightarrow> nat \<Rightarrow> futex_pc" where
  "wake_all pc u = (case pc u of FSleep stop tmp \<Rightarrow> FRead stop | p \<Rightarrow> p)"

inductive futex_step :: "futex_sys \<Rightarrow> futex_sys \<Rightarrow> bool" where
  enter: "f_pc s t = FIdle \<Longrightarrow> futex_step s (f_at t (FRead stop) s)"
| leave: "f_pc s t = FRead stop \<Longrightarrow> stop (atomic_read (f_raw s)) \<Longrightarrow> futex_step s (f_at t FIdle s)"
| again: "f_pc s t = FRead stop \<Longrightarrow> \<not> stop (atomic_read (f_raw s)) \<Longrightarrow> futex_step s (f_at t (FCall stop (atomic_read (f_raw s))) s)"
| sleep: "f_pc s t = FCall stop tmp \<Longrightarrow> f_raw s = tmp \<Longrightarrow> futex_step s (f_at t (FSleep stop tmp) s)"
| ewouldblock: "f_pc s t = FCall stop tmp \<Longrightarrow> f_raw s \<noteq> tmp \<Longrightarrow> futex_step s (f_at t (FRead stop) s)"
| fspurious: "f_pc s t = FSleep stop tmp \<Longrightarrow> futex_step s (f_at t (FRead stop) s)"
| fintr: "f_pc s t = FSleep stop tmp \<Longrightarrow> futex_step s (f_at t FBug s)"
| change: "f_pc s t = FIdle \<Longrightarrow> futex_step s ((f_at t FWake s)\<lparr>f_raw := futex_change c (f_raw s)\<rparr>)"
| fwake: "f_pc s t = FWake \<Longrightarrow> futex_step s ((f_at t FIdle s)\<lparr>f_pc := wake_all ((f_pc s)(t := FIdle))\<rparr>)"

inductive futex_reach :: "futex_sys \<Rightarrow> bool" where
  fstart: "futex_reach \<lparr>f_raw = v, f_pc = (\<lambda>_. FIdle)\<rparr>"
| fstep: "futex_reach s \<Longrightarrow> futex_step s s' \<Longrightarrow> futex_reach s'"

section \<open>The mutex invariant\<close>

definition m_active :: "mutex_pc \<Rightarrow> bool" where
  "m_active p \<longleftrightarrow> p \<noteq> MIdle \<and> p \<noteq> MSleep \<and> p \<noteq> MBug"

definition mutex_inv :: "nat \<Rightarrow> mutex_sys \<Rightarrow> bool" where
  "mutex_inv n s \<longleftrightarrow> unat (m_raw s) \<le> n
     \<and> (m_raw s \<noteq> 0 \<longrightarrow> (\<exists>t. m_pc s t = MCrit))
     \<and> (\<forall>t. m_pc s t = MCrit \<longrightarrow> m_raw s \<noteq> 0)
     \<and> (\<forall>t u. m_pc s t = MCrit \<and> m_pc s u = MCrit \<longrightarrow> t = u)
     \<and> (\<forall>t c. m_pc s t = MWait c \<longrightarrow> c \<noteq> 0)
     \<and> (\<forall>t. m_pc s t = MSleep \<longrightarrow> (\<exists>u. m_active (m_pc s u)))"

lemma m_at_simps [simp]: "m_pc (m_at t p s) = (m_pc s)(t := p)" "m_raw (m_at t p s) = m_raw s"
  by (simp_all add: m_at_def)

lemma m_active_simps [simp]:
  "m_active MTry" "m_active (MWait c)" "m_active MCrit" "m_active MUnlock" "\<not> m_active MIdle" "\<not> m_active MSleep" "\<not> m_active MBug"
  by (simp_all add: m_active_def)

lemma mutex_invD:
  assumes "mutex_inv n s"
  shows "unat (m_raw s) \<le> n" "m_raw s \<noteq> 0 \<Longrightarrow> \<exists>t. m_pc s t = MCrit" "m_pc s t = MCrit \<Longrightarrow> m_raw s \<noteq> 0"
    "m_pc s t = MCrit \<Longrightarrow> m_pc s u = MCrit \<Longrightarrow> t = u" "m_pc s t = MWait c \<Longrightarrow> c \<noteq> 0"
    "m_pc s t = MSleep \<Longrightarrow> \<exists>u. m_active (m_pc s u)"
  using assms unfolding mutex_inv_def by blast+

text \<open>A thread that moves between two places outside of the critical section, staying active.\<close>

lemma mutex_inv_move:
  assumes "mutex_inv n s" "m_pc s t \<noteq> MCrit" "p \<noteq> MCrit" "\<And>c. p = MWait c \<Longrightarrow> c \<noteq> 0"
    and "m_active p \<or> p = MBug \<and> m_pc s t = MSleep \<or> p = MSleep \<and> m_raw s \<noteq> 0"
  shows "mutex_inv (Suc n) (m_at t p s)"
proof -
  note I = mutex_invD [OF assms(1)]
  have crit: "(m_pc (m_at t p s) u = MCrit) = (m_pc s u = MCrit)" for u using assms(2,3) by simp
  have act: "\<exists>u. m_active (m_pc (m_at t p s) u)" if "m_pc (m_at t p s) v = MSleep" for v
  proof -
    consider "m_active p" | "p = MBug" "m_pc s t = MSleep" | "p = MSleep" "m_raw s \<noteq> 0" using assms(5) by blast
    then show ?thesis
    proof cases
      case 1
      then show ?thesis by (intro exI [of _ t]) simp
    next
      case 2
      with that I(6) [of v] obtain u where "m_active (m_pc s u)" by (auto split: if_splits)
      with 2 show ?thesis by (intro exI [of _ u]) auto
    next
      case 3
      with I(2) obtain u where "m_pc s u = MCrit" by blast
      with assms(2) show ?thesis by (intro exI [of _ u]) auto
    qed
  qed
  have w: "m_pc (m_at t p s) v = MWait c \<Longrightarrow> c \<noteq> 0" for v c using assms(4) I(5) [of v c] by (simp split: if_splits)
  have r: "unat (m_raw (m_at t p s)) \<le> Suc n" "m_raw (m_at t p s) = m_raw s" using I(1) by simp_all
  show ?thesis unfolding mutex_inv_def crit r(2) using r(1) I(2-4) w act unfolding r(2) by blast
qed

lemma inc_no_wrap:
  fixes r :: u32
  assumes "unat r \<le> n" "Suc n < 2 ^ 32"
  shows "r + 1 \<noteq> 0" "unat (r + 1) \<le> Suc n"
proof -
  have "unat (r + 1) = unat r + 1" using assms by (subst unat_add_lem [THEN iffD1]) auto
  with assms(1) show "unat (r + 1) \<le> Suc n" by simp
  show "r + 1 \<noteq> 0" using \<open>unat (r + 1) = unat r + 1\<close> by (metis Suc_eq_plus1 nat.distinct(1) unat_0)
qed

lemma mutex_inc_inv:
  assumes "mutex_inv n s" "Suc n < 2 ^ 32" "m_pc s t = MTry" "mutex_lock_inc (m_raw s) = (p, r)"
  shows "mutex_inv (Suc n) ((m_at t p s)\<lparr>m_raw := r\<rparr>)"
proof -
  note I = mutex_invD [OF assms(1)]
  have r: "r = m_raw s + 1" "p = (if m_raw s + 1 \<noteq> 1 then MWait (m_raw s + 1) else MCrit)"
    using assms(4) by (auto simp: mutex_lock_inc_def atomic_inc_return_def atomic_add_return_def add.commute)
  have nz: "r \<noteq> 0" "unat r \<le> Suc n" using inc_no_wrap [OF I(1) assms(2)] r(1) by auto
  let ?s = "(m_at t p s)\<lparr>m_raw := r\<rparr>"
  have act: "\<exists>u. m_active (m_pc ?s u)" using r(2) by (intro exI [of _ t]) simp
  show ?thesis
  proof (cases "m_raw s = 0")
    case True
    then have p: "p = MCrit" using r(2) by simp
    have none: "m_pc s u \<noteq> MCrit" for u using I(3) True by blast
    show ?thesis unfolding mutex_inv_def
      using nz act none p I(5) by (auto split: if_splits)
  next
    case False
    then have p: "p = MWait r" using r by simp
    have crit: "(m_pc ?s u = MCrit) = (m_pc s u = MCrit)" for u using p assms(3) by simp
    have w: "m_pc ?s v = MWait c \<Longrightarrow> c \<noteq> 0" for v c using p nz(1) I(5) [of v c] by (simp split: if_splits)
    have raw: "m_raw ?s = r" by simp
    show ?thesis unfolding mutex_inv_def crit raw using nz I(2) [OF False] I(4) w act by blast
  qed
qed

lemma mutex_unlock_inv:
  assumes "mutex_inv n s" "m_pc s t = MCrit"
  shows "mutex_inv (Suc n) ((m_at t MUnlock s)\<lparr>m_raw := mutex_unlock_set (m_raw s)\<rparr>)"
proof -
  let ?s = "(m_at t MUnlock s)\<lparr>m_raw := mutex_unlock_set (m_raw s)\<rparr>"
  have "m_pc ?s u \<noteq> MCrit" for u using mutex_invD(4) [OF assms(1,2), of u] by auto
  moreover have "m_active (m_pc ?s t)" by simp
  moreover have "m_pc ?s v = MWait c \<Longrightarrow> c \<noteq> 0" for v c using mutex_invD(5) [OF assms(1), of v c] by (simp split: if_splits)
  moreover have "m_raw ?s = 0" by (simp add: mutex_unlock_set_def atomic_set_def)
  ultimately show ?thesis unfolding mutex_inv_def by (metis le0 unat_0)
qed

lemma mutex_leave_inv:
  assumes "mutex_inv n s" "m_pc s t = MUnlock" "\<forall>u. m_pc s u \<noteq> MSleep"
  shows "mutex_inv (Suc n) (m_at t MIdle s)"
proof -
  note I = mutex_invD [OF assms(1)]
  have "m_pc (m_at t MIdle s) u \<noteq> MSleep" for u using assms(3) by simp
  moreover have "(m_pc (m_at t MIdle s) u = MCrit) = (m_pc s u = MCrit)" for u using assms(2) by simp
  moreover have "m_pc (m_at t MIdle s) v = MWait c \<Longrightarrow> c \<noteq> 0" for v c using I(5) [of v c] by (simp split: if_splits)
  moreover have "m_raw (m_at t MIdle s) = m_raw s" "unat (m_raw s) \<le> Suc n" using I(1) by simp_all
  ultimately show ?thesis unfolding mutex_inv_def using I(2-4) by metis
qed

lemma mutex_wake_inv:
  assumes "mutex_inv n s" "m_pc s t = MUnlock" "m_pc s u = MSleep"
  shows "mutex_inv (Suc n) (m_at u MTry (m_at t MIdle s))"
proof -
  note I = mutex_invD [OF assms(1)]
  let ?s = "m_at u MTry (m_at t MIdle s)"
  have "(m_pc ?s v = MCrit) = (m_pc s v = MCrit)" for v using assms(2,3) by simp
  moreover have "m_active (m_pc ?s u)" by simp
  moreover have "m_pc ?s v = MWait c \<Longrightarrow> c \<noteq> 0" for v c using I(5) [of v c] by (simp split: if_splits)
  moreover have "m_raw ?s = m_raw s" "unat (m_raw s) \<le> Suc n" using I(1) by simp_all
  ultimately show ?thesis unfolding mutex_inv_def using I(2-4) by metis
qed

lemma mutex_step_inv:
  assumes "mutex_step s s'" "mutex_inv n s" "Suc n < 2 ^ 32"
  shows "mutex_inv (Suc n) s'"
  using assms(1)
proof (cases rule: mutex_step.cases)
  case (wait t c)
  then have "c \<noteq> 0" using mutex_invD(5) [OF assms(2)] by blast
  with wait show ?thesis
    by (auto simp: mutex_lock_wait_def atomic_read_def intro: mutex_inv_move [OF assms(2)])
next
  case (inc t p r)
  then show ?thesis using mutex_inc_inv [OF assms(2,3)] by simp
next
  case (unlock t)
  then show ?thesis using mutex_unlock_inv [OF assms(2)] by simp
next
  case (wake t u)
  then show ?thesis using mutex_wake_inv [OF assms(2)] by simp
next
  case (wake_none t)
  then show ?thesis using mutex_leave_inv [OF assms(2)] by simp
qed (auto intro: mutex_inv_move [OF assms(2)])

lemma mutex_reach_inv: "mutex_reach n s \<Longrightarrow> n < 2 ^ 32 \<Longrightarrow> mutex_inv n s"
proof (induction rule: mutex_reach.induct)
  case start
  show ?case by (simp add: mutex_inv_def mutex_start_def mutex_init_def atomic_set_def)
next
  case (step n s s')
  then show ?case using mutex_step_inv by simp
qed

section \<open>The futex invariant\<close>

fun unmet :: "futex_pc \<Rightarrow> bool" where
  "unmet (FCall stop tmp) \<longleftrightarrow> \<not> stop tmp"
| "unmet (FSleep stop tmp) \<longleftrightarrow> \<not> stop tmp"
| "unmet p \<longleftrightarrow> True"

definition futex_inv :: "futex_sys \<Rightarrow> bool" where
  "futex_inv s \<longleftrightarrow> (\<forall>t. unmet (f_pc s t))
     \<and> (\<forall>t stop tmp. f_pc s t = FSleep stop tmp \<longrightarrow> f_raw s = tmp \<or> (\<exists>u. f_pc s u = FWake))"

lemma f_at_simps [simp]: "f_pc (f_at t p s) = (f_pc s)(t := p)" "f_raw (f_at t p s) = f_raw s"
  by (simp_all add: f_at_def)

lemma futex_invD:
  assumes "futex_inv s"
  shows "unmet (f_pc s t)" "f_pc s t = FSleep stop tmp \<Longrightarrow> f_raw s = tmp \<or> (\<exists>u. f_pc s u = FWake)"
  using assms unfolding futex_inv_def by blast+

lemma futex_inv_move:
  assumes "futex_inv s" "f_pc s t \<noteq> FWake" "unmet p" "\<And>stop tmp. p = FSleep stop tmp \<Longrightarrow> f_raw s = tmp"
  shows "futex_inv (f_at t p s)"
proof -
  have "unmet (f_pc (f_at t p s) u)" for u using assms(3) futex_invD(1) [OF assms(1)] by simp
  moreover have "f_raw (f_at t p s) = tmp \<or> (\<exists>u. f_pc (f_at t p s) u = FWake)" if z: "f_pc (f_at t p s) u = FSleep stop tmp" for u stop tmp
  proof (cases "u = t")
    case True
    with z assms(4) [of stop tmp] show ?thesis by simp
  next
    case False
    with z futex_invD(2) [OF assms(1), of u stop tmp] have "f_raw s = tmp \<or> (\<exists>u. f_pc s u = FWake)" by simp
    with assms(2) show ?thesis by auto
  qed
  ultimately show ?thesis unfolding futex_inv_def by blast
qed

lemma futex_change_inv:
  assumes "futex_inv s"
  shows "futex_inv ((f_at t FWake s)\<lparr>f_raw := v\<rparr>)"
proof -
  have "unmet (f_pc ((f_at t FWake s)\<lparr>f_raw := v\<rparr>) u)" for u using futex_invD(1) [OF assms] by simp
  moreover have "f_pc ((f_at t FWake s)\<lparr>f_raw := v\<rparr>) t = FWake" by simp
  ultimately show ?thesis unfolding futex_inv_def by blast
qed

lemma wake_all_awake: "wake_all pc u \<noteq> FSleep stop tmp" "unmet (pc u) \<Longrightarrow> unmet (wake_all pc u)"
  by (cases "pc u"; simp add: wake_all_def)+

lemma futex_wake_inv:
  assumes "futex_inv s"
  shows "futex_inv (s\<lparr>f_pc := wake_all ((f_pc s)(t := FIdle))\<rparr>)"
  using futex_invD(1) [OF assms] by (simp add: futex_inv_def wake_all_awake)

lemma futex_step_inv: "futex_step s s' \<Longrightarrow> futex_inv s \<Longrightarrow> futex_inv s'"
proof (induction rule: futex_step.induct)
  case (change s t c)
  then show ?case by (intro futex_change_inv)
next
  case (fwake s t)
  have eq: "(f_at t FIdle s)\<lparr>f_pc := wake_all ((f_pc s)(t := FIdle))\<rparr> = s\<lparr>f_pc := wake_all ((f_pc s)(t := FIdle))\<rparr>" by (simp add: f_at_def)
  show ?case unfolding eq by (rule futex_wake_inv [OF fwake.prems])
next
  case (sleep s t stop tmp)
  then have "\<not> stop tmp" using futex_invD(1) [OF sleep(3), of t] by simp
  with sleep show ?case by (intro futex_inv_move) auto
qed (auto intro: futex_inv_move)

lemma futex_reach_inv: "futex_reach s \<Longrightarrow> futex_inv s"
proof (induction rule: futex_reach.induct)
  case (fstart v)
  show ?case by (simp add: futex_inv_def)
qed (rule futex_step_inv)

section \<open>Properties\<close>

text \<open>C33: The mutex excludes: for any number of threads and any interleaving of their steps, as long
  as fewer than 2 to the 32 steps were made (so that the counter cannot have wrapped), at most one
  thread is between lock and unlock, and a thread that sleeps in the lock is never left alone:
  some other thread is awake in the lock, in the critical section or about to wake it.\<close>

theorem mutex_exclusion:
  assumes "mutex_reach n s" "n < 2 ^ 32"
  shows "(\<forall>t u. m_pc s t = MCrit \<and> m_pc s u = MCrit \<longrightarrow> t = u)
     \<and> (\<forall>t. m_pc s t = MSleep \<longrightarrow> (\<exists>u. m_pc s u \<in> {MTry, MCrit, MUnlock} \<union> range MWait))"
proof -
  note I = mutex_invD [OF mutex_reach_inv [OF assms]]
  have "m_pc s u \<in> {MTry, MCrit, MUnlock} \<union> range MWait" if "m_active (m_pc s u)" for u
    using that by (cases "m_pc s u") auto
  with I(4,6) show ?thesis by blast
qed

text \<open>Two threads: the first takes the lock, the second goes to sleep.\<close>

definition ex_mutex :: mutex_sys where
  "ex_mutex = \<lparr>m_raw = 2, m_pc = (\<lambda>_. MIdle)(0 := MCrit, 1 := MSleep)\<rparr>"

lemma ex_mutex_reach: "mutex_reach 5 ex_mutex"
proof -
  let ?s1 = "m_at 0 MTry mutex_start"
  let ?s2 = "(m_at 0 MCrit ?s1)\<lparr>m_raw := 1\<rparr>"
  let ?s3 = "m_at 1 MTry ?s2"
  let ?s4 = "(m_at 1 (MWait 2) ?s3)\<lparr>m_raw := 2\<rparr>"
  have i: "mutex_lock_inc 0 = (MCrit, 1)" "mutex_lock_inc 1 = (MWait 2, 2)"
    by (simp_all add: mutex_lock_inc_def atomic_inc_return_def atomic_add_return_def)
  have z: "m_raw mutex_start = 0" "\<And>t. m_pc mutex_start t = MIdle" by (simp_all add: mutex_start_def mutex_init_def atomic_set_def)
  have "mutex_reach (Suc 0) ?s1" by (rule mutex_reach.step [OF mutex_reach.start]) (simp add: mutex_step.call z)
  then have "mutex_reach (Suc (Suc 0)) ?s2" by (rule mutex_reach.step) (rule mutex_step.inc, simp_all add: i z)
  then have "mutex_reach (Suc (Suc (Suc 0))) ?s3" by (rule mutex_reach.step) (rule mutex_step.call, simp add: z)
  then have "mutex_reach (Suc (Suc (Suc (Suc 0)))) ?s4" by (rule mutex_reach.step) (rule mutex_step.inc, simp_all add: i)
  then have "mutex_reach (Suc (Suc (Suc (Suc (Suc 0))))) (m_at 1 (mutex_lock_wait 2 (m_raw ?s4)) ?s4)"
    by (rule mutex_reach.step) (rule mutex_step.wait, simp)
  moreover have "m_at 1 (mutex_lock_wait 2 (m_raw ?s4)) ?s4 = ex_mutex"
    by (auto simp: m_at_def mutex_lock_wait_def atomic_read_def ex_mutex_def mutex_start_def fun_upd_def)
  ultimately show ?thesis by (simp add: eval_nat_numeral)
qed

theorem mutex_exclusion_witness:
  "m_pc ex_mutex 1 = MSleep \<and> (\<exists>u. m_pc ex_mutex u \<in> {MTry, MCrit, MUnlock} \<union> range MWait)"
proof -
  have "m_pc ex_mutex 1 = MSleep" by (simp add: ex_mutex_def)
  with mutex_exclusion [OF ex_mutex_reach] show ?thesis by auto
qed

text \<open>C34: No wake-up of a futex is lost: in every interleaving of waiters with threads that change the
  value and wake, a waiter that sleeps although the value already ends its wait has a wake-up
  still to come; once no wake-up is outstanding nobody sleeps whose wait is over. In particular
  the abort value ends every wait that looks at the abort flag.\<close>

theorem futex_no_lost_wakeup:
  assumes "futex_reach s" "f_pc s t = FSleep stop tmp" "stop (f_raw s) \<or> stop = futex_wait_if_cond cond \<and> f_raw s = FUTEX_ABORT_RAW"
  shows "\<exists>u. f_pc s u = FWake"
proof -
  have "stop (f_raw s)" using assms(3) by (auto simp: futex_wait_if_cond_def FUTEX_ABORT_RAW_def FUTEX_ABORT_FLAG_def)
  moreover have "\<not> stop tmp" using futex_invD(1) [OF futex_reach_inv [OF assms(1)], of t] assms(2) by simp
  ultimately show ?thesis using futex_invD(2) [OF futex_reach_inv [OF assms(1)] assms(2)] by auto
qed

definition ex_futex :: futex_sys where
  "ex_futex = \<lparr>f_raw = 1, f_pc = (\<lambda>_. FIdle)(0 := FSleep (futex_wait_until 1) 0, 1 := FWake)\<rparr>"

lemma ex_futex_reach: "futex_reach ex_futex"
proof -
  let ?w = "futex_wait_until 1"
  let ?s0 = "\<lparr>f_raw = 0, f_pc = (\<lambda>_. FIdle)\<rparr> :: futex_sys"
  let ?s1 = "f_at 0 (FRead ?w) ?s0"
  let ?s2 = "f_at 0 (FCall ?w 0) ?s1"
  let ?s3 = "f_at 0 (FSleep ?w 0) ?s2"
  have n: "\<not> ?w 0" by (simp add: futex_wait_until_def futex_wait_if_cond_def)
  have "futex_reach ?s1" by (rule fstep [OF fstart [of 0]]) (rule futex_step.enter, simp)
  then have "futex_reach ?s2" by (rule fstep) (use n futex_step.again [of ?s1 0 ?w] in \<open>simp add: atomic_read_def\<close>)
  then have "futex_reach ?s3" by (rule fstep) (rule futex_step.sleep, simp_all)
  then have "futex_reach ((f_at 1 FWake ?s3)\<lparr>f_raw := futex_change (FutexSetAndWake 1) (f_raw ?s3)\<rparr>)"
    by (rule fstep) (rule futex_step.change, simp)
  moreover have "(f_at 1 FWake ?s3)\<lparr>f_raw := futex_change (FutexSetAndWake 1) (f_raw ?s3)\<rparr> = ex_futex"
    by (auto simp: f_at_def ex_futex_def atomic_set_def)
  ultimately show ?thesis by simp
qed

theorem futex_no_lost_wakeup_witness:
  "futex_wait_until 1 (f_raw ex_futex) \<and> (\<exists>u. f_pc ex_futex u = FWake)"
proof -
  have "f_pc ex_futex 0 = FSleep (futex_wait_until 1) 0" "futex_wait_until 1 (f_raw ex_futex)"
    by (simp_all add: ex_futex_def futex_wait_until_def futex_wait_if_cond_def)
  with futex_no_lost_wakeup [OF ex_futex_reach] show ?thesis by blast
qed

end
