(* ===== verification/PbImage.thy ===== *)
theory PbImage
  imports RstMalloc
begin

text \<open>
  The records of an image file: include/util.h (read_img, write_img) and the second half of
  protobuf.c (do_pb_read_one, pb_write_one, collect_image).

  A record is its packed size as a 32-bit little endian number followed by the packed object.
  Packing and unpacking are generated code of the protobuf library and parameters here. An open
  file has contents and an offset; the answers of the kernel are functions of the number of
  calls made on it: whether a read succeeds (a read of a regular file is short only at its
  end or at the limit of one call), and how many bytes a write takes.
\<close>

section \<open>Open files\<close>

record img_file =
  if_data :: "byte list"
  if_pos :: nat
  if_tick :: nat

record io_env =
  io_read :: "nat \<Rightarrow> bool"
  io_write :: "nat \<Rightarrow> nat \<Rightarrow> int"
  io_malloc :: "nat \<Rightarrow> nat"

text \<open>One call transfers at most this many bytes.\<close>

definition MAX_RW_COUNT :: nat where
  "MAX_RW_COUNT = 0x7ffff000"

definition sys_read :: "io_env \<Rightarrow> nat \<Rightarrow> img_file \<Rightarrow> int \<times> byte list \<times> img_file" where
  "sys_read E len f =
     (if io_read E (if_tick f)
      then let bs = take (min len MAX_RW_COUNT) (drop (if_pos f) (if_data f))
           in (int (length bs), bs, f\<lparr>if_pos := if_pos f + length bs, if_tick := Suc (if_tick f)\<rparr>)
      else (-1, [], f\<lparr>if_tick := Suc (if_tick f)\<rparr>))"

definition sys_write :: "io_env \<Rightarrow> byte list \<Rightarrow> img_file \<Rightarrow> int \<times> img_file" where
  "sys_write E bs f =
     (let r = io_write E (if_tick f) (length bs); n = nat r
      in (r, f\<lparr>if_data := take (if_pos f) (if_data f) @ take n bs @ drop (if_pos f + n) (if_data f),
               if_pos := if_pos f + n, if_tick := Suc (if_tick f)\<rparr>))"

definition sys_malloc :: "io_env \<Rightarrow> img_file \<Rightarrow> nat \<times> img_file" where
  "sys_malloc E f = (io_malloc E (if_tick f), f\<lparr>if_tick := Suc (if_tick f)\<rparr>)"

section \<open>Plain structures\<close>

definition write_img_buf :: "io_env \<Rightarrow> byte list \<Rightarrow> img_file \<Rightarrow> int \<times> img_file" where
  "write_img_buf E bs f = (case sys_write E bs f of (ret, f) \<Rightarrow> if ret = int (length bs) then (0, f) else (-1, f))"

definition read_img_buf_eof :: "io_env \<Rightarrow> nat \<Rightarrow> img_file \<Rightarrow> int \<times> byte list \<times> img_file" where
  "read_img_buf_eof E n f =
     (case sys_read E n f of (ret, bs, f) \<Rightarrow>
        if ret = int n then (1, bs, f) else if ret = 0 then (0, bs, f) else (-1, bs, f))"

definition read_img_buf :: "io_env \<Rightarrow> nat \<Rightarrow> img_file \<Rightarrow> int \<times> byte list \<times> img_file" where
  "read_img_buf E n f = (case read_img_buf_eof E n f of (ret, bs, f) \<Rightarrow> (if ret = 0 then -1 else ret, bs, f))"

section \<open>Records\<close>

text \<open>The entry of \<^verbatim>\<open>cr_pb_descs\<close> for a type: \<^verbatim>\<open>getpksize\<close>, \<^verbatim>\<open>pack\<close> and \<^verbatim>\<open>unpack\<close>.\<close>

record 'o pb_desc =
  getpksize :: "'o \<Rightarrow> nat"
  pack :: "'o \<Rightarrow> byte list"
  unpack :: "byte list \<Rightarrow> 'o option"

definition PB_PKOBJ_LOCAL_SIZE :: nat where
  "PB_PKOBJ_LOCAL_SIZE = 1024"

text \<open>
  \<^verbatim>\<open>do_pb_read_one\<close>. \<open>None\<close> as descriptor is a type that has none. The comparison
  \<^verbatim>\<open>ret < sizeof(size)\<close> is unsigned, so a failed read of the size (-1) passes it and \<^verbatim>\<open>size\<close> is
  what the stack held, \<open>junk\<close>.
\<close>

definition pb_read_body :: "io_env \<Rightarrow> 'o pb_desc \<Rightarrow> nat \<Rightarrow> img_file \<Rightarrow> int \<times> 'o option \<times> img_file" where
  "pb_read_body E d n f =
     (case (if PB_PKOBJ_LOCAL_SIZE < n then sys_malloc E f else (1, f)) of (p, f) \<Rightarrow>
        if p = 0 then (-1, None, f)
        else case sys_read E n f of (ret, pkd, f) \<Rightarrow>
          if ret < 0 then (ret, None, f)
          else if ret \<noteq> int n then (-1, None, f)
          else case unpack d pkd of None \<Rightarrow> (-1, None, f) | Some obj \<Rightarrow> (1, Some obj, f))"

definition do_pb_read_one :: "io_env \<Rightarrow> nat \<Rightarrow> 'o pb_desc option \<Rightarrow> bool \<Rightarrow> img_file \<Rightarrow> int \<times> 'o option \<times> img_file" where
  "do_pb_read_one E junk desc eof f =
     (case desc of None \<Rightarrow> (-1, None, f)
      | Some d \<Rightarrow>
          (case sys_read E 4 f of (ret, hdr, f) \<Rightarrow>
             if ret = 0 then (if eof then (0, None, f) else (-1, None, f))
             else if 0 < ret \<and> ret < 4 then (-1, None, f)
             else pb_read_body E d (if ret < 0 then junk else le_val hdr) f))"

definition pb_write_one :: "io_env \<Rightarrow> 'o pb_desc option \<Rightarrow> 'o \<Rightarrow> img_file \<Rightarrow> int \<times> img_file" where
  "pb_write_one E desc obj f =
     (case desc of None \<Rightarrow> (-1, f)
      | Some d \<Rightarrow>
          (let n = u32_of (getpksize d obj) in
           case (if PB_PKOBJ_LOCAL_SIZE < n then sys_malloc E f else (1, f)) of (p, f) \<Rightarrow>
             if p = 0 then (-1, f)
             else let pkd = pack d obj in
               if u32_of (length pkd) \<noteq> n then (-1, f)
               else case sys_write E (le_bytes 4 n) f of (ret, f) \<Rightarrow>
                 if ret \<noteq> 4 then (-1, f)
                 else case sys_write E pkd f of (ret, f) \<Rightarrow> if ret \<noteq> int n then (-1, f) else (0, f)))"

section \<open>Collecting an image\<close>

text \<open>
  \<^verbatim>\<open>collect_image\<close>: every record of an image is handed to a callback together with a fresh private
  object, which comes from the shared allocator when the type asks for it. The callback changes the
  allocator and a state \<open>'s\<close> of its own; a private object is given by its address. An object was read
  exactly when \<^verbatim>\<open>pb_read_one_eof\<close> returns a positive number, so the model branches on the object.
\<close>

record ('o, 's) collect_image_info =
  pb_type :: "'o pb_desc option"
  ci_priv_size :: nat
  collect :: "nat \<Rightarrow> 'o \<Rightarrow> rst_state \<times> 's \<Rightarrow> int \<times> rst_state \<times> 's"
  collect_shared :: bool
  collect_optional :: bool

record 's collect_state =
  cs_file :: img_file
  cs_rst :: rst_state
  cs_user :: 's

definition o_alloc :: "io_env \<Rightarrow> mm_env \<Rightarrow> bool \<Rightarrow> nat \<Rightarrow> 's collect_state \<Rightarrow> (nat \<times> 's collect_state) outcome" where
  "o_alloc E M shared n s =
     (if shared then bindF (shmalloc M n (cs_rst s)) (\<lambda>(p, r). Inr (p, s\<lparr>cs_rst := r\<rparr>))
      else case sys_malloc E (cs_file s) of (p, f) \<Rightarrow> Inr (p, s\<lparr>cs_file := f\<rparr>))"

definition o_free :: "bool \<Rightarrow> 's collect_state \<Rightarrow> 's collect_state outcome" where
  "o_free shared s = (if shared then bindF (shfree_last (cs_rst s)) (\<lambda>r. Inr (s\<lparr>cs_rst := r\<rparr>)) else Inr s)"

primrec collect_loop ::
  "nat \<Rightarrow> io_env \<Rightarrow> mm_env \<Rightarrow> nat \<Rightarrow> ('o, 's) collect_image_info \<Rightarrow> 's collect_state \<Rightarrow> (int \<times> 's collect_state) outcome" where
  "collect_loop 0 E M junk ci s = Inl HANG"
| "collect_loop (Suc k) E M junk ci s =
     bindF (if ci_priv_size ci \<noteq> 0 then o_alloc E M (collect_shared ci) (ci_priv_size ci) s else Inr (0, s)) (\<lambda>(obj, s).
       if ci_priv_size ci \<noteq> 0 \<and> obj = 0 then Inr (-1, s)
       else case do_pb_read_one E junk (pb_type ci) True (cs_file s) of (ret, msg, f) \<Rightarrow>
         (let s = s\<lparr>cs_file := f\<rparr> in
          case msg of None \<Rightarrow> bindF (o_free (collect_shared ci) s) (\<lambda>s. Inr (ret, s))
          | Some m \<Rightarrow>
              (case collect ci obj m (cs_rst s, cs_user s) of (ret, r, u) \<Rightarrow>
                 (let s = s\<lparr>cs_rst := r, cs_user := u\<rparr> in
                  if ret < 0 then bindF (o_free (collect_shared ci) s) (\<lambda>s. Inr (ret, s))
                  else collect_loop k E M junk ci s))))"

definition collect_image ::
  "io_env \<Rightarrow> mm_env \<Rightarrow> nat \<Rightarrow> ('o, 's) collect_image_info \<Rightarrow> img_file img_open \<Rightarrow> rst_state \<Rightarrow> 's \<Rightarrow> (int \<times> rst_state \<times> 's) outcome" where
  "collect_image E M junk ci opened r u =
     (case opened of
        ImgErr enoent \<Rightarrow> Inr (if collect_optional ci \<and> enoent then 0 else -1, r, u)
      | Img f \<Rightarrow> bindF (collect_loop (Suc (length (if_data f))) E M junk ci \<lparr>cs_file = f, cs_rst = r, cs_user = u\<rparr>)
                   (\<lambda>(ret, s). Inr (ret, cs_rst s, cs_user s)))"

section \<open>Reading what was written\<close>

definition io_ok :: "io_env \<Rightarrow> bool" where
  "io_ok E \<longleftrightarrow> (\<forall>t. io_read E t) \<and> (\<forall>t n. io_write E t n = int n) \<and> (\<forall>t. io_malloc E t \<noteq> 0)"

definition desc_ok :: "'o pb_desc \<Rightarrow> 'o \<Rightarrow> bool" where
  "desc_ok d x \<longleftrightarrow> getpksize d x = length (pack d x) \<and> length (pack d x) \<le> MAX_RW_COUNT \<and> unpack d (pack d x) = Some x"

definition pb_record :: "'o pb_desc \<Rightarrow> 'o \<Rightarrow> byte list" where
  "pb_record d x = le_bytes 4 (length (pack d x)) @ pack d x"

abbreviation pb_records :: "'o pb_desc \<Rightarrow> 'o list \<Rightarrow> byte list" where
  "pb_records d xs \<equiv> concat (map (pb_record d) xs)"

primrec pb_write_all :: "io_env \<Rightarrow> 'o pb_desc option \<Rightarrow> 'o list \<Rightarrow> img_file \<Rightarrow> int \<times> img_file" where
  "pb_write_all E desc [] f = (0, f)"
| "pb_write_all E desc (x # xs) f =
     (case pb_write_one E desc x f of (ret, f) \<Rightarrow> if ret < 0 then (-1, f) else pb_write_all E desc xs f)"

lemma length_pb_record [simp]: "length (pb_record d x) = 4 + length (pack d x)"
  by (simp add: pb_record_def)

lemma length_pb_records_take: "length (pb_records d (take j xs)) \<le> length (pb_records d xs)"
  by (metis append_take_drop_id concat_append le_add1 length_append map_append)

lemma sys_write_full:
  assumes "sys_write E bs f = (ret, f')" "if_pos f = length (if_data f)" "ret = int (length bs)"
  shows "if_data f' = if_data f @ bs" "if_pos f' = length (if_data f')"
  using assms by (auto simp: sys_write_def Let_def)

lemma pack_u32:
  assumes "desc_ok d x"
  shows "u32_of (length (pack d x)) = length (pack d x)" "length (pack d x) \<le> MAX_RW_COUNT" "length (pack d x) < 256 ^ 4"
    "getpksize d x = length (pack d x)" "unpack d (pack d x) = Some x"
proof -
  have *: "length (pack d x) \<le> 2147479552" "length (pack d x) \<le> MAX_RW_COUNT"
    using assms by (auto simp: desc_ok_def MAX_RW_COUNT_def)
  then show "u32_of (length (pack d x)) = length (pack d x)" "length (pack d x) \<le> MAX_RW_COUNT" "length (pack d x) < 256 ^ 4"
    by (simp_all add: u32_of_def)
  show "getpksize d x = length (pack d x)" "unpack d (pack d x) = Some x"
    using assms by (simp_all add: desc_ok_def)
qed

text \<open>A write that reports success left a whole record in the file, whatever the kernel answered.\<close>

lemma pb_write_one_success:
  assumes "desc_ok d x" "if_pos f = length (if_data f)" "pb_write_one E (Some d) x f = (ret, f')" "0 \<le> ret"
  shows "if_data f' = if_data f @ pb_record d x" "if_pos f' = length (if_data f')"
proof -
  let ?n = "length (pack d x)"
  obtain p t where a: "(if PB_PKOBJ_LOCAL_SIZE < ?n then sys_malloc E f else (1, f)) = (p, f\<lparr>if_tick := t\<rparr>)"
    using that [of 1 "if_tick f"] by (cases "PB_PKOBJ_LOCAL_SIZE < ?n") (auto simp: sys_malloc_def)
  obtain r1 f1 where w1: "sys_write E (le_bytes 4 ?n) (f\<lparr>if_tick := t\<rparr>) = (r1, f1)"
    by fastforce
  obtain r2 f2 where w2: "sys_write E (pack d x) f1 = (r2, f2)"
    by fastforce
  have *: "r1 = 4" "r2 = int ?n" "f' = f2"
    using assms(3,4) a w1 w2 by (auto simp: pb_write_one_def pack_u32 [OF assms(1)] Let_def split: if_splits)
  have "if_data f1 = if_data f @ le_bytes 4 ?n" "if_pos f1 = length (if_data f1)"
    using sys_write_full [OF w1] assms(2) *(1) by auto
  then show "if_data f' = if_data f @ pb_record d x" "if_pos f' = length (if_data f')"
    using sys_write_full [OF w2 _ *(2)] *(3) by (simp_all add: pb_record_def)
qed

lemma pb_write_one_ret:
  assumes "io_ok E" "desc_ok d x"
  shows "fst (pb_write_one E (Some d) x f) = 0"
proof -
  have m: "(io_malloc E (if_tick f) = 0) = False"
    using assms(1) by (simp add: io_ok_def)
  show ?thesis
    using assms(1) by (auto simp: m pb_write_one_def pack_u32 [OF assms(2)] Let_def sys_malloc_def sys_write_def io_ok_def)
qed

lemma pb_write_all_success:
  "\<forall>x \<in> set xs. desc_ok d x \<Longrightarrow> if_pos f = length (if_data f) \<Longrightarrow> pb_write_all E (Some d) xs f = (0, f') \<Longrightarrow> if_data f' = if_data f @ pb_records d xs"
proof (induction xs arbitrary: f)
  case (Cons x xs)
  obtain ret g where g: "pb_write_one E (Some d) x f = (ret, g)"
    by fastforce
  then have *: "0 \<le> ret" "pb_write_all E (Some d) xs g = (0, f')"
    using Cons.prems(3) by (auto split: if_splits)
  show ?case
    using Cons.IH [OF _ _ *(2)] pb_write_one_success [OF _ Cons.prems(2) g *(1)] Cons.prems(1) by simp
qed simp

lemma pb_write_all_ret:
  assumes "io_ok E"
  shows "\<forall>x \<in> set xs. desc_ok d x \<Longrightarrow> fst (pb_write_all E (Some d) xs f) = 0"
proof (induction xs arbitrary: f)
  case (Cons x xs)
  then show ?case
    using pb_write_one_ret [OF assms, of d x f] by (auto split: prod.split)
qed simp

lemma sys_read_part:
  assumes "io_ok E" "drop (if_pos f) (if_data f) = take k (a @ b)" "n = length a" "n \<le> MAX_RW_COUNT"
  shows "sys_read E n f = (int (min n k), take k a, f\<lparr>if_pos := if_pos f + min n k, if_tick := Suc (if_tick f)\<rparr>)"
proof -
  have "take n (take k (a @ b)) = take k a" "length (take k a) = min n k"
    using assms(3) by (cases "n \<le> k"; simp add: min_def)+
  then show ?thesis
    using assms by (simp add: sys_read_def io_ok_def Let_def min_absorb1 del: take_append take_take length_take)
qed

lemma pb_read_body_ok:
  assumes "io_ok E" "desc_ok d x" "drop (if_pos f) (if_data f) = take k (pack d x @ rest)"
  shows "\<exists>f'. pb_read_body E d (length (pack d x)) f = (if length (pack d x) \<le> k then (1, Some x, f') else (-1, None, f'))
     \<and> if_data f' = if_data f \<and> (length (pack d x) \<le> k \<longrightarrow> if_pos f' = if_pos f + length (pack d x))"
proof -
  have m: "io_malloc E t \<noteq> 0" for t
    using assms(1) by (simp add: io_ok_def)
  obtain p t where g: "(if PB_PKOBJ_LOCAL_SIZE < length (pack d x) then sys_malloc E f else (1, f)) = (p, f\<lparr>if_tick := t\<rparr>)" "p \<noteq> 0"
    using m [of "if_tick f"] that [of 1 "if_tick f"] by (cases "PB_PKOBJ_LOCAL_SIZE < length (pack d x)") (auto simp: sys_malloc_def)
  have "sys_read E (length (pack d x)) (f\<lparr>if_tick := t\<rparr>) =
      (int (min (length (pack d x)) k), take k (pack d x), f\<lparr>if_pos := if_pos f + min (length (pack d x)) k, if_tick := Suc t\<rparr>)"
    using sys_read_part [OF assms(1) _ refl pack_u32(2) [OF assms(2)], of "f\<lparr>if_tick := t\<rparr>" k rest] assms(3) by simp
  then show ?thesis
    using g by (simp add: pb_read_body_def pack_u32 [OF assms(2)] min_def) 
qed

lemma do_pb_read_one_ok:
  assumes "io_ok E" "desc_ok d x" "drop (if_pos f) (if_data f) = take k (pb_record d x @ rest)"
  shows "\<exists>f'. do_pb_read_one E junk (Some d) True f =
       (if length (pb_record d x) \<le> k then (1, Some x, f') else (if k = 0 then 0 else -1, None, f'))
     \<and> if_data f' = if_data f \<and> (length (pb_record d x) \<le> k \<longrightarrow> if_pos f' = if_pos f + length (pb_record d x))"
proof -
  have r: "sys_read E 4 f = (int (min 4 k), take k (le_bytes 4 (length (pack d x))), f\<lparr>if_pos := if_pos f + min 4 k, if_tick := Suc (if_tick f)\<rparr>)"
    using assms(3) by (intro sys_read_part [OF assms(1), of f k _ "pack d x @ rest"]) (simp_all add: MAX_RW_COUNT_def pb_record_def)
  show ?thesis
  proof (cases "4 \<le> k")
    case False
    then show ?thesis
      by (auto simp: do_pb_read_one_def r min_def)
  next
    case True
    let ?f = "f\<lparr>if_pos := if_pos f + 4, if_tick := Suc (if_tick f)\<rparr>"
    have "drop (if_pos ?f) (if_data ?f) = take (k - 4) (pack d x @ rest)"
      using arg_cong [OF assms(3), of "drop 4"] by (simp add: pb_record_def drop_take add.commute del: take_append)
    from pb_read_body_ok [OF assms(1,2) this] obtain g where g:
      "pb_read_body E d (length (pack d x)) ?f = (if length (pack d x) \<le> k - 4 then (1, Some x, g) else (-1, None, g))"
      "if_data g = if_data f" "length (pack d x) \<le> k - 4 \<longrightarrow> if_pos g = if_pos f + 4 + length (pack d x)"
      by auto
    have *: "take k (le_bytes 4 (length (pack d x))) = le_bytes 4 (length (pack d x))"
      using True by simp
    have v: "le_val (le_bytes 4 (length (pack d x))) = length (pack d x)"
      using pack_u32(3) [OF assms(2)] by (simp add: le_val_bytes)
    show ?thesis
      using True g(2,3) by (intro exI [of _ g]) (auto simp: do_pb_read_one_def r * g(1) v min_absorb1)
  qed
qed

section \<open>Collecting what was written\<close>

definition collects :: "('o, 's) collect_image_info \<Rightarrow> ('o \<Rightarrow> rst_state \<times> 's \<Rightarrow> rst_state \<times> 's) \<Rightarrow> bool" where
  "collects ci g \<longleftrightarrow> \<not> collect_shared ci \<and> (\<forall>p m x. 0 \<le> fst (collect ci p m x) \<and> snd (collect ci p m x) = g m x)"

lemma collect_loop_alloc:
  assumes "io_ok E" "\<not> collect_shared ci"
  shows "\<exists>p t. (if ci_priv_size ci \<noteq> 0 then o_alloc E M (collect_shared ci) (ci_priv_size ci) s else Inr (0, s))
     = Inr (p, s\<lparr>cs_file := (cs_file s)\<lparr>if_tick := t\<rparr>\<rparr>) \<and> \<not> (ci_priv_size ci \<noteq> 0 \<and> p = 0)"
proof (cases "ci_priv_size ci = 0")
  case True
  then show ?thesis
    by (intro exI [of _ 0] exI [of _ "if_tick (cs_file s)"]) simp
next
  case False
  then show ?thesis
    using assms by (intro exI [of _ "io_malloc E (if_tick (cs_file s))"] exI [of _ "Suc (if_tick (cs_file s))"])
      (simp add: o_alloc_def sys_malloc_def io_ok_def)
qed

lemma collect_loop_end:
  assumes "io_ok E" "collects ci g"
    and "\<And>t. \<exists>f'. do_pb_read_one E junk (pb_type ci) True ((cs_file s)\<lparr>if_tick := t\<rparr>) = (ret, None, f')"
  shows "\<exists>s'. collect_loop (Suc n) E M junk ci s = Inr (ret, s') \<and> cs_rst s' = cs_rst s \<and> cs_user s' = cs_user s"
proof -
  have u: "\<not> collect_shared ci"
    using assms(2) by (simp add: collects_def)
  obtain p t where a: "(if ci_priv_size ci \<noteq> 0 then o_alloc E M (collect_shared ci) (ci_priv_size ci) s else Inr (0, s))
     = Inr (p, s\<lparr>cs_file := (cs_file s)\<lparr>if_tick := t\<rparr>\<rparr>)" "\<not> (ci_priv_size ci \<noteq> 0 \<and> p = 0)"
    using collect_loop_alloc [OF assms(1) u] by blast
  obtain f' where "do_pb_read_one E junk (pb_type ci) True ((cs_file s)\<lparr>if_tick := t\<rparr>) = (ret, None, f')"
    using assms(3) by blast
  then show ?thesis
    unfolding collect_loop.simps a(1) using a(2) u by (auto simp: Let_def o_free_def)
qed

lemma collect_loop_one:
  assumes "io_ok E" "collects ci g"
    and "\<And>t. \<exists>f'. do_pb_read_one E junk (pb_type ci) True ((cs_file s)\<lparr>if_tick := t\<rparr>) = (1, Some x, f') \<and> P f'"
  shows "\<exists>s'. collect_loop (Suc n) E M junk ci s = collect_loop n E M junk ci s'
     \<and> P (cs_file s') \<and> (cs_rst s', cs_user s') = g x (cs_rst s, cs_user s)"
proof -
  have u: "\<not> collect_shared ci" and c: "0 \<le> fst (collect ci p m y)" "snd (collect ci p m y) = g m y" for p m y
    using assms(2) unfolding collects_def by blast+
  obtain p t where a: "(if ci_priv_size ci \<noteq> 0 then o_alloc E M (collect_shared ci) (ci_priv_size ci) s else Inr (0, s))
     = Inr (p, s\<lparr>cs_file := (cs_file s)\<lparr>if_tick := t\<rparr>\<rparr>)" "\<not> (ci_priv_size ci \<noteq> 0 \<and> p = 0)"
    using collect_loop_alloc [OF assms(1) u] by blast
  obtain f' where f: "do_pb_read_one E junk (pb_type ci) True ((cs_file s)\<lparr>if_tick := t\<rparr>) = (1, Some x, f')" "P f'"
    using assms(3) by blast
  obtain ret r v where "collect ci p x (cs_rst s, cs_user s) = (ret, r, v)"
    by (cases "collect ci p x (cs_rst s, cs_user s)") auto
  moreover from this have "0 \<le> ret" "g x (cs_rst s, cs_user s) = (r, v)"
    using c [of p x "(cs_rst s, cs_user s)"] by auto
  ultimately show ?thesis
    unfolding collect_loop.simps a(1) using a(2) f
    by (intro exI [of _ "s\<lparr>cs_file := f', cs_rst := r, cs_user := v\<rparr>"]) (auto simp: Let_def)
qed

text \<open>
  What an image that was cut after \<open>k\<close> bytes yields: the records that are whole, and success only
  if the cut is between two of them.
\<close>

lemma collect_loop_prefix:
  assumes "io_ok E" "collects ci g" "pb_type ci = Some d"
  shows "\<forall>x \<in> set xs. desc_ok d x \<Longrightarrow> drop (if_pos (cs_file s)) (if_data (cs_file s)) = take k (pb_records d xs) \<Longrightarrow> k \<le> length (pb_records d xs) \<Longrightarrow> k < n \<Longrightarrow>
    \<exists>j s'. j \<le> length xs
     \<and> collect_loop n E M junk ci s = Inr (if k = length (pb_records d (take j xs)) then 0 else -1, s')
     \<and> (cs_rst s', cs_user s') = fold g (take j xs) (cs_rst s, cs_user s)
     \<and> length (pb_records d (take j xs)) \<le> k \<and> (j < length xs \<longrightarrow> k < length (pb_records d (take (Suc j) xs)))"
proof (induction xs arbitrary: s k n)
  case Nil
  obtain m where n: "n = Suc m"
    using Nil.prems by (cases n) auto
  have "\<exists>f'. do_pb_read_one E junk (pb_type ci) True ((cs_file s)\<lparr>if_tick := t\<rparr>) = (0, None, f')" for t
    using Nil.prems(2) assms(1) by (simp add: do_pb_read_one_def assms(3) sys_read_def io_ok_def Let_def)
  from collect_loop_end [where n = m and M = M, OF assms(1,2) this] show ?case
    using Nil.prems by (auto simp: n)
next
  case (Cons x xs)
  obtain m where n: "n = Suc m"
    using Cons.prems by (cases n) auto
  have rd: "\<exists>f'. do_pb_read_one E junk (pb_type ci) True ((cs_file s)\<lparr>if_tick := t\<rparr>) =
       (if length (pb_record d x) \<le> k then (1, Some x, f') else (if k = 0 then 0 else -1, None, f'))
     \<and> if_data f' = if_data (cs_file s) \<and> (length (pb_record d x) \<le> k \<longrightarrow> if_pos f' = if_pos (cs_file s) + length (pb_record d x))" for t
    using do_pb_read_one_ok [OF assms(1), of d x "(cs_file s)\<lparr>if_tick := t\<rparr>" k "pb_records d xs" junk] Cons.prems(1,2)
    by (simp add: assms(3))
  show ?case
  proof (cases "length (pb_record d x) \<le> k")
    case False
    then have "\<exists>f'. do_pb_read_one E junk (pb_type ci) True ((cs_file s)\<lparr>if_tick := t\<rparr>) = (if k = 0 then 0 else -1, None, f')" for t
      using rd [of t] by auto
    from collect_loop_end [where n = m and M = M, OF assms(1,2) this] obtain s' where
      "collect_loop (Suc m) E M junk ci s = Inr (if k = 0 then 0 else -1, s')" "cs_rst s' = cs_rst s" "cs_user s' = cs_user s"
      by blast
    then show ?thesis
      using False by (intro exI [of _ 0] exI [of _ s']) (auto simp: n)
  next
    case True
    have "\<exists>f'. do_pb_read_one E junk (pb_type ci) True ((cs_file s)\<lparr>if_tick := t\<rparr>) = (1, Some x, f')
        \<and> if_data f' = if_data (cs_file s) \<and> if_pos f' = if_pos (cs_file s) + length (pb_record d x)" for t
      using rd [of t] True by auto
    from collect_loop_one [where n = m and M = M, OF assms(1,2) this] obtain s1 where
      s1: "collect_loop (Suc m) E M junk ci s = collect_loop m E M junk ci s1" "if_data (cs_file s1) = if_data (cs_file s)"
        "if_pos (cs_file s1) = if_pos (cs_file s) + length (pb_record d x)" "(cs_rst s1, cs_user s1) = g x (cs_rst s, cs_user s)"
      by auto
    have d: "drop (if_pos (cs_file s1)) (if_data (cs_file s1)) = take (k - length (pb_record d x)) (pb_records d xs)"
      using arg_cong [OF Cons.prems(2), of "drop (length (pb_record d x))"] s1(2,3)
      by (simp add: drop_take add.commute del: take_append length_pb_record)
    have ok: "\<forall>x \<in> set xs. desc_ok d x"
      using Cons.prems(1) by simp
    have "k - length (pb_record d x) \<le> length (pb_records d xs)" "k - length (pb_record d x) < m"
      using Cons.prems(3,4) True n by auto
    from Cons.IH [OF ok d this] obtain j s' where j: "j \<le> length xs"
        "collect_loop m E M junk ci s1 = Inr (if k - length (pb_record d x) = length (pb_records d (take j xs)) then 0 else -1, s')"
        "(cs_rst s', cs_user s') = fold g (take j xs) (cs_rst s1, cs_user s1)"
        "length (pb_records d (take j xs)) \<le> k - length (pb_record d x)"
        "j < length xs \<longrightarrow> k - length (pb_record d x) < length (pb_records d (take (Suc j) xs))"
      by blast
    have "k = length (pb_records d (take (Suc j) (x # xs))) \<longleftrightarrow> k - length (pb_record d x) = length (pb_records d (take j xs))"
      using True by auto
    then show ?thesis
      using j True s1(1,4) by (intro exI [of _ "Suc j"] exI [of _ s']) (auto simp: n simp del: length_pb_record)
  qed
qed

lemma collect_image_prefix:
  assumes "io_ok E" "collects ci g" "pb_type ci = Some d" "\<forall>x \<in> set xs. desc_ok d x"
    and "drop (if_pos f) (if_data f) = take k (pb_records d xs)" "k \<le> length (pb_records d xs)"
  shows "\<exists>j. j \<le> length xs
     \<and> collect_image E M junk ci (Img f) r u = Inr (if k = length (pb_records d (take j xs)) then 0 else -1, fold g (take j xs) (r, u))
     \<and> length (pb_records d (take j xs)) \<le> k \<and> (j < length xs \<longrightarrow> k < length (pb_records d (take (Suc j) xs)))"
proof -
  let ?s = "\<lparr>cs_file = f, cs_rst = r, cs_user = u\<rparr>"
  have "length (if_data f) - if_pos f = k"
    using arg_cong [OF assms(5), of length] assms(6) by (simp add: min_absorb1 del: length_concat)
  then have "drop (if_pos (cs_file ?s)) (if_data (cs_file ?s)) = take k (pb_records d xs)" "k < Suc (length (if_data f))"
    using assms(5) by auto
  from collect_loop_prefix [OF assms(1-4) this(1) assms(6) this(2), of M junk] obtain j s' where
    "j \<le> length xs" "(cs_rst s', cs_user s') = fold g (take j xs) (r, u)" 
    "collect_loop (Suc (length (if_data f))) E M junk ci ?s = Inr (if k = length (pb_records d (take j xs)) then 0 else -1, s')"
    "length (pb_records d (take j xs)) \<le> k \<and> (j < length xs \<longrightarrow> k < length (pb_records d (take (Suc j) xs)))"
    by auto
  then show ?thesis
    by (intro exI [of _ j]) (simp add: collect_image_def)
qed

lemma collect_image_all:
  assumes "io_ok E" "collects ci g" "pb_type ci = Some d" "\<forall>x \<in> set xs. desc_ok d x" "drop (if_pos f) (if_data f) = pb_records d xs"
  shows "collect_image E M junk ci (Img f) r u = Inr (0, fold g xs (r, u))"
proof -
  obtain j where j: "j \<le> length xs" "collect_image E M junk ci (Img f) r u =
      Inr (if length (pb_records d xs) = length (pb_records d (take j xs)) then 0 else -1, fold g (take j xs) (r, u))"
    "j < length xs \<longrightarrow> length (pb_records d xs) < length (pb_records d (take (Suc j) xs))"
    using collect_image_prefix [OF assms(1-4), of f "length (pb_records d xs)" M junk r u] assms(5) by auto
  then have "j = length xs"
    using length_pb_records_take [of d "Suc j" xs] by linarith
  then show ?thesis
    using j(2) by simp
qed

text \<open>C35: What a dump writes, a restore collects. When every record of a list of objects was written
  with success reported, whatever the kernel did meanwhile, then collecting the image, with no call
  failing and a callback that accepts every object, returns 0 and has
  handed exactly these objects to the callback, in order, each once; and when no system call fails
  and no write is short, writing does report success. Packing and unpacking are assumed inverse to
  each other.\<close>

theorem pb_collect_roundtrip:
  assumes "\<forall>x \<in> set xs. desc_ok d x" "pb_type ci = Some d" "collects ci g" "io_ok E'"
    and "f0 = \<lparr>if_data = [], if_pos = 0, if_tick = 0\<rparr>"
  shows "(io_ok E \<longrightarrow> fst (pb_write_all E (Some d) xs f0) = 0)
     \<and> (\<forall>f. pb_write_all E (Some d) xs f0 = (0, f) \<longrightarrow>
         collect_image E' M junk ci (Img (f\<lparr>if_pos := 0\<rparr>)) r u = Inr (0, fold g xs (r, u)))"
proof (intro conjI impI allI)
  show "fst (pb_write_all E (Some d) xs f0) = 0" if "io_ok E"
    using pb_write_all_ret [OF that assms(1)] .
next
  fix f
  assume "pb_write_all E (Some d) xs f0 = (0, f)"
  from pb_write_all_success [OF assms(1) _ this] have d: "if_data f = pb_records d xs"
    using assms(5) by simp
  show "collect_image E' M junk ci (Img (f\<lparr>if_pos := 0\<rparr>)) r u = Inr (0, fold g xs (r, u))"
    by (rule collect_image_all [OF assms(4,3,2,1)]) (simp add: d)
qed

definition ex_io :: io_env where
  "ex_io = \<lparr>io_read = (\<lambda>_. True), io_write = (\<lambda>_ n. int n), io_malloc = (\<lambda>t. 4096 + 64 * t)\<rparr>"

definition ex_desc :: "byte pb_desc" where
  "ex_desc = \<lparr>getpksize = (\<lambda>_. 1), pack = (\<lambda>b. [b]), unpack = (\<lambda>bs. case bs of [b] \<Rightarrow> Some b | _ \<Rightarrow> None)\<rparr>"

definition ex_cinfo :: "(byte, byte list) collect_image_info" where
  "ex_cinfo = \<lparr>pb_type = Some ex_desc, ci_priv_size = 16, collect = (\<lambda>p m (r, u). (0, r, u @ [m])), collect_shared = False, collect_optional = True\<rparr>"

definition ex_add :: "byte \<Rightarrow> rst_state \<times> byte list \<Rightarrow> rst_state \<times> byte list" where
  "ex_add m x = (fst x, snd x @ [m])"

lemma ex_collect_ok: "\<forall>x \<in> set xs. desc_ok ex_desc x" "pb_type ex_cinfo = Some ex_desc" "collects ex_cinfo ex_add" "io_ok ex_io"
  by (auto simp: desc_ok_def ex_desc_def ex_cinfo_def collects_def ex_add_def io_ok_def ex_io_def MAX_RW_COUNT_def)

theorem pb_collect_roundtrip_witness:
  "\<exists>f. pb_write_all ex_io (Some ex_desc) [7, 8] \<lparr>if_data = [], if_pos = 0, if_tick = 0\<rparr> = (0, f)
     \<and> collect_image ex_io ex_mm_env 99 ex_cinfo (Img (f\<lparr>if_pos := 0\<rparr>)) ex_rst_state [] = Inr (0, ex_rst_state, [7, 8])"
  using pb_collect_roundtrip [OF ex_collect_ok refl, of ex_io "[7, 8]" ex_mm_env 99 ex_rst_state "[]"] ex_collect_ok(4)
  by (cases "pb_write_all ex_io (Some ex_desc) [7, 8] \<lparr>if_data = [], if_pos = 0, if_tick = 0\<rparr>") (simp add: ex_add_def)

text \<open>C36: A truncated image never yields an object that was not written. Cut after any number of bytes,
  collecting, with no call failing, a callback that accepts every object and unpacking the inverse of packing,
  hands over exactly the objects whose records are whole, and returns 0 only when the
  cut is between two records, -1 otherwise.\<close>

theorem pb_truncated_image:
  assumes "io_ok E" "collects ci g" "pb_type ci = Some d" "\<forall>x \<in> set xs. desc_ok d x" "k \<le> length (pb_records d xs)"
  shows "\<exists>j. j \<le> length xs
     \<and> collect_image E M junk ci (Img \<lparr>if_data = take k (pb_records d xs), if_pos = 0, if_tick = t\<rparr>) r u
         = Inr (if k = length (pb_records d (take j xs)) then 0 else -1, fold g (take j xs) (r, u))
     \<and> length (pb_records d (take j xs)) \<le> k \<and> (j < length xs \<longrightarrow> k < length (pb_records d (take (Suc j) xs)))"
  using assms by (intro collect_image_prefix) auto

theorem pb_truncated_image_witness:
  "\<exists>j. j \<le> 2 \<and> collect_image ex_io ex_mm_env 99 ex_cinfo (Img \<lparr>if_data = take 7 (pb_records ex_desc [7, 8]), if_pos = 0, if_tick = 0\<rparr>) ex_rst_state []
     = Inr (-1, fold ex_add (take j [7, 8]) (ex_rst_state, [])) \<and> j = 1"
proof -
  have l: "length (pack ex_desc b) = 1" for b
    by (simp add: ex_desc_def)
  then have "7 \<le> length (pb_records ex_desc [7, 8])"
    by simp
  from pb_truncated_image [OF ex_collect_ok(4,3,2,1) this, of ex_mm_env 99 0 ex_rst_state "[]"] obtain j where
    j: "j \<le> length [7::byte, 8]" "collect_image ex_io ex_mm_env 99 ex_cinfo (Img \<lparr>if_data = take 7 (pb_records ex_desc [7, 8]), if_pos = 0, if_tick = 0\<rparr>) ex_rst_state []
     = Inr (if 7 = length (pb_records ex_desc (take j [7, 8])) then 0 else -1, fold ex_add (take j [7, 8]) (ex_rst_state, []))"
    "length (pb_records ex_desc (take j [7, 8])) \<le> 7" "j < length [7::byte, 8] \<longrightarrow> 7 < length (pb_records ex_desc (take (Suc j) [7, 8]))"
    by blast
  have "j = 1"
    using j(1,3,4) l by (cases j; cases "j - 1") auto
  then show ?thesis
    using j(2) l by (intro exI [of _ 1]) auto
qed

text \<open>C37: A failed read of a record's size goes unnoticed: the comparison with the size of the header
  is unsigned, so -1 passes it, and the record is read with whatever length the stack held. When the
  bytes found that way unpack, the caller gets an object and a return value of 1 instead of an
  error.\<close>

theorem pb_header_error_unnoticed:
  assumes "\<not> io_read E (if_tick f)" "io_read E (Suc (if_tick f))" "junk \<le> PB_PKOBJ_LOCAL_SIZE"
    and "if_pos f + junk \<le> length (if_data f)" "unpack d (take junk (drop (if_pos f) (if_data f))) = Some x"
  shows "\<exists>f'. do_pb_read_one E junk (Some d) eof f = (1, Some x, f')"
proof -
  have "min junk MAX_RW_COUNT = junk"
    using assms(3) by (simp add: PB_PKOBJ_LOCAL_SIZE_def MAX_RW_COUNT_def)
  then show ?thesis
    using assms by (auto simp: do_pb_read_one_def pb_read_body_def sys_read_def Let_def)
qed

theorem pb_header_error_unnoticed_witness:
  "\<exists>f'. do_pb_read_one (ex_io\<lparr>io_read := (\<lambda>t. t \<noteq> 0)\<rparr>) 1 (Some ex_desc) True \<lparr>if_data = pb_record ex_desc 5, if_pos = 0, if_tick = 0\<rparr>
     = (1, Some 1, f')"
proof -
  have "le_bytes 4 1 = [1, 0, 0, 0]"
    by code_simp
  then have "pb_record ex_desc 5 = [1, 0, 0, 0, 5]"
    by (simp add: pb_record_def ex_desc_def)
  then show ?thesis
    by (intro pb_header_error_unnoticed [of _ "\<lparr>if_data = pb_record ex_desc 5, if_pos = 0, if_tick = 0\<rparr>" 1 ex_desc 1 True])
      (simp_all add: PB_PKOBJ_LOCAL_SIZE_def ex_desc_def)
qed

end
