(* ===== verification/ImageSet.thy ===== *)
theory ImageSet
  imports PbImage
begin

text \<open>
  The files of an image directory: the table of image types with their names and magic numbers
  (image-desc.c, include/image-desc.h, include/magic.h), opening an image for dump or restore, sets
  of open images, the inventory and the numbering of pages images (image.c, include/fdset.h).

  A directory descriptor and a name lead to an inode, an inode holds bytes, and a descriptor is a
  place in an inode; a new descriptor is the lowest free one. Which calls the kernel refuses is given
  by functions of the number of calls made so far.
\<close>

section \<open>Image types\<close>

datatype (plugins only: code) fd_type =
    FD_INVENTORY | FD_STATS | M_TASK_FROM | FD_FILE_LOCKS | FD_CORE | FD_IDS
  | FD_MM | FD_VMAS | FD_SIGACT | FD_ITIMERS | FD_POSIX_TIMERS | FD_CREDS
  | FD_FS | FD_RLIMIT | FD_SIGNAL | M_TASK_TO | FD_PAGEMAP | FD_UTSNS
  | FD_MNTS | M_IPCNS_FROM | FD_IPC_VAR | FD_IPCNS_SHM | FD_IPCNS_MSG | FD_IPCNS_SEM
  | M_IPCNS_TO | M_NETNS_FROM | FD_NETDEV | FD_IFADDR | FD_ROUTE | FD_IPTABLES
  | M_NETNS_TO | FD_PSTREE | FD_SHMEM_PAGEMAP | FD_GHOST_FILE | FD_TCP_STREAM | FD_FDINFO
  | M_GLOB_FROM | FD_SK_QUEUES | FD_REG_FILES | FD_EXT_FILES | FD_NS_FILES | FD_INETSK
  | FD_UNIXSK | FD_PACKETSK | FD_NETLINK_SK | FD_PIPES | FD_PIPES_DATA | FD_FIFO
  | FD_FIFO_DATA | FD_TTY_FILES | FD_TTY_INFO | FD_REMAP_FPATH | FD_EVENTFD_FILE | FD_EVENTPOLL_FILE
  | FD_EVENTPOLL_TFD | FD_SIGNALFD | FD_INOTIFY_FILE | FD_INOTIFY_WD | FD_FANOTIFY_FILE | FD_FANOTIFY_MARK
  | FD_TUNFILE | M_GLOB_TO | FD_TMPFS | FD_PAGES | FD_PSIGNAL | FD_PAGES_OLD
  | FD_SHM_PAGES_OLD | FD_MAX

definition cr_fd_enum :: "fd_type list" where
  "cr_fd_enum =
    [FD_INVENTORY, FD_STATS, M_TASK_FROM, FD_FILE_LOCKS, FD_CORE, FD_IDS, FD_MM, FD_VMAS,
     FD_SIGACT, FD_ITIMERS, FD_POSIX_TIMERS, FD_CREDS, FD_FS, FD_RLIMIT, FD_SIGNAL, M_TASK_TO,
     FD_PAGEMAP, FD_UTSNS, FD_MNTS, M_IPCNS_FROM, FD_IPC_VAR, FD_IPCNS_SHM, FD_IPCNS_MSG, FD_IPCNS_SEM,
     M_IPCNS_TO, M_NETNS_FROM, FD_NETDEV, FD_IFADDR, FD_ROUTE, FD_IPTABLES, M_NETNS_TO, FD_PSTREE,
     FD_SHMEM_PAGEMAP, FD_GHOST_FILE, FD_TCP_STREAM, FD_FDINFO, M_GLOB_FROM, FD_SK_QUEUES, FD_REG_FILES, FD_EXT_FILES,
     FD_NS_FILES, FD_INETSK, FD_UNIXSK, FD_PACKETSK, FD_NETLINK_SK, FD_PIPES, FD_PIPES_DATA, FD_FIFO,
     FD_FIFO_DATA, FD_TTY_FILES, FD_TTY_INFO, FD_REMAP_FPATH, FD_EVENTFD_FILE, FD_EVENTPOLL_FILE, FD_EVENTPOLL_TFD, FD_SIGNALFD,
     FD_INOTIFY_FILE, FD_INOTIFY_WD, FD_FANOTIFY_FILE, FD_FANOTIFY_MARK, FD_TUNFILE, M_GLOB_TO, FD_TMPFS, FD_PAGES,
     FD_PSIGNAL, FD_PAGES_OLD, FD_SHM_PAGES_OLD, FD_MAX]"

definition type_nr :: "fd_type \<Rightarrow> nat" where
  "type_nr t = length (takeWhile (\<lambda>x. x \<noteq> t) cr_fd_enum)"

definition RAW_IMAGE_MAGIC :: nat where
  "RAW_IMAGE_MAGIC = 0"

primrec image_magic :: "fd_type \<Rightarrow> nat" where
  "image_magic FD_INVENTORY = 0x58313116"
| "image_magic FD_STATS = 0x57093306"
| "image_magic M_TASK_FROM = 0"
| "image_magic FD_FILE_LOCKS = 0x54323616"
| "image_magic FD_CORE = 0x55053847"
| "image_magic FD_IDS = 0x54432030"
| "image_magic FD_MM = 0x57492820"
| "image_magic FD_VMAS = 0x54123737"
| "image_magic FD_SIGACT = 0x55344201"
| "image_magic FD_ITIMERS = 0x57464056"
| "image_magic FD_POSIX_TIMERS = 0x52603957"
| "image_magic FD_CREDS = 0x54023547"
| "image_magic FD_FS = 0x51403912"
| "image_magic FD_RLIMIT = 0x57113925"
| "image_magic FD_SIGNAL = 0x59255647"
| "image_magic M_TASK_TO = 0"
| "image_magic FD_PAGEMAP = 0x56084025"
| "image_magic FD_UTSNS = 0x54473203"
| "image_magic FD_MNTS = 0x55563928"
| "image_magic M_IPCNS_FROM = 0"
| "image_magic FD_IPC_VAR = 0x53115007"
| "image_magic FD_IPCNS_SHM = 0x46283044"
| "image_magic FD_IPCNS_MSG = 0x55453737"
| "image_magic FD_IPCNS_SEM = 0x59573019"
| "image_magic M_IPCNS_TO = 0"
| "image_magic M_NETNS_FROM = 0"
| "image_magic FD_NETDEV = 0x57373951"
| "image_magic FD_IFADDR = RAW_IMAGE_MAGIC"
| "image_magic FD_ROUTE = RAW_IMAGE_MAGIC"
| "image_magic FD_IPTABLES = RAW_IMAGE_MAGIC"
| "image_magic M_NETNS_TO = 0"
| "image_magic FD_PSTREE = 0x50273030"
| "image_magic FD_SHMEM_PAGEMAP = 0x56084025"
| "image_magic FD_GHOST_FILE = 0x52583605"
| "image_magic FD_TCP_STREAM = 0x51465506"
| "image_magic FD_FDINFO = 0x56213732"
| "image_magic M_GLOB_FROM = 0"
| "image_magic FD_SK_QUEUES = 0x56264026"
| "image_magic FD_REG_FILES = 0x50363636"
| "image_magic FD_EXT_FILES = 0x59255641"
| "image_magic FD_NS_FILES = 0x61394011"
| "image_magic FD_INETSK = 0x56443851"
| "image_magic FD_UNIXSK = 0x54373943"
| "image_magic FD_PACKETSK = 0x60454618"
| "image_magic FD_NETLINK_SK = 0x58005614"
| "image_magic FD_PIPES = 0x56513555"
| "image_magic FD_PIPES_DATA = 0x56453709"
| "image_magic FD_FIFO = 0x58364939"
| "image_magic FD_FIFO_DATA = 0x59333054"
| "image_magic FD_TTY_FILES = 0x59433025"
| "image_magic FD_TTY_INFO = 0x59453036"
| "image_magic FD_REMAP_FPATH = 0x59133954"
| "image_magic FD_EVENTFD_FILE = 0x44523722"
| "image_magic FD_EVENTPOLL_FILE = 0x45023858"
| "image_magic FD_EVENTPOLL_TFD = 0x44433746"
| "image_magic FD_SIGNALFD = 0x57323820"
| "image_magic FD_INOTIFY_FILE = 0x48424431"
| "image_magic FD_INOTIFY_WD = 0x54562009"
| "image_magic FD_FANOTIFY_FILE = 0x55096122"
| "image_magic FD_FANOTIFY_MARK = 0x56506035"
| "image_magic FD_TUNFILE = 0x57143751"
| "image_magic M_GLOB_TO = 0"
| "image_magic FD_TMPFS = RAW_IMAGE_MAGIC"
| "image_magic FD_PAGES = RAW_IMAGE_MAGIC"
| "image_magic FD_PSIGNAL = 0x59255647"
| "image_magic FD_PAGES_OLD = 0x56084025"
| "image_magic FD_SHM_PAGES_OLD = 0x56084025"
| "image_magic FD_MAX = 0"

record cr_fd_desc_tmpl =
  fmt :: string
  magic :: nat

definition FD_ENTRY :: "string \<Rightarrow> nat \<Rightarrow> cr_fd_desc_tmpl" where
  "FD_ENTRY f m = \<lparr>fmt = f @ ''.img'', magic = m\<rparr>"

primrec fdset_template :: "fd_type \<Rightarrow> cr_fd_desc_tmpl" where
  "fdset_template FD_INVENTORY = FD_ENTRY ''inventory'' (image_magic FD_INVENTORY)"
| "fdset_template FD_STATS = \<lparr>fmt = ''stats-%s'', magic = image_magic FD_STATS\<rparr>"
| "fdset_template M_TASK_FROM = \<lparr>fmt = '''', magic = 0\<rparr>"
| "fdset_template FD_FILE_LOCKS = FD_ENTRY ''filelocks-%d'' (image_magic FD_FILE_LOCKS)"
| "fdset_template FD_CORE = FD_ENTRY ''core-%d'' (image_magic FD_CORE)"
| "fdset_template FD_IDS = FD_ENTRY ''ids-%d'' (image_magic FD_IDS)"
| "fdset_template FD_MM = FD_ENTRY ''mm-%d'' (image_magic FD_MM)"
| "fdset_template FD_VMAS = FD_ENTRY ''vmas-%d'' (image_magic FD_VMAS)"
| "fdset_template FD_SIGACT = FD_ENTRY ''sigacts-%d'' (image_magic FD_SIGACT)"
| "fdset_template FD_ITIMERS = FD_ENTRY ''itimers-%d'' (image_magic FD_ITIMERS)"
| "fdset_template FD_POSIX_TIMERS = FD_ENTRY ''posix-timers-%d'' (image_magic FD_POSIX_TIMERS)"
| "fdset_template FD_CREDS = FD_ENTRY ''creds-%d'' (image_magic FD_CREDS)"
| "fdset_template FD_FS = FD_ENTRY ''fs-%d'' (image_magic FD_FS)"
| "fdset_template FD_RLIMIT = FD_ENTRY ''rlimit-%d'' (image_magic FD_RLIMIT)"
| "fdset_template FD_SIGNAL = FD_ENTRY ''signal-s-%d'' (image_magic FD_SIGNAL)"
| "fdset_template M_TASK_TO = \<lparr>fmt = '''', magic = 0\<rparr>"
| "fdset_template FD_PAGEMAP = FD_ENTRY ''pagemap-%ld'' (image_magic FD_PAGEMAP)"
| "fdset_template FD_UTSNS = FD_ENTRY ''utsns-%d'' (image_magic FD_UTSNS)"
| "fdset_template FD_MNTS = FD_ENTRY ''mountpoints-%d'' (image_magic FD_MNTS)"
| "fdset_template M_IPCNS_FROM = \<lparr>fmt = '''', magic = 0\<rparr>"
| "fdset_template FD_IPC_VAR = FD_ENTRY ''ipcns-var-%d'' (image_magic FD_IPC_VAR)"
| "fdset_template FD_IPCNS_SHM = FD_ENTRY ''ipcns-shm-%d'' (image_magic FD_IPCNS_SHM)"
| "fdset_template FD_IPCNS_MSG = FD_ENTRY ''ipcns-msg-%d'' (image_magic FD_IPCNS_MSG)"
| "fdset_template FD_IPCNS_SEM = FD_ENTRY ''ipcns-sem-%d'' (image_magic FD_IPCNS_SEM)"
| "fdset_template M_IPCNS_TO = \<lparr>fmt = '''', magic = 0\<rparr>"
| "fdset_template M_NETNS_FROM = \<lparr>fmt = '''', magic = 0\<rparr>"
| "fdset_template FD_NETDEV = FD_ENTRY ''netdev-%d'' (image_magic FD_NETDEV)"
| "fdset_template FD_IFADDR = FD_ENTRY ''ifaddr-%d'' (image_magic FD_IFADDR)"
| "fdset_template FD_ROUTE = FD_ENTRY ''route-%d'' (image_magic FD_ROUTE)"
| "fdset_template FD_IPTABLES = FD_ENTRY ''iptables-%d'' (image_magic FD_IPTABLES)"
| "fdset_template M_NETNS_TO = \<lparr>fmt = '''', magic = 0\<rparr>"
| "fdset_template FD_PSTREE = FD_ENTRY ''pstree'' (image_magic FD_PSTREE)"
| "fdset_template FD_SHMEM_PAGEMAP = FD_ENTRY ''pagemap-shmem-%ld'' (image_magic FD_SHMEM_PAGEMAP)"
| "fdset_template FD_GHOST_FILE = FD_ENTRY ''ghost-file-%x'' (image_magic FD_GHOST_FILE)"
| "fdset_template FD_TCP_STREAM = FD_ENTRY ''tcp-stream-%x'' (image_magic FD_TCP_STREAM)"
| "fdset_template FD_FDINFO = FD_ENTRY ''fdinfo-%d'' (image_magic FD_FDINFO)"
| "fdset_template M_GLOB_FROM = \<lparr>fmt = '''', magic = 0\<rparr>"
| "fdset_template FD_SK_QUEUES = FD_ENTRY ''sk-queues'' (image_magic FD_SK_QUEUES)"
| "fdset_template FD_REG_FILES = FD_ENTRY ''reg-files'' (image_magic FD_REG_FILES)"
| "fdset_template FD_EXT_FILES = FD_ENTRY ''ext-files'' (image_magic FD_EXT_FILES)"
| "fdset_template FD_NS_FILES = FD_ENTRY ''ns-files'' (image_magic FD_NS_FILES)"
| "fdset_template FD_INETSK = FD_ENTRY ''inetsk'' (image_magic FD_INETSK)"
| "fdset_template FD_UNIXSK = FD_ENTRY ''unixsk'' (image_magic FD_UNIXSK)"
| "fdset_template FD_PACKETSK = FD_ENTRY ''packetsk'' (image_magic FD_PACKETSK)"
| "fdset_template FD_NETLINK_SK = FD_ENTRY ''netlinksk'' (image_magic FD_NETLINK_SK)"
| "fdset_template FD_PIPES = FD_ENTRY ''pipes'' (image_magic FD_PIPES)"
| "fdset_template FD_PIPES_DATA = FD_ENTRY ''pipes-data'' (image_magic FD_PIPES_DATA)"
| "fdset_template FD_FIFO = FD_ENTRY ''fifo'' (image_magic FD_FIFO)"
| "fdset_template FD_FIFO_DATA = FD_ENTRY ''fifo-data'' (image_magic FD_FIFO_DATA)"
| "fdset_template FD_TTY_FILES = FD_ENTRY ''tty'' (image_magic FD_TTY_FILES)"
| "fdset_template FD_TTY_INFO = FD_ENTRY ''tty-info'' (image_magic FD_TTY_INFO)"
| "fdset_template FD_REMAP_FPATH = FD_ENTRY ''remap-fpath'' (image_magic FD_REMAP_FPATH)"
| "fdset_template FD_EVENTFD_FILE = FD_ENTRY ''eventfd'' (image_magic FD_EVENTFD_FILE)"
| "fdset_template FD_EVENTPOLL_FILE = FD_ENTRY ''eventpoll'' (image_magic FD_EVENTPOLL_FILE)"
| "fdset_template FD_EVENTPOLL_TFD = FD_ENTRY ''eventpoll-tfd'' (image_magic FD_EVENTPOLL_TFD)"
| "fdset_template FD_SIGNALFD = FD_ENTRY ''signalfd'' (image_magic FD_SIGNALFD)"
| "fdset_template FD_INOTIFY_FILE = FD_ENTRY ''inotify'' (image_magic FD_INOTIFY_FILE)"
| "fdset_template FD_INOTIFY_WD = FD_ENTRY ''inotify-wd'' (image_magic FD_INOTIFY_WD)"
| "fdset_template FD_FANOTIFY_FILE = FD_ENTRY ''fanotify'' (image_magic FD_FANOTIFY_FILE)"
| "fdset_template FD_FANOTIFY_MARK = FD_ENTRY ''fanotify-mark'' (image_magic FD_FANOTIFY_MARK)"
| "fdset_template FD_TUNFILE = FD_ENTRY ''tunfile'' (image_magic FD_TUNFILE)"
| "fdset_template M_GLOB_TO = \<lparr>fmt = '''', magic = 0\<rparr>"
| "fdset_template FD_TMPFS = FD_ENTRY ''tmpfs-%d.tar.gz'' (image_magic FD_TMPFS)"
| "fdset_template FD_PAGES = FD_ENTRY ''pages-%u'' (image_magic FD_PAGES)"
| "fdset_template FD_PSIGNAL = FD_ENTRY ''signal-p-%d'' (image_magic FD_PSIGNAL)"
| "fdset_template FD_PAGES_OLD = FD_ENTRY ''pages-%d'' (image_magic FD_PAGES_OLD)"
| "fdset_template FD_SHM_PAGES_OLD = FD_ENTRY ''pages-shmem-%ld'' (image_magic FD_SHM_PAGES_OLD)"
| "fdset_template FD_MAX = \<lparr>fmt = '''', magic = 0\<rparr>"

section \<open>Names\<close>

datatype va_arg = VInt int | VStr string

definition digit_char :: "nat \<Rightarrow> char" where
  "digit_char d = (if d < 10 then char_of (48 + d) else char_of (87 + d))"

fun show_base :: "nat \<Rightarrow> nat \<Rightarrow> string" where
  "show_base b n = (if b < 2 \<or> n < b then [digit_char n] else show_base b (n div b) @ [digit_char (n mod b)])"

declare show_base.simps [simp del]

definition show_int :: "int \<Rightarrow> string" where
  "show_int i = (if i < 0 then CHR ''-'' # show_base 10 (nat (- i)) else show_base 10 (nat i))"

text \<open>
  One conversion reads its argument at a width of 32 bits, or of 64 after the letter l: %d as a
  signed number, so that an id from \<open>2 ^ 31\<close> on is printed as a negative one, %u and %x as unsigned.
\<close>

definition show_conv :: "nat \<Rightarrow> char \<Rightarrow> va_arg \<Rightarrow> string" where
  "show_conv w c a = (case a of
       VStr s \<Rightarrow> s
     | VInt i \<Rightarrow>
         if c = CHR ''d'' then show_int (signed_take_bit (w - 1) i)
         else show_base (if c = CHR ''x'' then 16 else 10) (nat (take_bit w i)))"

text \<open>
  \<^verbatim>\<open>vsnprintf\<close> for the conversions the names use: %d, %ld, %u, %x and %s. The state is \<open>None\<close> in plain
  text, and the width of the argument once a percent sign was read.
\<close>

primrec vformat :: "string \<Rightarrow> nat option \<Rightarrow> va_arg list \<Rightarrow> string" where
  "vformat [] m args = []"
| "vformat (c # cs) m args =
     (case m of
        Some w \<Rightarrow> if c = CHR ''l'' then vformat cs (Some 64) args
                  else (case args of [] \<Rightarrow> [] | a # _ \<Rightarrow> show_conv w c a) @ vformat cs None (tl args)
      | None \<Rightarrow> if c = CHR ''%'' then vformat cs (Some 32) args else c # vformat cs None args)"

definition PATH_MAX :: nat where
  "PATH_MAX = 4096"

definition image_path :: "fd_type \<Rightarrow> va_arg list \<Rightarrow> string" where
  "image_path t args = take (PATH_MAX - 1) (vformat (fmt (fdset_template t)) None args)"

section \<open>The file system\<close>

record open_flags =
  o_rdwr :: bool
  o_creat :: bool
  o_excl :: bool

definition O_DUMP :: open_flags where
  "O_DUMP = \<lparr>o_rdwr = True, o_creat = True, o_excl = True\<rparr>"

definition O_RSTR :: open_flags where
  "O_RSTR = \<lparr>o_rdwr = False, o_creat = False, o_excl = False\<rparr>"

definition O_RDWR :: open_flags where
  "O_RDWR = \<lparr>o_rdwr = True, o_creat = False, o_excl = False\<rparr>"

datatype errno = ENOENT | EEXIST | EBADF | EOTHER

record img_fs =
  fs_dir :: "nat \<times> string \<Rightarrow> nat option"
  fs_ino :: "nat \<Rightarrow> byte list"
  fs_inos :: nat
  fs_fds :: "(nat \<times> nat) option list"
  fs_tick :: nat
  fs_errno :: errno

record fs_env =
  k_unlink :: "nat \<Rightarrow> bool"
  k_open :: "nat \<Rightarrow> bool"
  k_close :: "nat \<Rightarrow> bool"
  k_io :: io_env

definition fd_get :: "(nat \<times> nat) option list \<Rightarrow> nat \<Rightarrow> (nat \<times> nat) option" where
  "fd_get l fd = (if fd < length l then l ! fd else None)"

definition free_fd :: "(nat \<times> nat) option list \<Rightarrow> nat" where
  "free_fd l = length (takeWhile (\<lambda>x. x \<noteq> None) l)"

definition fd_put :: "(nat \<times> nat) option list \<Rightarrow> nat \<Rightarrow> (nat \<times> nat) option \<Rightarrow> (nat \<times> nat) option list" where
  "fd_put l fd v = (if fd < length l then l[fd := v] else l @ [v])"

definition sys_unlinkat :: "fs_env \<Rightarrow> nat \<Rightarrow> string \<Rightarrow> img_fs \<Rightarrow> int \<times> img_fs" where
  "sys_unlinkat E dfd path s =
     (let s' = s\<lparr>fs_tick := Suc (fs_tick s)\<rparr> in
      if \<not> k_unlink E (fs_tick s) then (-1, s'\<lparr>fs_errno := EOTHER\<rparr>)
      else if fs_dir s (dfd, path) = None then (-1, s'\<lparr>fs_errno := ENOENT\<rparr>)
      else (0, s'\<lparr>fs_dir := (fs_dir s)((dfd, path) := None)\<rparr>))"

definition sys_openat :: "fs_env \<Rightarrow> nat \<Rightarrow> string \<Rightarrow> open_flags \<Rightarrow> img_fs \<Rightarrow> int \<times> img_fs" where
  "sys_openat E dfd path flags s =
     (let s' = s\<lparr>fs_tick := Suc (fs_tick s)\<rparr>; fd = free_fd (fs_fds s) in
      if \<not> k_open E (fs_tick s) then (-1, s'\<lparr>fs_errno := EOTHER\<rparr>)
      else case fs_dir s (dfd, path) of
        None \<Rightarrow> if \<not> o_creat flags then (-1, s'\<lparr>fs_errno := ENOENT\<rparr>)
                else (int fd, s'\<lparr>fs_dir := (fs_dir s)((dfd, path) \<mapsto> fs_inos s), fs_ino := (fs_ino s)(fs_inos s := []),
                                 fs_inos := Suc (fs_inos s), fs_fds := fd_put (fs_fds s) fd (Some (fs_inos s, 0))\<rparr>)
      | Some i \<Rightarrow> if o_creat flags \<and> o_excl flags then (-1, s'\<lparr>fs_errno := EEXIST\<rparr>)
                  else (int fd, s'\<lparr>fs_fds := fd_put (fs_fds s) fd (Some (i, 0))\<rparr>))"

definition sys_close :: "fs_env \<Rightarrow> int \<Rightarrow> img_fs \<Rightarrow> int \<times> img_fs" where
  "sys_close E fd s =
     (let s' = s\<lparr>fs_tick := Suc (fs_tick s)\<rparr> in
      if fd < 0 \<or> fd_get (fs_fds s) (nat fd) = None then (-1, s'\<lparr>fs_errno := EBADF\<rparr>)
      else if \<not> k_close E (fs_tick s) then (-1, s'\<lparr>fs_errno := EOTHER\<rparr>)
      else (0, s'\<lparr>fs_fds := (fs_fds s)[nat fd := None]\<rparr>))"

text \<open>An operation of \<open>PbImage\<close> on an open descriptor; \<open>bad\<close> is its answer to EBADF.\<close>

definition on_fd :: "'r \<Rightarrow> int \<Rightarrow> (img_file \<Rightarrow> 'r \<times> img_file) \<Rightarrow> img_fs \<Rightarrow> 'r \<times> img_fs" where
  "on_fd bad fd act s =
     (if fd < 0 then (bad, s\<lparr>fs_errno := EBADF\<rparr>)
      else case fd_get (fs_fds s) (nat fd) of
        None \<Rightarrow> (bad, s\<lparr>fs_errno := EBADF\<rparr>)
      | Some (i, p) \<Rightarrow>
          (case act \<lparr>if_data = fs_ino s i, if_pos = p, if_tick = fs_tick s\<rparr> of (r, f) \<Rightarrow>
             (r, s\<lparr>fs_ino := (fs_ino s)(i := if_data f), fs_fds := (fs_fds s)[nat fd := Some (i, if_pos f)], fs_tick := if_tick f\<rparr>)))"

section \<open>Opening an image file\<close>

definition is_rdonly :: "open_flags \<Rightarrow> bool" where
  "is_rdonly flags \<longleftrightarrow> \<not> o_rdwr flags \<and> \<not> o_creat flags \<and> \<not> o_excl flags"

definition check_magic :: "fs_env \<Rightarrow> fd_type \<Rightarrow> open_flags \<Rightarrow> int \<Rightarrow> img_fs \<Rightarrow> int \<times> img_fs" where
  "check_magic E t flags fd s =
     (let tick = fs_tick s in
      if magic (fdset_template t) = RAW_IMAGE_MAGIC then (fd, s)
      else if is_rdonly flags
      then case on_fd (-1, []) fd (\<lambda>f. case read_img_buf (k_io E) 4 f of (r, bs, f) \<Rightarrow> ((r, bs), f)) s of ((r, bs), s) \<Rightarrow>
             if r < 0 then (-1, if io_read (k_io E) tick then s else s\<lparr>fs_errno := EOTHER\<rparr>)
             else if le_val bs \<noteq> magic (fdset_template t) then (-1, s) else (fd, s)
      else case on_fd (-1) fd (write_img_buf (k_io E) (le_bytes 4 (magic (fdset_template t)))) s of (r, s) \<Rightarrow>
             if r \<noteq> 0 then (-1, if 0 \<le> io_write (k_io E) tick 4 then s else s\<lparr>fs_errno := EOTHER\<rparr>) else (fd, s))"

definition open_image_at :: "fs_env \<Rightarrow> nat \<Rightarrow> fd_type \<Rightarrow> open_flags \<Rightarrow> va_arg list \<Rightarrow> img_fs \<Rightarrow> int \<times> img_fs" where
  "open_image_at E dfd t flags args s =
     (let path = image_path t args in
      case (if o_excl flags then sys_unlinkat E dfd path s else (0, s)) of (ret, s) \<Rightarrow>
        if ret \<noteq> 0 \<and> fs_errno s \<noteq> ENOENT then (-1, s)
        else case sys_openat E dfd path flags s of (ret, s) \<Rightarrow>
          if ret < 0 then (-1, s) else check_magic E t flags ret s)"

section \<open>Sets of images\<close>

record cr_fdset =
  fd_off :: nat
  fd_nr :: nat
  fds_arr :: "int list"

definition fdset_fd :: "cr_fdset \<Rightarrow> nat \<Rightarrow> int outcome" where
  "fdset_fd x t =
     (let idx = int t - int (fd_off x) in
      if int (fd_nr x) < idx then Inl BUG
      else if idx < 0 \<or> int (length (fds_arr x)) \<le> idx then Inl UB
      else Inr (fds_arr x ! nat idx))"

definition fs_malloc :: "fs_env \<Rightarrow> img_fs \<Rightarrow> bool \<times> img_fs" where
  "fs_malloc E s = (io_malloc (k_io E) (fs_tick s) \<noteq> 0, s\<lparr>fs_tick := Suc (fs_tick s)\<rparr>)"

definition alloc_cr_fdset :: "fs_env \<Rightarrow> nat \<Rightarrow> img_fs \<Rightarrow> cr_fdset option \<times> img_fs" where
  "alloc_cr_fdset E nr s =
     (case fs_malloc E s of (ok, s) \<Rightarrow>
        if \<not> ok then (None, s)
        else case fs_malloc E s of (ok, s) \<Rightarrow>
          if \<not> ok then (None, s) else (Some \<lparr>fd_off = 0, fd_nr = nr, fds_arr = replicate nr (-1)\<rparr>, s))"

definition close_safe :: "fs_env \<Rightarrow> int \<Rightarrow> img_fs \<Rightarrow> int \<times> int \<times> img_fs" where
  "close_safe E fd s =
     (if -1 < fd then case sys_close E fd s of (ret, s) \<Rightarrow> if ret = 0 then (ret, -1, s) else (ret, fd, s)
      else (0, fd, s))"

primrec close_fds :: "fs_env \<Rightarrow> int list \<Rightarrow> img_fs \<Rightarrow> img_fs" where
  "close_fds E [] s = s"
| "close_fds E (fd # fds) s = close_fds E fds (if fd = -1 then s else snd (snd (close_safe E fd s)))"

definition close_cr_fdset :: "fs_env \<Rightarrow> cr_fdset option \<Rightarrow> img_fs \<Rightarrow> cr_fdset option \<times> img_fs" where
  "close_cr_fdset E p s =
     (case p of None \<Rightarrow> (None, s) | Some x \<Rightarrow> (None, close_fds E (take (fd_nr x) (fds_arr x)) s))"

text \<open>
  The loop of \<^verbatim>\<open>cr_fdset_open_range\<close> over the types between two markers; \<open>k\<close> counts them and the
  flag tells whether it got to the end.
\<close>

primrec open_range_loop ::
  "fs_env \<Rightarrow> nat \<Rightarrow> int \<Rightarrow> open_flags \<Rightarrow> fd_type list \<Rightarrow> nat \<Rightarrow> int list \<Rightarrow> img_fs \<Rightarrow> bool \<times> int list \<times> img_fs" where
  "open_range_loop E dfd pid flags [] k fds s = (True, fds, s)"
| "open_range_loop E dfd pid flags (t # ts) k fds s =
     (case open_image_at E dfd t flags [VInt pid] s of (ret, s) \<Rightarrow>
        if ret < 0 then (if \<not> o_creat flags then open_range_loop E dfd pid flags ts (Suc k) fds s else (False, fds, s))
        else open_range_loop E dfd pid flags ts (Suc k) (fds[k := ret]) s)"

definition cr_fdset_open_range ::
  "fs_env \<Rightarrow> nat \<Rightarrow> int \<Rightarrow> nat \<Rightarrow> nat \<Rightarrow> open_flags \<Rightarrow> img_fs \<Rightarrow> cr_fdset option \<times> img_fs" where
  "cr_fdset_open_range E dfd pid from to flags s =
     (case alloc_cr_fdset E (to - from) s of
        (None, s) \<Rightarrow> close_cr_fdset E None s
      | (Some x, s) \<Rightarrow>
          (case open_range_loop E dfd pid flags (map (\<lambda>i. cr_fd_enum ! i) [Suc from..<to]) 0 (fds_arr x) s of (ok, fds, s) \<Rightarrow>
             let x = x\<lparr>fd_off := Suc from, fds_arr := fds\<rparr> in
             if ok then (Some x, s) else close_cr_fdset E (Some x) s))"

definition cr_task_fdset_open :: "fs_env \<Rightarrow> nat \<Rightarrow> int \<Rightarrow> open_flags \<Rightarrow> img_fs \<Rightarrow> cr_fdset option \<times> img_fs" where
  "cr_task_fdset_open E dfd pid mode s = cr_fdset_open_range E dfd pid (type_nr M_TASK_FROM) (type_nr M_TASK_TO) mode s"

definition cr_glob_fdset_open :: "fs_env \<Rightarrow> nat \<Rightarrow> open_flags \<Rightarrow> img_fs \<Rightarrow> cr_fdset option \<times> img_fs" where
  "cr_glob_fdset_open E dfd mode s = cr_fdset_open_range E dfd (-1) (type_nr M_GLOB_FROM) (type_nr M_GLOB_TO) mode s"

section \<open>The inventory\<close>

record 'i inventory_entry =
  img_version :: u32
  fdinfo_per_id :: "bool option"
  ie_root_ids :: "'i option"
  ns_per_id :: "bool option"

record 'i inventory_globals =
  g_fdinfo_per_id :: bool
  g_ns_per_id :: bool
  g_root_ids :: "'i option"

definition CRTOOLS_IMAGES_V1 :: u32 where
  "CRTOOLS_IMAGES_V1 = 1"

definition pb_read_fd :: "fs_env \<Rightarrow> nat \<Rightarrow> 'o pb_desc option \<Rightarrow> int \<Rightarrow> img_fs \<Rightarrow> (int \<times> 'o option) \<times> img_fs" where
  "pb_read_fd E junk d fd s =
     on_fd (-1, None) fd (\<lambda>f. case do_pb_read_one (k_io E) junk d False f of (r, m, f) \<Rightarrow> ((r, m), f)) s"

text \<open>
  \<^verbatim>\<open>check_img_inventory\<close>. The object of a successful read is always there, so the case without one
  is the branch \<^verbatim>\<open>ret < 0\<close>.
\<close>

definition check_img_inventory ::
  "fs_env \<Rightarrow> nat \<Rightarrow> nat \<Rightarrow> 'i inventory_entry pb_desc option \<Rightarrow> img_fs \<Rightarrow> 'i inventory_globals \<Rightarrow> int \<times> img_fs \<times> 'i inventory_globals" where
  "check_img_inventory E dfd junk d s g =
     (case open_image_at E dfd FD_INVENTORY O_RSTR [] s of (fd, s) \<Rightarrow>
        if fd < 0 then (-1, s, g)
        else case pb_read_fd E junk d fd s of
          ((r, None), s) \<Rightarrow> (-1, snd (sys_close E fd s), g)
        | ((r, Some he), s) \<Rightarrow>
            (let g = g\<lparr>g_fdinfo_per_id := (fdinfo_per_id he = Some True), g_ns_per_id := (ns_per_id he = Some True)\<rparr> in
             case (if ie_root_ids he \<noteq> None then fs_malloc E s else (True, s)) of (ok, s) \<Rightarrow>
               (let g = (if ie_root_ids he \<noteq> None then g\<lparr>g_root_ids := (if ok then ie_root_ids he else None)\<rparr> else g);
                    ret = (if \<not> ok \<or> img_version he \<noteq> CRTOOLS_IMAGES_V1 then -1 else 0)
                in (ret, snd (sys_close E fd s), g))))"

definition write_img_inventory ::
  "fs_env \<Rightarrow> nat \<Rightarrow> 'i inventory_entry pb_desc option \<Rightarrow> 'i option \<Rightarrow> img_fs \<Rightarrow> int \<times> img_fs" where
  "write_img_inventory E dfd d task_ids s =
     (case open_image_at E dfd FD_INVENTORY O_DUMP [] s of (fd, s) \<Rightarrow>
        if fd < 0 then (-1, s)
        else case task_ids of
          None \<Rightarrow> (-1, snd (sys_close E fd s))
        | Some ids \<Rightarrow>
            (case on_fd (-1) fd (pb_write_one (k_io E) d
                  \<lparr>img_version = CRTOOLS_IMAGES_V1, fdinfo_per_id = Some True, ie_root_ids = Some ids, ns_per_id = Some True\<rparr>) s of (r, s) \<Rightarrow>
               if r < 0 then (-1, s) else (0, snd (sys_close E fd s))))"

definition kill_inventory :: "fs_env \<Rightarrow> nat \<Rightarrow> img_fs \<Rightarrow> img_fs" where
  "kill_inventory E dfd s = snd (sys_unlinkat E dfd (fmt (fdset_template FD_INVENTORY)) s)"

section \<open>Numbers of pages images\<close>

definition up_page_ids_base :: "nat \<Rightarrow> nat outcome" where
  "up_page_ids_base page_ids = (if page_ids \<noteq> 1 then Inl BUG else Inr (page_ids + 0x10000))"

definition open_pages_image_at ::
  "fs_env \<Rightarrow> nat \<Rightarrow> nat \<Rightarrow> nat pb_desc option \<Rightarrow> open_flags \<Rightarrow> int \<Rightarrow> nat \<Rightarrow> img_fs \<Rightarrow> int \<times> nat \<times> img_fs" where
  "open_pages_image_at E dfd junk d flags pm_fd page_ids s =
     (if is_rdonly flags \<or> flags = O_RDWR
      then case pb_read_fd E junk d pm_fd s of
          ((r, None), s) \<Rightarrow> (-1, page_ids, s)
        | ((r, Some pages_id), s) \<Rightarrow>
            (case open_image_at E dfd FD_PAGES flags [VInt (int (u32_of pages_id))] s of (fd, s) \<Rightarrow> (fd, page_ids, s))
      else case on_fd (-1) pm_fd (pb_write_one (k_io E) d (u32_of page_ids)) s of (r, s) \<Rightarrow>
          if r < 0 then (-1, Suc page_ids, s)
          else case open_image_at E dfd FD_PAGES flags [VInt (int (u32_of page_ids))] s of (fd, s) \<Rightarrow> (fd, Suc page_ids, s))"

section \<open>Collecting images\<close>

text \<open>\<^verbatim>\<open>collect_image\<close> with its \<^verbatim>\<open>open_image\<close>, and the loop of \<^verbatim>\<open>root_prepare_shared\<close> over all types.\<close>

definition opened_image :: "int \<Rightarrow> img_fs \<Rightarrow> img_file img_open" where
  "opened_image fd s =
     (if fd < 0 then ImgErr (fs_errno s = ENOENT)
      else case fd_get (fs_fds s) (nat fd) of
        None \<Rightarrow> ImgErr False
      | Some (i, p) \<Rightarrow> Img \<lparr>if_data = fs_ino s i, if_pos = p, if_tick = fs_tick s\<rparr>)"

definition collect_image_fs ::
  "fs_env \<Rightarrow> mm_env \<Rightarrow> nat \<Rightarrow> nat \<Rightarrow> fd_type \<Rightarrow> ('o, 'u) collect_image_info \<Rightarrow> img_fs \<Rightarrow> rst_state \<Rightarrow> 'u \<Rightarrow> (int \<times> img_fs \<times> rst_state \<times> 'u) outcome" where
  "collect_image_fs E M dfd junk t ci s r u =
     (case open_image_at E dfd t O_RSTR [] s of (fd, s) \<Rightarrow>
        bindF (collect_image (k_io E) M junk ci (opened_image fd s) r u) (\<lambda>(ret, x).
             Inr (ret, if fd < 0 then s else snd (sys_close E fd s), x)))"

primrec collect_all ::
  "fs_env \<Rightarrow> mm_env \<Rightarrow> nat \<Rightarrow> nat \<Rightarrow> (fd_type \<times> ('o, 'u) collect_image_info) list \<Rightarrow> img_fs \<Rightarrow> rst_state \<Rightarrow> 'u \<Rightarrow> (int \<times> img_fs \<times> rst_state \<times> 'u) outcome" where
  "collect_all E M dfd junk [] s r u = Inr (0, s, r, u)"
| "collect_all E M dfd junk (c # cs) s r u =
     bindF (collect_image_fs E M dfd junk (fst c) (snd c) s r u) (\<lambda>(ret, s, r, u).
       if ret \<noteq> 0 then Inr (-1, s, r, u) else collect_all E M dfd junk cs s r u)"

section \<open>Names are distinct\<close>

text \<open>
  The types a dump writes: all but the markers, the statistics (named by a word) and the name of
  pages images of an earlier version, which are only read.
\<close>

definition image_types :: "fd_type list" where
  "image_types =
    [FD_INVENTORY, FD_FILE_LOCKS, FD_CORE, FD_IDS, FD_MM, FD_VMAS, FD_SIGACT, FD_ITIMERS,
     FD_POSIX_TIMERS, FD_CREDS, FD_FS, FD_RLIMIT, FD_SIGNAL, FD_PAGEMAP, FD_UTSNS, FD_MNTS,
     FD_IPC_VAR, FD_IPCNS_SHM, FD_IPCNS_MSG, FD_IPCNS_SEM, FD_NETDEV, FD_IFADDR, FD_ROUTE, FD_IPTABLES,
     FD_PSTREE, FD_SHMEM_PAGEMAP, FD_GHOST_FILE, FD_TCP_STREAM, FD_FDINFO, FD_SK_QUEUES, FD_REG_FILES, FD_EXT_FILES,
     FD_NS_FILES, FD_INETSK, FD_UNIXSK, FD_PACKETSK, FD_NETLINK_SK, FD_PIPES, FD_PIPES_DATA, FD_FIFO,
     FD_FIFO_DATA, FD_TTY_FILES, FD_TTY_INFO, FD_REMAP_FPATH, FD_EVENTFD_FILE, FD_EVENTPOLL_FILE, FD_EVENTPOLL_TFD, FD_SIGNALFD,
     FD_INOTIFY_FILE, FD_INOTIFY_WD, FD_FANOTIFY_FILE, FD_FANOTIFY_MARK, FD_TUNFILE, FD_TMPFS, FD_PAGES, FD_PSIGNAL,
     FD_SHM_PAGES_OLD]"

definition is_hex :: "char \<Rightarrow> bool" where
  "is_hex c \<longleftrightarrow> c \<in> set ''0123456789abcdef''"

definition fmt_conv :: "string \<Rightarrow> char" where
  "fmt_conv f = (case dropWhile (\<lambda>c. c = CHR ''%'' \<or> c = CHR ''l'') (dropWhile (\<lambda>c. c \<noteq> CHR ''%'') f) of [] \<Rightarrow> CHR ''%'' | c # _ \<Rightarrow> c)"

definition fmt_width :: "string \<Rightarrow> nat" where
  "fmt_width f = (if take 2 (dropWhile (\<lambda>c. c \<noteq> CHR ''%'') f) = ''%l'' then 64 else 32)"

definition fmt_pre :: "string \<Rightarrow> string" where
  "fmt_pre f = takeWhile (\<lambda>c. c \<noteq> CHR ''%'') f"

definition fmt_suf :: "string \<Rightarrow> string" where
  "fmt_suf f = tl (dropWhile (\<lambda>c. c = CHR ''%'' \<or> c = CHR ''l'') (dropWhile (\<lambda>c. c \<noteq> CHR ''%'') f))"

definition takes_id :: "fd_type \<Rightarrow> bool" where
  "takes_id t \<longleftrightarrow> CHR ''%'' \<in> set (fmt (fdset_template t))"

text \<open>
  What is left of a name before its first dot when the hexadecimal digits and the hyphens at its end,
  which separate a number or are its sign, are dropped.
\<close>

definition is_num :: "char \<Rightarrow> bool" where
  "is_num c \<longleftrightarrow> is_hex c \<or> c = CHR ''-''"

definition path_stem :: "string \<Rightarrow> string" where
  "path_stem p = rev (dropWhile is_num (rev (takeWhile (\<lambda>c. c \<noteq> CHR ''.'') p)))"

definition fmt_ok :: "string \<Rightarrow> bool" where
  "fmt_ok f \<longleftrightarrow> length f < 64 \<and> (CHR ''%'' \<in> set f \<longrightarrow>
     (f = fmt_pre f @ CHR ''%'' # fmt_conv f # fmt_suf f \<and> fmt_width f = 32
      \<or> f = fmt_pre f @ CHR ''%'' # CHR ''l'' # fmt_conv f # fmt_suf f \<and> fmt_width f = 64)
     \<and> fmt_conv f \<in> set ''dux'' \<and> CHR ''.'' \<notin> set (fmt_pre f)
     \<and> CHR ''%'' \<notin> set (fmt_suf f) \<and> take 1 (fmt_suf f) = ''.'')"

definition image_fmts :: "string list" where
  "image_fmts =
    [''inventory.img'', ''filelocks-%d.img'', ''core-%d.img'', ''ids-%d.img'', ''mm-%d.img'', ''vmas-%d.img'',
     ''sigacts-%d.img'', ''itimers-%d.img'', ''posix-timers-%d.img'', ''creds-%d.img'', ''fs-%d.img'', ''rlimit-%d.img'',
     ''signal-s-%d.img'', ''pagemap-%ld.img'', ''utsns-%d.img'', ''mountpoints-%d.img'', ''ipcns-var-%d.img'', ''ipcns-shm-%d.img'',
     ''ipcns-msg-%d.img'', ''ipcns-sem-%d.img'', ''netdev-%d.img'', ''ifaddr-%d.img'', ''route-%d.img'', ''iptables-%d.img'',
     ''pstree.img'', ''pagemap-shmem-%ld.img'', ''ghost-file-%x.img'', ''tcp-stream-%x.img'', ''fdinfo-%d.img'', ''sk-queues.img'',
     ''reg-files.img'', ''ext-files.img'', ''ns-files.img'', ''inetsk.img'', ''unixsk.img'', ''packetsk.img'',
     ''netlinksk.img'', ''pipes.img'', ''pipes-data.img'', ''fifo.img'', ''fifo-data.img'', ''tty.img'',
     ''tty-info.img'', ''remap-fpath.img'', ''eventfd.img'', ''eventpoll.img'', ''eventpoll-tfd.img'', ''signalfd.img'',
     ''inotify.img'', ''inotify-wd.img'', ''fanotify.img'', ''fanotify-mark.img'', ''tunfile.img'', ''tmpfs-%d.tar.gz.img'',
     ''pages-%u.img'', ''signal-p-%d.img'', ''pages-shmem-%ld.img'']"

lemma image_types_fmts: "map (\<lambda>t. fmt (fdset_template t)) image_types = image_fmts"
  by (simp add: image_types_def image_fmts_def FD_ENTRY_def)

lemma image_fmts_ok: "list_all fmt_ok image_fmts"
  by code_simp

lemma image_types_fmt_ok: "t \<in> set image_types \<Longrightarrow> fmt_ok (fmt (fdset_template t))"
  using image_fmts_ok unfolding image_types_fmts [symmetric] by (simp add: list_all_iff)

definition fmt_stem :: "string \<Rightarrow> string" where
  "fmt_stem f = path_stem (if CHR ''%'' \<in> set f then fmt_pre f else f)"

lemma image_fmts_stems: "distinct (map fmt_stem image_fmts)"
  by code_simp

lemma image_types_stems: "inj_on (\<lambda>t. fmt_stem (fmt (fdset_template t))) (set image_types)"
proof -
  have "distinct (map (\<lambda>t. fmt_stem (fmt (fdset_template t))) image_types)"
    using image_fmts_stems unfolding image_types_fmts [symmetric] by (simp add: comp_def)
  then show ?thesis
    by (simp add: distinct_map)
qed

lemma vformat_plain: "CHR ''%'' \<notin> set f \<Longrightarrow> vformat (f @ g) None args = f @ vformat g None args"
  by (induction f) auto

lemma fmt_ok_width: "fmt_ok f \<Longrightarrow> CHR ''%'' \<in> set f \<Longrightarrow> fmt_width f \<in> {32, 64}"
  by (auto simp: fmt_ok_def)

lemma vformat_id:
  assumes "fmt_ok f" "CHR ''%'' \<in> set f"
  shows "vformat f None [VInt i] = fmt_pre f @ show_conv (fmt_width f) (fmt_conv f) (VInt i) @ fmt_suf f"
proof -
  have c: "fmt_conv f \<in> set ''dux''" "CHR ''%'' \<notin> set (fmt_suf f)"
    and f: "f = fmt_pre f @ CHR ''%'' # fmt_conv f # fmt_suf f \<and> fmt_width f = 32
      \<or> f = fmt_pre f @ CHR ''%'' # CHR ''l'' # fmt_conv f # fmt_suf f \<and> fmt_width f = 64"
    using assms by (simp_all add: fmt_ok_def)
  have p: "CHR ''%'' \<notin> set (fmt_pre f)"
    by (auto simp: fmt_pre_def dest: set_takeWhileD)
  have s: "vformat (fmt_suf f) None [] = fmt_suf f"
    using vformat_plain [OF c(2), of "[]"] by simp
  have "vformat (CHR ''%'' # fmt_conv f # fmt_suf f) None [VInt i] = show_conv 32 (fmt_conv f) (VInt i) @ fmt_suf f"
    "vformat (CHR ''%'' # CHR ''l'' # fmt_conv f # fmt_suf f) None [VInt i] = show_conv 64 (fmt_conv f) (VInt i) @ fmt_suf f"
    using c(1) s by auto
  then show ?thesis
    using f vformat_plain [OF p, of _ "[VInt i]"] by metis
qed

lemma digit_char_hex:
  assumes "d < 16"
  shows "is_hex (digit_char d)" "digit_char d \<noteq> CHR ''.''"
proof -
  have "list_all (\<lambda>d. is_hex (digit_char d) \<and> digit_char d \<noteq> CHR ''.'') [0..<16]"
    by code_simp
  then show "is_hex (digit_char d)" "digit_char d \<noteq> CHR ''.''"
    using assms by (simp_all add: list_all_iff)
qed

lemma digit_char_inj:
  assumes "d < 16" "e < 16" "digit_char d = digit_char e"
  shows "d = e"
proof -
  have "distinct (map digit_char [0..<16])"
    by code_simp
  then show ?thesis
    using assms by (auto simp: distinct_map inj_on_def)
qed

lemma show_base_hex: "b \<in> {10, 16} \<Longrightarrow> c \<in> set (show_base b n) \<Longrightarrow> is_hex c \<and> c \<noteq> CHR ''.''"
proof (induction b n rule: show_base.induct)
  case (1 b n)
  have "n < b \<Longrightarrow> n < 16" "n mod b < 16"
    using 1(2) by (auto intro: less_le_trans [OF mod_less_divisor])
  then show ?case
    using 1 digit_char_hex by (subst (asm) show_base.simps) (auto split: if_splits)
qed

lemma show_base_nonempty: "show_base b n \<noteq> []"
  by (subst show_base.simps) simp

lemma show_base_inj: "b \<in> {10, 16} \<Longrightarrow> show_base b n = show_base b m \<Longrightarrow> n = m"
proof (induction b n arbitrary: m rule: show_base.induct)
  case (1 b n)
  have d: "x mod b < 16" "x < b \<longrightarrow> x < 16" for x
    using 1(2) by (auto intro: less_le_trans [OF mod_less_divisor])
  show ?case
  proof (cases "n < b")
    case n: True
    then show ?thesis
      using 1(2,3) d digit_char_inj [of n m] show_base_nonempty [of b "m div b"]
      by (subst (asm) show_base.simps, subst (asm) (2) show_base.simps) (auto split: if_splits)
  next
    case n: False
    have "\<not> m < b"
      using 1(2,3) n show_base_nonempty [of b "n div b"]
      by (subst (asm) show_base.simps, subst (asm) (2) show_base.simps) (auto split: if_splits)
    then have "show_base b (n div b) = show_base b (m div b)" "digit_char (n mod b) = digit_char (m mod b)"
      using 1(2,3) n by (auto simp: show_base.simps [of b n] show_base.simps [of b m])
    then have "n div b = m div b" "n mod b = m mod b"
      using 1(1) [OF _ 1(2)] 1(2) n digit_char_inj d by auto
    then show ?thesis
      by (metis div_mult_mod_eq)
  qed
qed

lemma show_base_length: "2 \<le> b \<Longrightarrow> n < 2 ^ k \<Longrightarrow> length (show_base b n) \<le> Suc k"
proof (induction k arbitrary: n)
  case 0
  then show ?case
    by (subst show_base.simps) simp
next
  case (Suc k)
  have "n div b \<le> n div 2"
    using Suc.prems(1) by (intro div_le_mono2) auto
  then have "n div b < 2 ^ k"
    using Suc.prems(2) by auto
  then show ?case
    using Suc.IH [OF Suc.prems(1)] by (subst show_base.simps) auto
qed

lemma show_conv_num: "c \<in> set (show_conv w k (VInt i)) \<Longrightarrow> is_num c \<and> c \<noteq> CHR ''.''"
  using show_base_hex [of 10 c] show_base_hex [of 16 c] by (auto simp: show_conv_def show_int_def is_num_def split: if_splits)

lemma show_conv_length:
  assumes "w \<in> {32, 64}"
  shows "length (show_conv w k (VInt i)) \<le> 66"
proof -
  have p: "(2 :: int) ^ w \<le> 2 ^ 64" "(2 :: int) ^ (w - 1) < 2 ^ 64"
    using assms by auto
  have l: "length (show_base b (nat x)) \<le> 65 \<and> length (show_base b (nat x)) \<le> 66" if "x < 2 ^ 64" "2 \<le> b" for b x
    using that show_base_length [of b "nat x" 64] by (cases "0 \<le> x") (auto simp: nat_less_iff)
  have "take_bit w i < 2 ^ 64"
    using take_bit_int_less_exp [of w i] p(1) by linarith
  moreover have "signed_take_bit (w - 1) i < 2 ^ 64"
    using signed_take_bit_int_less_exp [of "w - 1" i] p(2) by linarith
  moreover have "- signed_take_bit (w - 1) i < 2 ^ 64"
    using signed_take_bit_int_greater_eq_minus_exp [of "w - 1" i] p(2) by linarith
  ultimately show ?thesis
    using l [of _ 10] l [of _ 16] unfolding show_conv_def show_int_def by simp
qed

text \<open>Two ids below \<open>2 ^ 32\<close> are printed differently: as signed numbers they differ as well.\<close>

lemma signed_take_bit_31_inj:
  assumes "signed_take_bit 31 (int n) = signed_take_bit 31 (int m)" "n < 2 ^ 32" "m < 2 ^ 32"
  shows "n = m"
proof -
  have "take_bit 32 (int n) = take_bit 32 (int m)"
    using assms(1) signed_take_bit_eq_iff_take_bit_eq [of 31 "int n" "int m"] by simp
  then show ?thesis
    using assms(2,3) by (simp add: take_bit_int_eq_self)
qed

lemma is_hex_minus: "\<not> is_hex (CHR ''-'')"
  by (simp add: is_hex_def)

lemma show_int_inj:
  assumes "show_int i = show_int j"
  shows "i = j"
proof -
  have "CHR ''-'' # a \<noteq> show_base 10 x" for a x
  proof
    assume "CHR ''-'' # a = show_base 10 x"
    then have "CHR ''-'' \<in> set (show_base 10 x)"
      by (metis list.set_intros(1))
    then show False
      using show_base_hex [of 10 "CHR ''-''" x] is_hex_minus by simp
  qed
  from this this [symmetric] show ?thesis
    using assms show_base_inj [of 10 "nat (- i)" "nat (- j)"] show_base_inj [of 10 "nat i" "nat j"]
    unfolding show_int_def by (auto split: if_splits)
qed

lemma show_conv_inj:
  assumes "show_conv w k (VInt (int n)) = show_conv w k (VInt (int m))" "w \<in> {32, 64}" "n < 2 ^ 32" "m < 2 ^ 32"
  shows "n = m"
proof (cases "k = CHR ''d''")
  case True
  then have "signed_take_bit (w - 1) (int n) = signed_take_bit (w - 1) (int m)"
    using assms(1) show_int_inj by (auto simp: show_conv_def)
  then show ?thesis
    using assms(2-4) signed_take_bit_31_inj [of n m] by (auto simp: signed_take_bit_int_eq_self)
next
  case False
  have "take_bit w (int x) = int x" if "x < 2 ^ 32" for x
    using assms(2) that by (auto simp: take_bit_int_eq_self)
  then show ?thesis
    using assms(1,3,4) False show_base_inj [of 10 n m] show_base_inj [of 16 n m] by (auto simp: show_conv_def split: if_splits)
qed

lemma path_stem_id:
  assumes "CHR ''.'' \<notin> set pre" "\<And>c. c \<in> set ds \<Longrightarrow> is_num c \<and> c \<noteq> CHR ''.''" "take 1 suf = ''.''"
  shows "path_stem (pre @ ds @ suf) = path_stem pre"
proof -
  obtain suf' where suf: "suf = CHR ''.'' # suf'"
    using assms(3) by (cases suf) auto
  have "takeWhile (\<lambda>c. c \<noteq> CHR ''.'') ((pre @ ds) @ suf) = pre @ ds"
    using assms(1,2) suf by (subst takeWhile_append2) auto
  moreover have w: "takeWhile (\<lambda>c. c \<noteq> CHR ''.'') pre = pre"
    using assms(1) by (auto simp: takeWhile_eq_all_conv)
  moreover have "dropWhile is_num (rev ds @ rev pre) = dropWhile is_num (rev pre)"
    using assms(2) by (intro dropWhile_append2) auto
  ultimately show ?thesis
    unfolding path_stem_def w by simp
qed

lemma image_path_id:
  assumes "t \<in> set image_types" "takes_id t"
  defines "f \<equiv> fmt (fdset_template t)"
  shows "image_path t [VInt i] = fmt_pre f @ show_conv (fmt_width f) (fmt_conv f) (VInt i) @ fmt_suf f"
proof -
  have ok: "fmt_ok f" "CHR ''%'' \<in> set f"
    using image_types_fmt_ok [OF assms(1)] assms(2) by (simp_all add: f_def takes_id_def)
  then have l: "length f < 64" and f: "f = fmt_pre f @ CHR ''%'' # fmt_conv f # fmt_suf f \<or> f = fmt_pre f @ CHR ''%'' # CHR ''l'' # fmt_conv f # fmt_suf f"
    unfolding fmt_ok_def by (blast, blast)
  from f have "length f = length (fmt_pre f @ CHR ''%'' # fmt_conv f # fmt_suf f) \<or> length f = length (fmt_pre f @ CHR ''%'' # CHR ''l'' # fmt_conv f # fmt_suf f)"
    by (rule disj_forward) (erule arg_cong [where f = length])+
  then have "length (fmt_pre f) + length (fmt_suf f) < 64"
    using l by simp linarith
  then have "length (fmt_pre f @ show_conv (fmt_width f) (fmt_conv f) (VInt i) @ fmt_suf f) \<le> PATH_MAX - 1"
    using show_conv_length [OF fmt_ok_width [OF ok], of "fmt_conv f" i] by (simp add: PATH_MAX_def)
  then show ?thesis
    unfolding image_path_def f_def [symmetric] vformat_id [OF ok] by (rule take_all)
qed

lemma image_path_plain:
  assumes "t \<in> set image_types" "\<not> takes_id t"
  shows "image_path t args = fmt (fdset_template t)"
proof -
  have "CHR ''%'' \<notin> set (fmt (fdset_template t))" "length (fmt (fdset_template t)) < 64"
    using image_types_fmt_ok [OF assms(1)] assms(2) by (simp_all add: takes_id_def fmt_ok_def)
  then show ?thesis
    using vformat_plain [of "fmt (fdset_template t)" "[]" args] by (simp add: image_path_def PATH_MAX_def)
qed

lemma image_path_stem:
  assumes "t \<in> set image_types"
  shows "path_stem (image_path t [VInt i]) = fmt_stem (fmt (fdset_template t))"
proof (cases "takes_id t")
  case True
  let ?f = "fmt (fdset_template t)"
  have ok: "fmt_ok ?f" "CHR ''%'' \<in> set ?f"
    using image_types_fmt_ok [OF assms(1)] True by (simp_all add: takes_id_def)
  then have "CHR ''.'' \<notin> set (fmt_pre ?f)" "take 1 (fmt_suf ?f) = ''.''"
    unfolding fmt_ok_def by simp_all
  then show ?thesis
    unfolding image_path_id [OF assms(1) True] fmt_stem_def using ok(2) path_stem_id [OF _ show_conv_num] by simp
next
  case False
  then show ?thesis
    by (simp add: image_path_plain [OF assms(1)] fmt_stem_def takes_id_def)
qed

lemma image_path_inj:
  assumes "t \<in> set image_types" "t' \<in> set image_types" "n < 2 ^ 32" "n' < 2 ^ 32"
    and "image_path t [VInt (int n)] = image_path t' [VInt (int n')]"
  shows "t = t'" "takes_id t \<Longrightarrow> n = n'"
proof -
  have "fmt_stem (fmt (fdset_template t)) = fmt_stem (fmt (fdset_template t'))"
    using image_path_stem [OF assms(1)] image_path_stem [OF assms(2)] assms(5) by metis
  then show t: "t = t'"
    using inj_onD [OF image_types_stems _ assms(1,2)] by blast
  show "n = n'" if "takes_id t"
  proof (rule show_conv_inj)
    let ?f = "fmt (fdset_template t)"
    show "show_conv (fmt_width ?f) (fmt_conv ?f) (VInt (int n)) = show_conv (fmt_width ?f) (fmt_conv ?f) (VInt (int n'))"
      using assms(5) unfolding t [symmetric] image_path_id [OF assms(1) that] by simp
    show "fmt_width ?f \<in> {32, 64}"
      using image_types_fmt_ok [OF assms(1)] that by (intro fmt_ok_width) (simp_all add: takes_id_def)
  qed (use assms(3,4) in simp_all)
qed

lemma image_magics: "list_all (\<lambda>m. m < 2 ^ 32) (map (\<lambda>t. magic (fdset_template t)) image_types)"
  by (simp add: image_types_def FD_ENTRY_def RAW_IMAGE_MAGIC_def)

lemma image_magic_u32: "t \<in> set image_types \<Longrightarrow> magic (fdset_template t) < 2 ^ 32"
  using image_magics by (simp add: list_all_iff)

section \<open>What a dump leaves in the directory\<close>

definition fs_ok :: "fs_env \<Rightarrow> bool" where
  "fs_ok E \<longleftrightarrow> (\<forall>t. k_unlink E t \<and> k_open E t \<and> k_close E t) \<and> io_ok (k_io E)"

definition magic_bytes :: "fd_type \<Rightarrow> byte list" where
  "magic_bytes t = (if magic (fdset_template t) = RAW_IMAGE_MAGIC then [] else le_bytes 4 (magic (fdset_template t)))"

lemma free_fd_le: "free_fd l \<le> length l"
  by (simp add: free_fd_def length_takeWhile_le)

lemma fd_get_free [simp]: "fd_get l (free_fd l) = None"
  using nth_length_takeWhile [of "\<lambda>x. x \<noteq> None" l] by (simp add: fd_get_def free_fd_def del: not_None_eq)

lemma length_fd_put: "fd \<le> length l \<Longrightarrow> fd < length (fd_put l fd v)"
  by (simp add: fd_put_def)

lemma fd_get_put: "fd \<le> length l \<Longrightarrow> fd_get (fd_put l fd v) fd' = (if fd' = fd then v else fd_get l fd')"
  by (auto simp: fd_get_def fd_put_def nth_append nth_list_update)

lemma fd_get_update: "fd < length l \<Longrightarrow> fd_get (l[fd := v]) fd' = (if fd' = fd then v else fd_get l fd')"
  by (auto simp: fd_get_def nth_list_update)

lemma fd_get_Some_less: "fd_get l fd = Some x \<Longrightarrow> fd < length l"
  by (auto simp: fd_get_def split: if_splits)

lemma on_fd_open:
  assumes "fd_get (fs_fds s) fd = Some (i, p)" "act \<lparr>if_data = fs_ino s i, if_pos = p, if_tick = fs_tick s\<rparr> = (r, f)"
  shows "on_fd bad (int fd) act s =
    (r, s\<lparr>fs_ino := (fs_ino s)(i := if_data f), fs_fds := (fs_fds s)[fd := Some (i, if_pos f)], fs_tick := if_tick f\<rparr>)"
  using assms by (simp add: on_fd_def)

text \<open>
  An image opened for dump is a new file: whatever had its name before is gone, the magic number is
  written, and every other file and descriptor is as it was.
\<close>

definition opened_new :: "img_fs \<Rightarrow> nat \<Rightarrow> fd_type \<Rightarrow> va_arg list \<Rightarrow> nat \<Rightarrow> byte list \<Rightarrow> img_fs \<Rightarrow> bool" where
  "opened_new s dfd t args fd bs s' \<longleftrightarrow>
     fs_dir s' = (fs_dir s)((dfd, image_path t args) \<mapsto> fs_inos s) \<and> fs_inos s' = Suc (fs_inos s)
   \<and> fs_ino s' = (fs_ino s)(fs_inos s := bs)
   \<and> fd_get (fs_fds s) fd = None
   \<and> (\<forall>x. fd_get (fs_fds s') x = (if x = fd then Some (fs_inos s, length bs) else fd_get (fs_fds s) x))"

lemma sys_unlinkat_gone:
  assumes "sys_unlinkat E dfd path s = (ret, s')" "ret = 0 \<or> fs_errno s' = ENOENT"
  shows "fs_dir s' = (fs_dir s)((dfd, path) := None)" "fs_ino s' = fs_ino s" "fs_inos s' = fs_inos s" "fs_fds s' = fs_fds s"
  using assms by (auto simp: sys_unlinkat_def Let_def split: if_splits)

lemma sys_openat_new:
  assumes "sys_openat E dfd path flags s = (ret, s')" "0 \<le> ret" "fs_dir s (dfd, path) = None"
  shows "ret = int (free_fd (fs_fds s))" "fs_dir s' = (fs_dir s)((dfd, path) \<mapsto> fs_inos s)" "fs_ino s' = (fs_ino s)(fs_inos s := [])"
    "fs_inos s' = Suc (fs_inos s)" "fs_fds s' = fd_put (fs_fds s) (free_fd (fs_fds s)) (Some (fs_inos s, 0))"
  using assms by (auto simp: sys_openat_def Let_def split: if_splits)

lemma check_magic_dump:
  assumes "check_magic E t O_DUMP (int fd) s = (ret, s')" "0 \<le> ret" "fd_get (fs_fds s) fd = Some (i, 0)" "fs_ino s i = []"
  shows "ret = int fd" "fs_dir s' = fs_dir s" "fs_inos s' = fs_inos s" "fs_ino s' = (fs_ino s)(i := magic_bytes t)"
    "fd_get (fs_fds s') x = (if x = fd then Some (i, length (magic_bytes t)) else fd_get (fs_fds s) x)"
proof (goal_cases)
  let ?bs = "le_bytes 4 (magic (fdset_template t))"
  obtain r f where w: "write_img_buf (k_io E) ?bs \<lparr>if_data = [], if_pos = 0, if_tick = fs_tick s\<rparr> = (r, f)"
    by fastforce
  have *: "r = 0 \<Longrightarrow> if_data f = ?bs \<and> if_pos f = length ?bs"
    using w sys_write_full [of "k_io E" ?bs "\<lparr>if_data = [], if_pos = 0, if_tick = fs_tick s\<rparr>"]
    by (auto simp: write_img_buf_def split: prod.splits if_splits)
  have ro: "\<not> is_rdonly O_DUMP"
    by (simp add: is_rdonly_def O_DUMP_def)
  have on: "on_fd (- 1) (int fd) (write_img_buf (k_io E) ?bs) s =
      (r, s\<lparr>fs_ino := (fs_ino s)(i := if_data f), fs_fds := (fs_fds s)[fd := Some (i, if_pos f)], fs_tick := if_tick f\<rparr>)"
    using assms(3,4) w by (intro on_fd_open) simp_all
  have raw: "magic (fdset_template t) = RAW_IMAGE_MAGIC \<Longrightarrow> ret = int fd \<and> s' = s"
    using assms(1) by (simp add: check_magic_def Let_def)
  have new: "magic (fdset_template t) \<noteq> RAW_IMAGE_MAGIC \<Longrightarrow> ret = int fd \<and>
      s' = s\<lparr>fs_ino := (fs_ino s)(i := ?bs), fs_fds := (fs_fds s)[fd := Some (i, length ?bs)], fs_tick := if_tick f\<rparr>"
    using assms(1,2) ro on * by (auto simp: check_magic_def Let_def split: if_splits)
  note len = fd_get_Some_less [OF assms(3)]
  have ino: "(fs_ino s)(i := []) = fs_ino s"
    using assms(4) by auto
  case 1 then show ?case using raw new by blast
  case 2 then show ?case using raw new by (cases "magic (fdset_template t) = RAW_IMAGE_MAGIC") simp_all
  case 3 then show ?case using raw new by (cases "magic (fdset_template t) = RAW_IMAGE_MAGIC") simp_all
  case 4 then show ?case using raw new ino by (cases "magic (fdset_template t) = RAW_IMAGE_MAGIC") (simp_all add: magic_bytes_def)
  case 5 then show ?case using raw new len assms(3) by (cases "magic (fdset_template t) = RAW_IMAGE_MAGIC") (simp_all add: magic_bytes_def fd_get_update)
qed

lemma open_image_dump:
  assumes "open_image_at E dfd t O_DUMP args s = (ret, s')" "0 \<le> ret"
  shows "\<exists>fd. ret = int fd \<and> opened_new s dfd t args fd (magic_bytes t) s'"
proof -
  let ?path = "image_path t args"
  obtain r1 s1 where u: "sys_unlinkat E dfd ?path s = (r1, s1)"
    by fastforce
  obtain r2 s2 where o: "sys_openat E dfd ?path O_DUMP s1 = (r2, s2)"
    by fastforce
  have x: "o_excl O_DUMP"
    by (simp add: O_DUMP_def)
  have r1: "r1 = 0 \<or> fs_errno s1 = ENOENT" and r2: "0 \<le> r2" and c: "check_magic E t O_DUMP r2 s2 = (ret, s')"
    using assms u o x by (auto simp: open_image_at_def Let_def split: if_splits)
  note g = sys_unlinkat_gone [OF u r1]
  have "fs_dir s1 (dfd, ?path) = None"
    by (simp add: g(1))
  note n = sys_openat_new [OF o r2 this]
  let ?fd = "free_fd (fs_fds s)"
  have fd: "fd_get (fs_fds s2) x = (if x = ?fd then Some (fs_inos s, 0) else fd_get (fs_fds s) x)" for x
    unfolding n(5) g(3,4) by (rule fd_get_put [OF free_fd_le])
  have c': "check_magic E t O_DUMP (int ?fd) s2 = (ret, s')" "fd_get (fs_fds s2) ?fd = Some (fs_inos s, 0)" "fs_ino s2 (fs_inos s) = []"
    using c n(1,3) g(2,3,4) fd by simp_all
  note m = check_magic_dump [OF c'(1) assms(2) c'(2,3)]
  show ?thesis
    unfolding opened_new_def using m n(2-4) g(1-3) fd by (intro exI [of _ ?fd]) auto
qed


section \<open>Dumping and restoring a set of images\<close>

definition dump_image :: "fs_env \<Rightarrow> nat \<Rightarrow> 'o pb_desc \<Rightarrow> fd_type \<Rightarrow> nat \<Rightarrow> 'o list \<Rightarrow> img_fs \<Rightarrow> int \<times> img_fs" where
  "dump_image E dfd d t n xs s =
     (case open_image_at E dfd t O_DUMP [VInt (int n)] s of (fd, s) \<Rightarrow>
        if fd < 0 then (-1, s)
        else case on_fd (-1) fd (pb_write_all (k_io E) (Some d) xs) s of (r, s) \<Rightarrow> (r, snd (sys_close E fd s)))"

primrec dump_images :: "fs_env \<Rightarrow> nat \<Rightarrow> (fd_type \<Rightarrow> 'o pb_desc) \<Rightarrow> (fd_type \<times> nat \<times> 'o list) list \<Rightarrow> img_fs \<Rightarrow> int \<times> img_fs" where
  "dump_images E dfd D [] s = (0, s)"
| "dump_images E dfd D (c # cs) s =
     (case dump_image E dfd (D (fst c)) (fst c) (fst (snd c)) (snd (snd c)) s of (r, s) \<Rightarrow>
        if r \<noteq> 0 then (-1, s) else dump_images E dfd D cs s)"

definition image_holds :: "img_fs \<Rightarrow> nat \<Rightarrow> (fd_type \<Rightarrow> 'o pb_desc) \<Rightarrow> fd_type \<times> nat \<times> 'o list \<Rightarrow> bool" where
  "image_holds s dfd D c \<longleftrightarrow>
     (\<exists>i. i < fs_inos s \<and> fs_dir s (dfd, image_path (fst c) [VInt (int (fst (snd c)))]) = Some i
        \<and> fs_ino s i = magic_bytes (fst c) @ pb_records (D (fst c)) (snd (snd c)))"

lemma sys_close_keeps: "fs_dir (snd (sys_close E fd s)) = fs_dir s" "fs_ino (snd (sys_close E fd s)) = fs_ino s"
    "fs_inos (snd (sys_close E fd s)) = fs_inos s"
  by (simp_all add: sys_close_def Let_def)

lemma dump_image_success:
  assumes "\<forall>x \<in> set xs. desc_ok d x" "dump_image E dfd d t n xs s = (0, s')"
  shows "fs_dir s' = (fs_dir s)((dfd, image_path t [VInt (int n)]) \<mapsto> fs_inos s)" "fs_inos s' = Suc (fs_inos s)"
    "fs_ino s' = (fs_ino s)(fs_inos s := magic_bytes t @ pb_records d xs)"
proof -
  obtain r1 s1 where o: "open_image_at E dfd t O_DUMP [VInt (int n)] s = (r1, s1)"
    by fastforce
  then have "0 \<le> r1"
    using assms(2) by (auto simp: dump_image_def split: if_splits)
  from open_image_dump [OF o this] obtain fd where fd: "r1 = int fd" "opened_new s dfd t [VInt (int n)] fd (magic_bytes t) s1"
    by blast
  obtain r f where w: "pb_write_all (k_io E) (Some d) xs \<lparr>if_data = magic_bytes t, if_pos = length (magic_bytes t), if_tick = fs_tick s1\<rparr> = (r, f)"
    by fastforce
  have "on_fd (-1) r1 (pb_write_all (k_io E) (Some d) xs) s1 =
      (r, s1\<lparr>fs_ino := (fs_ino s1)(fs_inos s := if_data f), fs_fds := (fs_fds s1)[fd := Some (fs_inos s, if_pos f)], fs_tick := if_tick f\<rparr>)"
    unfolding fd(1) using fd(2) w by (intro on_fd_open) (simp_all add: opened_new_def)
  moreover from this have "r = 0"
    using assms(2) o \<open>0 \<le> r1\<close> by (simp add: dump_image_def)
  moreover from this have "if_data f = magic_bytes t @ pb_records d xs"
    using pb_write_all_success [OF assms(1) _ w [unfolded \<open>r = 0\<close>]] by simp
  ultimately have s': "s' = snd (sys_close E r1 (s1\<lparr>fs_ino := (fs_ino s1)(fs_inos s := magic_bytes t @ pb_records d xs), fs_fds := (fs_fds s1)[fd := Some (fs_inos s, if_pos f)], fs_tick := if_tick f\<rparr>))"
    using assms(2) o \<open>0 \<le> r1\<close> by (simp add: dump_image_def)
  show "fs_dir s' = (fs_dir s)((dfd, image_path t [VInt (int n)]) \<mapsto> fs_inos s)" "fs_inos s' = Suc (fs_inos s)"
    "fs_ino s' = (fs_ino s)(fs_inos s := magic_bytes t @ pb_records d xs)"
    using fd(2) by (simp_all add: s' sys_close_keeps opened_new_def)
qed

definition same_file :: "fd_type \<times> nat \<times> 'o list \<Rightarrow> fd_type \<times> nat \<times> 'o list \<Rightarrow> bool" where
  "same_file c c' \<longleftrightarrow> fst c = fst c' \<and> (takes_id (fst c) \<longrightarrow> fst (snd c) = fst (snd c'))"

definition images_ok :: "(fd_type \<times> nat \<times> 'o list) list \<Rightarrow> bool" where
  "images_ok cs \<longleftrightarrow> (\<forall>c \<in> set cs. fst c \<in> set image_types \<and> fst (snd c) < 2 ^ 32) \<and> sorted_wrt (\<lambda>c c'. \<not> same_file c c') cs"

definition descs_ok :: "(fd_type \<Rightarrow> 'o pb_desc) \<Rightarrow> (fd_type \<times> nat \<times> 'o list) list \<Rightarrow> bool" where
  "descs_ok D cs \<longleftrightarrow> (\<forall>c \<in> set cs. \<forall>x \<in> set (snd (snd c)). desc_ok (D (fst c)) x)"

lemma dump_images_keep:
  "descs_ok D cs \<Longrightarrow> dump_images E dfd D cs s = (0, s') \<Longrightarrow> image_holds s dfd D c \<Longrightarrow> fst c \<in> set image_types \<Longrightarrow> fst (snd c) < 2 ^ 32
    \<Longrightarrow> \<forall>c' \<in> set cs. fst c' \<in> set image_types \<and> fst (snd c') < 2 ^ 32 \<and> \<not> same_file c c' \<Longrightarrow> image_holds s' dfd D c"
proof (induction cs arbitrary: s)
  case (Cons c' cs)
  obtain r s1 where d: "dump_image E dfd (D (fst c')) (fst c') (fst (snd c')) (snd (snd c')) s = (r, s1)"
    by fastforce
  then have r: "r = 0" "dump_images E dfd D cs s1 = (0, s')"
    using Cons.prems(2) by (auto split: if_splits)
  have ok: "\<forall>x \<in> set (snd (snd c')). desc_ok (D (fst c')) x" "descs_ok D cs"
    using Cons.prems(1) by (simp_all add: descs_ok_def)
  note e = dump_image_success [OF ok(1) d [unfolded r(1)]]
  have "image_path (fst c) [VInt (int (fst (snd c)))] \<noteq> image_path (fst c') [VInt (int (fst (snd c')))]"
    using image_path_inj [of "fst c" "fst c'" "fst (snd c)" "fst (snd c')"] Cons.prems(4-6) by (auto simp: same_file_def)
  moreover obtain i where "i < fs_inos s" "fs_dir s (dfd, image_path (fst c) [VInt (int (fst (snd c)))]) = Some i"
      "fs_ino s i = magic_bytes (fst c) @ pb_records (D (fst c)) (snd (snd c))"
    using Cons.prems(3) by (auto simp: image_holds_def)
  ultimately have "image_holds s1 dfd D c"
    unfolding image_holds_def e by (intro exI [of _ i]) simp
  then show ?case
    using Cons.IH [OF ok(2) r(2)] Cons.prems(4-6) by simp
qed simp

lemma dump_images_hold:
  "descs_ok D cs \<Longrightarrow> dump_images E dfd D cs s = (0, s') \<Longrightarrow> images_ok cs \<Longrightarrow> c \<in> set cs \<Longrightarrow> image_holds s' dfd D c"
proof (induction cs arbitrary: s)
  case (Cons c' cs)
  obtain r s1 where d: "dump_image E dfd (D (fst c')) (fst c') (fst (snd c')) (snd (snd c')) s = (r, s1)"
    by fastforce
  then have r: "r = 0" "dump_images E dfd D cs s1 = (0, s')"
    using Cons.prems(2) by (auto split: if_splits)
  have ok: "\<forall>x \<in> set (snd (snd c')). desc_ok (D (fst c')) x" "descs_ok D cs"
    using Cons.prems(1) by (simp_all add: descs_ok_def)
  have h: "image_holds s1 dfd D c'"
    unfolding image_holds_def dump_image_success [OF ok(1) d [unfolded r(1)]] by simp
  show ?case
  proof (cases "c = c'")
    case True
    then show ?thesis
      using dump_images_keep [OF ok(2) r(2) h] Cons.prems(3) by (auto simp: images_ok_def)
  next
    case False
    then show ?thesis
      using Cons.IH [OF ok(2) r(2)] Cons.prems(3,4) by (auto simp: images_ok_def)
  qed
qed simp

lemma magic_bytes_read:
  assumes "t \<in> set image_types" "magic (fdset_template t) \<noteq> RAW_IMAGE_MAGIC"
  shows "length (magic_bytes t) = 4" "le_val (magic_bytes t) = magic (fdset_template t)"
  using assms image_magic_u32 [OF assms(1)] by (simp_all add: magic_bytes_def le_val_bytes)

lemma sys_read_front:
  assumes "io_ok E" "drop (if_pos f) (if_data f) = a @ b" "n = length a" "n \<le> MAX_RW_COUNT"
  shows "sys_read E n f = (int n, a, f\<lparr>if_pos := if_pos f + n, if_tick := Suc (if_tick f)\<rparr>)"
  using assms by (simp add: sys_read_def io_ok_def Let_def min_absorb1)

lemma check_magic_accepts:
  assumes "io_ok (k_io E)" "t \<in> set image_types" "fd_get (fs_fds s) fd = Some (i, 0)" "fs_ino s i = magic_bytes t @ bs"
  shows "\<exists>s'. check_magic E t O_RSTR (int fd) s = (int fd, s') \<and> fd_get (fs_fds s') fd = Some (i, length (magic_bytes t))
     \<and> fs_dir s' = fs_dir s \<and> fs_ino s' = fs_ino s"
proof (cases "magic (fdset_template t) = RAW_IMAGE_MAGIC")
  case True
  then show ?thesis
    using assms(3) by (simp add: check_magic_def Let_def magic_bytes_def)
next
  case False
  note m = magic_bytes_read [OF assms(2) False]
  let ?f = "\<lparr>if_data = fs_ino s i, if_pos = 0, if_tick = fs_tick s\<rparr>"
  let ?act = "\<lambda>f. case read_img_buf (k_io E) 4 f of (r, bs, f) \<Rightarrow> ((r, bs), f)"
  let ?s = "s\<lparr>fs_ino := (fs_ino s)(i := fs_ino s i), fs_fds := (fs_fds s)[fd := Some (i, 4)], fs_tick := Suc (fs_tick s)\<rparr>"
  have "sys_read (k_io E) 4 ?f = (4, magic_bytes t, ?f\<lparr>if_pos := 4, if_tick := Suc (fs_tick s)\<rparr>)"
    using sys_read_front [OF assms(1), of ?f "magic_bytes t" bs 4] m(1) assms(4) by (simp add: MAX_RW_COUNT_def)
  then have "?act ?f = ((1, magic_bytes t), ?f\<lparr>if_pos := 4, if_tick := Suc (fs_tick s)\<rparr>)"
    by (simp add: read_img_buf_def read_img_buf_eof_def)
  from on_fd_open [where act = ?act, OF assms(3) this] have "on_fd (-1, []) (int fd) ?act s = ((1, magic_bytes t), ?s)"
    by simp
  then have "check_magic E t O_RSTR (int fd) s = (int fd, ?s)"
    unfolding check_magic_def Let_def using False m(2) by (simp add: is_rdonly_def O_RSTR_def)
  then show ?thesis
    using m(1) fd_get_Some_less [OF assms(3)] by (intro exI [of _ ?s]) (simp add: fd_get_update)
qed

lemma open_image_at_rstr:
  assumes "fs_ok E" "fs_dir s (dfd, image_path t args) = Some i"
  shows "open_image_at E dfd t O_RSTR args s = check_magic E t O_RSTR (int (free_fd (fs_fds s)))
     (s\<lparr>fs_tick := Suc (fs_tick s), fs_fds := fd_put (fs_fds s) (free_fd (fs_fds s)) (Some (i, 0))\<rparr>)"
  using assms by (simp add: open_image_at_def sys_openat_def Let_def fs_ok_def O_RSTR_def)

lemma open_image_restore:
  assumes "fs_ok E" "t \<in> set image_types" "fs_dir s (dfd, image_path t args) = Some i" "fs_ino s i = magic_bytes t @ bs"
  shows "\<exists>fd s' f. open_image_at E dfd t O_RSTR args s = (int fd, s') \<and> opened_image (int fd) s' = Img f
     \<and> drop (if_pos f) (if_data f) = bs \<and> fs_dir s' = fs_dir s \<and> fs_ino s' = fs_ino s"
proof -
  let ?fd = "free_fd (fs_fds s)"
  let ?s = "s\<lparr>fs_tick := Suc (fs_tick s), fs_fds := fd_put (fs_fds s) ?fd (Some (i, 0))\<rparr>"
  have "io_ok (k_io E)" "fd_get (fs_fds ?s) ?fd = Some (i, 0)" "fs_ino ?s i = magic_bytes t @ bs"
    using assms(1,4) free_fd_le [of "fs_fds s"] by (simp_all add: fd_get_put fs_ok_def)
  from check_magic_accepts [OF this(1) assms(2) this(2,3)] obtain s' where
    "check_magic E t O_RSTR (int ?fd) ?s = (int ?fd, s')" "fd_get (fs_fds s') ?fd = Some (i, length (magic_bytes t))"
    "fs_dir s' = fs_dir s" "fs_ino s' = fs_ino s"
    by auto
  then show ?thesis
    using open_image_at_rstr [OF assms(1,3)] assms(4)
    by (intro exI [of _ ?fd] exI [of _ s'] exI [of _ "\<lparr>if_data = fs_ino s i, if_pos = length (magic_bytes t), if_tick = fs_tick s'\<rparr>"])
      (simp add: opened_image_def)
qed

lemma open_image_dump_ret:
  assumes "fs_ok E"
  shows "0 \<le> fst (open_image_at E dfd t O_DUMP args s)"
proof -
  have io: "io_ok (k_io E)" "\<not> is_rdonly O_DUMP" "o_excl O_DUMP"
    using assms by (simp_all add: fs_ok_def O_DUMP_def is_rdonly_def)
  obtain r1 s1 where u: "sys_unlinkat E dfd (image_path t args) s = (r1, s1)"
    by fastforce
  have r1: "r1 = 0 \<or> fs_errno s1 = ENOENT"
    using u assms by (auto simp: sys_unlinkat_def Let_def fs_ok_def split: if_splits)
  note g = sys_unlinkat_gone [OF u r1]
  obtain s2 where o: "sys_openat E dfd (image_path t args) O_DUMP s1 = (int (free_fd (fs_fds s1)), s2)"
      "fs_fds s2 = fd_put (fs_fds s1) (free_fd (fs_fds s1)) (Some (fs_inos s1, 0))"
    using assms g(1) by (simp add: sys_openat_def Let_def fs_ok_def O_DUMP_def)
  have "fd_get (fs_fds s2) (free_fd (fs_fds s1)) = Some (fs_inos s1, 0)"
    unfolding o(2) by (simp add: fd_get_put free_fd_le)
  then have "fst (on_fd (-1) (int (free_fd (fs_fds s1))) (write_img_buf (k_io E) bs) s2) = 0" for bs
    using io(1) by (simp add: on_fd_def write_img_buf_def sys_write_def Let_def io_ok_def)
  then have "0 \<le> fst (check_magic E t O_DUMP (int (free_fd (fs_fds s1))) s2)"
    using io(2) by (auto simp: check_magic_def Let_def split: prod.split) (metis fst_conv)
  then show ?thesis
    using u r1 o(1) io(3) by (auto simp: open_image_at_def Let_def)
qed

lemma dump_image_ret:
  assumes "fs_ok E" "\<forall>x \<in> set xs. desc_ok d x"
  shows "fst (dump_image E dfd d t n xs s) = 0"
proof -
  obtain r1 s1 where o: "open_image_at E dfd t O_DUMP [VInt (int n)] s = (r1, s1)"
    by fastforce
  then have r1: "0 \<le> r1"
    using open_image_dump_ret [OF assms(1), of dfd t "[VInt (int n)]" s] by simp
  from open_image_dump [OF o this] obtain fd where fd: "r1 = int fd" "opened_new s dfd t [VInt (int n)] fd (magic_bytes t) s1"
    by blast
  have "io_ok (k_io E)"
    using assms(1) by (simp add: fs_ok_def)
  then have "fst (on_fd (-1) r1 (pb_write_all (k_io E) (Some d) xs) s1) = 0"
    using pb_write_all_ret [OF _ assms(2)] fd by (simp add: on_fd_def opened_new_def split: prod.split) (metis fst_conv)
  then show ?thesis
    using o r1 by (cases "on_fd (-1) r1 (pb_write_all (k_io E) (Some d) xs) s1") (simp add: dump_image_def)
qed

lemma dump_images_ret:
  assumes "fs_ok E"
  shows "descs_ok D cs \<Longrightarrow> fst (dump_images E dfd D cs s) = 0"
proof (induction cs arbitrary: s)
  case (Cons c cs)
  then show ?case
    using dump_image_ret [OF assms, of "snd (snd c)" "D (fst c)" dfd "fst c" "fst (snd c)" s]
    by (auto simp: descs_ok_def split: prod.split)
qed simp

lemma check_magic_rejects:
  assumes "io_ok (k_io E)" "fd_get (fs_fds s) fd = Some (i, 0)" "magic (fdset_template t) \<noteq> RAW_IMAGE_MAGIC"
    and "length (fs_ino s i) < 4 \<or> le_val (take 4 (fs_ino s i)) \<noteq> magic (fdset_template t)"
  shows "\<exists>s'. check_magic E t O_RSTR (int fd) s = (-1, s') \<and> fs_errno s' = fs_errno s"
proof -
  let ?bs = "take 4 (fs_ino s i)"
  let ?act = "\<lambda>f. case read_img_buf (k_io E) 4 f of (r, bs, f) \<Rightarrow> ((r, bs), f)"
  let ?f = "\<lparr>if_data = fs_ino s i, if_pos = 0, if_tick = fs_tick s\<rparr>"
  have rd: "io_read (k_io E) t" for t
    using assms(1) by (simp add: io_ok_def)
  have "sys_read (k_io E) 4 ?f = (int (length ?bs), ?bs, ?f\<lparr>if_pos := length ?bs, if_tick := Suc (fs_tick s)\<rparr>)"
    using rd by (simp add: sys_read_def Let_def MAX_RW_COUNT_def)
  then have "?act ?f = ((if length ?bs = 4 then 1 else -1, ?bs), ?f\<lparr>if_pos := length ?bs, if_tick := Suc (fs_tick s)\<rparr>)"
    by (simp add: read_img_buf_def read_img_buf_eof_def del: length_take)
  then obtain f where "?act ?f = ((if length ?bs = 4 then 1 else -1, ?bs), f)"
    by blast
  from on_fd_open [where act = ?act, OF assms(2) this] have
    on: "on_fd (-1, []) (int fd) ?act s = ((if length ?bs = 4 then 1 else -1, ?bs),
       s\<lparr>fs_ino := (fs_ino s)(i := if_data f), fs_fds := (fs_fds s)[fd := Some (i, if_pos f)], fs_tick := if_tick f\<rparr>)"
    by blast
  have "length ?bs \<noteq> 4 \<or> le_val ?bs \<noteq> magic (fdset_template t)"
    using assms(4) by auto
  then show ?thesis
    unfolding check_magic_def Let_def on using assms(3) rd by (auto simp: is_rdonly_def O_RSTR_def)
qed

lemma open_image_rejects:
  assumes "fs_ok E" "magic (fdset_template t) \<noteq> RAW_IMAGE_MAGIC" "fs_dir s (dfd, image_path t args) = Some i"
    and "length (fs_ino s i) < 4 \<or> le_val (take 4 (fs_ino s i)) \<noteq> magic (fdset_template t)"
  shows "\<exists>s'. open_image_at E dfd t O_RSTR args s = (-1, s') \<and> fs_errno s' = fs_errno s"
proof -
  let ?fd = "free_fd (fs_fds s)"
  let ?s = "s\<lparr>fs_tick := Suc (fs_tick s), fs_fds := fd_put (fs_fds s) ?fd (Some (i, 0))\<rparr>"
  have "io_ok (k_io E)" "fd_get (fs_fds ?s) ?fd = Some (i, 0)"
      "length (fs_ino ?s i) < 4 \<or> le_val (take 4 (fs_ino ?s i)) \<noteq> magic (fdset_template t)"
    using assms(1,4) free_fd_le [of "fs_fds s"] by (simp_all add: fd_get_put fs_ok_def)
  from check_magic_rejects [OF this(1,2) assms(2) this(3)] show ?thesis
    by (simp add: open_image_at_rstr [OF assms(1,3)])
qed

lemma collect_image_fs_rejects:
  assumes "fs_ok E" "magic (fdset_template t) \<noteq> RAW_IMAGE_MAGIC" "fs_dir s (dfd, image_path t []) = Some i"
    and "length (fs_ino s i) < 4 \<or> le_val (take 4 (fs_ino s i)) \<noteq> magic (fdset_template t)"
  shows "\<exists>s'. collect_image_fs E M dfd junk t ci s r u = Inr (if collect_optional ci \<and> fs_errno s = ENOENT then 0 else -1, s', r, u)"
  using open_image_rejects [OF assms] by (auto simp: collect_image_fs_def opened_image_def collect_image_def)

text \<open>C38: The files of a dump come back. Any number of images of distinct types or ids (below \<open>2 ^ 32\<close>),
  written into one directory with success reported, are found again by a restore whose calls do not
  fail: each opens under its name, its
  magic number is accepted, and collecting it returns 0 and hands over exactly the objects written
  to it, although all names are made by printing into the formats of one table, where %d shows the upper
  half of the ids as negative numbers. When no call
  fails, writing reports success. Unpacking is assumed the inverse of packing.\<close>

theorem image_set_roundtrip:
  assumes "descs_ok D cs" "images_ok cs" "(t, n, xs) \<in> set cs" "fs_ok E'" "pb_type ci = Some (D t)" "collects ci g"
  shows "(fs_ok E \<longrightarrow> fst (dump_images E dfd D cs s) = 0)
     \<and> (\<forall>s'. dump_images E dfd D cs s = (0, s') \<longrightarrow>
         (\<exists>fd s''. open_image_at E' dfd t O_RSTR [VInt (int n)] s' = (int fd, s'')
            \<and> collect_image (k_io E') M junk ci (opened_image (int fd) s'') r u = Inr (0, fold g xs (r, u))))"
proof (intro conjI impI allI)
  show "fst (dump_images E dfd D cs s) = 0" if "fs_ok E"
    using dump_images_ret [OF that assms(1)] .
next
  fix s'
  assume "dump_images E dfd D cs s = (0, s')"
  from dump_images_hold [OF assms(1) this assms(2,3)] obtain i where
    i: "fs_dir s' (dfd, image_path t [VInt (int n)]) = Some i" "fs_ino s' i = magic_bytes t @ pb_records (D t) xs"
    by (auto simp: image_holds_def)
  have t: "t \<in> set image_types" and io: "io_ok (k_io E')" and d: "\<forall>x \<in> set xs. desc_ok (D t) x"
    using assms(1-4) by (auto simp: images_ok_def fs_ok_def descs_ok_def)
  from open_image_restore [OF assms(4) t i] obtain fd s'' f where
    "open_image_at E' dfd t O_RSTR [VInt (int n)] s' = (int fd, s'')" "opened_image (int fd) s'' = Img f"
    "drop (if_pos f) (if_data f) = pb_records (D t) xs"
    by blast
  then show "\<exists>fd s''. open_image_at E' dfd t O_RSTR [VInt (int n)] s' = (int fd, s'')
      \<and> collect_image (k_io E') M junk ci (opened_image (int fd) s'') r u = Inr (0, fold g xs (r, u))"
    using collect_image_all [OF io assms(6,5) d] by auto
qed

definition ex_fs_env :: fs_env where
  "ex_fs_env = \<lparr>k_unlink = (\<lambda>_. True), k_open = (\<lambda>_. True), k_close = (\<lambda>_. True), k_io = ex_io\<rparr>"

definition ex_fs :: img_fs where
  "ex_fs = \<lparr>fs_dir = (\<lambda>_. None), fs_ino = (\<lambda>_. []), fs_inos = 0, fs_fds = [], fs_tick = 0, fs_errno = EOTHER\<rparr>"

lemma ex_fs_env_ok: "fs_ok ex_fs_env"
  using ex_collect_ok(4) by (simp add: fs_ok_def ex_fs_env_def)

lemma ex_image_types: "FD_CORE \<in> set image_types" "FD_PSTREE \<in> set image_types" "takes_id FD_CORE"
  by (simp_all add: image_types_def takes_id_def FD_ENTRY_def)

theorem image_set_roundtrip_witness:
  "\<exists>s' fd s''. dump_images ex_fs_env 3 (\<lambda>_. ex_desc) [(FD_CORE, 1, [7]), (FD_PSTREE, 0, [9]), (FD_CORE, 2, [8, 8])] ex_fs = (0, s')
     \<and> open_image_at ex_fs_env 3 FD_CORE O_RSTR [VInt (int 2)] s' = (int fd, s'')
     \<and> collect_image ex_io ex_mm_env 99 ex_cinfo (opened_image (int fd) s'') ex_rst_state [] = Inr (0, ex_rst_state, [8, 8])"
proof -
  let ?cs = "[(FD_CORE, 1, [7]), (FD_PSTREE, 0, [9]), (FD_CORE, 2, [8, 8])] :: (fd_type \<times> nat \<times> byte list) list"
  have "images_ok ?cs"
    using ex_image_types by (simp add: images_ok_def same_file_def)
  moreover have "(FD_CORE, 2, [8, 8]) \<in> set ?cs"
    by simp
  moreover have "descs_ok (\<lambda>_. ex_desc) ?cs"
    using ex_collect_ok(1) unfolding descs_ok_def by blast
  ultimately have "(fs_ok ex_fs_env \<longrightarrow> fst (dump_images ex_fs_env 3 (\<lambda>_. ex_desc) ?cs ex_fs) = 0)
     \<and> (\<forall>s'. dump_images ex_fs_env 3 (\<lambda>_. ex_desc) ?cs ex_fs = (0, s') \<longrightarrow>
         (\<exists>fd s''. open_image_at ex_fs_env 3 FD_CORE O_RSTR [VInt (int 2)] s' = (int fd, s'')
            \<and> collect_image (k_io ex_fs_env) ex_mm_env 99 ex_cinfo (opened_image (int fd) s'') ex_rst_state [] = Inr (0, fold ex_add [8, 8] (ex_rst_state, []))))"
    by (intro image_set_roundtrip [OF _ _ _ ex_fs_env_ok ex_collect_ok(2,3)])
  then show ?thesis
    using ex_fs_env_ok by (cases "dump_images ex_fs_env 3 (\<lambda>_. ex_desc) ?cs ex_fs") (auto simp: ex_fs_env_def ex_add_def)
qed

text \<open>C40: A damaged optional image can pass for a missing one, with no call failing. Opening an image whose magic number is
  wrong, or that is shorter than one, fails without setting errno. When the optional image
  collected before it was missing, errno is still ENOENT, collecting takes the damaged image for
  missing as well, and the whole collection succeeds without a single object of it; alone, and with another errno left, the
  same image is refused.\<close>

theorem damaged_image_skipped:
  assumes "fs_ok E" "collect_optional c1" "collect_optional c2" "fs_dir s (dfd, image_path t1 []) = None"
    and "fs_dir s (dfd, image_path t2 []) = Some i" "magic (fdset_template t2) \<noteq> RAW_IMAGE_MAGIC"
    and "length (fs_ino s i) < 4 \<or> le_val (take 4 (fs_ino s i)) \<noteq> magic (fdset_template t2)"
  shows "(\<exists>s'. collect_all E M dfd junk [(t1, c1), (t2, c2)] s r u = Inr (0, s', r, u))
     \<and> (fs_errno s \<noteq> ENOENT \<longrightarrow> (\<exists>s'. collect_all E M dfd junk [(t2, c2)] s r u = Inr (-1, s', r, u)))"
proof
  let ?s = "s\<lparr>fs_tick := Suc (fs_tick s), fs_errno := ENOENT\<rparr>"
  have "open_image_at E dfd t1 O_RSTR [] s = (-1, ?s)"
    using assms(1,4) by (simp add: open_image_at_def sys_openat_def Let_def O_RSTR_def fs_ok_def)
  then have "collect_image_fs E M dfd junk t1 c1 s r u = Inr (0, ?s, r, u)"
    using assms(2) by (simp add: collect_image_fs_def opened_image_def collect_image_def)
  moreover have "\<exists>s'. collect_image_fs E M dfd junk t2 c2 ?s r u = Inr (0, s', r, u)"
    using collect_image_fs_rejects [OF assms(1,6), of ?s dfd i M junk c2 r u] assms(3,5,7) by simp
  ultimately show "\<exists>s'. collect_all E M dfd junk [(t1, c1), (t2, c2)] s r u = Inr (0, s', r, u)"
    by auto
  show "fs_errno s \<noteq> ENOENT \<longrightarrow> (\<exists>s'. collect_all E M dfd junk [(t2, c2)] s r u = Inr (-1, s', r, u))"
    using collect_image_fs_rejects [OF assms(1,6,5,7), of M junk c2 r u] by auto
qed

theorem damaged_image_skipped_witness:
  "\<exists>s'. collect_all ex_fs_env ex_mm_env 3 99 [(FD_INOTIFY_FILE, ex_cinfo), (FD_SIGNALFD, ex_cinfo)]
     (ex_fs\<lparr>fs_dir := (fs_dir ex_fs)((3, image_path FD_SIGNALFD []) \<mapsto> 0)\<rparr>) ex_rst_state [] = Inr (0, s', ex_rst_state, [])"
proof -
  let ?s = "ex_fs\<lparr>fs_dir := (fs_dir ex_fs)((3, image_path FD_SIGNALFD []) \<mapsto> 0)\<rparr>"
  have "image_path FD_INOTIFY_FILE [] \<noteq> image_path FD_SIGNALFD []"
    using image_path_plain [of FD_INOTIFY_FILE "[]"] image_path_plain [of FD_SIGNALFD "[]"]
    by (simp add: image_types_def takes_id_def FD_ENTRY_def)
  then have "fs_dir ?s (3, image_path FD_INOTIFY_FILE []) = None" "fs_dir ?s (3, image_path FD_SIGNALFD []) = Some 0"
    by (simp_all add: ex_fs_def)
  moreover have "magic (fdset_template FD_SIGNALFD) \<noteq> RAW_IMAGE_MAGIC" "length (fs_ino ?s 0) < 4" "collect_optional ex_cinfo"
    by (simp_all add: FD_ENTRY_def RAW_IMAGE_MAGIC_def ex_fs_def ex_cinfo_def)
  ultimately show ?thesis
    using damaged_image_skipped [OF ex_fs_env_ok, of ex_cinfo ex_cinfo ?s 3 FD_INOTIFY_FILE FD_SIGNALFD 0 ex_mm_env 99 ex_rst_state "[]"]
    by blast
qed


section \<open>The inventory comes back\<close>

lemma FD_INVENTORY_type: "FD_INVENTORY \<in> set image_types" "\<not> takes_id FD_INVENTORY"
  by (simp_all add: image_types_def takes_id_def FD_ENTRY_def)

lemma open_inventory_args: "open_image_at E dfd FD_INVENTORY flags args s = open_image_at E dfd FD_INVENTORY flags [] s"
  unfolding open_image_at_def image_path_plain [OF FD_INVENTORY_type] ..

definition inventory_of :: "'i \<Rightarrow> 'i inventory_entry" where
  "inventory_of ids = \<lparr>img_version = CRTOOLS_IMAGES_V1, fdinfo_per_id = Some True, ie_root_ids = Some ids, ns_per_id = Some True\<rparr>"

lemma on_fd_cong:
  assumes "\<And>f. snd (act f) = snd (act' f)"
  shows "snd (on_fd bad fd act s) = snd (on_fd bad' fd act' s)"
  using assms by (auto simp: on_fd_def split: option.split prod.split) (metis snd_conv)+

lemma on_fd_fst:
  assumes "fd_get (fs_fds s) fd = Some (i, p)"
  shows "fst (on_fd bad (int fd) act s) = fst (act \<lparr>if_data = fs_ino s i, if_pos = p, if_tick = fs_tick s\<rparr>)"
  using assms by (simp add: on_fd_def split: prod.split)

lemma pb_write_all_single:
  "pb_write_all E d [x] f = (if fst (pb_write_one E d x f) < 0 then -1 else 0, snd (pb_write_one E d x f))"
  by (simp split: prod.split)

lemma write_img_inventory_dump:
  assumes "0 \<le> fst (write_img_inventory E dfd (Some d) (Some ids) s)"
  shows "dump_image E dfd d FD_INVENTORY 0 [inventory_of ids] s = write_img_inventory E dfd (Some d) (Some ids) s"
    "fst (write_img_inventory E dfd (Some d) (Some ids) s) = 0"
proof -
  obtain r1 s1 where o: "open_image_at E dfd FD_INVENTORY O_DUMP [] s = (r1, s1)"
    by fastforce
  have r1: "0 \<le> r1"
    using assms o by (cases "r1 < 0") (simp_all add: write_img_inventory_def)
  from open_image_dump [OF o this] obtain fd where fd: "r1 = int fd" "fd_get (fs_fds s1) fd = Some (fs_inos s, length (magic_bytes FD_INVENTORY))"
    by (auto simp: opened_new_def)
  let ?act = "pb_write_one (k_io E) (Some d) (inventory_of ids)"
  let ?all = "pb_write_all (k_io E) (Some d) [inventory_of ids]"
  obtain r s2 where w: "on_fd (-1) r1 ?act s1 = (r, s2)"
    by fastforce
  have r: "0 \<le> r"
    using assms o r1 w by (cases "r < 0") (simp_all add: write_img_inventory_def inventory_of_def)
  have "fst (?act \<lparr>if_data = fs_ino s1 (fs_inos s), if_pos = length (magic_bytes FD_INVENTORY), if_tick = fs_tick s1\<rparr>) = r"
    using on_fd_fst [OF fd(2), of "-1" ?act] w fd(1) by simp
  then have "fst (on_fd (-1) r1 ?all s1) = 0"
    unfolding fd(1) on_fd_fst [OF fd(2)] pb_write_all_single using r by simp
  moreover have "snd (on_fd (-1) r1 ?all s1) = s2"
    using on_fd_cong [of ?all ?act "-1" r1 s1 "-1"] w by (simp add: pb_write_all_single del: pb_write_all.simps)
  ultimately have "on_fd (-1) r1 ?all s1 = (0, s2)"
    by (metis prod.collapse)
  then show "dump_image E dfd d FD_INVENTORY 0 [inventory_of ids] s = write_img_inventory E dfd (Some d) (Some ids) s"
    "fst (write_img_inventory E dfd (Some d) (Some ids) s) = 0"
    using o r1 w r by (simp_all add: dump_image_def write_img_inventory_def inventory_of_def open_inventory_args [of E dfd O_DUMP "[VInt 0]"] del: pb_write_all.simps)
qed

lemma write_img_inventory_ret:
  assumes "fs_ok E" "desc_ok d (inventory_of ids)"
  shows "fst (write_img_inventory E dfd (Some d) (Some ids) s) = 0"
proof -
  obtain r1 s1 where o: "open_image_at E dfd FD_INVENTORY O_DUMP [] s = (r1, s1)"
    by fastforce
  have r1: "0 \<le> r1"
    using open_image_dump_ret [OF assms(1), of dfd FD_INVENTORY "[]" s] o by simp
  from open_image_dump [OF o this] obtain fd where fd: "r1 = int fd" "fd_get (fs_fds s1) fd = Some (fs_inos s, length (magic_bytes FD_INVENTORY))"
    by (auto simp: opened_new_def)
  have "io_ok (k_io E)"
    using assms(1) by (simp add: fs_ok_def)
  then have "fst (on_fd (-1) r1 (pb_write_one (k_io E) (Some d) (inventory_of ids)) s1) = 0"
    unfolding fd(1) on_fd_fst [OF fd(2)] by (rule pb_write_one_ret [OF _ assms(2)])
  then show ?thesis
    using o r1 by (cases "on_fd (-1) r1 (pb_write_one (k_io E) (Some d) (inventory_of ids)) s1") (simp add: write_img_inventory_def inventory_of_def)
qed

lemma do_pb_read_one_eof: "do_pb_read_one E junk D True f = (1, m, f') \<Longrightarrow> do_pb_read_one E junk D eof f = (1, m, f')"
  by (auto simp: do_pb_read_one_def split: if_splits option.splits prod.splits)

lemma pb_read_fd_first:
  assumes "io_ok (k_io E)" "desc_ok d x" "opened_image (int fd) s = Img f" "drop (if_pos f) (if_data f) = pb_records d (x # xs)"
  shows "\<exists>s'. pb_read_fd E junk (Some d) (int fd) s = ((1, Some x), s') \<and> fs_ino s' = fs_ino s \<and> fs_dir s' = fs_dir s"
proof -
  obtain i p where i: "fd_get (fs_fds s) fd = Some (i, p)" "f = \<lparr>if_data = fs_ino s i, if_pos = p, if_tick = fs_tick s\<rparr>"
    using assms(3) by (auto simp: opened_image_def split: option.splits)
  let ?k = "length (pb_records d (x # xs))"
  have "drop (if_pos f) (if_data f) = take ?k (pb_record d x @ pb_records d xs)" "length (pb_record d x) \<le> ?k"
    using assms(4) by simp_all
  then obtain f' where "do_pb_read_one (k_io E) junk (Some d) True f = (1, Some x, f')" "if_data f' = if_data f"
    using do_pb_read_one_ok [OF assms(1,2), of f ?k "pb_records d xs" junk] by auto
  then show ?thesis
    using i do_pb_read_one_eof [of "k_io E" junk "Some d" f "Some x" f' False] by (simp add: pb_read_fd_def on_fd_def)
qed

text \<open>C39: The inventory that opens every dump is accepted by the restore that follows: when writing it
  reports success and no call of the restore fails, checking it returns 0 and leaves the settings of this version and the ids of the
  root task in the globals; when no call fails writing does report success. An inventory with
  another version number is refused. Unpacking is assumed the inverse of packing.\<close>

theorem inventory_roundtrip:
  assumes "\<And>he. desc_ok d he" "fs_ok E'"
  shows "(fs_ok E \<longrightarrow> fst (write_img_inventory E dfd (Some d) (Some ids) s) = 0)
     \<and> (\<forall>s'. write_img_inventory E dfd (Some d) (Some ids) s = (0, s') \<longrightarrow>
         (\<exists>s''. check_img_inventory E' dfd junk (Some d) s' g
            = (0, s'', g\<lparr>g_fdinfo_per_id := True, g_ns_per_id := True, g_root_ids := Some ids\<rparr>)))
     \<and> (\<forall>s' he. dump_image E dfd d FD_INVENTORY 0 [he] s = (0, s') \<and> img_version he \<noteq> CRTOOLS_IMAGES_V1 \<longrightarrow>
         fst (check_img_inventory E' dfd junk (Some d) s' g) = -1)"
proof -
  have io: "io_ok (k_io E')"
    using assms(2) by (simp add: fs_ok_def)
  have rd: "\<exists>fd s1 s2. open_image_at E' dfd FD_INVENTORY O_RSTR [] s' = (int fd, s1) \<and> pb_read_fd E' junk (Some d) (int fd) s1 = ((1, Some he), s2)"
    if "dump_image E dfd d FD_INVENTORY 0 [he] s = (0, s')" for he s'
  proof -
    have "fs_dir s' (dfd, image_path FD_INVENTORY []) = Some (fs_inos s)" "fs_ino s' (fs_inos s) = magic_bytes FD_INVENTORY @ pb_records d [he]"
      using dump_image_success [OF _ that] assms(1) image_path_plain [OF FD_INVENTORY_type] by simp_all
    from open_image_restore [OF assms(2) FD_INVENTORY_type(1) this] obtain fd s1 f where
      "open_image_at E' dfd FD_INVENTORY O_RSTR [] s' = (int fd, s1)" "opened_image (int fd) s1 = Img f"
      "drop (if_pos f) (if_data f) = pb_records d [he]"
      by blast
    then show ?thesis
      using pb_read_fd_first [OF io assms(1)] by metis
  qed
  have m: "fst (fs_malloc E' s1)" for s1
    using io by (simp add: fs_malloc_def io_ok_def)
  show ?thesis
  proof (intro conjI impI allI)
    show "fst (write_img_inventory E dfd (Some d) (Some ids) s) = 0" if "fs_ok E"
      using write_img_inventory_ret [OF that assms(1)] .
  next
    fix s'
    assume w: "write_img_inventory E dfd (Some d) (Some ids) s = (0, s')"
    then have "dump_image E dfd d FD_INVENTORY 0 [inventory_of ids] s = (0, s')"
      using write_img_inventory_dump(1) [of E dfd d ids s] by simp
    from rd [OF this] obtain fd s1 s2 where
      "open_image_at E' dfd FD_INVENTORY O_RSTR [] s' = (int fd, s1)" "pb_read_fd E' junk (Some d) (int fd) s1 = ((1, Some (inventory_of ids)), s2)"
      by blast
    then show "\<exists>s''. check_img_inventory E' dfd junk (Some d) s' g = (0, s'', g\<lparr>g_fdinfo_per_id := True, g_ns_per_id := True, g_root_ids := Some ids\<rparr>)"
      using m [of s2] by (cases "fs_malloc E' s2") (simp add: check_img_inventory_def inventory_of_def Let_def)
  next
    fix s' he
    assume h: "dump_image E dfd d FD_INVENTORY 0 [he] s = (0, s') \<and> img_version he \<noteq> CRTOOLS_IMAGES_V1"
    then obtain fd s1 s2 where
      "open_image_at E' dfd FD_INVENTORY O_RSTR [] s' = (int fd, s1)" "pb_read_fd E' junk (Some d) (int fd) s1 = ((1, Some he), s2)"
      using rd by blast
    then show "fst (check_img_inventory E' dfd junk (Some d) s' g) = -1"
      using h by (auto simp: check_img_inventory_def Let_def split: prod.split)
  qed
qed

text \<open>A packed form of inventories, for the example: the version and one byte for each optional field.\<close>

definition ex_inv_desc :: "bool inventory_entry pb_desc" where
  "ex_inv_desc =
     (let enc = case_option 0 (\<lambda>b. if b then 2 else 1); dec = (\<lambda>v :: byte. if v = 0 then None else Some (v = 2)) in
      \<lparr>getpksize = (\<lambda>_. 7),
       pack = (\<lambda>e. le_bytes 4 (unat (img_version e)) @ [enc (fdinfo_per_id e), enc (ie_root_ids e), enc (ns_per_id e)]),
       unpack = (\<lambda>bs. Some \<lparr>img_version = of_nat (le_val (take 4 bs)), fdinfo_per_id = dec (bs ! 4), ie_root_ids = dec (bs ! 5), ns_per_id = dec (bs ! 6)\<rparr>)\<rparr>)"

lemma ex_inv_desc_ok: "desc_ok ex_inv_desc e"
proof -
  have v: "le_val (le_bytes 4 (unat w)) = unat w" for w :: u32
    using unsigned_less [of w, where ?'a = nat] by (simp add: le_val_bytes)
  show ?thesis
    by (cases e) (auto simp: desc_ok_def ex_inv_desc_def Let_def MAX_RW_COUNT_def v nth_append split: option.split)
qed

theorem inventory_roundtrip_witness:
  "\<exists>s' s''. write_img_inventory ex_fs_env 3 (Some ex_inv_desc) (Some True) ex_fs = (0, s')
     \<and> check_img_inventory ex_fs_env 3 99 (Some ex_inv_desc) s' \<lparr>g_fdinfo_per_id = False, g_ns_per_id = False, g_root_ids = None\<rparr>
         = (0, s'', \<lparr>g_fdinfo_per_id = True, g_ns_per_id = True, g_root_ids = Some True\<rparr>)"
  using inventory_roundtrip [OF ex_inv_desc_ok ex_fs_env_ok, of ex_fs_env 3 True ex_fs 99
      "\<lparr>g_fdinfo_per_id = False, g_ns_per_id = False, g_root_ids = None\<rparr>"] ex_fs_env_ok
  by (cases "write_img_inventory ex_fs_env 3 (Some ex_inv_desc) (Some True) ex_fs") auto


section \<open>Sets of images opened for dump\<close>

text \<open>The slots that the loop fills from \<open>k\<close> on: descriptors of new files that hold just their magic number.\<close>

definition slots_open :: "nat \<Rightarrow> fd_type list \<Rightarrow> int list \<Rightarrow> img_fs \<Rightarrow> bool" where
  "slots_open k ts fds s \<longleftrightarrow> k + length ts \<le> length fds \<and>
     (\<forall>j < length ts. \<exists>fd i. fds ! (k + j) = int fd \<and> fd_get (fs_fds s) fd = Some (i, length (magic_bytes (ts ! j)))
        \<and> i < fs_inos s \<and> fs_ino s i = magic_bytes (ts ! j))"

definition keeps_open :: "img_fs \<Rightarrow> img_fs \<Rightarrow> bool" where
  "keeps_open s s' \<longleftrightarrow> fs_inos s \<le> fs_inos s' \<and> (\<forall>i < fs_inos s. fs_ino s' i = fs_ino s i)
     \<and> (\<forall>fd. fd_get (fs_fds s) fd \<noteq> None \<longrightarrow> fd_get (fs_fds s') fd = fd_get (fs_fds s) fd)"

lemma opened_new_keeps: "opened_new s dfd t args fd bs s' \<Longrightarrow> keeps_open s s'"
  by (auto simp: opened_new_def keeps_open_def)

lemma keeps_open_trans: "keeps_open s s' \<Longrightarrow> keeps_open s' s'' \<Longrightarrow> keeps_open s s''"
  by (auto simp: keeps_open_def)

lemma open_range_loop_dump:
  "open_range_loop E dfd pid O_DUMP ts k fds s = (True, fds', s') \<Longrightarrow> k + length ts \<le> length fds \<Longrightarrow>
    slots_open k ts fds' s' \<and> keeps_open s s' \<and> length fds' = length fds \<and> (\<forall>j < k. fds' ! j = fds ! j)
    \<and> (\<forall>j. k + length ts \<le> j \<longrightarrow> j < length fds \<longrightarrow> fds' ! j = fds ! j)"
proof (induction ts arbitrary: k fds s)
  case Nil
  then show ?case
    by (simp add: slots_open_def keeps_open_def)
next
  case (Cons t ts)
  obtain r s1 where o: "open_image_at E dfd t O_DUMP [VInt pid] s = (r, s1)"
    by fastforce
  have "o_creat O_DUMP"
    by (simp add: O_DUMP_def)
  then have r: "0 \<le> r" and l: "open_range_loop E dfd pid O_DUMP ts (Suc k) (fds[k := r]) s1 = (True, fds', s')"
    using Cons.prems(1) o by (auto split: if_splits)
  from open_image_dump [OF o r] obtain fd where fd: "r = int fd" "opened_new s dfd t [VInt pid] fd (magic_bytes t) s1"
    by blast
  have IH: "slots_open (Suc k) ts fds' s'" "keeps_open s1 s'" "length fds' = length fds" "\<forall>j < Suc k. fds' ! j = fds[k := r] ! j"
    "\<forall>j. Suc k + length ts \<le> j \<longrightarrow> j < length fds \<longrightarrow> fds' ! j = fds ! j"
    using Cons.IH [OF l] Cons.prems(2) by auto
  have "fds' ! k = int fd" "fd_get (fs_fds s') fd = Some (fs_inos s, length (magic_bytes t))" "fs_inos s < fs_inos s'" "fs_ino s' (fs_inos s) = magic_bytes t"
    using IH(2,4) Cons.prems(2) fd by (auto simp: opened_new_def keeps_open_def)
  then have "slots_open k (t # ts) fds' s'"
    using IH(1,3) Cons.prems(2) unfolding slots_open_def by (auto simp: nth_Cons split: nat.split)
  moreover have "keeps_open s s'"
    using keeps_open_trans [OF opened_new_keeps [OF fd(2)] IH(2)] .
  ultimately show ?case
    using IH(3-5) by auto
qed

lemma fdset_fd_slot:
  assumes "fd_off x \<le> t" "t - fd_off x < length (fds_arr x)" "length (fds_arr x) = fd_nr x"
  shows "fdset_fd x t = Inr (fds_arr x ! (t - fd_off x))"
  using assms by (simp add: fdset_fd_def Let_def flip: of_nat_diff)

lemma cr_fdset_open_dump:
  assumes "cr_fdset_open_range E dfd pid from to O_DUMP s = (Some x, s')" "from < to"
  shows "keeps_open s s' \<and> fdset_fd x to = Inr (-1) \<and> fdset_fd x (Suc to) = Inl UB
    \<and> (\<forall>i. from < i \<and> i < to \<longrightarrow> (\<exists>fd j. fdset_fd x i = Inr (int fd) \<and> fd_get (fs_fds s') fd = Some (j, length (magic_bytes (cr_fd_enum ! i)))
        \<and> fs_ino s' j = magic_bytes (cr_fd_enum ! i)))"
proof -
  let ?ts = "map (\<lambda>i. cr_fd_enum ! i) [Suc from..<to]"
  obtain x0 s1 where a: "alloc_cr_fdset E (to - from) s = (Some x0, s1)"
    using assms(1) by (cases "alloc_cr_fdset E (to - from) s"; cases "fst (alloc_cr_fdset E (to - from) s)")
      (auto simp: cr_fdset_open_range_def close_cr_fdset_def)
  then have x0: "x0 = \<lparr>fd_off = 0, fd_nr = to - from, fds_arr = replicate (to - from) (-1)\<rparr>" and k1: "keeps_open s s1"
    by (auto simp: alloc_cr_fdset_def fs_malloc_def keeps_open_def split: if_splits)
  obtain ok fds s2 where l: "open_range_loop E dfd pid O_DUMP ?ts 0 (fds_arr x0) s1 = (ok, fds, s2)"
    using prod_cases3 by blast
  then have ok: "ok" "s2 = s'" "x = x0\<lparr>fd_off := Suc from, fds_arr := fds\<rparr>"
    using assms(1) a by (auto simp: cr_fdset_open_range_def close_cr_fdset_def Let_def split: if_splits)
  have "slots_open 0 ?ts fds s' \<and> keeps_open s1 s' \<and> length fds = to - from \<and> (\<forall>j. to - Suc from \<le> j \<longrightarrow> j < to - from \<longrightarrow> fds ! j = -1)"
    using open_range_loop_dump [of E dfd pid ?ts 0 _ s1 fds s'] l ok(1,2) x0 by (simp add: nth_replicate)
  then have p: "slots_open 0 ?ts fds s'" "keeps_open s1 s'" "length fds = to - from" "fds ! (to - Suc from) = -1"
    using assms(2) by auto
  have "\<exists>fd j. fdset_fd x i = Inr (int fd) \<and> fd_get (fs_fds s') fd = Some (j, length (magic_bytes (cr_fd_enum ! i)))
      \<and> fs_ino s' j = magic_bytes (cr_fd_enum ! i)" if i: "from < i" "i < to" for i
  proof -
    obtain fd j where "fds ! (i - Suc from) = int fd" "fd_get (fs_fds s') fd = Some (j, length (magic_bytes (cr_fd_enum ! i)))" "fs_ino s' j = magic_bytes (cr_fd_enum ! i)"
      using p(1) i unfolding slots_open_def by (auto dest!: spec [of _ "i - Suc from"])
    then show ?thesis
      using i p(3) ok(3) x0 by (simp add: fdset_fd_slot)
  qed
  moreover have "fdset_fd x to = Inr (-1)" "fdset_fd x (Suc to) = Inl UB"
    using assms(2) p(3,4) ok(3) x0 by (simp add: fdset_fd_slot) (auto simp: fdset_fd_def Let_def ok(3) x0 p(3))
  ultimately show ?thesis
    using keeps_open_trans [OF k1 p(2)] by blast
qed

end
