(* ===== verification/Pstree.thy ===== *)
theory Pstree
  imports ImageSet
begin

text \<open>
  The process tree, pstree.c and include/pstree.h: items linked by parent pointers and lists of
  children, the walk over all items (\<^verbatim>\<open>pstree_item_next\<close>), writing the tree to its image and reading
  it back.

  An item is known by its address, 0 is NULL. The list of an item's children is kept as the sequence
  of addresses that theory \<open>ListHead\<close> shows the linked list to stand for: \<^verbatim>\<open>list_add\<close> puts an entry in
  front, \<^verbatim>\<open>sibling.next\<close> is the entry behind. Loops that end only on trees (the walk, climbing to an
  ancestor) are partial functions, \<open>None\<close> being the run that does not return.
\<close>

section \<open>Items\<close>

datatype task_state = TASK_UNSET | TASK_ALIVE | TASK_DEAD | TASK_STOPPED | TASK_HELPER

text \<open>An optional id that is not there is 0, as in the structure the generated code fills in.\<close>

record task_kobj_ids =
  vm_id :: nat
  files_id :: nat
  fs_id :: nat
  sighand_id :: nat
  pid_ns_id :: nat
  net_ns_id :: nat
  ipc_ns_id :: nat
  uts_ns_id :: nat
  mnt_ns_id :: nat

record pstree_item =
  pi_parent :: nat
  pi_children :: "nat list"
  pi_virt :: int
  pi_real :: int
  pi_pgid :: int
  pi_sid :: int
  pi_born_sid :: int
  pi_state :: task_state
  pi_threads :: "int list"
  pi_ids :: "task_kobj_ids option"
  pi_clone_flags :: u64
  pi_service_fd_id :: nat
  pi_fdt :: nat
  pi_pgrp_leader :: nat

type_synonym pstree_heap = "nat \<Rightarrow> pstree_item"

definition zero_item :: pstree_item where
  "zero_item = \<lparr>pi_parent = 0, pi_children = [], pi_virt = 0, pi_real = 0, pi_pgid = 0, pi_sid = 0, pi_born_sid = 0,
     pi_state = TASK_UNSET, pi_threads = [], pi_ids = None, pi_clone_flags = 0, pi_service_fd_id = 0, pi_fdt = 0, pi_pgrp_leader = 0\<rparr>"

definition new_item :: pstree_item where
  "new_item = zero_item\<lparr>pi_virt := -1, pi_real := -1, pi_born_sid := -1\<rparr>"

text \<open>The globals of a restore: the items, the root, the largest pid seen, the counters of \<^verbatim>\<open>task_entries\<close>.\<close>

record pstree =
  ps_heap :: pstree_heap
  ps_next :: nat
  ps_root :: nat
  ps_max_pid :: int
  ps_nr_threads :: nat
  ps_nr_tasks :: nat
  ps_nr_helpers :: nat

text \<open>
  \<^verbatim>\<open>__alloc_pstree_item\<close>. Whether the allocator (theory \<open>RstMalloc\<close> for a restore) has memory is up to the
  caller's oracle; an address is never given twice.
\<close>

definition alloc_pstree_item :: "bool \<Rightarrow> pstree \<Rightarrow> nat \<times> pstree" where
  "alloc_pstree_item ok ps =
     (if \<not> ok then (0, ps)
      else (ps_next ps, ps\<lparr>ps_heap := (ps_heap ps)(ps_next ps := new_item), ps_next := Suc (ps_next ps)\<rparr>))"

definition upd_item :: "nat \<Rightarrow> (pstree_item \<Rightarrow> pstree_item) \<Rightarrow> pstree \<Rightarrow> pstree" where
  "upd_item i f ps = ps\<lparr>ps_heap := (ps_heap ps)(i := f (ps_heap ps i))\<rparr>"

section \<open>The walk\<close>

fun entry_behind :: "nat \<Rightarrow> nat list \<Rightarrow> nat option" where
  "entry_behind i [] = None"
| "entry_behind i [x] = None"
| "entry_behind i (x # y # xs) = (if x = i then Some y else entry_behind i (y # xs))"

partial_function (option) climb :: "pstree_heap \<Rightarrow> nat \<Rightarrow> nat option" where
  "climb h i =
     (if pi_parent (h i) = 0 then Some 0
      else case entry_behind i (pi_children (h (pi_parent (h i)))) of
        Some y \<Rightarrow> Some y
      | None \<Rightarrow> climb h (pi_parent (h i)))"

definition pstree_item_next :: "pstree_heap \<Rightarrow> nat \<Rightarrow> nat option" where
  "pstree_item_next h i = (case pi_children (h i) of c # _ \<Rightarrow> Some c | [] \<Rightarrow> climb h i)"

text \<open>
  \<^verbatim>\<open>for_each_pstree_item\<close>: the body gets the item and a state that contains the items; \<open>Inl\<close> leaves
  the loop, by \<^verbatim>\<open>return\<close>, \<^verbatim>\<open>goto\<close> or \<^verbatim>\<open>break\<close>.
\<close>

partial_function (option) for_each_item :: "('s \<Rightarrow> pstree_heap) \<Rightarrow> (nat \<Rightarrow> 's \<Rightarrow> 'r + 's) \<Rightarrow> nat \<Rightarrow> 's \<Rightarrow> ('r + 's) option" where
  "for_each_item hp body i s =
     (if i = 0 then Some (Inr s)
      else case body i s of
        Inl r \<Rightarrow> Some (Inl r)
      | Inr s' \<Rightarrow> Option.bind (pstree_item_next (hp s') i) (\<lambda>j. for_each_item hp body j s'))"

definition pid_in_pstree :: "pstree_heap \<Rightarrow> nat \<Rightarrow> int \<Rightarrow> bool option" where
  "pid_in_pstree h root pid =
     map_option (\<lambda>r. case r of Inl _ \<Rightarrow> True | Inr _ \<Rightarrow> False)
       (for_each_item (\<lambda>_. h) (\<lambda>i (s :: unit). if pi_real (h i) = pid then Inl () else Inr s) root ())"

section \<open>The image\<close>

text \<open>The fields of a \<^verbatim>\<open>PstreeEntry\<close> are 32 bits wide and unsigned, a \<^verbatim>\<open>pid_t\<close> is a signed \<^verbatim>\<open>int\<close>.\<close>

record pstree_entry =
  e_pid :: nat
  e_ppid :: nat
  e_pgid :: nat
  e_sid :: nat
  e_threads :: "nat list"

definition to_u32 :: "int \<Rightarrow> nat" where
  "to_u32 p = nat (p mod 2 ^ 32)"

definition to_pid :: "nat \<Rightarrow> int" where
  "to_pid n = (if n < 2 ^ 31 then int n else int n - 2 ^ 32)"

definition entry_of :: "pstree_heap \<Rightarrow> nat \<Rightarrow> pstree_entry" where
  "entry_of h i =
     \<lparr>e_pid = to_u32 (pi_virt (h i)),
      e_ppid = (if pi_parent (h i) \<noteq> 0 then to_u32 (pi_virt (h (pi_parent (h i)))) else 0),
      e_pgid = to_u32 (pi_pgid (h i)), e_sid = to_u32 (pi_sid (h i)),
      e_threads = map to_u32 (pi_threads (h i))\<rparr>"

text \<open>The variable \<^verbatim>\<open>ret\<close> is -1 before the loop and then what the last \<^verbatim>\<open>pb_write_one\<close> returned; it is the result of every exit.\<close>

definition dump_item ::
  "fs_env \<Rightarrow> pstree_entry pb_desc option \<Rightarrow> pstree_heap \<Rightarrow> int \<Rightarrow> nat \<Rightarrow> int \<times> img_fs \<Rightarrow> (int \<times> img_fs) + (int \<times> img_fs)" where
  "dump_item E d h fd i rs =
     (case rs of (ret, s) \<Rightarrow> case fs_malloc E s of (ok, s) \<Rightarrow>
        if \<not> ok then Inl (ret, s)
        else case on_fd (-1) fd (pb_write_one (k_io E) d (entry_of h i)) s of (ret, s) \<Rightarrow>
          if ret \<noteq> 0 then Inl (ret, s) else Inr (ret, s))"

definition dump_pstree ::
  "fs_env \<Rightarrow> nat \<Rightarrow> bool \<Rightarrow> pstree_entry pb_desc option \<Rightarrow> pstree_heap \<Rightarrow> nat \<Rightarrow> img_fs \<Rightarrow> (int \<times> img_fs) option" where
  "dump_pstree E dfd shell_job d h root s =
     (if pi_virt (h root) \<noteq> pi_sid (h root) \<and> \<not> shell_job then Some (-1, s)
      else case open_image_at E dfd FD_PSTREE O_DUMP [] s of (fd, s) \<Rightarrow>
        if fd < 0 then Some (-1, s)
        else map_option (\<lambda>r. case r of Inl (ret, s) \<Rightarrow> (ret, snd (sys_close E fd s)) | Inr (_, s) \<Rightarrow> (0, snd (sys_close E fd s)))
               (for_each_item (\<lambda>_. h) (dump_item E d h fd) root (-1, s)))"

text \<open>\<^verbatim>\<open>while (parent)\<close>: from the item read last up to the one with the given pid.\<close>

partial_function (option) find_ancestor :: "pstree_heap \<Rightarrow> nat \<Rightarrow> nat \<Rightarrow> nat option" where
  "find_ancestor h ppid p =
     (if p = 0 then Some 0
      else if to_u32 (pi_virt (h p)) = ppid then Some p
      else find_ancestor h ppid (pi_parent (h p)))"

definition find_item :: "pstree_heap \<Rightarrow> nat \<Rightarrow> nat \<Rightarrow> nat option" where
  "find_item h root ppid =
     map_option (\<lambda>r. case r of Inl p \<Rightarrow> p | Inr _ \<Rightarrow> 0)
       (for_each_item (\<lambda>_. h) (\<lambda>i (s :: unit). if to_u32 (pi_virt (h i)) = ppid then Inl i else Inr s) root ())"

text \<open>
  The part of \<^verbatim>\<open>read_pstree_image\<close> that hooks one entry into the tree: the new item gets its numbers
  and is put in front of the children of its parent. The cursor is the variable \<^verbatim>\<open>parent\<close>; the answer
  \<open>False\<close> stands for the error exit. An entry whose parent is not in the tree is \<open>UB\<close>: the code gives the
  new item to \<^verbatim>\<open>xfree\<close>, and that item comes from \<^verbatim>\<open>shmalloc\<close>. A search that does not return is \<open>HANG\<close>.
\<close>

definition fill_item :: "nat \<Rightarrow> pstree_entry \<Rightarrow> pstree \<Rightarrow> pstree" where
  "fill_item i e ps =
     upd_item i (\<lambda>x. x\<lparr>pi_virt := to_pid (e_pid e), pi_pgid := to_pid (e_pgid e), pi_sid := to_pid (e_sid e)\<rparr>)
       (ps\<lparr>ps_max_pid := max (to_pid (e_sid e)) (max (to_pid (e_pgid e)) (max (to_pid (e_pid e)) (ps_max_pid ps)))\<rparr>)"

definition find_parent :: "nat \<Rightarrow> nat \<Rightarrow> pstree \<Rightarrow> nat option" where
  "find_parent ppid cursor ps =
     Option.bind (find_ancestor (ps_heap ps) ppid cursor) (\<lambda>p.
       if p \<noteq> 0 then Some p else find_item (ps_heap ps) (ps_root ps) ppid)"

definition hook_item :: "nat \<Rightarrow> nat \<Rightarrow> pstree \<Rightarrow> pstree" where
  "hook_item i p ps = upd_item p (\<lambda>x. x\<lparr>pi_children := i # pi_children x\<rparr>) (upd_item i (\<lambda>x. x\<lparr>pi_parent := p\<rparr>) ps)"

definition link_entry :: "nat \<Rightarrow> pstree_entry \<Rightarrow> nat \<Rightarrow> pstree \<Rightarrow> (bool \<times> pstree) outcome" where
  "link_entry i e cursor ps =
     (if e_ppid e = 0 then
        (if ps_root ps \<noteq> 0 then Inr (False, ps)
         else Inr (True, upd_item i (\<lambda>x. x\<lparr>pi_parent := 0\<rparr>) (ps\<lparr>ps_root := i\<rparr>)))
      else bindF (returns (find_parent (e_ppid e) cursor ps)) (\<lambda>p.
        if p = 0 then Inl UB else Inr (True, hook_item i p ps)))"

definition set_threads :: "nat \<Rightarrow> pstree_entry \<Rightarrow> pstree \<Rightarrow> pstree" where
  "set_threads i e ps =
     (upd_item i (\<lambda>x. x\<lparr>pi_threads := map to_pid (e_threads e)\<rparr>) ps)
       \<lparr>ps_nr_threads := ps_nr_threads ps + length (e_threads e), ps_nr_tasks := Suc (ps_nr_tasks ps)\<rparr>"

definition read_ids ::
  "fs_env \<Rightarrow> nat \<Rightarrow> nat \<Rightarrow> task_kobj_ids pb_desc option \<Rightarrow> nat \<Rightarrow> img_fs \<Rightarrow> pstree \<Rightarrow> bool \<times> img_fs \<times> pstree" where
  "read_ids E dfd junk dk i s ps =
     (case open_image_at E dfd FD_IDS O_RSTR [VInt (pi_virt (ps_heap ps i))] s of (fd, s) \<Rightarrow>
        if fd < 0 then (fs_errno s = ENOENT, s, ps)
        else case pb_read_fd E junk dk fd s of ((ret, ids), s) \<Rightarrow>
          (ret = 1, snd (sys_close E fd s), if ids = None then ps else upd_item i (\<lambda>x. x\<lparr>pi_ids := ids\<rparr>) ps))"

text \<open>
  The loop of \<^verbatim>\<open>read_pstree_image\<close>. The error exits return -1: the \<^verbatim>\<open>ret = -1\<close> above them, or the -1 of a failed
  \<^verbatim>\<open>pb_read_one\<close>, which has no other result but 1.
\<close>

primrec read_pstree_loop ::
  "nat \<Rightarrow> fs_env \<Rightarrow> nat \<Rightarrow> nat \<Rightarrow> pstree_entry pb_desc option \<Rightarrow> task_kobj_ids pb_desc option \<Rightarrow> int \<Rightarrow> nat
     \<Rightarrow> img_fs \<Rightarrow> pstree \<Rightarrow> (int \<times> img_fs \<times> pstree) outcome" where
  "read_pstree_loop 0 E dfd junk d dk fd cursor s ps = Inl HANG"
| "read_pstree_loop (Suc n) E dfd junk d dk fd cursor s ps =
     (case on_fd (-1, None) fd (\<lambda>f. case do_pb_read_one (k_io E) junk d True f of (r, m, f) \<Rightarrow> ((r, m), f)) s of
        ((ret, None), s) \<Rightarrow> Inr (ret, s, ps)
      | ((ret, Some e), s) \<Rightarrow>
          (case fs_malloc E s of (ok, s) \<Rightarrow>
           case alloc_pstree_item ok ps of (i, ps) \<Rightarrow>
             if i = 0 then Inr (-1, s, ps)
             else bindF (link_entry i e cursor (fill_item i e ps)) (\<lambda>(ok, ps).
               if \<not> ok then Inr (-1, s, ps)
               else case fs_malloc E s of (ok, s) \<Rightarrow>
                 if \<not> ok then Inr (-1, s, ps)
                 else case read_ids E dfd junk dk i s (set_threads i e ps) of (ok, s, ps) \<Rightarrow>
                   if \<not> ok then Inr (-1, s, ps)
                   else read_pstree_loop n E dfd junk d dk fd i s ps)))"

definition read_pstree_image ::
  "fs_env \<Rightarrow> nat \<Rightarrow> nat \<Rightarrow> pstree_entry pb_desc option \<Rightarrow> task_kobj_ids pb_desc option \<Rightarrow> img_fs \<Rightarrow> pstree \<Rightarrow> (int \<times> img_fs \<times> pstree) outcome" where
  "read_pstree_image E dfd junk d dk s ps =
     (case open_image_at E dfd FD_PSTREE O_RSTR [] s of (fd, s) \<Rightarrow>
        if fd < 0 then Inr (fd, s, ps)
        else bindF (read_pstree_loop (case opened_image fd s of Img f \<Rightarrow> Suc (length (if_data f)) | ImgErr _ \<Rightarrow> 1) E dfd junk d dk fd 0 s ps)
               (\<lambda>(ret, s, ps). Inr (ret, snd (sys_close E fd s), ps)))"

section \<open>The walk is the depth-first order\<close>

datatype ptree = PT (pt_id: nat) (pt_kids: "ptree list")

fun preorder :: "ptree \<Rightarrow> nat list" where
  "preorder (PT i ts) = i # concat (map preorder ts)"

text \<open>The items of a heap that hang together as a tree below an item \<open>p\<close>.\<close>

fun rep :: "pstree_heap \<Rightarrow> nat \<Rightarrow> ptree \<Rightarrow> bool" where
  "rep h p (PT i ts) \<longleftrightarrow> i \<noteq> 0 \<and> pi_parent (h i) = p \<and> pi_children (h i) = map pt_id ts \<and> (\<forall>t \<in> set ts. rep h i t)"

lemma preorder_hd: "preorder t = pt_id t # concat (map preorder (pt_kids t))"
  by (cases t) simp

lemma pt_id_preorder [simp]: "pt_id t \<in> set (preorder t)"
  by (cases t) simp

lemma preorder_ne [simp]: "preorder t \<noteq> []"
  by (cases t) simp

lemma rep_cong:
  "(\<And>i. i \<in> set (preorder t) \<Longrightarrow> pi_parent (h' i) = pi_parent (h i) \<and> pi_children (h' i) = pi_children (h i)) \<Longrightarrow> rep h p t \<Longrightarrow> rep h' p t"
proof (induction t arbitrary: p)
  case (PT i ts)
  then show ?case
    by auto
qed

lemma rep_nonzero: "rep h p t \<Longrightarrow> i \<in> set (preorder t) \<Longrightarrow> i \<noteq> 0"
  by (induction t arbitrary: p) auto

lemma entry_behind_app: "i \<notin> set xs \<Longrightarrow> entry_behind i (xs @ i # ys) = (case ys of [] \<Rightarrow> None | y # _ \<Rightarrow> Some y)"
proof (induction xs)
  case Nil
  then show ?case
    by (cases ys) auto
next
  case (Cons x xs)
  then show ?case
    by (cases xs) auto
qed

text \<open>Behind the last item of a subtree the walk goes on as if it climbed from the root of it.\<close>

lemma climb_root: "pi_parent (h i) = 0 \<Longrightarrow> climb h i = Some 0"
  by (subst climb.simps) simp

lemma climb_next: "pi_parent (h i) = p \<Longrightarrow> p \<noteq> 0 \<Longrightarrow> pi_children (h p) = xs @ i # y # ys \<Longrightarrow> i \<notin> set xs \<Longrightarrow> climb h i = Some y"
  by (subst climb.simps) (simp add: entry_behind_app)

lemma climb_last: "pi_parent (h i) = p \<Longrightarrow> p \<noteq> 0 \<Longrightarrow> pi_children (h p) = xs @ [i] \<Longrightarrow> i \<notin> set xs \<Longrightarrow> climb h i = climb h p"
  by (subst climb.simps) (simp add: entry_behind_app)

lemma concat_split_at:
  "concat xss = ys @ i # zs \<Longrightarrow> \<exists>as b c e. xss = as @ (c @ i # e) # b \<and> zs = e @ concat b \<and> ys = concat as @ c"
proof (induction xss arbitrary: ys)
  case (Cons xs xss)
  have e: "xs @ concat xss = ys @ i # zs"
    using Cons.prems by simp
  then consider us where "xs = ys @ us" "us @ concat xss = i # zs" | us where "ys = xs @ us" "concat xss = us @ i # zs"
    by (auto simp: append_eq_append_conv2)
  then show ?case
  proof cases
    case 1
    show ?thesis
    proof (cases us)
      case Nil
      then have "concat xss = [] @ i # zs"
        using 1(2) by simp
      from Cons.IH [OF this] obtain as b c e where "xss = as @ (c @ i # e) # b" "zs = e @ concat b" "[] = concat as @ c"
        by blast
      then show ?thesis
        using 1(1) Nil by (intro exI [of _ "xs # as"] exI [of _ b] exI [of _ c] exI [of _ e]) simp
    next
      case (Cons u e)
      then show ?thesis
        using 1 by (intro exI [of _ "[]"] exI [of _ xss] exI [of _ ys] exI [of _ e]) simp
    qed
  next
    case 2
    from Cons.IH [OF 2(2)] obtain as b c e where "xss = as @ (c @ i # e) # b" "zs = e @ concat b" "us = concat as @ c"
      by blast
    then show ?thesis
      using 2(1) by (intro exI [of _ "xs # as"] exI [of _ b] exI [of _ c] exI [of _ e]) simp
  qed
qed simp

lemma next_in_subtree:
  "rep h p t \<Longrightarrow> distinct (preorder t) \<Longrightarrow> preorder t = xs @ i # ys \<Longrightarrow>
    pstree_item_next h i = (case ys of [] \<Rightarrow> climb h (pt_id t) | y # _ \<Rightarrow> Some y)"
proof (induction t arbitrary: p xs ys)
  case (PT r ts)
  have kids: "pi_children (h r) = map pt_id ts" "r \<noteq> 0"
    using PT.prems(1) by simp_all
  show ?case
  proof (cases xs)
    case Nil
    then have "i = r" "ys = concat (map preorder ts)"
      using PT.prems(3) by simp_all
    then show ?thesis
      using kids by (cases ts) (auto simp: pstree_item_next_def preorder_hd)
  next
    case (Cons x xs')
    then have "concat (map preorder ts) = xs' @ i # ys"
      using PT.prems(3) by simp
    from concat_split_at [OF this] obtain as bs c vs where s: "map preorder ts = as @ (c @ i # vs) # bs" "ys = vs @ concat bs"
      by blast
    then obtain ts1 t ts2 where t: "ts = ts1 @ t # ts2" "preorder t = c @ i # vs" "bs = map preorder ts2"
      by (auto simp: map_eq_append_conv map_eq_Cons_conv)
    note v = t(2) s(2) [unfolded t(3)]
    have d: "distinct (preorder t)" "\<forall>u \<in> set ts1. set (preorder u) \<inter> set (preorder t) = {}"
      using PT.prems(2) t(1) by auto
    then have d2: "pt_id t \<notin> set (map pt_id ts1)"
      by (metis (no_types, lifting) disjoint_iff imageE list.set_map pt_id_preorder)
    have rt: "rep h r t" "pi_parent (h (pt_id t)) = r"
      using PT.prems(1) t(1) by (auto, cases t, auto)
    note IH = PT.IH [of t, OF _ rt(1) d(1) v(1)]
    show ?thesis
    proof (cases vs)
      case (Cons y vs')
      then show ?thesis
        using IH t(1) v(2) by simp
    next
      case Nil
      then have n: "pstree_item_next h i = climb h (pt_id t)"
        using IH t(1) by simp
      show ?thesis
      proof (cases ts2)
        case Nil
        then have "climb h (pt_id t) = climb h r"
          using climb_last [where h = h and i = "pt_id t", OF rt(2) kids(2), of "map pt_id ts1"] kids(1) t(1) d2 by simp
        then show ?thesis
          using n Nil v(2) \<open>vs = []\<close> by simp
      next
        case (Cons u us')
        then have "climb h (pt_id t) = Some (pt_id u)"
          using climb_next [where h = h and i = "pt_id t", OF rt(2) kids(2), of "map pt_id ts1" "pt_id u" "map pt_id us'"] kids(1) t(1) d2 by simp
        then show ?thesis
          using n Cons v(2) \<open>vs = []\<close> by (simp add: preorder_hd)
      qed
    qed
  qed
qed

lemma next_preorder:
  assumes "rep h 0 t" "distinct (preorder t)" "preorder t = xs @ i # ys"
  shows "pstree_item_next h i = Some (case ys of [] \<Rightarrow> 0 | y # _ \<Rightarrow> y)"
proof -
  have "pi_parent (h (pt_id t)) = 0"
    using assms(1) by (cases t) simp
  then show ?thesis
    using next_in_subtree [OF assms] climb_root by (simp split: list.split)
qed
primrec run_items :: "(nat \<Rightarrow> 's \<Rightarrow> 'r + 's) \<Rightarrow> nat list \<Rightarrow> 's \<Rightarrow> 'r + 's" where
  "run_items body [] s = Inr s"
| "run_items body (i # is) s = (case body i s of Inl r \<Rightarrow> Inl r | Inr s' \<Rightarrow> run_items body is s')"

lemma for_each_suffix:
  assumes "distinct (preorder t)" "\<And>i s s'. i \<in> set (preorder t) \<Longrightarrow> rep (hp s) 0 t \<Longrightarrow> body i s = Inr s' \<Longrightarrow> rep (hp s') 0 t"
  shows "preorder t = xs @ ys \<Longrightarrow> rep (hp s) 0 t \<Longrightarrow>
    for_each_item hp body (case ys of [] \<Rightarrow> 0 | y # _ \<Rightarrow> y) s = Some (run_items body ys s)"
proof (induction ys arbitrary: xs s)
  case Nil
  then show ?case
    by (simp add: for_each_item.simps)
next
  case (Cons y ys)
  have "y \<noteq> 0"
    using rep_nonzero [OF Cons.prems(2), of y] Cons.prems(1) by simp
  show ?case
  proof (cases "body y s")
    case (Inl r)
    then show ?thesis
      using \<open>y \<noteq> 0\<close> by (simp add: for_each_item.simps [of hp body y])
  next
    case (Inr s')
    then have r: "rep (hp s') 0 t"
      by (intro assms(2) [OF _ Cons.prems(2)]) (simp_all add: Cons.prems(1))
    have "for_each_item hp body (case ys of [] \<Rightarrow> 0 | y # _ \<Rightarrow> y) s' = Some (run_items body ys s')"
      using Cons.IH [of "xs @ [y]" s'] Cons.prems(1) r by simp
    then show ?thesis
      using \<open>y \<noteq> 0\<close> Inr next_preorder [OF r assms(1) Cons.prems(1)] by (simp add: for_each_item.simps [of hp body y])
  qed
qed

lemma for_each_preorder:
  assumes "distinct (preorder t)" "rep (hp s) 0 t"
    and "\<And>i s s'. i \<in> set (preorder t) \<Longrightarrow> rep (hp s) 0 t \<Longrightarrow> body i s = Inr s' \<Longrightarrow> rep (hp s') 0 t"
  shows "for_each_item hp body (pt_id t) s = Some (run_items body (preorder t) s)"
  using for_each_suffix [where xs = "[]" and ys = "preorder t" and s = s, OF assms(1,3)] assms(2) by (simp add: preorder_hd [of t])

lemma run_items_find:
  "run_items (\<lambda>i s. if P i then Inl i else Inr s) xs s = (case filter P xs of [] \<Rightarrow> Inr s | x # _ \<Rightarrow> Inl x)"
  by (induction xs) auto

section \<open>Writing the tree\<close>

datatype dtree = DT (d_pid: int) (d_pgid: int) (d_sid: int) (d_thr: "int list") (d_kids: "dtree list")

text \<open>What an item and all below it stand for, addresses left out.\<close>

fun data_of :: "pstree_heap \<Rightarrow> ptree \<Rightarrow> dtree" where
  "data_of h (PT i ts) = DT (pi_virt (h i)) (pi_pgid (h i)) (pi_sid (h i)) (pi_threads (h i)) (map (data_of h) ts)"

fun mirror :: "dtree \<Rightarrow> dtree" where
  "mirror (DT p g s th ks) = DT p g s th (rev (map mirror ks))"

fun d_entries :: "nat \<Rightarrow> dtree \<Rightarrow> pstree_entry list" where
  "d_entries pp (DT p g s th ks) =
     \<lparr>e_pid = to_u32 p, e_ppid = pp, e_pgid = to_u32 g, e_sid = to_u32 s, e_threads = map to_u32 th\<rparr>
       # concat (map (d_entries (to_u32 p)) ks)"

fun d_pids :: "dtree \<Rightarrow> int list" where
  "d_pids (DT p g s th ks) = p # concat (map d_pids ks)"

fun d_all :: "(int \<Rightarrow> int \<Rightarrow> int \<Rightarrow> int list \<Rightarrow> bool) \<Rightarrow> dtree \<Rightarrow> bool" where
  "d_all P (DT p g s th ks) \<longleftrightarrow> P p g s th \<and> (\<forall>k \<in> set ks. d_all P k)"

lemma mirror_mirror: "mirror (mirror t) = t"
  by (induction t) (simp add: rev_map map_idI)

lemma dump_entries: "rep h p t \<Longrightarrow> map (entry_of h) (preorder t) = d_entries (if p \<noteq> 0 then to_u32 (pi_virt (h p)) else 0) (data_of h t)"
proof (induction t arbitrary: p)
  case (PT i ts)
  have "map (entry_of h) (preorder t) = d_entries (to_u32 (pi_virt (h i))) (data_of h t)" if "t \<in> set ts" for t
    using PT.IH [OF that, of i] PT.prems that by auto
  then show ?case
    using PT.prems by (simp add: entry_of_def map_concat comp_def cong: map_cong)
qed

definition file_at :: "img_fs \<Rightarrow> nat \<Rightarrow> nat \<Rightarrow> byte list \<Rightarrow> bool" where
  "file_at s fd i bs \<longleftrightarrow> fd_get (fs_fds s) fd = Some (i, length bs) \<and> fs_ino s i = bs"

lemma write_at_end:
  assumes "file_at s fd i bs" "desc_ok d x" "on_fd (-1) (int fd) (pb_write_one E (Some d) x) s = (r, s')" "0 \<le> r"
  shows "file_at s' fd i (bs @ pb_record d x)" "fs_dir s' = fs_dir s" "fs_inos s' = fs_inos s" "fs_ino s' = (fs_ino s)(i := bs @ pb_record d x)"
proof -
  let ?f = "\<lparr>if_data = bs, if_pos = length bs, if_tick = fs_tick s\<rparr>"
  obtain r1 f where w: "pb_write_one E (Some d) x ?f = (r1, f)"
    by fastforce
  have g: "fd_get (fs_fds s) fd = Some (i, length bs)"
    using assms(1) by (simp add: file_at_def)
  have "on_fd (-1) (int fd) (pb_write_one E (Some d) x) s =
      (r1, s\<lparr>fs_ino := (fs_ino s)(i := if_data f), fs_fds := (fs_fds s)[fd := Some (i, if_pos f)], fs_tick := if_tick f\<rparr>)"
    using on_fd_open [where act = "pb_write_one E (Some d) x", OF g] w assms(1) by (simp add: file_at_def)
  then have s': "r = r1" "s' = s\<lparr>fs_ino := (fs_ino s)(i := if_data f), fs_fds := (fs_fds s)[fd := Some (i, if_pos f)], fs_tick := if_tick f\<rparr>"
    using assms(3) by simp_all
  have f: "if_data f = bs @ pb_record d x" "if_pos f = length (if_data f)"
    using pb_write_one_success [OF assms(2) _ w] assms(4) s'(1) by simp_all
  then show "file_at s' fd i (bs @ pb_record d x)" "fs_dir s' = fs_dir s" "fs_inos s' = fs_inos s" "fs_ino s' = (fs_ino s)(i := bs @ pb_record d x)"
    using fd_get_Some_less [OF g] by (simp_all add: s'(2) file_at_def fd_get_update)
qed

lemma write_at_end_ret:
  assumes "file_at s fd i bs" "desc_ok d x" "io_ok E"
  shows "fst (on_fd (-1) (int fd) (pb_write_one E (Some d) x) s) = 0"
  using assms(1) on_fd_fst pb_write_one_ret [OF assms(3,2)] by (simp add: file_at_def on_fd_fst)

lemma file_at_tick: "file_at (s\<lparr>fs_tick := n\<rparr>) fd i bs \<longleftrightarrow> file_at s fd i bs"
  by (simp add: file_at_def)

lemma dump_items_success:
  assumes "\<And>j. j \<in> set js \<Longrightarrow> desc_ok d (entry_of h j)" "\<And>t. io_malloc (k_io E) t \<noteq> 0"
  shows "run_items (dump_item E (Some d) h (int fd)) js (r, s) = x \<Longrightarrow> x = Inr (r', s') \<or> x = Inl (0, s') \<Longrightarrow> file_at s fd i bs \<Longrightarrow>
    fs_ino s' = (fs_ino s)(i := bs @ pb_records d (map (entry_of h) js)) \<and> fs_dir s' = fs_dir s \<and> fs_inos s' = fs_inos s"
  using assms(1)
proof (induction js arbitrary: r s bs)
  case Nil
  then show ?case
    by (auto simp: file_at_def)
next
  case (Cons j js)
  let ?s = "s\<lparr>fs_tick := Suc (fs_tick s)\<rparr>"
  obtain r1 s1 where w: "on_fd (-1) (int fd) (pb_write_one (k_io E) (Some d) (entry_of h j)) ?s = (r1, s1)"
    by fastforce
  then have r: "r1 = 0" "run_items (dump_item E (Some d) h (int fd)) js (r1, s1) = x"
    using Cons.prems(1,2) assms(2) by (auto simp: dump_item_def [of _ _ _ _ j] fs_malloc_def split: if_splits)
  have "file_at ?s fd i bs"
    using Cons.prems(3) by (simp add: file_at_tick)
  note e = write_at_end [OF this Cons.prems(4) w]
  show ?case
    using Cons.IH [OF r(2) Cons.prems(2) e(1)] e(2-4) Cons.prems(4) r(1) by (auto simp: fun_eq_iff)
qed

lemma dump_items_ret:
  assumes "fs_ok E"
  shows "(\<And>j. j \<in> set js \<Longrightarrow> desc_ok d (entry_of h j)) \<Longrightarrow> file_at s fd i bs \<Longrightarrow>
    \<exists>x. run_items (dump_item E (Some d) h (int fd)) js (r, s) = Inr x"
proof (induction js arbitrary: r s bs)
  case (Cons j js)
  let ?s = "s\<lparr>fs_tick := Suc (fs_tick s)\<rparr>"
  have io: "io_ok (k_io E)" "io_malloc (k_io E) (fs_tick s) \<noteq> 0"
    using assms by (simp_all add: fs_ok_def io_ok_def)
  have f: "file_at ?s fd i bs"
    using Cons.prems(2) by (simp add: file_at_tick)
  obtain s1 where w: "on_fd (-1) (int fd) (pb_write_one (k_io E) (Some d) (entry_of h j)) ?s = (0, s1)"
    using write_at_end_ret [OF f Cons.prems(1) io(1), of j] by (metis list.set_intros(1) prod.collapse)
  have "\<exists>x. run_items (dump_item E (Some d) h (int fd)) js (0, s1) = Inr x"
    using Cons.IH write_at_end(1) [OF f Cons.prems(1) w] Cons.prems(1) by simp
  then show ?case
    using w io(2) by (auto simp: dump_item_def [of _ _ _ _ j] fs_malloc_def)
qed simp

lemma FD_PSTREE_type: "FD_PSTREE \<in> set image_types" "\<not> takes_id FD_PSTREE"
  by (simp_all add: image_types_def takes_id_def FD_ENTRY_def)

lemma opened_new_file: "opened_new s dfd t args fd bs s' \<Longrightarrow> file_at s' fd (fs_inos s) bs"
  by (simp add: opened_new_def file_at_def)

lemma for_each_dump:
  assumes "rep h 0 t" "distinct (preorder t)"
  shows "for_each_item (\<lambda>_. h) (dump_item E d h fd) (pt_id t) x = Some (run_items (dump_item E d h fd) (preorder t) x)"
  using for_each_preorder [of t "\<lambda>_. h"] assms by simp

lemma dump_pstree_success:
  assumes "rep h 0 t" "distinct (preorder t)" "\<And>j. j \<in> set (preorder t) \<Longrightarrow> desc_ok d (entry_of h j)" "\<And>t. io_malloc (k_io E) t \<noteq> 0"
    and "dump_pstree E dfd shell_job (Some d) h (pt_id t) s = Some (0, s')"
  shows "fs_dir s' = (fs_dir s)((dfd, image_path FD_PSTREE []) \<mapsto> fs_inos s)" "fs_inos s' = Suc (fs_inos s)"
    "fs_ino s' = (fs_ino s)(fs_inos s := magic_bytes FD_PSTREE @ pb_records d (map (entry_of h) (preorder t)))"
proof -
  obtain r1 s1 where o: "open_image_at E dfd FD_PSTREE O_DUMP [] s = (r1, s1)"
    by fastforce
  have r1: "0 \<le> r1"
    using assms(5) o by (auto simp: dump_pstree_def split: if_splits)
  from open_image_dump [OF o this] obtain fd where fd: "r1 = int fd" "opened_new s dfd FD_PSTREE [] fd (magic_bytes FD_PSTREE) s1"
    by blast
  obtain x s2 r2 where s2: "run_items (dump_item E (Some d) h (int fd)) (preorder t) (-1, s1) = x" "s' = snd (sys_close E (int fd) s2)"
      "x = Inr (r2, s2) \<or> x = Inl (0, s2)"
    using assms(5) o r1 fd(1) for_each_dump [OF assms(1,2), of E "Some d" "int fd" "(-1, s1)"]
    by (auto simp: dump_pstree_def split: if_splits sum.splits)
  show "fs_dir s' = (fs_dir s)((dfd, image_path FD_PSTREE []) \<mapsto> fs_inos s)" "fs_inos s' = Suc (fs_inos s)"
    "fs_ino s' = (fs_ino s)(fs_inos s := magic_bytes FD_PSTREE @ pb_records d (map (entry_of h) (preorder t)))"
    using dump_items_success [OF assms(3,4) s2(1,3) opened_new_file [OF fd(2)]] fd(2) s2(2) by (simp_all add: sys_close_keeps opened_new_def)
qed

lemma dump_pstree_ret:
  assumes "rep h 0 t" "distinct (preorder t)" "\<And>j. j \<in> set (preorder t) \<Longrightarrow> desc_ok d (entry_of h j)" "fs_ok E"
    and "shell_job \<or> pi_virt (h (pt_id t)) = pi_sid (h (pt_id t))"
  shows "\<exists>s'. dump_pstree E dfd shell_job (Some d) h (pt_id t) s = Some (0, s')"
proof -
  obtain r1 s1 where o: "open_image_at E dfd FD_PSTREE O_DUMP [] s = (r1, s1)"
    by fastforce
  have r1: "0 \<le> r1"
    using open_image_dump_ret [OF assms(4), of dfd FD_PSTREE "[]" s] o by simp
  from open_image_dump [OF o this] obtain fd where fd: "r1 = int fd" "opened_new s dfd FD_PSTREE [] fd (magic_bytes FD_PSTREE) s1"
    by blast
  obtain s2 where "run_items (dump_item E (Some d) h (int fd)) (preorder t) (-1, s1) = Inr s2"
    using dump_items_ret [OF assms(4,3) opened_new_file [OF fd(2)]] by blast
  then show ?thesis
    using o r1 fd(1) assms(5) for_each_dump [OF assms(1,2), of E "Some d" "int fd" "(-1, s1)"]
    by (auto simp: dump_pstree_def split: prod.split)
qed

text \<open>The same system, out of memory from some moment on.\<close>

definition no_memory_from :: "nat \<Rightarrow> fs_env \<Rightarrow> fs_env" where
  "no_memory_from m E = E\<lparr>k_io := (k_io E)\<lparr>io_malloc := \<lambda>t. if t < m then io_malloc (k_io E) t else 0\<rparr>\<rparr>"

lemma no_memory_open: "open_image_at (no_memory_from m E) dfd t fl args s = open_image_at E dfd t fl args s"
proof -
  have io: "io_read (k_io (no_memory_from m E)) = io_read (k_io E)" "io_write (k_io (no_memory_from m E)) = io_write (k_io E)"
    by (simp_all add: no_memory_from_def)
  have buf: "write_img_buf (k_io (no_memory_from m E)) = write_img_buf (k_io E)" "read_img_buf (k_io (no_memory_from m E)) = read_img_buf (k_io E)"
    by (simp_all add: fun_eq_iff write_img_buf_def sys_write_def read_img_buf_def read_img_buf_eof_def sys_read_def io)
  have m: "check_magic (no_memory_from m E) t fl fd s = check_magic E t fl fd s" for fd s
    by (simp only: check_magic_def buf io)
  have k: "k_unlink (no_memory_from m E) = k_unlink E" "k_open (no_memory_from m E) = k_open E"
    by (simp_all add: no_memory_from_def)
  show ?thesis
    by (simp only: open_image_at_def sys_unlinkat_def sys_openat_def m k)
qed

lemma no_memory_write:
  assumes "fs_ok E" "desc_ok d x" "length (pack d x) \<le> PB_PKOBJ_LOCAL_SIZE" "file_at s fd i bs"
  shows "\<exists>s'. on_fd (-1) (int fd) (pb_write_one (k_io (no_memory_from m E)) (Some d) x) s = (0, s') \<and> fs_tick s' = fs_tick s + 2"
proof -
  have "io_write (k_io (no_memory_from m E)) t n = int n" for t n
    using assms(1) by (simp add: no_memory_from_def fs_ok_def io_ok_def)
  then have "\<exists>f'. pb_write_one (k_io (no_memory_from m E)) (Some d) x f = (0, f') \<and> if_tick f' = if_tick f + 2" for f
    using assms(3) by (simp add: pb_write_one_def pack_u32 [OF assms(2)] Let_def sys_write_def)
  then show ?thesis
    using assms(4) by (auto simp: on_fd_def file_at_def split: prod.split) (metis Pair_inject img_file.select_convs(3))+
qed

lemma dump_items_out_of_memory:
  assumes "fs_ok E" "\<And>j. j \<in> set js \<Longrightarrow> desc_ok d (entry_of h j) \<and> length (pack d (entry_of h j)) \<le> PB_PKOBJ_LOCAL_SIZE"
  shows "fs_tick s + 3 * length js \<le> m \<Longrightarrow> file_at s fd i bs \<Longrightarrow>
    \<exists>s'. run_items (dump_item (no_memory_from m E) (Some d) h (int fd)) js (r, s) = Inr (if js = [] then r else 0, s')
      \<and> fs_tick s' = fs_tick s + 3 * length js \<and> fs_ino s' i = bs @ pb_records d (map (entry_of h) js)"
  using assms(2)
proof (induction js arbitrary: r s bs)
  case Nil
  then show ?case
    by (auto simp: file_at_def)
next
  case (Cons j js)
  let ?E = "no_memory_from m E"
  let ?s = "s\<lparr>fs_tick := Suc (fs_tick s)\<rparr>"
  have m: "io_malloc (k_io ?E) (fs_tick s) \<noteq> 0"
    using assms(1) Cons.prems(1) by (simp add: no_memory_from_def fs_ok_def io_ok_def)
  have f: "file_at ?s fd i bs" and d: "desc_ok d (entry_of h j)"
    using Cons.prems(2,3) by (simp_all add: file_at_tick)
  obtain s1 where w: "on_fd (-1) (int fd) (pb_write_one (k_io ?E) (Some d) (entry_of h j)) ?s = (0, s1)" "fs_tick s1 = fs_tick s + 3"
    using no_memory_write [OF assms(1) d _ f, of m] Cons.prems(3) by auto
  have "file_at s1 fd i (bs @ pb_record d (entry_of h j))"
    using write_at_end(1) [OF f d w(1)] by simp
  with Cons.IH [of s1 "bs @ pb_record d (entry_of h j)" 0] Cons.prems w(2) show ?case
    using w(1) m by (auto simp: dump_item_def [of _ _ _ _ j] fs_malloc_def)
qed

lemma run_items_append:
  "run_items body (xs @ ys) s = (case run_items body xs s of Inl r \<Rightarrow> Inl r | Inr s' \<Rightarrow> run_items body ys s')"
  by (induction xs arbitrary: s) (simp_all split: sum.split)

text \<open>C26: A dump that runs out of memory part of the way says that it succeeded. Take a process tree that
  \<^verbatim>\<open>dump_pstree\<close> accepts: the dump is of a shell job, or the root task leads its session. Let every record
  of its items pack into at most 1024 bytes, the size of the buffer on the stack, so that \<^verbatim>\<open>pb_write_one\<close>
  allocates nothing itself. Then for every number \<open>n\<close> of tasks, at least one and not all, there is a
  moment such that when no allocation succeeds from then on, while all system calls do, \<^verbatim>\<open>dump_pstree\<close>
  returns 0 and its image holds the first \<open>n\<close> tasks only: the exit of a failed \<^verbatim>\<open>xmalloc\<close> returns \<^verbatim>\<open>ret\<close>,
  which is the 0 of the record before.\<close>

theorem dump_pstree_loses_tasks:
  assumes "rep h 0 t" "distinct (preorder t)" "fs_ok E" "shell_job \<or> pi_virt (h (pt_id t)) = pi_sid (h (pt_id t))"
    and "\<forall>j \<in> set (preorder t). desc_ok d (entry_of h j) \<and> length (pack d (entry_of h j)) \<le> PB_PKOBJ_LOCAL_SIZE"
    and "0 < n" "n < length (preorder t)"
  shows "\<exists>m s'. dump_pstree (no_memory_from m E) dfd shell_job (Some d) h (pt_id t) s = Some (0, s')
     \<and> fs_ino s' (fs_inos s) = magic_bytes FD_PSTREE @ pb_records d (map (entry_of h) (take n (preorder t)))"
proof -
  obtain r1 s1 where o: "open_image_at E dfd FD_PSTREE O_DUMP [] s = (r1, s1)"
    by fastforce
  have r1: "0 \<le> r1"
    using open_image_dump_ret [OF assms(3), of dfd FD_PSTREE "[]" s] o by simp
  from open_image_dump [OF o this] obtain fd where fd: "r1 = int fd" "opened_new s dfd FD_PSTREE [] fd (magic_bytes FD_PSTREE) s1"
    by blast
  let ?m = "fs_tick s1 + 3 * n"
  let ?body = "dump_item (no_memory_from ?m E) (Some d) h (int fd)"
  have "length (take n (preorder t)) = n" "take n (preorder t) \<noteq> []"
    using assms(6,7) by auto
  then obtain s2 where s2: "run_items ?body (take n (preorder t)) (-1, s1) = Inr (0, s2)" "fs_tick s2 = ?m"
      "fs_ino s2 (fs_inos s) = magic_bytes FD_PSTREE @ pb_records d (map (entry_of h) (take n (preorder t)))"
    using dump_items_out_of_memory [OF assms(3) bspec [OF assms(5)] _ opened_new_file [OF fd(2)], of "take n (preorder t)" ?m "-1"]
    by (auto dest: in_set_takeD)
  have "run_items ?body (preorder t) (-1, s1) = run_items ?body (preorder t ! n # drop (Suc n) (preorder t)) (0, s2)"
    using run_items_append [of ?body "take n (preorder t)" "drop n (preorder t)"] s2(1) Cons_nth_drop_Suc [OF assms(7)] by simp
  also have "\<dots> = Inl (0, s2\<lparr>fs_tick := Suc (fs_tick s2)\<rparr>)"
    using s2(2) by (simp add: dump_item_def fs_malloc_def no_memory_from_def)
  finally have "dump_pstree (no_memory_from ?m E) dfd shell_job (Some d) h (pt_id t) s
      = Some (0, snd (sys_close (no_memory_from ?m E) (int fd) (s2\<lparr>fs_tick := Suc (fs_tick s2)\<rparr>)))"
    using o r1 fd(1) assms(4) for_each_dump [OF assms(1,2)] by (auto simp: dump_pstree_def no_memory_open)
  then show ?thesis
    using s2(3) by (intro exI conjI) (assumption, simp add: sys_close_keeps)
qed

section \<open>Building the tree\<close>

text \<open>The items below an address, and that climbing never leaves them.\<close>

definition closed_below :: "pstree_heap \<Rightarrow> nat \<Rightarrow> bool" where
  "closed_below h n \<longleftrightarrow> 0 < n \<and> (\<forall>j. 0 < j \<and> j < n \<longrightarrow> pi_parent (h j) < n)"

definition agree_below :: "pstree_heap \<Rightarrow> pstree_heap \<Rightarrow> nat \<Rightarrow> bool" where
  "agree_below h h' n \<longleftrightarrow> (\<forall>j. 0 < j \<and> j < n \<longrightarrow> pi_parent (h' j) = pi_parent (h j) \<and> pi_virt (h' j) = pi_virt (h j))"

lemma find_ancestor_mono:
  assumes "find_ancestor h q c = Some r" "closed_below h n" "agree_below h h' n" "c < n"
  shows "find_ancestor h' q c = Some r"
proof -
  define Q where "Q h0 q c r \<longleftrightarrow> (h0 = h \<longrightarrow> c < n \<longrightarrow> find_ancestor h' q c = Some r)" for h0 q c r
  have "Q h q c r"
  proof (rule find_ancestor.raw_induct [where P = Q, OF _ assms(1)])
    fix fa h0 q c r
    assume IH: "\<And>h0 q c r. fa h0 q c = Some r \<Longrightarrow> Q h0 q c r"
      and eq: "(if c = 0 then Some 0 else if to_u32 (pi_virt (h0 c)) = q then Some c else fa h0 q (pi_parent (h0 c))) = Some r"
    have "find_ancestor h' q c = Some r" if c: "h0 = h" "c < n"
    proof (cases "c = 0 \<or> to_u32 (pi_virt (h c)) = q")
      case True
      then show ?thesis
        using eq c assms(3) by (simp add: find_ancestor.simps [of h' q c] agree_below_def split: if_splits)
    next
      case False
      then have "pi_parent (h c) < n" "fa h q (pi_parent (h c)) = Some r" "pi_parent (h' c) = pi_parent (h c)" "pi_virt (h' c) = pi_virt (h c)"
        using eq c assms(2,3) by (auto simp: closed_below_def agree_below_def)
      then show ?thesis
        using False IH [of h q "pi_parent (h c)" r] by (simp add: find_ancestor.simps [of h' q c] Q_def)
    qed
    then show "Q h0 q c r"
      by (simp add: Q_def)
  qed
  then show ?thesis
    using assms(4) by (simp add: Q_def)
qed

lemma find_ancestor_cong:
  assumes "closed_below h n" "agree_below h h' n" "c < n"
  shows "find_ancestor h' q c = find_ancestor h q c"
proof -
  have "closed_below h' n" "agree_below h' h n"
    using assms(1,2) by (auto simp: closed_below_def agree_below_def)
  then show ?thesis
    using find_ancestor_mono [of h q c _ n h'] find_ancestor_mono [of h' q c _ n h] assms by (metis not_None_eq)
qed

text \<open>One round of the loop when all calls succeed; \<open>idf\<close> gives the ids that the images hold for a pid.\<close>

definition add_entry :: "(int \<Rightarrow> task_kobj_ids option) \<Rightarrow> pstree_entry \<Rightarrow> nat \<times> pstree \<Rightarrow> (nat \<times> pstree) option" where
  "add_entry idf e c =
     (let (i, ps) = alloc_pstree_item True (snd c) in
      case link_entry i e (fst c) (fill_item i e ps) of
        Inr (True, ps) \<Rightarrow>
          Some (i, let ps = set_threads i e ps in
            if idf (to_pid (e_pid e)) = None then ps else upd_item i (\<lambda>x. x\<lparr>pi_ids := idf (to_pid (e_pid e))\<rparr>) ps)
      | _ \<Rightarrow> None)"

primrec add_entries :: "(int \<Rightarrow> task_kobj_ids option) \<Rightarrow> pstree_entry list \<Rightarrow> nat \<times> pstree \<Rightarrow> (nat \<times> pstree) option" where
  "add_entries idf [] c = Some c"
| "add_entries idf (e # es) c = Option.bind (add_entry idf e c) (add_entries idf es)"

definition item_of :: "(int \<Rightarrow> task_kobj_ids option) \<Rightarrow> nat \<Rightarrow> pstree_entry \<Rightarrow> pstree_item" where
  "item_of idf p e = new_item\<lparr>pi_parent := p, pi_virt := to_pid (e_pid e), pi_pgid := to_pid (e_pgid e), pi_sid := to_pid (e_sid e),
     pi_threads := map to_pid (e_threads e), pi_ids := idf (to_pid (e_pid e))\<rparr>"

definition entry_max :: "pstree_entry \<Rightarrow> int \<Rightarrow> int" where
  "entry_max e m = max (to_pid (e_sid e)) (max (to_pid (e_pgid e)) (max (to_pid (e_pid e)) m))"

lemma new_item_simps [simp]: "pi_children new_item = []" "pi_ids new_item = None" "pi_born_sid new_item = -1"
    "pi_state new_item = TASK_UNSET" "pi_parent new_item = 0"
  by (simp_all add: new_item_def zero_item_def)

lemma add_entry_child:
  assumes "closed_below (ps_heap ps) (ps_next ps)" "c < ps_next ps" "e_ppid e \<noteq> 0" "find_ancestor (ps_heap ps) (e_ppid e) c = Some p"
    and "p \<noteq> 0" "p < ps_next ps"
  shows "add_entry idf e (c, ps) = Some (ps_next ps, ps
     \<lparr>ps_heap := (ps_heap ps)(p := (ps_heap ps p)\<lparr>pi_children := ps_next ps # pi_children (ps_heap ps p)\<rparr>, ps_next ps := item_of idf p e),
      ps_next := Suc (ps_next ps), ps_max_pid := entry_max e (ps_max_pid ps),
      ps_nr_threads := ps_nr_threads ps + length (e_threads e), ps_nr_tasks := Suc (ps_nr_tasks ps)\<rparr>)"
proof -
  let ?i = "ps_next ps"
  let ?ps = "fill_item ?i e (ps\<lparr>ps_heap := (ps_heap ps)(?i := new_item), ps_next := Suc ?i\<rparr>)"
  have "agree_below (ps_heap ps) (ps_heap ?ps) ?i"
    by (simp add: agree_below_def fill_item_def upd_item_def)
  from find_ancestor_cong [OF assms(1) this assms(2)] have f: "find_parent (e_ppid e) c ?ps = Some p"
    using assms(4,5) by (simp add: find_parent_def)
  have "p \<noteq> ?i"
    using assms(6) by simp
  then show ?thesis
    using assms(3,5) f
    by (cases ps) (simp add: add_entry_def alloc_pstree_item_def link_entry_def hook_item_def fill_item_def set_threads_def upd_item_def
        item_of_def entry_max_def Let_def fun_upd_twist [of ?i p] new_item_def zero_item_def)
qed

lemma add_entry_root:
  assumes "e_ppid e = 0" "ps_root ps = 0" "ps_next ps \<noteq> 0"
  shows "add_entry idf e (c, ps) = Some (ps_next ps, ps
     \<lparr>ps_heap := (ps_heap ps)(ps_next ps := item_of idf 0 e), ps_next := Suc (ps_next ps), ps_root := ps_next ps,
      ps_max_pid := entry_max e (ps_max_pid ps),
      ps_nr_threads := ps_nr_threads ps + length (e_threads e), ps_nr_tasks := Suc (ps_nr_tasks ps)\<rparr>)"
  using assms
  by (cases ps) (simp add: add_entry_def alloc_pstree_item_def link_entry_def fill_item_def set_threads_def upd_item_def
      item_of_def entry_max_def Let_def new_item_def zero_item_def)

lemma add_entries_append: "add_entries idf (xs @ ys) c = Option.bind (add_entries idf xs c) (add_entries idf ys)"
proof (induction xs arbitrary: c)
  case (Cons x xs)
  then show ?case
    by (cases "add_entry idf x c") simp_all
qed simp

text \<open>Reading finds the parent of an entry from the cursor: whatever was built below \<open>p\<close> lies on the way.\<close>

definition cursor_ok :: "pstree_heap \<Rightarrow> nat \<Rightarrow> nat \<Rightarrow> nat set \<Rightarrow> bool" where
  "cursor_ok h c p S \<longleftrightarrow> (\<forall>q. q \<notin> S \<longrightarrow> find_ancestor h q c = find_ancestor h q p)"

definition extends :: "nat \<Rightarrow> pstree \<Rightarrow> pstree \<Rightarrow> nat list \<Rightarrow> bool" where
  "extends p ps ps' ks \<longleftrightarrow> ps_next ps \<le> ps_next ps' \<and> ps_root ps' = ps_root ps \<and> closed_below (ps_heap ps') (ps_next ps')
     \<and> (\<forall>j. 0 < j \<and> j < ps_next ps \<and> j \<noteq> p \<longrightarrow> ps_heap ps' j = ps_heap ps j)
     \<and> ps_heap ps' p = (ps_heap ps p)\<lparr>pi_children := ks @ pi_children (ps_heap ps p)\<rparr>
     \<and> ps_max_pid ps \<le> ps_max_pid ps'"

definition item_ok :: "(int \<Rightarrow> task_kobj_ids option) \<Rightarrow> pstree \<Rightarrow> nat \<Rightarrow> bool" where
  "item_ok idf ps i \<longleftrightarrow> (let x = ps_heap ps i in pi_ids x = idf (pi_virt x) \<and> pi_born_sid x = -1 \<and> pi_state x = TASK_UNSET
     \<and> pi_virt x \<le> ps_max_pid ps \<and> pi_pgid x \<le> ps_max_pid ps \<and> pi_sid x \<le> ps_max_pid ps)"

definition pid_range :: "int \<Rightarrow> int \<Rightarrow> int \<Rightarrow> int list \<Rightarrow> bool" where
  "pid_range p g s th \<longleftrightarrow> 0 < p \<and> p < 2 ^ 31 \<and> 0 \<le> g \<and> g < 2 ^ 31 \<and> 0 \<le> s \<and> s < 2 ^ 31 \<and> (\<forall>x \<in> set th. 0 < x \<and> x < 2 ^ 31)"

lemma to_pid_u32: "0 \<le> p \<Longrightarrow> p < 2 ^ 31 \<Longrightarrow> to_pid (to_u32 p) = p"
  by (simp add: to_pid_def to_u32_def)

lemma to_u32_pos: "0 < p \<Longrightarrow> p < 2 ^ 31 \<Longrightarrow> to_u32 p \<noteq> 0"
  by (simp add: to_u32_def)

text \<open>The trees built one after the other below an item, from the cursor \<open>c\<close> on.\<close>

definition grown :: "(int \<Rightarrow> task_kobj_ids option) \<Rightarrow> nat \<Rightarrow> nat set \<Rightarrow> dtree list \<Rightarrow> nat \<times> pstree \<Rightarrow> nat \<times> pstree \<Rightarrow> ptree list \<Rightarrow> bool" where
  "grown idf p S ks c c' ts \<longleftrightarrow>
     extends p (snd c) (snd c') (map pt_id (rev ts)) \<and> fst c' < ps_next (snd c')
   \<and> (\<forall>t \<in> set ts. rep (ps_heap (snd c')) p t) \<and> map (data_of (ps_heap (snd c'))) ts = map mirror ks
   \<and> distinct (concat (map preorder ts)) \<and> set (concat (map preorder ts)) = {ps_next (snd c)..<ps_next (snd c')}
   \<and> (\<forall>i \<in> set (concat (map preorder ts)). item_ok idf (snd c') i)
   \<and> cursor_ok (ps_heap (snd c')) (fst c') p (S \<union> to_u32 ` set (concat (map d_pids ks)))"

definition start_ok :: "nat \<Rightarrow> nat set \<Rightarrow> nat \<times> pstree \<Rightarrow> bool" where
  "start_ok p S c \<longleftrightarrow> closed_below (ps_heap (snd c)) (ps_next (snd c)) \<and> fst c < ps_next (snd c) \<and> p \<noteq> 0 \<and> p < ps_next (snd c)
     \<and> cursor_ok (ps_heap (snd c)) (fst c) p S \<and> to_u32 (pi_virt (ps_heap (snd c) p)) \<notin> S \<and> to_u32 (pi_virt (ps_heap (snd c) p)) \<noteq> 0"

lemma grown_nil: "start_ok p S c \<Longrightarrow> grown idf p S [] c c []"
  by (simp add: start_ok_def grown_def extends_def)

lemma find_ancestor_here: "p \<noteq> 0 \<Longrightarrow> find_ancestor h (to_u32 (pi_virt (h p))) p = Some p"
  by (simp add: find_ancestor.simps)

lemma data_of_cong: "(\<And>i. i \<in> set (preorder t) \<Longrightarrow> h' i = h i) \<Longrightarrow> data_of h' t = data_of h t"
  by (induction t) auto

lemma item_ok_mono: "item_ok idf ps i \<Longrightarrow> ps_heap ps' i = ps_heap ps i \<Longrightarrow> ps_max_pid ps \<le> ps_max_pid ps' \<Longrightarrow> item_ok idf ps' i"
  by (auto simp: item_ok_def Let_def)

lemma grown_start:
  assumes "grown idf p S ks c c' ts" "start_ok p S c" "to_u32 (pi_virt (ps_heap (snd c) p)) \<notin> to_u32 ` set (concat (map d_pids ks))"
  shows "start_ok p (S \<union> to_u32 ` set (concat (map d_pids ks))) c'"
  using assms by (auto simp: grown_def start_ok_def extends_def)

lemma grown_append:
  assumes "grown idf p S ks c c1 ts" "grown idf p (S \<union> to_u32 ` set (concat (map d_pids ks))) ks' c1 c' ts'" "p < ps_next (snd c)" "0 < ps_next (snd c)"
  shows "grown idf p S (ks @ ks') c c' (ts @ ts')"
proof -
  let ?h = "ps_heap (snd c1)" and ?h' = "ps_heap (snd c')"
  have e: "extends p (snd c) (snd c1) (map pt_id (rev ts))" "extends p (snd c1) (snd c') (map pt_id (rev ts'))"
    and s: "set (concat (map preorder ts)) = {ps_next (snd c)..<ps_next (snd c1)}" "set (concat (map preorder ts')) = {ps_next (snd c1)..<ps_next (snd c')}"
    using assms(1,2) by (simp_all add: grown_def)
  have keep: "?h' i = ?h i" if "t \<in> set ts" "i \<in> set (preorder t)" for t i
  proof -
    have "i \<in> set (concat (map preorder ts))"
      using that by auto
    then have "ps_next (snd c) \<le> i" "i < ps_next (snd c1)"
      unfolding s(1) by simp_all
    then show ?thesis
      using e(2) assms(3,4) by (simp add: extends_def)
  qed
  have 1: "rep ?h' p t" if t: "t \<in> set (ts @ ts')" for t
  proof (cases "t \<in> set ts")
    case True
    then have "rep ?h p t"
      using assms(1) by (simp add: grown_def)
    then show ?thesis
      by (rule rep_cong [rotated]) (simp add: keep [OF True])
  next
    case False
    then show ?thesis
      using t assms(2) by (simp add: grown_def)
  qed
  have "map (data_of ?h') ts = map (data_of ?h) ts"
    by (intro map_cong refl data_of_cong keep)
  then have 2: "map (data_of ?h') (ts @ ts') = map mirror (ks @ ks')"
    using assms(1,2) unfolding grown_def map_append by metis
  have 3: "item_ok idf (snd c') i" if "i \<in> set (concat (map preorder (ts @ ts')))" for i
  proof (cases "i \<in> set (concat (map preorder ts))")
    case True
    then have "item_ok idf (snd c1) i" "?h' i = ?h i"
      using assms(1) keep unfolding grown_def by (blast, auto)
    then show ?thesis
      using item_ok_mono e(2) unfolding extends_def by blast
  next
    case False
    then show ?thesis
      using that assms(2) unfolding grown_def by auto
  qed
  have 4: "extends p (snd c) (snd c') (map pt_id (rev (ts @ ts')))"
    using e by (auto simp: extends_def)
  have 5: "set (concat (map preorder (ts @ ts'))) = {ps_next (snd c)..<ps_next (snd c')}"
    unfolding map_append concat_append set_append s using e by (auto simp: extends_def)
  have 6: "distinct (concat (map preorder (ts @ ts')))"
    unfolding map_append concat_append distinct_append s using assms(1,2) by (auto simp: grown_def)
  have 7: "S \<union> to_u32 ` set (concat (map d_pids (ks @ ks')))
      = S \<union> to_u32 ` set (concat (map d_pids ks)) \<union> to_u32 ` set (concat (map d_pids ks'))"
    by auto
  have 8: "fst c' < ps_next (snd c')" "cursor_ok ?h' (fst c') p (S \<union> to_u32 ` set (concat (map d_pids ks)) \<union> to_u32 ` set (concat (map d_pids ks')))"
    using assms(2) unfolding grown_def by blast+
  show ?thesis
    unfolding grown_def 7 using 1 2 3 4 5 6 8 by blast
qed

lemma distinct_concat_rev: "distinct (concat (map f (rev xs))) \<longleftrightarrow> distinct (concat (map f xs))"
  by (induction xs) auto

lemma cursor_ok_step:
  assumes "cursor_ok h c i S" "i \<noteq> 0" "pi_parent (h i) = p"
  shows "cursor_ok h c p (insert (to_u32 (pi_virt (h i))) S)"
  using assms by (auto simp: cursor_ok_def find_ancestor.simps [of h _ i])

lemma extends_refl: "closed_below (ps_heap ps) (ps_next ps) \<Longrightarrow> extends p ps ps []"
  by (simp add: extends_def)

text \<open>A node: the item itself goes in front of the children of \<open>p\<close>, then its own children are built below it.\<close>

lemma grown_node:
  assumes "start_ok p S c" "e_ppid e = to_u32 (pi_virt (ps_heap (snd c) p))" "i = ps_next (snd c)"
    and "e = \<lparr>e_pid = to_u32 pid, e_ppid = e_ppid e, e_pgid = to_u32 g, e_sid = to_u32 s, e_threads = map to_u32 th\<rparr>" "pid_range pid g s th"
  shows "\<exists>ps1. add_entry idf e c = Some (i, ps1) \<and> start_ok i {} (i, ps1) \<and> pi_virt (ps_heap ps1 i) = pid
    \<and> (\<forall>ks c' ts. grown idf i {} ks (i, ps1) c' ts \<longrightarrow> grown idf p S [DT pid g s th ks] c c' [PT i (rev ts)])"
proof -
  obtain cur ps where c: "c = (cur, ps)"
    by fastforce
  let ?h = "ps_heap ps"
  have st: "closed_below ?h (ps_next ps)" "cur < ps_next ps" "p \<noteq> 0" "p < ps_next ps" "cursor_ok ?h cur p S" "to_u32 (pi_virt (?h p)) \<notin> S" "e_ppid e \<noteq> 0"
    using assms(1,2) c by (simp_all add: start_ok_def)
  have f: "find_ancestor ?h (e_ppid e) cur = Some p"
    using st(3,5,6) assms(2) c find_ancestor_here [OF st(3), of ?h] by (simp add: cursor_ok_def)
  define ps1 where "ps1 = ps
     \<lparr>ps_heap := ?h(p := (?h p)\<lparr>pi_children := i # pi_children (?h p)\<rparr>, i := item_of idf p e),
      ps_next := Suc i, ps_max_pid := entry_max e (ps_max_pid ps),
      ps_nr_threads := ps_nr_threads ps + length (e_threads e), ps_nr_tasks := Suc (ps_nr_tasks ps)\<rparr>"
  have i: "i = ps_next ps" "p \<noteq> i" "i \<noteq> 0"
    using assms(3) c st(4) by simp_all
  have add: "add_entry idf e c = Some (i, ps1)"
    using add_entry_child [OF st(1,2,7) f st(3,4), of idf] c i(1) by (simp add: ps1_def)
  have fields: "e_pid e = to_u32 pid" "e_pgid e = to_u32 g" "e_sid e = to_u32 s" "e_threads e = map to_u32 th"
    using assms(4) by (metis pstree_entry.select_convs)+
  have "to_pid (to_u32 x) = x" if "x \<in> set th" for x
    using assms(5) that to_pid_u32 [of x] by (auto simp: pid_range_def)
  then have "map to_pid (map to_u32 th) = th"
    unfolding map_map by (intro map_idI) simp
  then have r: "to_pid (to_u32 pid) = pid" "to_pid (to_u32 g) = g" "to_pid (to_u32 s) = s" "map (to_pid \<circ> to_u32) th = th"
    using assms(5) by (simp_all add: pid_range_def to_pid_u32)
  have it: "ps_heap ps1 i = new_item\<lparr>pi_parent := p, pi_virt := pid, pi_pgid := g, pi_sid := s, pi_threads := th, pi_ids := idf pid\<rparr>"
    using fields r by (simp add: ps1_def item_of_def)
  have cl: "closed_below (ps_heap ps1) (Suc i)"
    using st(1,4) i by (auto simp: closed_below_def ps1_def item_of_def less_Suc_eq)
  have u: "to_u32 (pi_virt (ps_heap ps1 i)) \<noteq> 0"
    using to_u32_pos [of pid] assms(5) by (simp add: it pid_range_def)
  have "start_ok i {} (i, ps1)"
    using cl u i by (simp add: start_ok_def cursor_ok_def) (simp add: ps1_def)
  moreover have "grown idf p S [DT pid g s th ks] c c' [PT i (rev ts)]" if g: "grown idf i {} ks (i, ps1) c' ts" for ks c' ts
  proof -
    let ?ps = "snd c'"
    have e: "extends i ps1 ?ps (map pt_id (rev ts))" and next1: "ps_next ps1 = Suc i"
      using g by (simp_all add: grown_def ps1_def)
    have hi: "ps_heap ?ps i = (ps_heap ps1 i)\<lparr>pi_children := map pt_id (rev ts)\<rparr>"
      using e it by (simp add: extends_def)
    have hp: "ps_heap ?ps j = ps_heap ps1 j" if "0 < j" "j < i" for j
      using e that next1 by (simp add: extends_def)
    have "extends p ps ?ps [i]"
      using e hp i st(3,4) by (auto simp: extends_def ps1_def entry_max_def)
    moreover have "rep (ps_heap ?ps) p (PT i (rev ts))"
      using g i(3) hi it by (simp add: grown_def)
    moreover have "data_of (ps_heap ?ps) (PT i (rev ts)) = mirror (DT pid g s th ks)"
      using g hi it by (simp add: grown_def rev_map [symmetric] flip: rev_map)
    moreover have "distinct (preorder (PT i (rev ts)))" "set (preorder (PT i (rev ts))) = {i..<ps_next ?ps}"
    proof -
      have s: "set (concat (map preorder ts)) = {Suc i..<ps_next ?ps}" "distinct (concat (map preorder ts))"
        using g next1 by (simp_all add: grown_def)
      have "distinct (concat (map preorder (rev ts)))" "set (concat (map preorder (rev ts))) = {Suc i..<ps_next ?ps}"
        using s by (simp_all add: distinct_concat_rev)
      moreover have "Suc i \<le> ps_next ?ps"
        using e next1 by (simp add: extends_def)
      ultimately show "distinct (preorder (PT i (rev ts)))" "set (preorder (PT i (rev ts))) = {i..<ps_next ?ps}"
        by (simp_all add: atLeastLessThan_def) auto
    qed
    moreover have "\<forall>j \<in> set (preorder (PT i (rev ts))). item_ok idf ?ps j"
    proof -
      have "item_ok idf ?ps i"
        using hi it e r fields by (auto simp: item_ok_def Let_def extends_def ps1_def entry_max_def)
      moreover have "\<forall>j \<in> set (concat (map preorder ts)). item_ok idf ?ps j"
        using g unfolding grown_def by blast
      ultimately show ?thesis
        by auto
    qed
    moreover have "cursor_ok (ps_heap ?ps) (fst c') p (S \<union> to_u32 ` set (d_pids (DT pid g s th ks)))"
      using cursor_ok_step [of "ps_heap ?ps" "fst c'" i "to_u32 ` set (concat (map d_pids ks))" p] g hi it i(3)
      by (auto simp: grown_def cursor_ok_def)
    moreover have "fst c' < ps_next ?ps" "snd c = ps" "ps_next ps = i"
      using g c i unfolding grown_def by auto
    ultimately show ?thesis
      unfolding grown_def by (simp del: preorder.simps mirror.simps data_of.simps d_pids.simps rep.simps)
  qed
  ultimately show ?thesis
    using add it by (intro exI [of _ ps1]) simp
qed
definition builds :: "(int \<Rightarrow> task_kobj_ids option) \<Rightarrow> dtree \<Rightarrow> bool" where
  "builds idf k \<longleftrightarrow> (\<forall>p S c. start_ok p S c \<longrightarrow> distinct (map to_u32 (d_pids k)) \<longrightarrow> d_all pid_range k
      \<longrightarrow> to_u32 (pi_virt (ps_heap (snd c) p)) \<notin> to_u32 ` set (d_pids k)
      \<longrightarrow> (\<exists>c' t. add_entries idf (d_entries (to_u32 (pi_virt (ps_heap (snd c) p))) k) c = Some c' \<and> grown idf p S [k] c c' [t]))"

lemma builds_list:
  assumes "\<And>k. k \<in> set ks \<Longrightarrow> builds idf k"
  shows "start_ok p S c \<Longrightarrow> distinct (map to_u32 (concat (map d_pids ks))) \<Longrightarrow> \<forall>k \<in> set ks. d_all pid_range k
    \<Longrightarrow> to_u32 (pi_virt (ps_heap (snd c) p)) \<notin> to_u32 ` set (concat (map d_pids ks))
    \<Longrightarrow> \<exists>c' ts. add_entries idf (concat (map (d_entries (to_u32 (pi_virt (ps_heap (snd c) p)))) ks)) c = Some c' \<and> grown idf p S ks c c' ts"
  using assms
proof (induction ks arbitrary: S c)
  case Nil
  then show ?case
    using grown_nil by fastforce
next
  case (Cons k ks)
  let ?pp = "to_u32 (pi_virt (ps_heap (snd c) p))"
  have "builds idf k" "distinct (map to_u32 (d_pids k))" "d_all pid_range k" "?pp \<notin> to_u32 ` set (d_pids k)"
    using Cons.prems by auto
  then obtain c1 t where c1: "add_entries idf (d_entries ?pp k) c = Some c1" "grown idf p S [k] c c1 [t]"
    using Cons.prems(1) unfolding builds_def by blast
  have st: "start_ok p (S \<union> to_u32 ` set (concat (map d_pids [k]))) c1"
    using grown_start [OF c1(2) Cons.prems(1)] Cons.prems(4) by auto
  have pp: "to_u32 (pi_virt (ps_heap (snd c1) p)) = ?pp"
    using c1(2) by (simp add: grown_def extends_def)
  have "distinct (map to_u32 (concat (map d_pids ks)))" "\<forall>k \<in> set ks. d_all pid_range k"
      "?pp \<notin> to_u32 ` set (concat (map d_pids ks))" "\<And>k. k \<in> set ks \<Longrightarrow> builds idf k"
    using Cons.prems by auto
  then obtain c' ts where c': "add_entries idf (concat (map (d_entries ?pp) ks)) c1 = Some c'"
      "grown idf p (S \<union> to_u32 ` set (concat (map d_pids [k]))) ks c1 c' ts"
    using Cons.IH [OF st, unfolded pp] by blast
  have "p < ps_next (snd c)" "0 < ps_next (snd c)"
    using Cons.prems(1) by (auto simp: start_ok_def)
  then have "grown idf p S (k # ks) c c' (t # ts)"
    using grown_append [OF c1(2) c'(2)] by simp
  moreover have "add_entries idf (concat (map (d_entries ?pp) (k # ks))) c = Some c'"
    using c1(1) c'(1) by (simp add: add_entries_append)
  ultimately show ?case
    by blast
qed

lemma builds_all: "builds idf k"
proof (induction k)
  case (DT pid g s th ks)
  show ?case
    unfolding builds_def
  proof (intro allI impI)
    fix p S c
    assume st: "start_ok p S c" and d: "distinct (map to_u32 (d_pids (DT pid g s th ks)))" and r: "d_all pid_range (DT pid g s th ks)"
    let ?pp = "to_u32 (pi_virt (ps_heap (snd c) p))"
    let ?e = "\<lparr>e_pid = to_u32 pid, e_ppid = ?pp, e_pgid = to_u32 g, e_sid = to_u32 s, e_threads = map to_u32 th\<rparr>"
    obtain ps1 where ps1: "add_entry idf ?e c = Some (ps_next (snd c), ps1)" "start_ok (ps_next (snd c)) {} (ps_next (snd c), ps1)"
      and nd: "\<And>ks c' ts. grown idf (ps_next (snd c)) {} ks (ps_next (snd c), ps1) c' ts \<Longrightarrow> grown idf p S [DT pid g s th ks] c c' [PT (ps_next (snd c)) (rev ts)]"
      and v: "pi_virt (ps_heap ps1 (ps_next (snd c))) = pid"
      using grown_node [OF st, of ?e "ps_next (snd c)" pid g s th idf] r by auto
    have "\<exists>c' ts. add_entries idf (concat (map (d_entries (to_u32 pid)) ks)) (ps_next (snd c), ps1) = Some c' \<and> grown idf (ps_next (snd c)) {} ks (ps_next (snd c), ps1) c' ts"
      using builds_list [OF DT.IH ps1(2)] d r v by auto
    then obtain c' ts where c': "add_entries idf (concat (map (d_entries (to_u32 pid)) ks)) (ps_next (snd c), ps1) = Some c'" "grown idf (ps_next (snd c)) {} ks (ps_next (snd c), ps1) c' ts"
      by blast
    have "add_entries idf (d_entries ?pp (DT pid g s th ks)) c = Some c'"
      using ps1(1) c'(1) by simp
    then show "\<exists>c' t. add_entries idf (d_entries ?pp (DT pid g s th ks)) c = Some c' \<and> grown idf p S [DT pid g s th ks] c c' [t]"
      using nd [OF c'(2)] by blast
  qed
qed

text \<open>The whole tree, from the entry without a parent.\<close>

lemma read_tree:
  assumes "distinct (map to_u32 (d_pids k))" "d_all pid_range k" "ps_root ps = 0" "closed_below (ps_heap ps) (ps_next ps)"
  shows "\<exists>c ps' t. add_entries idf (d_entries 0 k) (cur, ps) = Some (c, ps') \<and> ps_root ps' = pt_id t \<and> rep (ps_heap ps') 0 t
     \<and> distinct (preorder t) \<and> data_of (ps_heap ps') t = mirror k \<and> (\<forall>i \<in> set (preorder t). item_ok idf ps' i)
     \<and> set (preorder t) = {ps_next ps..<ps_next ps'} \<and> closed_below (ps_heap ps') (ps_next ps')"
proof -
  obtain pid g s th ks where k: "k = DT pid g s th ks"
    by (cases k)
  let ?i = "ps_next ps"
  let ?e = "\<lparr>e_pid = to_u32 pid, e_ppid = 0, e_pgid = to_u32 g, e_sid = to_u32 s, e_threads = map to_u32 th\<rparr>"
  have pr: "pid_range pid g s th" and i: "?i \<noteq> 0"
    using assms(2,4) k by (simp_all add: closed_below_def)
  have "to_pid (to_u32 x) = x" if "x \<in> set th" for x
    using pr that to_pid_u32 [of x] by (auto simp: pid_range_def)
  then have "map to_pid (map to_u32 th) = th"
    unfolding map_map by (intro map_idI) simp
  then have r: "to_pid (to_u32 pid) = pid" "to_pid (to_u32 g) = g" "to_pid (to_u32 s) = s" "map (to_pid \<circ> to_u32) th = th"
    using pr by (simp_all add: pid_range_def to_pid_u32)
  define ps1 where "ps1 = ps
     \<lparr>ps_heap := (ps_heap ps)(?i := item_of idf 0 ?e), ps_next := Suc ?i, ps_root := ?i, ps_max_pid := entry_max ?e (ps_max_pid ps),
      ps_nr_threads := ps_nr_threads ps + length th, ps_nr_tasks := Suc (ps_nr_tasks ps)\<rparr>"
  have it: "ps_heap ps1 ?i = new_item\<lparr>pi_parent := 0, pi_virt := pid, pi_pgid := g, pi_sid := s, pi_threads := th, pi_ids := idf pid\<rparr>"
    using r by (simp add: ps1_def item_of_def)
  have add: "add_entry idf ?e (cur, ps) = Some (?i, ps1)"
    using add_entry_root [of ?e ps idf cur] assms(3) i by (simp add: ps1_def)
  have cl: "closed_below (ps_heap ps1) (Suc ?i)"
    using assms(4) by (auto simp: closed_below_def ps1_def item_of_def less_Suc_eq)
  have "start_ok ?i {} (?i, ps1)"
    using cl i to_u32_pos [of pid] pr it by (simp add: start_ok_def cursor_ok_def pid_range_def) (simp add: ps1_def)
  from builds_list [where idf = idf, OF builds_all this, of ks]
  have "\<exists>c' ts. add_entries idf (concat (map (d_entries (to_u32 pid)) ks)) (?i, ps1) = Some c' \<and> grown idf ?i {} ks (?i, ps1) c' ts"
    using assms(1,2) k it by auto
  then obtain c' ts where
    a: "add_entries idf (concat (map (d_entries (to_u32 pid)) ks)) (?i, ps1) = Some c'" "grown idf ?i {} ks (?i, ps1) c' ts"
    by blast
  have next1: "ps_next ps1 = Suc ?i" "ps_root ps1 = ?i"
    by (simp_all add: ps1_def)
  have e: "extends ?i ps1 (snd c') (map pt_id (rev ts))"
    using a(2) by (simp add: grown_def)
  have hi: "ps_heap (snd c') ?i = (ps_heap ps1 ?i)\<lparr>pi_children := map pt_id (rev ts)\<rparr>" "ps_root (snd c') = ?i"
      "closed_below (ps_heap (snd c')) (ps_next (snd c'))" "Suc ?i \<le> ps_next (snd c')" "ps_max_pid ps1 \<le> ps_max_pid (snd c')"
    using e it next1 by (simp_all add: extends_def)
  let ?t = "PT ?i (rev ts)"
  have g: "\<forall>t \<in> set ts. rep (ps_heap (snd c')) ?i t" "map (data_of (ps_heap (snd c'))) ts = map mirror ks"
      "distinct (concat (map preorder ts))" "set (concat (map preorder ts)) = {Suc ?i..<ps_next (snd c')}"
      "\<forall>j \<in> set (concat (map preorder ts)). item_ok idf (snd c') j"
    using a(2) next1 unfolding grown_def snd_conv by auto
  have "rep (ps_heap (snd c')) 0 ?t" "data_of (ps_heap (snd c')) ?t = mirror k"
    using g(1,2) hi(1) it i k by (simp_all flip: rev_map)
  moreover have "distinct (preorder ?t)" "set (preorder ?t) = {?i..<ps_next (snd c')}"
  proof -
    have "set (concat (map preorder (rev ts))) = {Suc ?i..<ps_next (snd c')}"
      using g(4) by simp
    then show "distinct (preorder ?t)" "set (preorder ?t) = {?i..<ps_next (snd c')}"
      using g(3) hi(4) by (auto simp del: set_concat simp add: distinct_concat_rev)
  qed
  moreover have "\<forall>j \<in> set (preorder ?t). item_ok idf (snd c') j"
  proof -
    have "item_ok idf (snd c') ?i"
      using hi(1,5) it r by (auto simp: item_ok_def Let_def ps1_def entry_max_def)
    then show ?thesis
      using g(5) by auto
  qed
  ultimately show ?thesis
    using add a(1) hi(2,3) k by (intro exI [of _ "fst c'"] exI [of _ "snd c'"] exI [of _ ?t]) (simp del: preorder.simps mirror.simps data_of.simps rep.simps)
qed

section \<open>Reading what was written\<close>

lemma on_fd_keeps: "x \<noteq> fd \<Longrightarrow> fd_get (fs_fds (snd (on_fd bad (int fd) act s))) x = fd_get (fs_fds s) x"
  by (auto simp: on_fd_def fd_get_def nth_list_update split: option.split prod.split)

lemma check_magic_keeps: "x \<noteq> fd \<Longrightarrow> fd_get (fs_fds (snd (check_magic E t fl (int fd) s))) x = fd_get (fs_fds s) x"
  using on_fd_keeps [of x fd "(-1, [])" "\<lambda>f. case read_img_buf (k_io E) 4 f of (r, bs, f) \<Rightarrow> ((r, bs), f)" s]
    on_fd_keeps [of x fd "-1" "write_img_buf (k_io E) (le_bytes 4 (magic (fdset_template t)))" s]
  by (auto simp: check_magic_def Let_def split: prod.split)

lemma sys_close_other: "x \<noteq> fd \<Longrightarrow> fd_get (fs_fds (snd (sys_close E (int fd) s))) x = fd_get (fs_fds s) x"
  by (auto simp: sys_close_def Let_def fd_get_def nth_list_update)

lemma open_image_rstr_other:
  assumes "fs_ok E" "fs_dir s (dfd, image_path t args) = Some i" "fd_get (fs_fds s) x \<noteq> None"
  shows "fd_get (fs_fds (snd (open_image_at E dfd t O_RSTR args s))) x = fd_get (fs_fds s) x"
proof -
  have "x \<noteq> free_fd (fs_fds s)"
    using assms(3) by auto
  then show ?thesis
    by (simp add: open_image_at_rstr [OF assms(1,2)] check_magic_keeps fd_get_put free_fd_le)
qed

lemma open_image_rstr_fd:
  assumes "fs_ok E" "fs_dir s (dfd, image_path t args) = Some i" "open_image_at E dfd t O_RSTR args s = (int fd, s')"
  shows "fd_get (fs_fds s) fd = None"
proof -
  have "fst (check_magic E t O_RSTR f s0) = f \<or> fst (check_magic E t O_RSTR f s0) = -1" for f s0
    by (auto simp: check_magic_def Let_def split: prod.split)
  then have "int fd = int (free_fd (fs_fds s)) \<or> int fd = -1"
    using assms(3) unfolding open_image_at_rstr [OF assms(1,2)] by (metis fst_conv)
  then show ?thesis
    by simp
qed

text \<open>The ids images that belong to a set of pids.\<close>

definition ids_at :: "img_fs \<Rightarrow> nat \<Rightarrow> task_kobj_ids pb_desc \<Rightarrow> int \<Rightarrow> task_kobj_ids option \<Rightarrow> bool" where
  "ids_at s dfd dk p ids \<longleftrightarrow> (case ids of
       None \<Rightarrow> fs_dir s (dfd, image_path FD_IDS [VInt p]) = None
     | Some k \<Rightarrow> desc_ok dk k \<and> (\<exists>i. fs_dir s (dfd, image_path FD_IDS [VInt p]) = Some i \<and> fs_ino s i = magic_bytes FD_IDS @ pb_records dk [k]))"

definition ids_dir :: "img_fs \<Rightarrow> nat \<Rightarrow> task_kobj_ids pb_desc \<Rightarrow> (int \<Rightarrow> task_kobj_ids option) \<Rightarrow> int set \<Rightarrow> bool" where
  "ids_dir s dfd dk idf P \<longleftrightarrow> (\<forall>p \<in> P. ids_at s dfd dk p (idf p))"

lemma ids_dir_mono:
  assumes "ids_dir s dfd dk idf P" "fs_dir s' = fs_dir s" "fs_ino s' = fs_ino s" "Q \<subseteq> P"
  shows "ids_dir s' dfd dk idf Q"
proof -
  have "ids_at s' dfd dk p x = ids_at s dfd dk p x" for p x
    by (simp only: ids_at_def assms(2,3))
  then show ?thesis
    using assms(1,4) unfolding ids_dir_def by blast
qed

lemma FD_IDS_type: "FD_IDS \<in> set image_types"
  by (simp add: image_types_def)

lemma read_ids_ok:
  assumes "fs_ok E" "ids_dir s dfd dk idf P" "pi_virt (ps_heap ps i) = v" "v \<in> P" "fd_get (fs_fds s) fd = Some x"
  shows "\<exists>s'. read_ids E dfd junk (Some dk) i s ps = (True, s', if idf v = None then ps else upd_item i (\<lambda>y. y\<lparr>pi_ids := idf v\<rparr>) ps)
     \<and> fs_dir s' = fs_dir s \<and> fs_ino s' = fs_ino s \<and> fd_get (fs_fds s') fd = Some x"
proof (cases "idf v")
  case None
  then have "fs_dir s (dfd, image_path FD_IDS [VInt v]) = None"
    using bspec [OF assms(2) [unfolded ids_dir_def] assms(4)] by (simp add: ids_at_def)
  then have "open_image_at E dfd FD_IDS O_RSTR [VInt v] s = (-1, s\<lparr>fs_tick := Suc (fs_tick s), fs_errno := ENOENT\<rparr>)"
    using assms(1) by (simp add: open_image_at_def sys_openat_def Let_def O_RSTR_def fs_ok_def)
  then show ?thesis
    using None assms(3,5) by (simp add: read_ids_def)
next
  case (Some k)
  then obtain j where j: "desc_ok dk k" "fs_dir s (dfd, image_path FD_IDS [VInt v]) = Some j" "fs_ino s j = magic_bytes FD_IDS @ pb_records dk [k]"
    using bspec [OF assms(2) [unfolded ids_dir_def] assms(4)] by (auto simp: ids_at_def)
  from open_image_restore [OF assms(1) FD_IDS_type j(2,3)] obtain fd1 s1 f where
    o: "open_image_at E dfd FD_IDS O_RSTR [VInt v] s = (int fd1, s1)" "opened_image (int fd1) s1 = Img f"
      "drop (if_pos f) (if_data f) = pb_records dk [k]" "fs_dir s1 = fs_dir s" "fs_ino s1 = fs_ino s"
    by blast
  have io: "io_ok (k_io E)"
    using assms(1) by (simp add: fs_ok_def)
  from pb_read_fd_first [OF io j(1) o(2,3)] obtain s2 where
    r: "pb_read_fd E junk (Some dk) (int fd1) s1 = ((1, Some k), s2)" "fs_ino s2 = fs_ino s1" "fs_dir s2 = fs_dir s1"
    by blast
  have ne: "fd \<noteq> fd1"
    using open_image_rstr_fd [OF assms(1) j(2) o(1)] assms(5) by auto
  have "fd_get (fs_fds s1) fd = Some x"
    using open_image_rstr_other [OF assms(1) j(2), of fd] assms(5) o(1) by simp
  moreover have "fd_get (fs_fds s2) fd = fd_get (fs_fds s1) fd"
    using on_fd_keeps [OF ne, of "(-1, None)" "\<lambda>f. case do_pb_read_one (k_io E) junk (Some dk) False f of (r, m, f) \<Rightarrow> ((r, m), f)" s1] r(1)
    by (simp add: pb_read_fd_def)
  ultimately show ?thesis
    using Some assms(3) o(1,4,5) r ne by (simp add: read_ids_def sys_close_keeps sys_close_other)
qed

lemma link_entry_virt:
  "link_entry i e c (fill_item i e ps) = Inr (ok, ps') \<Longrightarrow> pi_virt (ps_heap ps' i) = to_pid (e_pid e) \<and> ps_next ps' = ps_next ps"
  by (auto simp: link_entry_def fill_item_def hook_item_def upd_item_def bindF_eq_Inr split: if_splits)

lemma pb_read_next:
  assumes "io_ok (k_io E)" "fd_get (fs_fds s) fd = Some (i, p)" "drop p (fs_ino s i) = pb_records d (e # es)" "desc_ok d e"
  shows "\<exists>s'. on_fd (-1, None) (int fd) (\<lambda>f. case do_pb_read_one (k_io E) junk (Some d) True f of (r, m, f) \<Rightarrow> ((r, m), f)) s = ((1, Some e), s')
     \<and> fs_dir s' = fs_dir s \<and> fs_ino s' = fs_ino s \<and> (\<exists>p'. fd_get (fs_fds s') fd = Some (i, p') \<and> drop p' (fs_ino s' i) = pb_records d es)"
proof -
  let ?f = "\<lparr>if_data = fs_ino s i, if_pos = p, if_tick = fs_tick s\<rparr>"
  let ?k = "length (pb_records d (e # es))"
  have "drop (if_pos ?f) (if_data ?f) = take ?k (pb_record d e @ pb_records d es)" "length (pb_record d e) \<le> ?k"
    using assms(3) by simp_all
  from do_pb_read_one_ok [OF assms(1,4) this(1), of junk] this(2) obtain f' where
    f: "do_pb_read_one (k_io E) junk (Some d) True ?f = (1, Some e, f')" "if_data f' = fs_ino s i" "if_pos f' = p + length (pb_record d e)"
    by auto
  then have "(\<lambda>f. case do_pb_read_one (k_io E) junk (Some d) True f of (r, m, f) \<Rightarrow> ((r, m), f)) ?f = ((1, Some e), f')"
    by simp
  note on = on_fd_open [where act = "\<lambda>f. case do_pb_read_one (k_io E) junk (Some d) True f of (r, m, f) \<Rightarrow> ((r, m), f)", OF assms(2) this]
  have "drop (p + length (pb_record d e)) (fs_ino s i) = pb_records d es"
    using arg_cong [OF assms(3), of "drop (length (pb_record d e))"] by (simp add: add.commute del: length_pb_record)
  then show ?thesis
    using on f(2,3) fd_get_Some_less [OF assms(2)] by (simp add: fd_get_update del: length_pb_record)
qed

lemma pb_read_end:
  assumes "io_ok (k_io E)" "fd_get (fs_fds s) fd = Some (i, p)" "drop p (fs_ino s i) = []"
  shows "\<exists>s'. on_fd (-1, None) (int fd) (\<lambda>f. case do_pb_read_one (k_io E) junk (Some d) True f of (r, m, f) \<Rightarrow> ((r, m), f)) s = ((0, None), s')"
  using assms by (simp add: on_fd_def do_pb_read_one_def sys_read_def io_ok_def Let_def)

lemma add_entry_SomeD:
  assumes "add_entry idf e (c, ps) = Some (c1, ps2)"
  shows "c1 = ps_next ps \<and> (\<exists>ps1. link_entry c1 e c (fill_item c1 e (ps\<lparr>ps_heap := (ps_heap ps)(c1 := new_item), ps_next := Suc c1\<rparr>)) = Inr (True, ps1)
    \<and> ps2 = (if idf (to_pid (e_pid e)) = None then set_threads c1 e ps1 else upd_item c1 (\<lambda>y. y\<lparr>pi_ids := idf (to_pid (e_pid e))\<rparr>) (set_threads c1 e ps1)))"
  using assms unfolding add_entry_def alloc_pstree_item_def
  by (cases "link_entry (ps_next ps) e c (fill_item (ps_next ps) e (ps\<lparr>ps_heap := (ps_heap ps)(ps_next ps := new_item), ps_next := Suc (ps_next ps)\<rparr>))")
    (auto simp: Let_def simp del: fun_upd_apply split: if_splits bool.splits)

lemma read_pstree_loop_step:
  assumes "on_fd (-1, None) fd (\<lambda>f. case do_pb_read_one (k_io E) junk d True f of (r, m, f) \<Rightarrow> ((r, m), f)) s = ((1, Some e), s1)"
    and "\<And>t. io_malloc (k_io E) t \<noteq> 0" "ps_next ps = i" "i \<noteq> 0"
    and "link_entry i e c (fill_item i e (ps\<lparr>ps_heap := (ps_heap ps)(i := new_item), ps_next := Suc i\<rparr>)) = Inr (True, ps1)"
    and "read_ids E dfd junk dk i (s1\<lparr>fs_tick := Suc (Suc (fs_tick s1))\<rparr>) (set_threads i e ps1) = (True, s2, ps2)"
  shows "read_pstree_loop (Suc m) E dfd junk d dk fd c s ps = read_pstree_loop m E dfd junk d dk fd i s2 ps2"
  by (simp only: read_pstree_loop.simps assms(1) prod.case option.case) (simp add: assms(2-) fs_malloc_def alloc_pstree_item_def)

lemma read_pstree_loop_ok:
  assumes "fs_ok E"
  shows "fd_get (fs_fds s) fd = Some (i, p) \<Longrightarrow> drop p (fs_ino s i) = pb_records d es \<Longrightarrow> \<forall>e \<in> set es. desc_ok d e
    \<Longrightarrow> ids_dir s dfd dk idf (to_pid ` e_pid ` set es) \<Longrightarrow> length es < n \<Longrightarrow> add_entries idf es (c, ps) = Some (c', ps') \<Longrightarrow> ps_next ps \<noteq> 0
    \<Longrightarrow> \<exists>s'. read_pstree_loop n E dfd junk (Some d) (Some dk) (int fd) c s ps = Inr (0, s', ps')"
proof (induction es arbitrary: s p n c ps)
  case Nil
  have io: "io_ok (k_io E)"
    using assms by (simp add: fs_ok_def)
  obtain m where "n = Suc m"
    using Nil.prems(5) by (cases n) auto
  then show ?case
    using pb_read_end [OF io Nil.prems(1), of junk d] Nil.prems(2,6) by auto
next
  case (Cons e es)
  have io: "io_ok (k_io E)" and m: "\<And>t. io_malloc (k_io E) t \<noteq> 0"
    using assms by (simp_all add: fs_ok_def io_ok_def)
  obtain m where n: "n = Suc m" "length es < m"
    using Cons.prems(5) by (cases n) auto
  obtain s1 p1 where s1: "on_fd (-1, None) (int fd) (\<lambda>f. case do_pb_read_one (k_io E) junk (Some d) True f of (r, m, f) \<Rightarrow> ((r, m), f)) s = ((1, Some e), s1)"
    "fs_dir s1 = fs_dir s" "fs_ino s1 = fs_ino s" "fd_get (fs_fds s1) fd = Some (i, p1)" "drop p1 (fs_ino s1 i) = pb_records d es"
    using pb_read_next [OF io Cons.prems(1,2), of junk] Cons.prems(3) by auto
  let ?i = "ps_next ps"
  let ?ps = "ps\<lparr>ps_heap := (ps_heap ps)(?i := new_item), ps_next := Suc ?i\<rparr>"
  let ?ids = "idf (to_pid (e_pid e))"
  obtain c1 ps2 where add: "add_entry idf e (c, ps) = Some (c1, ps2)" "add_entries idf es (c1, ps2) = Some (c', ps')"
    using Cons.prems(6) by (cases "add_entry idf e (c, ps)") auto
  then obtain ps1 where l: "link_entry ?i e c (fill_item ?i e ?ps) = Inr (True, ps1)" "c1 = ?i"
      "ps2 = (if ?ids = None then set_threads ?i e ps1 else upd_item ?i (\<lambda>y. y\<lparr>pi_ids := ?ids\<rparr>) (set_threads ?i e ps1))"
    using add_entry_SomeD [OF add(1)] by blast
  have v: "pi_virt (ps_heap (set_threads ?i e ps1) ?i) = to_pid (e_pid e)" "ps_next ps1 = Suc ?i"
    using link_entry_virt [OF l(1)] by (simp_all add: set_threads_def upd_item_def)
  let ?s = "s1\<lparr>fs_tick := Suc (Suc (fs_tick s1))\<rparr>"
  have "ids_dir ?s dfd dk idf (to_pid ` e_pid ` set (e # es))" "fd_get (fs_fds ?s) fd = Some (i, p1)"
    using s1(2-4) by (simp_all add: ids_dir_mono [OF Cons.prems(4)])
  from read_ids_ok [OF assms this(1) v(1) _ this(2), of junk] obtain s2 where
    s2: "read_ids E dfd junk (Some dk) ?i ?s (set_threads ?i e ps1) = (True, s2, ps2)" "fs_dir s2 = fs_dir s" "fs_ino s2 = fs_ino s" "fd_get (fs_fds s2) fd = Some (i, p1)"
    using l(3) s1(2,3) by (simp, blast)
  have "\<exists>s'. read_pstree_loop m E dfd junk (Some d) (Some dk) (int fd) ?i s2 ps2 = Inr (0, s', ps')"
  proof (rule Cons.IH [OF s2(4) _ _ _ n(2) add(2) [unfolded l(2)]])
    show "drop p1 (fs_ino s2 i) = pb_records d es"
      using s1(3,5) s2(3) by simp
    show "ids_dir s2 dfd dk idf (to_pid ` e_pid ` set es)"
      by (rule ids_dir_mono [OF Cons.prems(4) s2(2,3)]) auto
    show "ps_next ps2 \<noteq> 0"
      using l(3) v(2) by (simp add: set_threads_def upd_item_def)
  qed (use Cons.prems(3) in simp)
  then show ?case
    unfolding n(1) read_pstree_loop_step [OF s1(1) m refl Cons.prems(7) l(1) s2(1)] .
qed

lemma length_pb_records_ge: "length es \<le> length (pb_records d es)"
  by (induction es) auto

lemma read_pstree_image_ok:
  assumes "fs_ok E" "fs_dir s (dfd, image_path FD_PSTREE []) = Some i" "fs_ino s i = magic_bytes FD_PSTREE @ pb_records d es"
    and "\<forall>e \<in> set es. desc_ok d e" "ids_dir s dfd dk idf (to_pid ` e_pid ` set es)" "add_entries idf es (0, ps) = Some (c', ps')" "ps_next ps \<noteq> 0"
  shows "\<exists>s'. read_pstree_image E dfd junk (Some d) (Some dk) s ps = Inr (0, s', ps')"
proof -
  from open_image_restore [OF assms(1) FD_PSTREE_type(1) assms(2,3)] obtain fd s1 f where
    o: "open_image_at E dfd FD_PSTREE O_RSTR [] s = (int fd, s1)" "opened_image (int fd) s1 = Img f"
      "drop (if_pos f) (if_data f) = pb_records d es" "fs_dir s1 = fs_dir s" "fs_ino s1 = fs_ino s"
    by blast
  obtain j p where j: "fd_get (fs_fds s1) fd = Some (j, p)" "f = \<lparr>if_data = fs_ino s1 j, if_pos = p, if_tick = fs_tick s1\<rparr>"
    using o(2) by (auto simp: opened_image_def split: option.splits)
  have "length es \<le> length (if_data f)"
    using length_pb_records_ge [of es d] arg_cong [OF o(3), of length] by simp
  then have "length es < Suc (length (if_data f))"
    by simp
  moreover have "ids_dir s1 dfd dk idf (to_pid ` e_pid ` set es)"
    by (rule ids_dir_mono [OF assms(5) o(4,5)]) simp
  ultimately obtain s2 where "read_pstree_loop (Suc (length (if_data f))) E dfd junk (Some d) (Some dk) (int fd) 0 s1 ps = Inr (0, s2, ps')"
    using read_pstree_loop_ok [OF assms(1) j(1) _ assms(4) _ _ assms(6,7), of dfd dk "Suc (length (if_data f))" junk] o(3) j(2)
    by (auto simp del: read_pstree_loop.simps)
  then show ?thesis
    using o(1,2) by (simp add: read_pstree_image_def del: read_pstree_loop.simps)
qed

lemma entries_pids: "e_pid ` set (d_entries pp k) = to_u32 ` set (d_pids k)"
  by (induction k arbitrary: pp) (simp add: image_UN)

lemma d_all_pids: "d_all P k \<Longrightarrow> p \<in> set (d_pids k) \<Longrightarrow> \<exists>g s th. P p g s th"
  by (induction k) auto

lemma to_u32_distinct:
  assumes "d_all pid_range k" "distinct (d_pids k)"
  shows "distinct (map to_u32 (d_pids k))"
proof -
  have "to_pid (to_u32 p) = p" if "p \<in> set (d_pids k)" for p
    using d_all_pids [OF assms(1) that] to_pid_u32 [of p] by (auto simp: pid_range_def)
  then have "inj_on to_u32 (set (d_pids k))"
    by (metis inj_onI)
  then show ?thesis
    using assms(2) by (simp add: distinct_map)
qed

lemma entry_pids_of:
  assumes "d_all pid_range k"
  shows "to_pid ` e_pid ` set (d_entries 0 k) = set (d_pids k)"
proof -
  have "to_pid (to_u32 p) = p" if "p \<in> set (d_pids k)" for p
    using d_all_pids [OF assms that] to_pid_u32 [of p] by (auto simp: pid_range_def)
  then show ?thesis
    unfolding entries_pids image_image by (simp cong: image_cong_simp)
qed

lemma image_path_ids: "0 \<le> p \<Longrightarrow> p < 2 ^ 31 \<Longrightarrow> image_path FD_IDS [VInt p] \<noteq> image_path FD_PSTREE []"
  using image_path_inj(1) [OF FD_IDS_type FD_PSTREE_type(1), of "nat p" 0] image_path_plain [OF FD_PSTREE_type]
  by (auto simp: nat_less_iff)

text \<open>C12: What \<^verbatim>\<open>dump_pstree\<close> writes, \<^verbatim>\<open>read_pstree_image\<close> reads back as the same process tree. Take a tree
  of items with distinct pids in the range of a \<^verbatim>\<open>pid_t\<close>, and let unpacking be the inverse of packing on
  their protobuf records, each packed into the size announced and into one write. For a shell job, or
  when the root task leads its session (any other dump returns -1), and when no call fails, the dump
  returns 0. Whenever it returned 0 with no allocation failing, a restore that has no root yet and
  whose calls do not fail returns 0 and leaves a well formed tree with the same pids, groups, sessions and
  threads in the same parent and child relation, each list of children in the opposite order
  (\<^verbatim>\<open>list_add\<close> puts a child in front of those read before). Every item has the ids of its
  image (which unpack as well), or none where there is no image, and no pid, group or session is above \<^verbatim>\<open>max_pid\<close>.
\<close>

theorem pstree_roundtrip:
  assumes "rep h 0 t" "distinct (preorder t)" "d_all pid_range (data_of h t)" "distinct (d_pids (data_of h t))"
    and "\<forall>j \<in> set (preorder t). desc_ok d (entry_of h j)"
    and "ps_root ps = 0" "closed_below (ps_heap ps) (ps_next ps)" "fs_ok E'"
  shows "(fs_ok E \<and> (shell_job \<or> pi_virt (h (pt_id t)) = pi_sid (h (pt_id t)))
        \<longrightarrow> (\<exists>s'. dump_pstree E dfd shell_job (Some d) h (pt_id t) s = Some (0, s')))
    \<and> (\<forall>s'. (\<forall>n. io_malloc (k_io E) n \<noteq> 0) \<and> dump_pstree E dfd shell_job (Some d) h (pt_id t) s = Some (0, s') \<and> ids_dir s' dfd dk idf (set (d_pids (data_of h t)))
        \<longrightarrow> (\<exists>s2 ps' t'. read_pstree_image E' dfd junk (Some d) (Some dk) s' ps = Inr (0, s2, ps') \<and> ps_root ps' = pt_id t'
              \<and> rep (ps_heap ps') 0 t' \<and> distinct (preorder t') \<and> data_of (ps_heap ps') t' = mirror (data_of h t)
              \<and> (\<forall>i \<in> set (preorder t'). item_ok idf ps' i)))"
proof (intro conjI allI impI; (elim conjE)?)
  show "\<exists>s'. dump_pstree E dfd shell_job (Some d) h (pt_id t) s = Some (0, s')"
    if "fs_ok E" "shell_job \<or> pi_virt (h (pt_id t)) = pi_sid (h (pt_id t))"
    using dump_pstree_ret [OF assms(1,2) _ that] assms(5) by blast
next
  fix s'
  let ?k = "data_of h t" and ?es = "map (entry_of h) (preorder t)"
  assume mem: "\<forall>n. io_malloc (k_io E) n \<noteq> 0" and dump: "dump_pstree E dfd shell_job (Some d) h (pt_id t) s = Some (0, s')" and ids: "ids_dir s' dfd dk idf (set (d_pids ?k))"
  have es: "?es = d_entries 0 ?k"
    using dump_entries [OF assms(1)] by simp
  note w = dump_pstree_success [OF assms(1,2) bspec [OF assms(5)] spec [OF mem] dump]
  obtain c ps' t' where r: "add_entries idf ?es (0, ps) = Some (c, ps')" "ps_root ps' = pt_id t'" "rep (ps_heap ps') 0 t'"
      "distinct (preorder t')" "data_of (ps_heap ps') t' = mirror ?k" "\<forall>i \<in> set (preorder t'). item_ok idf ps' i"
    using read_tree [OF to_u32_distinct [OF assms(3,4)] assms(3,6,7)] unfolding es by blast
  have "ids_dir s' dfd dk idf (to_pid ` e_pid ` set ?es)"
    using ids unfolding es entry_pids_of [OF assms(3)] .
  then have "\<exists>s2. read_pstree_image E' dfd junk (Some d) (Some dk) s' ps = Inr (0, s2, ps')"
    using w assms(5,7) by (intro read_pstree_image_ok [where i = "fs_inos s", OF assms(8) _ _ _ _ r(1)]) (simp_all add: closed_below_def)
  then show "\<exists>s2 ps' t'. read_pstree_image E' dfd junk (Some d) (Some dk) s' ps = Inr (0, s2, ps') \<and> ps_root ps' = pt_id t'
      \<and> rep (ps_heap ps') 0 t' \<and> distinct (preorder t') \<and> data_of (ps_heap ps') t' = mirror ?k
      \<and> (\<forall>i \<in> set (preorder t'). item_ok idf ps' i)"
    using r(2-) by blast
qed

definition ex_pdesc :: "pstree_entry pb_desc" where
  "ex_pdesc =
     \<lparr>getpksize = (\<lambda>e. 4 + length (e_threads e)),
      pack = (\<lambda>e. map of_nat (e_pid e # e_ppid e # e_pgid e # e_sid e # e_threads e)),
      unpack = (\<lambda>bs. case bs of
          p # q # g # s # th \<Rightarrow> Some \<lparr>e_pid = unat p, e_ppid = unat q, e_pgid = unat g, e_sid = unat s, e_threads = map unat th\<rparr>
        | _ \<Rightarrow> None)\<rparr>"

definition ex_kdesc :: "task_kobj_ids pb_desc" where
  "ex_kdesc =
     \<lparr>getpksize = (\<lambda>_. 9),
      pack = (\<lambda>k. map of_nat [vm_id k, files_id k, fs_id k, sighand_id k, pid_ns_id k, net_ns_id k, ipc_ns_id k, uts_ns_id k, mnt_ns_id k]),
      unpack = (\<lambda>bs. case map unat bs of
          [v, f, fs, sg, p, n, i, u, m] \<Rightarrow> Some \<lparr>vm_id = v, files_id = f, fs_id = fs, sighand_id = sg,
             pid_ns_id = p, net_ns_id = n, ipc_ns_id = i, uts_ns_id = u, mnt_ns_id = m\<rparr>
        | _ \<Rightarrow> None)\<rparr>"

definition ex_item :: "nat \<Rightarrow> nat list \<Rightarrow> int \<Rightarrow> int \<Rightarrow> pstree_item" where
  "ex_item p ks v s = new_item\<lparr>pi_parent := p, pi_children := ks, pi_virt := v, pi_pgid := v, pi_sid := s, pi_threads := [v]\<rparr>"

definition ex_heap :: pstree_heap where
  "ex_heap = (\<lambda>_. new_item)(1 := ex_item 0 [2, 4] 10 10, 2 := ex_item 1 [3] 12 10, 3 := ex_item 2 [] 15 12, 4 := ex_item 1 [] 11 11)"

definition ex_pstree :: pstree where
  "ex_pstree = \<lparr>ps_heap = (\<lambda>_. zero_item), ps_next = 1, ps_root = 0, ps_max_pid = 0, ps_nr_threads = 0, ps_nr_tasks = 0, ps_nr_helpers = 0\<rparr>"

lemma ex_pdesc_ok: "j \<in> {1, 2, 3, 4} \<Longrightarrow> desc_ok ex_pdesc (entry_of ex_heap j)"
  by (auto simp: desc_ok_def ex_pdesc_def entry_of_def ex_heap_def ex_item_def MAX_RW_COUNT_def to_u32_def)

theorem pstree_roundtrip_witness:
  "\<exists>s' s2 ps' t'. dump_pstree ex_fs_env 3 False (Some ex_pdesc) ex_heap 1 ex_fs = Some (0, s')
     \<and> read_pstree_image ex_fs_env 3 99 (Some ex_pdesc) (Some ex_kdesc) s' ex_pstree = Inr (0, s2, ps')
     \<and> rep (ps_heap ps') 0 t' \<and> data_of (ps_heap ps') t' = DT 10 10 10 [10] [DT 11 11 11 [11] [], DT 12 12 10 [12] [DT 15 15 12 [15] []]]"
proof -
  let ?t = "PT 1 [PT 2 [PT 3 []], PT 4 []]"
  let ?k = "data_of ex_heap ?t"
  have k: "?k = DT 10 10 10 [10] [DT 12 12 10 [12] [DT 15 15 12 [15] []], DT 11 11 11 [11] []]"
    by (simp add: ex_heap_def ex_item_def)
  have h: "rep ex_heap 0 ?t" "distinct (preorder ?t)" "d_all pid_range ?k" "distinct (d_pids ?k)"
    unfolding k by (simp_all add: ex_heap_def ex_item_def pid_range_def)
  have d: "\<forall>j \<in> set (preorder ?t). desc_ok ex_pdesc (entry_of ex_heap j)"
    using ex_pdesc_ok by simp
  have p: "ps_root ex_pstree = 0" "closed_below (ps_heap ex_pstree) (ps_next ex_pstree)"
    by (simp_all add: ex_pstree_def closed_below_def)
  note r = pstree_roundtrip [OF h d p ex_fs_env_ok, of ex_fs_env False 3 ex_fs ex_kdesc "\<lambda>_. None" 99]
  have "pi_virt (ex_heap (pt_id ?t)) = pi_sid (ex_heap (pt_id ?t))"
    by (simp add: ex_heap_def ex_item_def)
  moreover have mem: "io_malloc (k_io ex_fs_env) n \<noteq> 0" for n
    using ex_fs_env_ok by (simp add: fs_ok_def io_ok_def)
  ultimately obtain s' where s': "dump_pstree ex_fs_env 3 False (Some ex_pdesc) ex_heap (pt_id ?t) ex_fs = Some (0, s')"
    using r ex_fs_env_ok by blast
  have "fs_dir s' = (fs_dir ex_fs)((3, image_path FD_PSTREE []) \<mapsto> fs_inos ex_fs)"
    using dump_pstree_success(1) [OF h(1,2) bspec [OF d] mem s'] .
  then have "ids_dir s' 3 ex_kdesc (\<lambda>_. None) (set (d_pids ?k))"
    unfolding k by (simp add: ids_dir_def ids_at_def ex_fs_def image_path_ids)
  then obtain s2 ps' t' where
    "read_pstree_image ex_fs_env 3 99 (Some ex_pdesc) (Some ex_kdesc) s' ex_pstree = Inr (0, s2, ps')" "rep (ps_heap ps') 0 t'"
    "data_of (ps_heap ps') t' = mirror ?k"
    using conjunct2 [OF r] s' mem by blast
  moreover have "mirror ?k = DT 10 10 10 [10] [DT 11 11 11 [11] [], DT 12 12 10 [12] [DT 15 15 12 [15] []]]"
    unfolding k by simp
  ultimately show ?thesis
    using s' by auto
qed

theorem dump_pstree_loses_tasks_witness:
  "\<exists>m s'. dump_pstree (no_memory_from m ex_fs_env) 3 False (Some ex_pdesc) ex_heap 1 ex_fs = Some (0, s')
     \<and> fs_ino s' 0 = magic_bytes FD_PSTREE @ pb_records ex_pdesc [\<lparr>e_pid = 10, e_ppid = 0, e_pgid = 10, e_sid = 10, e_threads = [10]\<rparr>]"
proof -
  let ?t = "PT 1 [PT 2 [PT 3 []], PT 4 []]"
  have "rep ex_heap 0 ?t" "distinct (preorder ?t)" "pi_virt (ex_heap (pt_id ?t)) = pi_sid (ex_heap (pt_id ?t))"
    by (simp_all add: ex_heap_def ex_item_def)
  moreover have "\<forall>j \<in> set (preorder ?t). desc_ok ex_pdesc (entry_of ex_heap j) \<and> length (pack ex_pdesc (entry_of ex_heap j)) \<le> PB_PKOBJ_LOCAL_SIZE"
    using ex_pdesc_ok by (simp add: ex_pdesc_def ex_heap_def ex_item_def entry_of_def PB_PKOBJ_LOCAL_SIZE_def)
  ultimately have "\<exists>m s'. dump_pstree (no_memory_from m ex_fs_env) 3 False (Some ex_pdesc) ex_heap (pt_id ?t) ex_fs = Some (0, s')
     \<and> fs_ino s' (fs_inos ex_fs) = magic_bytes FD_PSTREE @ pb_records ex_pdesc (map (entry_of ex_heap) (take 1 (preorder ?t)))"
    by (intro dump_pstree_loses_tasks [OF _ _ ex_fs_env_ok]) simp_all
  moreover have "map (entry_of ex_heap) (take 1 (preorder ?t)) = [\<lparr>e_pid = 10, e_ppid = 0, e_pgid = 10, e_sid = 10, e_threads = [10]\<rparr>]"
    by (simp add: entry_of_def ex_heap_def ex_item_def to_u32_def)
  ultimately show ?thesis
    by (simp add: ex_fs_def)
qed

end
