(* ===== verification/PstreeIds.thy ===== *)
theory PstreeIds
  imports Pstree
begin

text \<open>
  What a restore does to the process tree before it forks, the second half of pstree.c: moving a
  shell job into the session of the tool, sharing descriptor tables and namespaces, and putting the tree
  into a shape in which forking alone gives every task its session and its process group
  (\<^verbatim>\<open>prepare_pstree_ids\<close>); and the forking itself as far as sessions go (\<^verbatim>\<open>create_children_and_session\<close>,
  \<^verbatim>\<open>restore_sid\<close> of cr-restore.c).

  A task can leave its session only for one of its own, so the session of a task is that of its
  parent at the moment of its birth. The main theorem takes a tree of tasks together with
  the sessions they were born in, where every child of the root was born in the root's present session,
  and shows that every task is restored into the session it had. The orphans of a dead session leader
  are the subject of the last section.
\<close>

unbundle bit_operations_syntax

section \<open>A shell job\<close>

definition prepare_pstree_for_shell_job :: "bool \<Rightarrow> int \<Rightarrow> int \<Rightarrow> pstree \<Rightarrow> (int \<times> pstree) option" where
  "prepare_pstree_for_shell_job shell_job current_sid current_gid ps =
     (let root = ps_heap ps (ps_root ps); old_sid = pi_sid root; old_gid = pi_pgid root in
      if \<not> shell_job \<or> pi_sid root = pi_virt root then Some (0, ps)
      else map_option (\<lambda>r. case r of
               Inl ps \<Rightarrow> (0, ps)
             | Inr ps \<Rightarrow> (0, ps\<lparr>ps_max_pid := max current_gid (max current_sid (ps_max_pid ps))\<rparr>))
             (for_each_item ps_heap
                (\<lambda>i ps. Inr (upd_item i (\<lambda>x. x
                   \<lparr>pi_pgid := (if pi_pgid x = old_gid then current_gid else pi_pgid x),
                    pi_sid := (if pi_sid x = old_sid then current_sid else pi_sid x)\<rparr>) ps))
                (ps_root ps) ps))"

section \<open>Descriptor tables and namespaces\<close>

definition CLONE_FILES :: u64 where "CLONE_FILES = 0x400"
definition CLONE_NEWNS :: u64 where "CLONE_NEWNS = 0x20000"
definition CLONE_NEWUTS :: u64 where "CLONE_NEWUTS = 0x4000000"
definition CLONE_NEWIPC :: u64 where "CLONE_NEWIPC = 0x8000000"
definition CLONE_NEWPID :: u64 where "CLONE_NEWPID = 0x20000000"
definition CLONE_NEWNET :: u64 where "CLONE_NEWNET = 0x40000000"

definition CLONE_ALLNS :: u64 where
  "CLONE_ALLNS = CLONE_NEWPID OR CLONE_NEWNET OR CLONE_NEWIPC OR CLONE_NEWUTS OR CLONE_NEWNS"

definition get_clone_mask :: "task_kobj_ids \<Rightarrow> task_kobj_ids \<Rightarrow> u64" where
  "get_clone_mask i p =
     (let mask = 0;
          mask = (if files_id i = files_id p then mask OR CLONE_FILES else mask);
          mask = (if pid_ns_id i \<noteq> pid_ns_id p then mask OR CLONE_NEWPID else mask);
          mask = (if net_ns_id i \<noteq> net_ns_id p then mask OR CLONE_NEWNET else mask);
          mask = (if ipc_ns_id i \<noteq> ipc_ns_id p then mask OR CLONE_NEWIPC else mask);
          mask = (if uts_ns_id i \<noteq> uts_ns_id p then mask OR CLONE_NEWUTS else mask);
          mask = (if mnt_ns_id i \<noteq> mnt_ns_id p then mask OR CLONE_NEWNS else mask)
      in mask)"

text \<open>A shared descriptor table: how many tasks share it, and which of them restores it.\<close>

record fdt =
  fdt_nr :: nat
  fdt_pid :: int

record kobj_state =
  k_ps :: pstree
  k_fdt :: "nat \<Rightarrow> fdt"
  k_next :: nat
  current_ns_mask :: u64

definition pid_rst_prio :: "int \<Rightarrow> int \<Rightarrow> bool" where
  "pid_rst_prio a b \<longleftrightarrow> to_u32 a < to_u32 b"

definition shared_fdt_prepare :: "(nat \<Rightarrow> bool) \<Rightarrow> nat \<Rightarrow> kobj_state \<Rightarrow> int \<times> kobj_state" where
  "shared_fdt_prepare ok i k =
     (let p = pi_parent (ps_heap (k_ps k) i);
          fresh = pi_fdt (ps_heap (k_ps k) p) = 0;
          f = (if fresh then k_next k else pi_fdt (ps_heap (k_ps k) p)) in
      if fresh \<and> \<not> ok (k_next k) then (-1, k)
      else
        let k = (if fresh then k\<lparr>k_ps := upd_item p (\<lambda>x. x\<lparr>pi_fdt := f\<rparr>) (k_ps k), k_next := Suc f,
                     k_fdt := (k_fdt k)(f := \<lparr>fdt_nr = 1, fdt_pid = pi_virt (ps_heap (k_ps k) p)\<rparr>)\<rparr> else k);
            t = k_fdt k f; v = pi_virt (ps_heap (k_ps k) i)
        in (0, k\<lparr>k_ps := upd_item i (\<lambda>x. x\<lparr>pi_fdt := f, pi_service_fd_id := fdt_nr t\<rparr>) (k_ps k),
                 k_fdt := (k_fdt k)(f := \<lparr>fdt_nr = Suc (fdt_nr t), fdt_pid = (if pid_rst_prio v (fdt_pid t) then v else fdt_pid t)\<rparr>)\<rparr>))"

definition set_mask :: "nat \<Rightarrow> u64 \<Rightarrow> kobj_state \<Rightarrow> int + kobj_state" where
  "set_mask i cflags k =
     (let k = k\<lparr>k_ps := upd_item i (\<lambda>x. x\<lparr>pi_clone_flags := cflags\<rparr>) (k_ps k)\<rparr> in
      if i = ps_root (k_ps k) then Inr (k\<lparr>current_ns_mask := cflags AND CLONE_ALLNS\<rparr>)
      else if cflags AND CLONE_ALLNS \<noteq> 0 then Inl (-1)
      else Inr k)"

definition kobj_ids_item :: "(nat \<Rightarrow> bool) \<Rightarrow> u64 \<Rightarrow> task_kobj_ids option \<Rightarrow> nat \<Rightarrow> kobj_state \<Rightarrow> int + kobj_state" where
  "kobj_ids_item ok rst_ns root_ids i k =
     (let h = ps_heap (k_ps k); p = pi_parent (h i) in
      case pi_ids (h i) of
        None \<Rightarrow> if i = ps_root (k_ps k) then set_mask i rst_ns k else Inr k
      | Some ids \<Rightarrow>
          (case (if p \<noteq> 0 then pi_ids (h p) else root_ids) of
             None \<Rightarrow> Inl (-1)
           | Some pids \<Rightarrow>
               let cflags = get_clone_mask ids pids in
               if cflags AND CLONE_FILES \<noteq> 0 then
                 (if p = 0 then Inl (-1)
                  else case shared_fdt_prepare ok i k of (ret, k) \<Rightarrow> if ret \<noteq> 0 then Inl ret else set_mask i cflags k)
               else set_mask i cflags k))"

definition prepare_pstree_kobj_ids :: "(nat \<Rightarrow> bool) \<Rightarrow> u64 \<Rightarrow> task_kobj_ids option \<Rightarrow> kobj_state \<Rightarrow> (int + kobj_state) option" where
  "prepare_pstree_kobj_ids ok rst_ns root_ids k =
     for_each_item (\<lambda>k. ps_heap (k_ps k)) (kobj_ids_item ok rst_ns root_ids) (ps_root (k_ps k)) k"

section \<open>Sessions and process groups\<close>

text \<open>
  Helpers are found on a list of their own before they get a place in the tree. \<^verbatim>\<open>list_move\<close> takes an
  entry off the list it is on and puts it in front of the other one; the entry that a loop with
  \<^verbatim>\<open>safe\<close> moves is the current one, so such a loop visits the entries there were at its start.
\<close>

definition new_helper :: "int \<Rightarrow> int \<Rightarrow> int \<Rightarrow> nat \<Rightarrow> pstree_item \<Rightarrow> pstree_item" where
  "new_helper sid pgid virt p x = x\<lparr>pi_sid := sid, pi_pgid := pgid, pi_virt := virt, pi_state := TASK_HELPER, pi_parent := p\<rparr>"

definition move_child :: "nat \<Rightarrow> nat \<Rightarrow> nat \<Rightarrow> pstree \<Rightarrow> pstree" where
  "move_child c root p ps =
     upd_item p (\<lambda>x. x\<lparr>pi_children := c # pi_children x\<rparr>)
       (upd_item root (\<lambda>x. x\<lparr>pi_children := remove1 c (pi_children x)\<rparr>) (upd_item c (\<lambda>x. x\<lparr>pi_parent := p\<rparr>) ps))"

primrec stack_children :: "nat \<Rightarrow> nat list \<Rightarrow> pstree \<Rightarrow> pstree" where
  "stack_children helper [] ps = ps"
| "stack_children helper (c # cs) ps =
     (if pi_sid (ps_heap ps c) \<noteq> pi_sid (ps_heap ps helper) then stack_children helper cs ps
      else if pi_sid (ps_heap ps c) = pi_virt (ps_heap ps c) then stack_children helper cs ps
      else stack_children helper cs (move_child c (ps_root ps) helper ps))"

text \<open>The loop over the children of the root, \<open>k\<close> of which it has passed. The result is -1, or the list of helpers.\<close>

partial_function (option) stack_orphans :: "(nat \<Rightarrow> bool) \<Rightarrow> nat \<Rightarrow> nat list \<Rightarrow> pstree \<Rightarrow> (int \<times> nat list \<times> pstree) option" where
  "stack_orphans ok k helpers ps =
     (case drop k (pi_children (ps_heap ps (ps_root ps))) of
        [] \<Rightarrow> Some (0, helpers, ps)
      | i # rest \<Rightarrow>
          (if pi_sid (ps_heap ps i) = pi_sid (ps_heap ps (ps_root ps)) \<or> pi_sid (ps_heap ps i) = pi_virt (ps_heap ps i)
           then stack_orphans ok (Suc k) helpers ps
           else case alloc_pstree_item (ok (ps_next ps)) ps of (helper, ps) \<Rightarrow>
             if helper = 0 then Some (-1, helpers, ps)
             else let sid = pi_sid (ps_heap ps i);
                      ps = upd_item helper (new_helper sid sid sid (ps_root ps)) ps;
                      ps = ps\<lparr>ps_nr_helpers := Suc (ps_nr_helpers ps)\<rparr>
                  in stack_orphans ok k (helpers @ [helper]) (stack_children helper (i # rest) ps)))"

text \<open>From the parent of an item up to its session leader; all on the way were born into its session.\<close>

partial_function (option) mark_born :: "int \<Rightarrow> nat \<Rightarrow> pstree \<Rightarrow> (bool \<times> pstree) option" where
  "mark_born sid p ps =
     (if p = 0 then Some (False, ps)
      else if pi_virt (ps_heap ps p) = sid then Some (True, ps)
      else if pi_born_sid (ps_heap ps p) \<noteq> -1 \<and> pi_born_sid (ps_heap ps p) \<noteq> sid then Some (False, ps)
      else mark_born sid (pi_parent (ps_heap ps p)) (upd_item p (\<lambda>x. x\<lparr>pi_born_sid := sid\<rparr>) ps))"

definition attach_helper :: "nat \<Rightarrow> nat list \<times> pstree \<Rightarrow> nat list \<times> pstree" where
  "attach_helper i s = (case s of (helpers, ps) \<Rightarrow>
     case List.find (\<lambda>c. pi_state (ps_heap ps c) = TASK_HELPER \<and> pi_sid (ps_heap ps c) = pi_sid (ps_heap ps i)) helpers of
       None \<Rightarrow> (helpers, ps)
     | Some c \<Rightarrow>
         (remove1 c helpers,
          upd_item i (\<lambda>x. x\<lparr>pi_children := c # pi_children x\<rparr>)
            (upd_item c (\<lambda>x. x\<lparr>pi_pgid := pi_pgid (ps_heap ps i), pi_virt := ps_max_pid ps + 1, pi_parent := i\<rparr>)
               (ps\<lparr>ps_max_pid := ps_max_pid ps + 1\<rparr>))))"

text \<open>The body of the second loop. \<open>mark_born\<close> may not return, which is the answer \<open>Inl None\<close>.\<close>

definition connect_item :: "nat \<Rightarrow> nat list \<times> pstree \<Rightarrow> int option + (nat list \<times> pstree)" where
  "connect_item i s = (case s of (helpers, ps) \<Rightarrow>
     let x = ps_heap ps i in
     if pi_parent x = 0 \<or> pi_state x = TASK_HELPER then Inr s
     else if pi_sid x \<noteq> pi_virt x then
       (if pi_sid (ps_heap ps (pi_parent x)) = pi_sid x then Inr s
        else case mark_born (pi_sid x) (pi_parent x) ps of
          None \<Rightarrow> Inl None
        | Some (found, ps) \<Rightarrow> if found then Inr (helpers, ps) else Inl (Some (-1)))
     else Inr (attach_helper i s))"

text \<open>The body of the third loop; \<open>Inl None\<close> again when a search does not return.\<close>

definition group_item :: "(nat \<Rightarrow> bool) \<Rightarrow> int \<Rightarrow> nat \<Rightarrow> pstree \<Rightarrow> int option + pstree" where
  "group_item ok current_pgid i ps =
     (let x = ps_heap ps i in
      if pi_pgid x = 0 \<or> pi_virt x = pi_pgid x then Inr ps
      else case for_each_item (\<lambda>_. ps_heap ps) (\<lambda>g (s :: unit). if pi_virt (ps_heap ps g) = pi_pgid x then Inl g else Inr s) (ps_root ps) () of
        None \<Rightarrow> Inl None
      | Some (Inl g) \<Rightarrow> Inr (upd_item i (\<lambda>x. x\<lparr>pi_pgrp_leader := g\<rparr>) ps)
      | Some (Inr _) \<Rightarrow>
          if current_pgid = pi_pgid x then Inr ps
          else case alloc_pstree_item (ok (ps_next ps)) ps of (helper, ps) \<Rightarrow>
            if helper = 0 then Inl (Some (-1))
            else let ps = upd_item helper (new_helper (pi_sid x) (pi_pgid x) (pi_pgid x) i) ps;
                     ps = ps\<lparr>ps_nr_helpers := Suc (ps_nr_helpers ps)\<rparr>
                 in Inr (upd_item i (\<lambda>x. x\<lparr>pi_children := helper # pi_children x, pi_pgrp_leader := helper\<rparr>) ps))"

definition splice_helpers :: "nat list \<Rightarrow> pstree \<Rightarrow> pstree" where
  "splice_helpers helpers ps = upd_item (ps_root ps) (\<lambda>x. x\<lparr>pi_children := helpers @ pi_children x\<rparr>) ps"

text \<open>The result of a loop: it may not return, it may leave the function, or it goes on.\<close>

definition loop_result :: "(int option + 's) option \<Rightarrow> ('s \<Rightarrow> (int \<times> pstree option) option) \<Rightarrow> (int \<times> pstree option) option" where
  "loop_result r k = (case r of None \<Rightarrow> None | Some (Inl None) \<Rightarrow> None | Some (Inl (Some ret)) \<Rightarrow> Some (ret, None) | Some (Inr s) \<Rightarrow> k s)"

definition prepare_pstree_ids :: "(nat \<Rightarrow> bool) \<Rightarrow> int \<Rightarrow> pstree \<Rightarrow> (int \<times> pstree option) option" where
  "prepare_pstree_ids ok current_pgid ps =
     Option.bind (stack_orphans ok 0 [] ps) (\<lambda>(ret, helpers, ps).
       if ret \<noteq> 0 then Some (ret, None)
       else loop_result (for_each_item (\<lambda>s. ps_heap (snd s)) connect_item (ps_root ps) (helpers, ps)) (\<lambda>(helpers, ps).
         loop_result (for_each_item ps_heap (group_item ok current_pgid) (ps_root ps) (splice_helpers helpers ps)) (\<lambda>ps.
           Some (0, Some ps))))"

text \<open>\<^verbatim>\<open>prepare_pstree\<close> runs the steps one after the other as long as they return 0.\<close>

definition prepare_pstree ::
  "fs_env \<Rightarrow> nat \<Rightarrow> nat \<Rightarrow> pstree_entry pb_desc option \<Rightarrow> task_kobj_ids pb_desc option \<Rightarrow> (nat \<Rightarrow> bool) \<Rightarrow> (nat \<Rightarrow> bool)
     \<Rightarrow> bool \<Rightarrow> u64 \<Rightarrow> task_kobj_ids option \<Rightarrow> int \<Rightarrow> int \<Rightarrow> img_fs \<Rightarrow> kobj_state \<Rightarrow> (int \<times> pstree option) outcome" where
  "prepare_pstree E dfd junk d dk ok_item ok_fdt shell_job rst_ns root_ids current_sid current_gid s k =
     bindF (read_pstree_image E dfd junk d dk s (k_ps k)) (\<lambda>(ret, s, ps).
       if ret \<noteq> 0 then Inr (ret, None)
       else bindF (returns (prepare_pstree_for_shell_job shell_job current_sid current_gid ps)) (\<lambda>(ret, ps).
         if ret \<noteq> 0 then Inr (ret, None)
         else bindF (returns (prepare_pstree_kobj_ids ok_fdt rst_ns root_ids (k\<lparr>k_ps := ps\<rparr>))) (\<lambda>r. case r of
             Inl ret \<Rightarrow> Inr (ret, None)
           | Inr k \<Rightarrow> returns (prepare_pstree_ids ok_item current_gid (k_ps k)))))"

section \<open>Forking\<close>

definition restore_before_setsid :: "pstree_heap \<Rightarrow> nat \<Rightarrow> bool" where
  "restore_before_setsid h c =
     (let csid = (if pi_born_sid (h c) = -1 then pi_sid (h c) else pi_born_sid (h c)) in pi_born_sid (h (pi_parent (h c))) = csid)"

text \<open>
  What the kernel knows of a process that matters here: its session and its process group. A child
  starts with those of its parent. \<^verbatim>\<open>setsid\<close> fails for the leader of a process group.
\<close>

record proc =
  p_sid :: int
  p_pgrp :: int

type_synonym sessions = "nat \<Rightarrow> proc option"

definition sys_setsid :: "int \<Rightarrow> proc \<Rightarrow> int \<times> proc" where
  "sys_setsid pid p = (if p_pgrp p = pid then (-1, p) else (pid, \<lparr>p_sid = pid, p_pgrp = pid\<rparr>))"

definition INIT_PID :: int where
  "INIT_PID = 1"

text \<open>\<open>None\<close> is the exit of the task.\<close>

definition restore_sid :: "pstree_heap \<Rightarrow> nat \<Rightarrow> nat \<Rightarrow> proc \<Rightarrow> proc option" where
  "restore_sid h root i p =
     (if pi_virt (h i) = pi_sid (h i) then
        (case sys_setsid (pi_virt (h i)) p of (sid, p) \<Rightarrow> if sid \<noteq> pi_sid (h i) then None else Some p)
      else if p_sid p \<noteq> pi_sid (h i) then
        (if i = root \<and> pi_virt (h root) \<noteq> INIT_PID then Some p else None)
      else Some p)"

text \<open>
  The two loops of \<^verbatim>\<open>create_children_and_session\<close>, before and after \<^verbatim>\<open>restore_sid\<close>. The function argument is
  what a forked child does. A child changes no session but its own and those of its descendants, so the
  children may run one after the other; a child that exits makes the whole restore fail, here at once.
\<close>

primrec fork_children ::
  "(nat \<Rightarrow> proc \<Rightarrow> sessions \<Rightarrow> (int \<times> sessions) outcome) \<Rightarrow> pstree_heap \<Rightarrow> bool \<Rightarrow> nat list \<Rightarrow> proc \<Rightarrow> sessions \<Rightarrow> (int \<times> sessions) outcome" where
  "fork_children run h before [] p s = Inr (0, s)"
| "fork_children run h before (c # cs) p s =
     (if restore_before_setsid h c \<noteq> before then fork_children run h before cs p s
      else if before \<and> pi_born_sid (h c) \<noteq> -1 \<and> p_sid p \<noteq> pi_born_sid (h c) then Inl BUG
      else bindF (run c p s) (\<lambda>(ret, s). if ret < 0 then Inr (ret, s) else fork_children run h before cs p s))"

text \<open>The fuel is the depth of the tree.\<close>

primrec create_children_and_session ::
  "nat \<Rightarrow> pstree_heap \<Rightarrow> nat \<Rightarrow> nat \<Rightarrow> proc \<Rightarrow> sessions \<Rightarrow> (int \<times> sessions) outcome" where
  "create_children_and_session 0 h root i p s = Inl HANG"
| "create_children_and_session (Suc n) h root i p s =
     bindF (fork_children (create_children_and_session n h root) h True (pi_children (h i)) p s) (\<lambda>(ret, s).
       if ret < 0 then Inr (ret, s)
       else case restore_sid h root i p of
         None \<Rightarrow> Inr (-1, s)
       | Some p \<Rightarrow> fork_children (create_children_and_session n h root) h False (pi_children (h i)) p (s(i \<mapsto> p)))"

section \<open>Paths to the root\<close>

definition up_path :: "pstree_heap \<Rightarrow> nat \<Rightarrow> nat list \<Rightarrow> bool" where
  "up_path h r xs \<longleftrightarrow> xs \<noteq> [] \<and> last xs = r \<and> distinct xs \<and> successively (\<lambda>i j. pi_parent (h i) = j) xs"

lemma up_path_Cons:
  "up_path h r (i # xs) \<longleftrightarrow> i \<notin> set xs \<and> (xs = [] \<and> i = r \<or> xs \<noteq> [] \<and> pi_parent (h i) = hd xs \<and> up_path h r xs)"
  by (cases xs) (auto simp: up_path_def)

lemma up_path_root: "up_path h r xs \<Longrightarrow> r \<in> set xs"
  by (auto simp: up_path_def)

lemma up_path_snoc:
  assumes "up_path h c xs" "pi_parent (h c) = r" "r \<notin> set xs"
  shows "up_path h r (xs @ [r])"
  using assms by (auto simp: up_path_def successively_append_iff)

lemma rep_parent: "rep h p t \<Longrightarrow> pi_parent (h (pt_id t)) = p"
  by (cases t) simp

lemma rep_path:
  "rep h p t \<Longrightarrow> distinct (preorder t) \<Longrightarrow> i \<in> set (preorder t) \<Longrightarrow> \<exists>xs. up_path h (pt_id t) xs \<and> hd xs = i \<and> set xs \<subseteq> set (preorder t)"
proof (induction t arbitrary: p)
  case (PT r ts)
  show ?case
  proof (cases "i = r")
    case True
    then show ?thesis
      by (intro exI [of _ "[r]"]) (simp add: up_path_def)
  next
    case False
    then obtain c where c: "c \<in> set ts" "i \<in> set (preorder c)"
      using PT.prems(3) by auto
    then have "rep h r c" "distinct (preorder c)" and r: "r \<notin> set (preorder c)"
      using PT.prems(1,2) by (auto simp: distinct_concat_iff)
    then obtain xs where xs: "up_path h (pt_id c) xs" "hd xs = i" "set xs \<subseteq> set (preorder c)"
      using PT.IH [OF c(1)] c(2) by blast
    have "up_path h r (xs @ [r])"
      using up_path_snoc [OF xs(1) rep_parent [OF \<open>rep h r c\<close>]] xs(3) r by blast
    then show ?thesis
      using xs c(1) by (intro exI [of _ "xs @ [r]"]) (auto simp: up_path_def)
  qed
qed

lemma rep_member:
  assumes "rep h p t" "distinct (preorder t)" "i \<in> set (preorder t)" "i \<noteq> pt_id t"
  shows "pi_parent (h i) \<in> set (preorder t)"
proof -
  obtain xs where xs: "up_path h (pt_id t) xs" "hd xs = i" "set xs \<subseteq> set (preorder t)"
    using rep_path [OF assms(1-3)] by blast
  then obtain ys where "xs = i # ys"
    by (cases xs) (auto simp: up_path_def)
  then show ?thesis
    using xs assms(4) hd_in_set [of ys] by (auto simp: up_path_Cons)
qed

section \<open>Sessions of a tree\<close>

text \<open>
  The session each task was born in: that of its parent when the child was forked, which is the
  parent's session now or the one it had been born in, if it became a session leader
  later. The children of the root were born in the session the root has now, so they belong to it or
  lead their own.
\<close>

definition births_ok :: "pstree_heap \<Rightarrow> ptree \<Rightarrow> (nat \<Rightarrow> int) \<Rightarrow> bool" where
  "births_ok h t b \<longleftrightarrow> pi_sid (h (pt_id t)) = pi_virt (h (pt_id t))
     \<and> (\<forall>i \<in> set (preorder t). i \<noteq> pt_id t \<longrightarrow>
          (b i = pi_sid (h (pi_parent (h i))) \<or> pi_parent (h i) \<noteq> pt_id t \<and> b i = b (pi_parent (h i)))
          \<and> (pi_sid (h i) = pi_virt (h i) \<or> pi_sid (h i) = b i))"

definition pids_ok :: "pstree_heap \<Rightarrow> ptree \<Rightarrow> bool" where
  "pids_ok h t \<longleftrightarrow> rep h 0 t \<and> distinct (preorder t) \<and> inj_on (\<lambda>i. pi_virt (h i)) (set (preorder t)) \<and> (\<forall>i \<in> set (preorder t). 0 < pi_virt (h i))"

lemma births_parent:
  assumes "births_ok h t b" "i \<in> set (preorder t)" "i \<noteq> pt_id t"
  shows "b i = pi_sid (h (pi_parent (h i))) \<or> pi_parent (h i) \<noteq> pt_id t \<and> b i = b (pi_parent (h i))"
    "pi_sid (h i) = pi_virt (h i) \<or> pi_sid (h i) = b i"
  using assms unfolding births_ok_def by blast+

text \<open>A session a task was born in is led by one of its ancestors.\<close>

lemma born_led:
  assumes "births_ok h t b"
  shows "up_path h (pt_id t) (i # xs) \<Longrightarrow> set (i # xs) \<subseteq> set (preorder t) \<Longrightarrow> xs \<noteq> [] \<Longrightarrow> \<exists>l \<in> set xs. pi_virt (h l) = b i \<and> pi_sid (h l) = b i"
proof (induction xs arbitrary: i)
  case (Cons p ps)
  then have p: "pi_parent (h i) = p" "up_path h (pt_id t) (p # ps)" "i \<in> set (preorder t)" "p \<in> set (preorder t)" "set (p # ps) \<subseteq> set (preorder t)"
    by (auto simp: up_path_Cons)
  have "i \<noteq> pt_id t"
    using Cons.prems(1) up_path_root [OF p(2)] by (auto simp: up_path_Cons)
  note b = births_parent [OF assms p(3) this, unfolded p(1)]
  show ?case
  proof (cases "p = pt_id t")
    case True
    then show ?thesis
      using b(1) assms by (auto simp: births_ok_def)
  next
    case False
    then have ps: "ps \<noteq> []"
      using p(2) by (auto simp: up_path_Cons)
    have "pi_sid (h p) = pi_virt (h p) \<and> b i = pi_sid (h p) \<or> b i = b p"
      using b(1) births_parent(2) [OF assms p(4) False] by auto
    then show ?thesis
      using Cons.IH [OF p(2,5) ps] by auto
  qed
qed simp

lemma born_not_own:
  assumes "births_ok h t b" "pids_ok h t" "i \<in> set (preorder t)" "i \<noteq> pt_id t"
  shows "b i \<noteq> pi_virt (h i)" "0 < b i"
proof -
  have r: "rep h 0 t" "distinct (preorder t)"
    using assms(2) by (simp_all add: pids_ok_def)
  obtain ys where ys: "up_path h (pt_id t) ys" "hd ys = i" "set ys \<subseteq> set (preorder t)"
    using rep_path [OF r assms(3)] by blast
  then obtain xs where xs: "up_path h (pt_id t) (i # xs)" "set (i # xs) \<subseteq> set (preorder t)"
    by (cases ys) (auto simp: up_path_def)
  then have "xs \<noteq> []" "i \<notin> set xs"
    using assms(4) by (auto simp: up_path_Cons)
  with born_led [OF assms(1) xs this(1)] obtain l where l: "l \<in> set xs" "pi_virt (h l) = b i"
    by blast
  then have "l \<in> set (preorder t)" "l \<noteq> i"
    using xs(2) \<open>i \<notin> set xs\<close> by auto
  then show "b i \<noteq> pi_virt (h i)" "0 < b i"
    using assms(2,3) l(2) by (auto simp: pids_ok_def dest: inj_onD)
qed

section \<open>Marking the sessions of birth\<close>

definition marked :: "pstree_heap \<Rightarrow> int \<Rightarrow> nat set \<Rightarrow> pstree_heap" where
  "marked h sid M = (\<lambda>j. if j \<in> M then (h j)\<lparr>pi_born_sid := sid\<rparr> else h j)"

lemma marked_fields [simp]:
  "pi_parent (marked h sid M j) = pi_parent (h j)" "pi_children (marked h sid M j) = pi_children (h j)" "pi_virt (marked h sid M j) = pi_virt (h j)"
  "pi_sid (marked h sid M j) = pi_sid (h j)" "pi_pgid (marked h sid M j) = pi_pgid (h j)" "pi_state (marked h sid M j) = pi_state (h j)"
  "pi_born_sid (marked h sid M j) = (if j \<in> M then sid else pi_born_sid (h j))"
  by (simp_all add: marked_def)

lemma mark_born_path:
  assumes "\<And>j. j \<in> set xs \<Longrightarrow> j \<noteq> 0"
  shows "up_path (ps_heap ps) r xs \<Longrightarrow> \<exists>l \<in> set xs. pi_virt (ps_heap ps l) = sid
    \<Longrightarrow> \<forall>j \<in> set (takeWhile (\<lambda>j. pi_virt (ps_heap ps j) \<noteq> sid) xs). pi_born_sid (ps_heap ps j) \<in> {-1, sid}
    \<Longrightarrow> mark_born sid (hd xs) ps = Some (True, ps\<lparr>ps_heap := marked (ps_heap ps) sid (set (takeWhile (\<lambda>j. pi_virt (ps_heap ps j) \<noteq> sid) xs))\<rparr>)"
  using assms
proof (induction xs arbitrary: ps)
  case (Cons p xs)
  note rec = mark_born.simps [of sid p ps]
  show ?case
  proof (cases "pi_virt (ps_heap ps p) = sid")
    case True
    have "ps\<lparr>ps_heap := marked (ps_heap ps) sid {}\<rparr> = ps"
      by (cases ps) (simp add: marked_def)
    then show ?thesis
      using True Cons.prems(4) [of p] by (simp add: rec)
  next
    case False
    then have xs: "xs \<noteq> []" "pi_parent (ps_heap ps p) = hd xs" "up_path (ps_heap ps) r xs" "p \<notin> set xs"
      using Cons.prems(1,2) by (auto simp: up_path_Cons)
    let ?ps = "upd_item p (\<lambda>x. x\<lparr>pi_born_sid := sid\<rparr>) ps"
    have h: "pi_virt (ps_heap ?ps j) = pi_virt (ps_heap ps j)" "pi_parent (ps_heap ?ps j) = pi_parent (ps_heap ps j)" for j
      by (simp_all add: upd_item_def)
    have up: "up_path (ps_heap ?ps) r xs"
      using xs(3) by (simp add: up_path_def h)
    have "mark_born sid (hd xs) ?ps = Some (True, ?ps\<lparr>ps_heap := marked (ps_heap ?ps) sid (set (takeWhile (\<lambda>j. pi_virt (ps_heap ?ps j) \<noteq> sid) xs))\<rparr>)"
    proof (rule Cons.IH [OF up])
      show "\<exists>l \<in> set xs. pi_virt (ps_heap ?ps l) = sid"
        using Cons.prems(2) False by (simp add: h)
      show "\<forall>j \<in> set (takeWhile (\<lambda>j. pi_virt (ps_heap ?ps j) \<noteq> sid) xs). pi_born_sid (ps_heap ?ps j) \<in> {-1, sid}"
        using Cons.prems(3) False by (auto simp: h) (auto simp: upd_item_def)
    qed (use Cons.prems(4) in simp)
    moreover have "?ps\<lparr>ps_heap := marked (ps_heap ?ps) sid (set (takeWhile (\<lambda>j. pi_virt (ps_heap ?ps j) \<noteq> sid) xs))\<rparr>
        = ps\<lparr>ps_heap := marked (ps_heap ps) sid (set (takeWhile (\<lambda>j. pi_virt (ps_heap ps j) \<noteq> sid) (p # xs)))\<rparr>"
    proof -
      have "marked (ps_heap ?ps) sid M = marked (ps_heap ps) sid (insert p M)" for M
        by (auto simp: marked_def upd_item_def fun_eq_iff)
      moreover have "?ps\<lparr>ps_heap := x\<rparr> = ps\<lparr>ps_heap := x\<rparr>" for x
        by (simp add: upd_item_def)
      ultimately show ?thesis
        using False by (simp add: h(1))
    qed
    ultimately show ?thesis
      using False xs(2) Cons.prems(3) Cons.prems(4) [of p] by (auto simp: rec)
  qed
qed (simp add: up_path_def)

text \<open>
  What the marks say: a marked task was born in the session of its mark, a mark goes on up to the leader
  of the session, and the parent of a visited task has its session or a mark with it.
\<close>

definition marks_ok :: "pstree_heap \<Rightarrow> ptree \<Rightarrow> (nat \<Rightarrow> int) \<Rightarrow> nat set \<Rightarrow> bool" where
  "marks_ok h t b V \<longleftrightarrow>
     (\<forall>i \<in> set (preorder t). pi_born_sid (h i) = -1 \<or> i \<noteq> pt_id t \<and> pi_born_sid (h i) = b i)
   \<and> (\<forall>i \<in> set (preorder t). i \<noteq> pt_id t \<longrightarrow> pi_born_sid (h i) \<noteq> -1 \<longrightarrow>
        pi_virt (h (pi_parent (h i))) = pi_born_sid (h i) \<or> pi_born_sid (h (pi_parent (h i))) = pi_born_sid (h i))
   \<and> (\<forall>i \<in> V. i \<noteq> pt_id t \<longrightarrow> pi_sid (h i) \<noteq> pi_virt (h i) \<longrightarrow>
        pi_sid (h (pi_parent (h i))) = pi_sid (h i) \<or> pi_born_sid (h (pi_parent (h i))) = pi_sid (h i))"

lemma marks_okD:
  assumes "marks_ok h t b V"
  shows "i \<in> set (preorder t) \<Longrightarrow> pi_born_sid (h i) \<noteq> -1 \<Longrightarrow> i \<noteq> pt_id t \<and> pi_born_sid (h i) = b i"
    "i \<in> set (preorder t) \<Longrightarrow> i \<noteq> pt_id t \<Longrightarrow> pi_born_sid (h i) \<noteq> -1 \<Longrightarrow>
       pi_virt (h (pi_parent (h i))) = pi_born_sid (h i) \<or> pi_born_sid (h (pi_parent (h i))) = pi_born_sid (h i)"
    "i \<in> V \<Longrightarrow> i \<noteq> pt_id t \<Longrightarrow> pi_sid (h i) \<noteq> pi_virt (h i) \<Longrightarrow>
       pi_sid (h (pi_parent (h i))) = pi_sid (h i) \<or> pi_born_sid (h (pi_parent (h i))) = pi_sid (h i)"
  using assms unfolding marks_ok_def by blast+

lemma path_marks:
  assumes "births_ok h t b" "sid \<noteq> -1"
  shows "up_path h (pt_id t) xs \<Longrightarrow> set xs \<subseteq> set (preorder t) \<Longrightarrow> pi_virt (h (hd xs)) = sid \<or> hd xs \<noteq> pt_id t \<and> b (hd xs) = sid
    \<Longrightarrow> (\<exists>l \<in> set xs. pi_virt (h l) = sid)
      \<and> (\<forall>j \<in> set (takeWhile (\<lambda>j. pi_virt (h j) \<noteq> sid) xs). j \<noteq> pt_id t \<and> b j = sid
           \<and> (pi_virt (h (pi_parent (h j))) = sid \<or> pi_parent (h j) \<in> set (takeWhile (\<lambda>j. pi_virt (h j) \<noteq> sid) xs)))"
proof (induction xs)
  case (Cons p xs)
  show ?case
  proof (cases "pi_virt (h p) = sid")
    case False
    then have p: "p \<noteq> pt_id t" "b p = sid" "p \<in> set (preorder t)"
      using Cons.prems by auto
    then have xs: "xs \<noteq> []" "pi_parent (h p) = hd xs" "up_path h (pt_id t) xs" "set xs \<subseteq> set (preorder t)"
      using Cons.prems(1,2) by (auto simp: up_path_Cons)
    then have q: "hd xs \<in> set (preorder t)"
      by auto
    have hd: "pi_virt (h (hd xs)) = sid \<or> hd xs \<noteq> pt_id t \<and> b (hd xs) = sid"
      using births_parent(1) [OF assms(1) p(3,1), unfolded xs(2) p(2)] births_parent(2) [OF assms(1) q] assms(1)
      by (metis births_ok_def)
    then show ?thesis
      using Cons.IH [OF xs(3,4) hd] p False xs(1,2) by (cases xs) auto
  qed (use Cons.prems in auto)
qed (simp add: up_path_def)

lemma marks_ok_mark:
  assumes "marks_ok h t b V" "births_ok h t b" "pids_ok h t" "V \<subseteq> set (preorder t)" "M \<subseteq> set (preorder t)" "0 < sid"
    and "\<And>j. j \<in> M \<Longrightarrow> j \<noteq> pt_id t \<and> b j = sid \<and> (pi_virt (h (pi_parent (h j))) = sid \<or> pi_parent (h j) \<in> M)"
  shows "marks_ok (marked h sid M) t b V"
proof -
  have old: "pi_born_sid (h j) \<in> {-1, sid}" if "j \<in> M" for j
    using marks_okD(1) [OF assms(1), of j] that assms(5,7) by auto
  have sid: "pi_sid (h i) \<noteq> -1" if "i \<in> V" "i \<noteq> pt_id t" for i
  proof -
    have "i \<in> set (preorder t)"
      using that(1) assms(4) by auto
    then show ?thesis
      using births_parent(2) [OF assms(2) _ that(2)] born_not_own(2) [OF assms(2,3) _ that(2)] assms(3) by (auto simp: pids_ok_def)
  qed
  show ?thesis
    unfolding marks_ok_def
  proof (intro conjI ballI impI)
    show "pi_born_sid (marked h sid M i) = -1 \<or> i \<noteq> pt_id t \<and> pi_born_sid (marked h sid M i) = b i" if "i \<in> set (preorder t)" for i
      using marks_okD(1) [OF assms(1) that] assms(7) [of i] by auto
    show "pi_virt (marked h sid M (pi_parent (marked h sid M i))) = pi_born_sid (marked h sid M i)
        \<or> pi_born_sid (marked h sid M (pi_parent (marked h sid M i))) = pi_born_sid (marked h sid M i)"
      if "i \<in> set (preorder t)" "i \<noteq> pt_id t" "pi_born_sid (marked h sid M i) \<noteq> -1" for i
      using marks_okD(2) [OF assms(1) that(1,2)] assms(7) [of i] that(3) old [of "pi_parent (h i)"] by auto
    show "pi_sid (marked h sid M (pi_parent (marked h sid M i))) = pi_sid (marked h sid M i)
        \<or> pi_born_sid (marked h sid M (pi_parent (marked h sid M i))) = pi_sid (marked h sid M i)"
      if "i \<in> V" "i \<noteq> pt_id t" "pi_sid (marked h sid M i) \<noteq> pi_virt (marked h sid M i)" for i
      using marks_okD(3) [OF assms(1) that(1,2)] that(3) old [of "pi_parent (h i)"] sid [OF that(1,2)] by auto
  qed
qed

text \<open>The state of the second loop on a tree without helpers.\<close>

definition connect_inv :: "pstree \<Rightarrow> ptree \<Rightarrow> (nat \<Rightarrow> int) \<Rightarrow> nat set \<Rightarrow> nat list \<times> pstree \<Rightarrow> bool" where
  "connect_inv ps t b V s \<longleftrightarrow> fst s = [] \<and> (\<exists>f. snd s = ps\<lparr>ps_heap := \<lambda>i. (ps_heap ps i)\<lparr>pi_born_sid := f i\<rparr>\<rparr>) \<and> marks_ok (ps_heap (snd s)) t b V"

lemma births_ok_cong:
  assumes "births_ok h t b" "rep h 0 t" "distinct (preorder t)"
    and "\<And>i. i \<in> set (preorder t) \<Longrightarrow> pi_parent (h' i) = pi_parent (h i) \<and> pi_sid (h' i) = pi_sid (h i) \<and> pi_virt (h' i) = pi_virt (h i)"
  shows "births_ok h' t b"
  using assms(1) rep_member [OF assms(2,3)] unfolding births_ok_def by (simp add: assms(4))

lemma pids_ok_cong:
  assumes "pids_ok h t"
    and "\<And>i. i \<in> set (preorder t) \<Longrightarrow> pi_parent (h' i) = pi_parent (h i) \<and> pi_children (h' i) = pi_children (h i) \<and> pi_virt (h' i) = pi_virt (h i)"
  shows "pids_ok h' t"
  using assms rep_cong [of t h' h 0] by (auto simp: pids_ok_def cong: inj_on_cong)

lemma connect_item_ok:
  assumes "births_ok (ps_heap ps) t b" "pids_ok (ps_heap ps) t" "\<forall>j \<in> set (preorder t). pi_state (ps_heap ps j) \<noteq> TASK_HELPER"
    and "connect_inv ps t b V s" "i \<in> set (preorder t)" "V \<subseteq> set (preorder t)"
  shows "\<exists>s'. connect_item i s = Inr s' \<and> connect_inv ps t b (insert i V) s'"
proof -
  obtain q where s: "s = ([], q)"
    using assms(4) by (cases s) (simp add: connect_inv_def)
  obtain f where q: "q = ps\<lparr>ps_heap := \<lambda>i. (ps_heap ps i)\<lparr>pi_born_sid := f i\<rparr>\<rparr>" and m: "marks_ok (ps_heap q) t b V"
    using assms(4) s by (auto simp: connect_inv_def)
  have f: "pi_parent (ps_heap q j) = pi_parent (ps_heap ps j)" "pi_children (ps_heap q j) = pi_children (ps_heap ps j)" "pi_virt (ps_heap q j) = pi_virt (ps_heap ps j)"
      "pi_sid (ps_heap q j) = pi_sid (ps_heap ps j)" "pi_state (ps_heap q j) = pi_state (ps_heap ps j)" for j
    by (simp_all add: q)
  have r: "rep (ps_heap ps) 0 t" "distinct (preorder t)"
    using assms(2) by (simp_all add: pids_ok_def)
  have B: "births_ok (ps_heap q) t b" and P: "pids_ok (ps_heap q) t"
    by (rule births_ok_cong [OF assms(1) r] pids_ok_cong [OF assms(2)], simp add: f)+
  let ?x = "ps_heap q i"
  have keep: "connect_inv ps t b (insert i V) s"
    if "i = pt_id t \<or> pi_sid ?x = pi_virt ?x \<or> pi_sid (ps_heap q (pi_parent ?x)) = pi_sid ?x"
    using m that s q unfolding connect_inv_def marks_ok_def by auto
  show ?thesis
  proof (cases "i = pt_id t")
    case True
    then have "pi_parent ?x = 0"
      using rep_parent [OF r(1)] by (simp add: f)
    then show ?thesis
      using keep True by (auto simp: connect_item_def s Let_def)
  next
    case False
    have p: "pi_parent ?x \<in> set (preorder t)" "pi_parent ?x \<noteq> 0"
      using rep_member [OF r assms(5) False] rep_nonzero [OF r(1)] by (simp_all add: f)
    have st: "pi_state ?x \<noteq> TASK_HELPER"
      using assms(3,5) by (simp add: f)
    consider "pi_sid ?x = pi_virt ?x" | "pi_sid ?x \<noteq> pi_virt ?x" "pi_sid (ps_heap q (pi_parent ?x)) = pi_sid ?x"
      | "pi_sid ?x \<noteq> pi_virt ?x" "pi_sid (ps_heap q (pi_parent ?x)) \<noteq> pi_sid ?x"
      by blast
    then show ?thesis
    proof cases
      case 3
      let ?sid = "pi_sid ?x"
      let ?run = "takeWhile (\<lambda>j. pi_virt (ps_heap q j) \<noteq> ?sid)"
      have b: "b i = ?sid" "0 < ?sid" "pi_parent ?x \<noteq> pt_id t" "b (pi_parent ?x) = ?sid"
        using births_parent [OF B assms(5) False] born_not_own(2) [OF B P assms(5) False] 3 by auto
      obtain xs where xs: "up_path (ps_heap q) (pt_id t) xs" "hd xs = pi_parent ?x" "set xs \<subseteq> set (preorder t)"
        using rep_path [OF P [unfolded pids_ok_def, THEN conjunct1] r(2) p(1)] by blast
      have "?sid \<noteq> -1"
        using b(2) by simp
      from path_marks [OF B this xs(1,3)] b(3,4) xs(2) have mk: "\<exists>l \<in> set xs. pi_virt (ps_heap q l) = ?sid"
        "\<And>j. j \<in> set (?run xs) \<Longrightarrow> j \<noteq> pt_id t \<and> b j = ?sid \<and> (pi_virt (ps_heap q (pi_parent (ps_heap q j))) = ?sid \<or> pi_parent (ps_heap q j) \<in> set (?run xs))"
        by simp_all
      have sub: "set (?run xs) \<subseteq> set (preorder t)"
        using xs(3) set_takeWhileD by fastforce
      have "\<forall>j \<in> set (?run xs). pi_born_sid (ps_heap q j) \<in> {-1, ?sid}"
        using marks_okD(1) [OF m] mk(2) sub by fastforce
      moreover have "\<And>j. j \<in> set xs \<Longrightarrow> j \<noteq> 0"
        using rep_nonzero [OF r(1)] xs(3) by blast
      ultimately have mark: "mark_born ?sid (pi_parent ?x) q = Some (True, q\<lparr>ps_heap := marked (ps_heap q) ?sid (set (?run xs))\<rparr>)"
        using mark_born_path [OF _ xs(1) mk(1)] xs(2) by simp
      have "pi_virt (ps_heap q (pi_parent ?x)) \<noteq> ?sid"
        using born_not_own(1) [OF B P p(1) b(3)] b(4) by simp
      then have pm: "pi_parent ?x \<in> set (?run xs)"
        using xs(1,2) by (cases xs) (auto simp: up_path_def)
      have "marks_ok (marked (ps_heap q) ?sid (set (?run xs))) t b V"
        using marks_ok_mark [OF m B P assms(6) sub b(2) mk(2)] by blast
      then have "marks_ok (marked (ps_heap q) ?sid (set (?run xs))) t b (insert i V)"
        using pm unfolding marks_ok_def by simp
      then have "connect_inv ps t b (insert i V) ([], q\<lparr>ps_heap := marked (ps_heap q) ?sid (set (?run xs))\<rparr>)"
        unfolding connect_inv_def
        by (auto simp: q marked_def fun_eq_iff intro!: exI [of _ "\<lambda>j. if j \<in> set (?run xs) then ?sid else f j"])
      then show ?thesis
        using 3 st p(2) mark by (auto simp: connect_item_def s Let_def)
    qed (use keep st p in \<open>auto simp: connect_item_def s Let_def attach_helper_def\<close>)
  qed
qed

lemma connect_items:
  assumes "births_ok (ps_heap ps) t b" "pids_ok (ps_heap ps) t" "\<forall>j \<in> set (preorder t). pi_state (ps_heap ps j) \<noteq> TASK_HELPER"
  shows "set is \<subseteq> set (preorder t) \<Longrightarrow> V \<subseteq> set (preorder t) \<Longrightarrow> connect_inv ps t b V s \<Longrightarrow>
    \<exists>s'. run_items connect_item is s = Inr s' \<and> connect_inv ps t b (set is \<union> V) s'"
proof (induction "is" arbitrary: s V)
  case (Cons i "is")
  then obtain s' where s': "connect_item i s = Inr s'" "connect_inv ps t b (insert i V) s'"
    using connect_item_ok [OF assms] by (metis list.set_intros(1) subset_code(1))
  then show ?case
    using Cons.IH [of "insert i V" s'] Cons.prems by simp
qed simp

section \<open>Process groups\<close>

text \<open>Putting a new leaf in front of the children of an item.\<close>

fun insert_leaf :: "nat \<Rightarrow> nat \<Rightarrow> ptree \<Rightarrow> ptree" where
  "insert_leaf i x (PT r ts) = PT r (if r = i then PT x [] # ts else map (insert_leaf i x) ts)"

lemma insert_leaf_id [simp]: "pt_id (insert_leaf i x t) = pt_id t"
  by (cases t) simp

lemma insert_leaf_absent: "i \<notin> set (preorder t) \<Longrightarrow> insert_leaf i x t = t"
  by (induction t) (auto intro!: map_idI)

lemma preorder_insert_leaf:
  "distinct (preorder t) \<Longrightarrow> preorder t = xs @ i # ys \<Longrightarrow> preorder (insert_leaf i x t) = xs @ i # x # ys"
proof (induction t arbitrary: xs ys)
  case (PT r ts)
  show ?case
  proof (cases xs)
    case Nil
    then show ?thesis
      using PT.prems by simp
  next
    case (Cons y xs')
    then have "concat (map preorder ts) = xs' @ i # ys"
      using PT.prems(2) by simp
    from concat_split_at [OF this] obtain as bs c vs where s: "map preorder ts = as @ (c @ i # vs) # bs" "ys = vs @ concat bs" "xs' = concat as @ c"
      by blast
    then obtain ts1 u ts2 where t: "ts = ts1 @ u # ts2" "preorder u = c @ i # vs" "as = map preorder ts1" "bs = map preorder ts2"
      by (auto simp: map_eq_append_conv map_eq_Cons_conv)
    have d: "distinct (preorder u)" "i \<noteq> r" "i \<notin> set (concat (map preorder ts1))" "i \<notin> set (concat (map preorder ts2))"
      using PT.prems(1) t Cons PT.prems(2) by auto
    have "map (insert_leaf i x) ts1 = ts1" "map (insert_leaf i x) ts2 = ts2"
      using d(3,4) insert_leaf_absent by (auto intro!: map_idI)
    moreover have "preorder (insert_leaf i x u) = c @ i # x # vs"
      using PT.IH [of u] t(1,2) d(1) by simp
    ultimately show ?thesis
      using d(2) t s Cons PT.prems(2) by auto
  qed
qed

lemma set_insert_leaf:
  assumes "distinct (preorder t)" "i \<in> set (preorder t)"
  shows "set (preorder (insert_leaf i x t)) = insert x (set (preorder t))"
proof -
  obtain xs ys where "preorder t = xs @ i # ys"
    using split_list [OF assms(2)] by blast
  then show ?thesis
    using preorder_insert_leaf [OF assms(1), of xs i ys x] by auto
qed

lemma rep_insert_leaf:
  assumes "x \<noteq> 0" "pi_parent (h' x) = i" "pi_children (h' x) = []"
  shows "rep h p t \<Longrightarrow> distinct (preorder t) \<Longrightarrow> x \<notin> set (preorder t)
    \<Longrightarrow> (\<And>j. j \<in> set (preorder t) \<Longrightarrow> pi_parent (h' j) = pi_parent (h j) \<and> pi_children (h' j) = (if j = i then x # pi_children (h j) else pi_children (h j)))
    \<Longrightarrow> rep h' p (insert_leaf i x t)"
proof (induction t arbitrary: p)
  case (PT r ts)
  have sub: "rep h' r (insert_leaf i x u)" if "u \<in> set ts" for u
  proof (rule PT.IH [OF that])
    show "rep h r u" "distinct (preorder u)" "x \<notin> set (preorder u)"
      using PT.prems(1-3) that by (auto simp: distinct_concat_iff)
    show "pi_parent (h' j) = pi_parent (h j) \<and> pi_children (h' j) = (if j = i then x # pi_children (h j) else pi_children (h j))"
      if "j \<in> set (preorder u)" for j
      by (rule PT.prems(4)) (use that \<open>u \<in> set ts\<close> in auto)
  qed
  have hr: "pi_parent (h' r) = p" "pi_children (h' r) = (if r = i then x # map pt_id ts else map pt_id ts)" "r \<noteq> 0"
    using PT.prems(1,4) by auto
  show ?case
  proof (cases "r = i")
    case True
    then have "i \<notin> set (preorder u)" if "u \<in> set ts" for u
      using PT.prems(2) that by auto
    then have "rep h' r u" if "u \<in> set ts" for u
      using sub that insert_leaf_absent by metis
    then show ?thesis
      using hr assms True by simp
  next
    case False
    then show ?thesis
      using hr sub by (simp add: comp_def)
  qed
qed

text \<open>A helper that is a leaf, in the session of its parent, changes nothing for the others.\<close>

definition session_tree :: "pstree_heap \<Rightarrow> ptree \<Rightarrow> (nat \<Rightarrow> int) \<Rightarrow> bool" where
  "session_tree h t b \<longleftrightarrow> births_ok h t b \<and> pids_ok h t \<and> marks_ok h t b (set (preorder t))"

lemma session_tree_cong:
  assumes "session_tree h t b"
    and "\<And>i. i \<in> set (preorder t) \<Longrightarrow> pi_parent (h' i) = pi_parent (h i) \<and> pi_children (h' i) = pi_children (h i) \<and> pi_virt (h' i) = pi_virt (h i)
           \<and> pi_sid (h' i) = pi_sid (h i) \<and> pi_born_sid (h' i) = pi_born_sid (h i)"
  shows "session_tree h' t b"
proof -
  have s: "births_ok h t b" "pids_ok h t" "marks_ok h t b (set (preorder t))" "rep h 0 t" "distinct (preorder t)"
    using assms(1) by (simp_all add: session_tree_def pids_ok_def)
  have "births_ok h' t b" "pids_ok h' t"
    by (rule births_ok_cong [OF s(1,4,5)] pids_ok_cong [OF s(2)], simp add: assms(2))+
  moreover have "marks_ok h' t b (set (preorder t))"
    using s(3) rep_member [OF s(4,5)] unfolding marks_ok_def by (simp add: assms(2))
  ultimately show ?thesis
    by (simp add: session_tree_def)
qed

lemma session_tree_leaf:
  assumes "session_tree h t b" "i \<in> set (preorder t)" "x \<notin> set (preorder t)" "x \<noteq> 0"
    and x: "pi_parent (h' x) = i" "pi_children (h' x) = []" "pi_sid (h' x) = pi_sid (h i)" "pi_born_sid (h' x) = -1"
      "0 < pi_virt (h' x)" "\<And>j. j \<in> set (preorder t) \<Longrightarrow> pi_virt (h' x) \<noteq> pi_virt (h j)"
    and h: "\<And>j. j \<in> set (preorder t) \<Longrightarrow> pi_parent (h' j) = pi_parent (h j) \<and> pi_children (h' j) = (if j = i then x # pi_children (h j) else pi_children (h j))
           \<and> pi_virt (h' j) = pi_virt (h j) \<and> pi_sid (h' j) = pi_sid (h j) \<and> pi_born_sid (h' j) = pi_born_sid (h j)"
  shows "session_tree h' (insert_leaf i x t) (b(x := pi_sid (h i)))"
proof -
  have s: "births_ok h t b" "pids_ok h t" "marks_ok h t b (set (preorder t))" "rep h 0 t" "distinct (preorder t)"
    using assms(1) by (simp_all add: session_tree_def pids_ok_def)
  have set: "set (preorder (insert_leaf i x t)) = insert x (set (preorder t))"
    using set_insert_leaf [OF s(5) assms(2)] .
  have par: "pi_parent (h j) \<noteq> x" "pi_parent (h j) \<in> set (preorder t)" if "j \<in> set (preorder t)" "j \<noteq> pt_id t" for j
    using rep_member [OF s(4,5) that] assms(3) by auto
  have rt: "pt_id t \<noteq> x"
    using assms(3) pt_id_preorder by metis
  have "births_ok h' (insert_leaf i x t) (b(x := pi_sid (h i)))"
    using s(1) par assms(2,3) rt unfolding births_ok_def set by (auto simp: h x)
  moreover have "pids_ok h' (insert_leaf i x t)"
  proof -
    obtain xs ys where "preorder t = xs @ i # ys"
      using split_list [OF assms(2)] by blast
    then have "distinct (preorder (insert_leaf i x t))"
      using preorder_insert_leaf [OF s(5), of xs i ys x] s(5) assms(3) by auto
    moreover have "rep h' 0 (insert_leaf i x t)"
      by (rule rep_insert_leaf [where h = h and h' = h' and i = i, OF assms(4) x(1,2) s(4,5) assms(3)]) (simp add: h)
    moreover have "inj_on (\<lambda>j. pi_virt (h' j)) (set (preorder (insert_leaf i x t)))"
      using s(2) x(6) unfolding set pids_ok_def by (fastforce simp: h inj_on_def)
    ultimately show ?thesis
      using s(2) x(5) unfolding pids_ok_def set by (auto simp: h)
  qed
  moreover have "marks_ok h' (insert_leaf i x t) (b(x := pi_sid (h i))) (set (preorder (insert_leaf i x t)))"
    using s(3) par assms(2,3) rt unfolding marks_ok_def set by (auto simp: h x)
  ultimately show ?thesis
    by (simp add: session_tree_def)
qed

text \<open>The state of the third loop. A task is settled when it has a leader to follow, or needs none.\<close>

definition groups_inv :: "pstree \<Rightarrow> ptree \<Rightarrow> (nat \<Rightarrow> int) \<Rightarrow> bool" where
  "groups_inv ps t b \<longleftrightarrow> session_tree (ps_heap ps) t b \<and> ps_root ps = pt_id t
     \<and> (\<forall>i \<in> set (preorder t). i < ps_next ps \<and> 0 \<le> pi_pgid (ps_heap ps i))"

definition settled :: "int \<Rightarrow> pstree_heap \<Rightarrow> ptree \<Rightarrow> nat \<Rightarrow> bool" where
  "settled cg h t i \<longleftrightarrow> pi_pgid (h i) \<in> {0, pi_virt (h i), cg}
     \<or> pi_pgrp_leader (h i) \<in> set (preorder t) \<and> pi_virt (h (pi_pgrp_leader (h i))) = pi_pgid (h i)"

definition same_ids :: "pstree_heap \<Rightarrow> pstree_heap \<Rightarrow> nat \<Rightarrow> bool" where
  "same_ids h h' j \<longleftrightarrow> pi_virt (h' j) = pi_virt (h j) \<and> pi_sid (h' j) = pi_sid (h j) \<and> pi_pgid (h' j) = pi_pgid (h j)"

lemma find_leader:
  assumes "rep h 0 t" "distinct (preorder t)"
  shows "for_each_item (\<lambda>_. h) (\<lambda>g (s :: unit). if pi_virt (h g) = v then Inl g else Inr s) (pt_id t) ()
    = Some (case filter (\<lambda>g. pi_virt (h g) = v) (preorder t) of [] \<Rightarrow> Inr () | g # _ \<Rightarrow> Inl g)"
proof -
  let ?body = "\<lambda>g (s :: unit). if pi_virt (h g) = v then Inl g else Inr s"
  have "for_each_item (\<lambda>_. h) ?body (pt_id t) () = Some (run_items ?body (preorder t) ())"
    by (rule for_each_preorder [OF assms(2)]) (simp_all add: assms(1))
  then show ?thesis
    by (simp add: run_items_find [of "\<lambda>g. pi_virt (h g) = v"])
qed

lemma group_item_ok:
  assumes "groups_inv ps t b" "i \<in> set (preorder t)" "\<And>n. ok n"
  shows "\<exists>ps' t' b'. group_item ok cg i ps = Inr ps' \<and> groups_inv ps' t' b' \<and> settled cg (ps_heap ps') t' i
     \<and> (t' = t \<or> t' = insert_leaf i (ps_next ps) t \<and> group_item ok cg (ps_next ps) ps' = Inr ps')
     \<and> (\<forall>j \<in> set (preorder t') - set (preorder t). pi_virt (ps_heap ps' j) \<noteq> cg)
     \<and> (\<forall>j \<in> set (preorder t). same_ids (ps_heap ps) (ps_heap ps') j \<and> (j \<noteq> i \<longrightarrow> pi_pgrp_leader (ps_heap ps' j) = pi_pgrp_leader (ps_heap ps j)))"
proof -
  let ?h = "ps_heap ps" and ?x = "ps_next ps"
  let ?g = "pi_pgid (?h i)"
  have st: "session_tree ?h t b" "ps_root ps = pt_id t" "\<forall>i \<in> set (preorder t). i < ps_next ps \<and> 0 \<le> pi_pgid (ps_heap ps i)"
    using assms(1) by (simp_all add: groups_inv_def)
  have r: "rep ?h 0 t" "distinct (preorder t)"
    using st(1) by (simp_all add: session_tree_def pids_ok_def)
  note find = find_leader [OF r, of ?g, folded st(2)]
  let ?ls = "filter (\<lambda>g. pi_virt (?h g) = ?g) (preorder t)"
  show ?thesis
  proof (cases "?g = 0 \<or> pi_virt (?h i) = ?g \<or> ?ls = [] \<and> cg = ?g")
    case True
    then have "group_item ok cg i ps = Inr ps"
      using find by (auto simp: group_item_def Let_def)
    moreover have "settled cg ?h t i"
      using True by (auto simp: settled_def)
    ultimately show ?thesis
      using assms(1) by (auto simp: same_ids_def)
  next
    case False
    show ?thesis
    proof (cases ?ls)
      case (Cons g gs)
      let ?ps = "upd_item i (\<lambda>y. y\<lparr>pi_pgrp_leader := g\<rparr>) ps"
      have "group_item ok cg i ps = Inr ?ps"
        using find False Cons by (auto simp: group_item_def Let_def)
      moreover have "session_tree (ps_heap ?ps) t b"
        by (rule session_tree_cong [OF st(1)]) (simp add: upd_item_def)
      moreover have "g \<in> set ?ls"
        unfolding Cons by simp
      ultimately show ?thesis
        using st(2,3) by (intro exI [of _ ?ps] exI [of _ t] exI [of _ b]) (auto simp: groups_inv_def settled_def same_ids_def upd_item_def)
    next
      case Nil
      define ps1 where "ps1 = upd_item ?x (new_helper (pi_sid (?h i)) ?g ?g i) (ps\<lparr>ps_heap := ?h(?x := new_item), ps_next := Suc ?x\<rparr>)"
      define ps' where "ps' = upd_item i (\<lambda>y. y\<lparr>pi_children := ?x # pi_children y, pi_pgrp_leader := ?x\<rparr>) (ps1\<lparr>ps_nr_helpers := Suc (ps_nr_helpers ps1)\<rparr>)"
      have x: "?x \<notin> set (preorder t)" "?x \<noteq> 0" "i \<noteq> ?x"
        using st(3) assms(2) by auto
      have g: "group_item ok cg i ps = Inr ps'"
        using find False Nil assms(3) x(2)
        by (auto simp: group_item_def Let_def alloc_pstree_item_def ps'_def ps1_def)
      have hx: "ps_heap ps' ?x = new_item\<lparr>pi_sid := pi_sid (?h i), pi_pgid := ?g, pi_virt := ?g, pi_state := TASK_HELPER, pi_parent := i\<rparr>"
        using x(3) by (simp add: ps'_def ps1_def upd_item_def new_helper_def)
      have hj: "ps_heap ps' j = (if j = i then (?h i)\<lparr>pi_children := ?x # pi_children (?h i), pi_pgrp_leader := ?x\<rparr> else ?h j)" if "j \<noteq> ?x" for j
        using x(3) that by (simp add: ps'_def ps1_def upd_item_def)
      have ht: "ps_heap ps' j = (if j = i then (?h i)\<lparr>pi_children := ?x # pi_children (?h i), pi_pgrp_leader := ?x\<rparr> else ?h j)" if "j \<in> set (preorder t)" for j
        using hj [of j] that x(1) by blast
      have v: "\<And>j. j \<in> set (preorder t) \<Longrightarrow> ?g \<noteq> pi_virt (?h j)" "0 < ?g"
        using Nil False st(3) assms(2) by (auto simp: filter_empty_conv order_le_less)
      have "session_tree (ps_heap ps') (insert_leaf i ?x t) (b(?x := pi_sid (?h i)))"
        by (rule session_tree_leaf [OF st(1) assms(2) x(1,2)]) (simp_all add: hx ht v)
      moreover have "ps_root ps' = pt_id t" "ps_next ps' = Suc ?x"
        using st(2) by (simp_all add: ps'_def ps1_def upd_item_def)
      moreover have set: "set (preorder (insert_leaf i ?x t)) = insert ?x (set (preorder t))"
        using set_insert_leaf [OF r(2) assms(2)] .
      ultimately have "groups_inv ps' (insert_leaf i ?x t) (b(?x := pi_sid (?h i)))"
        using st(3) v(2) hx hj by (auto simp: groups_inv_def less_Suc_eq)
      moreover have "group_item ok cg ?x ps' = Inr ps'"
        using hx by (simp add: group_item_def Let_def)
      moreover have "settled cg (ps_heap ps') (insert_leaf i ?x t) i"
        using hj [OF x(3)] hx set by (simp add: settled_def)
      moreover have "same_ids ?h (ps_heap ps') j \<and> (j \<noteq> i \<longrightarrow> pi_pgrp_leader (ps_heap ps' j) = pi_pgrp_leader (?h j))" if "j \<in> set (preorder t)" for j
        using ht [OF that] by (auto simp: same_ids_def)
      moreover have "pi_virt (ps_heap ps' j) \<noteq> cg" if "j \<in> set (preorder (insert_leaf i ?x t)) - set (preorder t)" for j
        using that set hx False Nil by auto
      ultimately show ?thesis
        using g by blast
    qed
  qed
qed

lemma settled_later:
  assumes "settled cg h t j" "j \<in> set (preorder t)" "set (preorder t) \<subseteq> set (preorder t')"
    and "\<And>i. i \<in> set (preorder t) \<Longrightarrow> same_ids h h' i" "pi_pgrp_leader (h' j) = pi_pgrp_leader (h j)"
  shows "settled cg h' t' j"
  using assms(1,3,5) assms(4) [OF assms(2)] assms(4) [of "pi_pgrp_leader (h j)"] by (auto simp: settled_def same_ids_def)

text \<open>The third loop as a whole: a helper it inserts is the next item of the walk, and is passed over.\<close>

lemma group_walk:
  assumes "\<And>n. ok n"
  shows "groups_inv ps t b \<Longrightarrow> preorder t = xs @ ys \<Longrightarrow>
    \<exists>ps' t' b'. for_each_item ps_heap (group_item ok cg) (case ys of [] \<Rightarrow> 0 | y # _ \<Rightarrow> y) ps = Some (Inr ps') \<and> groups_inv ps' t' b'
      \<and> pt_id t' = pt_id t \<and> set (preorder t) \<subseteq> set (preorder t') \<and> (\<forall>j \<in> set ys. settled cg (ps_heap ps') t' j)
      \<and> (\<forall>j \<in> set (preorder t') - set (preorder t). pi_virt (ps_heap ps' j) \<noteq> cg)
      \<and> (\<forall>j \<in> set (preorder t). same_ids (ps_heap ps) (ps_heap ps') j \<and> (j \<notin> set ys \<longrightarrow> pi_pgrp_leader (ps_heap ps' j) = pi_pgrp_leader (ps_heap ps j)))"
proof (induction ys arbitrary: ps t b xs)
  case Nil
  have "for_each_item ps_heap (group_item ok cg) 0 ps = Some (Inr ps)"
    by (simp add: for_each_item.simps [of ps_heap _ 0])
  then show ?case
    using Nil.prems(1) by (auto simp: same_ids_def)
next
  case (Cons y ys)
  note walk = for_each_item.simps [of ps_heap "group_item ok cg"]
  have rt: "rep (ps_heap ps) 0 t" "distinct (preorder t)"
    using Cons.prems(1) by (simp_all add: groups_inv_def session_tree_def pids_ok_def)
  have y: "y \<in> set (preorder t)" "y \<noteq> 0" "y \<notin> set ys" "y \<notin> set xs"
    using Cons.prems(2) rep_nonzero [OF rt(1), of y] rt(2) by auto
  from group_item_ok [where ok = ok and cg = cg, OF Cons.prems(1) y(1) assms] obtain ps1 t1 b1 where
    g: "group_item ok cg y ps = Inr ps1" "groups_inv ps1 t1 b1" "settled cg (ps_heap ps1) t1 y"
      "t1 = t \<or> t1 = insert_leaf y (ps_next ps) t \<and> group_item ok cg (ps_next ps) ps1 = Inr ps1"
      "\<forall>j \<in> set (preorder t1) - set (preorder t). pi_virt (ps_heap ps1 j) \<noteq> cg"
      "\<forall>j \<in> set (preorder t). same_ids (ps_heap ps) (ps_heap ps1) j \<and> (j \<noteq> y \<longrightarrow> pi_pgrp_leader (ps_heap ps1 j) = pi_pgrp_leader (ps_heap ps j))"
    by blast
  have r1: "rep (ps_heap ps1) 0 t1" "distinct (preorder t1)"
    using g(2) by (simp_all add: groups_inv_def session_tree_def pids_ok_def)
  have "\<exists>zs. preorder t1 = zs @ ys \<and> pt_id t1 = pt_id t \<and> set (preorder t) \<subseteq> set (preorder t1)
      \<and> for_each_item ps_heap (group_item ok cg) y ps = for_each_item ps_heap (group_item ok cg) (case ys of [] \<Rightarrow> 0 | y # _ \<Rightarrow> y) ps1"
    using g(4)
  proof (elim disjE conjE)
    assume "t1 = t"
    then show ?thesis
      using next_preorder [OF r1, of xs y ys] Cons.prems(2) g(1) y(2) by (auto simp: walk [of y])
  next
    let ?x = "ps_next ps"
    assume t1: "t1 = insert_leaf y ?x t" and x: "group_item ok cg ?x ps1 = Inr ps1"
    have pre: "preorder t1 = xs @ y # ?x # ys"
      using preorder_insert_leaf [OF rt(2) Cons.prems(2)] t1 by simp
    then have "?x \<noteq> 0"
      using rep_nonzero [OF r1(1), of ?x] by simp
    then have "for_each_item ps_heap (group_item ok cg) y ps = for_each_item ps_heap (group_item ok cg) (case ys of [] \<Rightarrow> 0 | y # _ \<Rightarrow> y) ps1"
      using next_preorder [OF r1 pre] next_preorder [OF r1, of "xs @ [y]" ?x ys] pre g(1) x y(2) by (simp add: walk [of y] walk [of ?x])
    then show ?thesis
      using pre Cons.prems(2) t1 by (intro exI [of _ "xs @ [y, ?x]"]) auto
  qed
  then obtain zs where zs: "preorder t1 = zs @ ys" "pt_id t1 = pt_id t" "set (preorder t) \<subseteq> set (preorder t1)"
      "for_each_item ps_heap (group_item ok cg) y ps = for_each_item ps_heap (group_item ok cg) (case ys of [] \<Rightarrow> 0 | y # _ \<Rightarrow> y) ps1"
    by blast
  from Cons.IH [OF g(2) zs(1)] obtain ps' t' b' where
    w: "for_each_item ps_heap (group_item ok cg) (case ys of [] \<Rightarrow> 0 | y # _ \<Rightarrow> y) ps1 = Some (Inr ps')" "groups_inv ps' t' b'"
      "pt_id t' = pt_id t1" "set (preorder t1) \<subseteq> set (preorder t')" "\<forall>j \<in> set ys. settled cg (ps_heap ps') t' j"
      "\<forall>j \<in> set (preorder t') - set (preorder t1). pi_virt (ps_heap ps' j) \<noteq> cg"
      "\<forall>j \<in> set (preorder t1). same_ids (ps_heap ps1) (ps_heap ps') j \<and> (j \<notin> set ys \<longrightarrow> pi_pgrp_leader (ps_heap ps' j) = pi_pgrp_leader (ps_heap ps1 j))"
    by blast
  have "settled cg (ps_heap ps') t' y"
    by (rule settled_later [OF g(3) _ w(4)]) (use y zs(3) w(7) in auto)
  moreover have "same_ids (ps_heap ps) (ps_heap ps') j \<and> (j \<notin> set (y # ys) \<longrightarrow> pi_pgrp_leader (ps_heap ps' j) = pi_pgrp_leader (ps_heap ps j))"
    if "j \<in> set (preorder t)" for j
    using bspec [OF g(6) that] bspec [OF w(7), of j] zs(3) that by (auto simp: same_ids_def)
  moreover have "pi_virt (ps_heap ps' j) \<noteq> cg" if "j \<in> set (preorder t') - set (preorder t)" for j
    using that w(6,7) g(5) by (cases "j \<in> set (preorder t1)") (auto simp: same_ids_def)
  ultimately show ?case
    using w zs by (intro exI [of _ ps'] exI [of _ t'] exI [of _ b']) auto
qed

lemma stack_orphans_none:
  assumes "\<forall>c \<in> set (pi_children (ps_heap ps (ps_root ps))). pi_sid (ps_heap ps c) = pi_sid (ps_heap ps (ps_root ps)) \<or> pi_sid (ps_heap ps c) = pi_virt (ps_heap ps c)"
  shows "stack_orphans ok k [] ps = Some (0, [], ps)"
proof (induction "length (pi_children (ps_heap ps (ps_root ps))) - k" arbitrary: k)
  case 0
  then show ?case
    by (simp add: stack_orphans.simps [of ok k])
next
  case (Suc n)
  then have k: "k < length (pi_children (ps_heap ps (ps_root ps)))"
    by simp
  then show ?case
    using Suc.hyps(1) [of "Suc k"] Suc.hyps(2) assms nth_mem [OF k] by (simp add: stack_orphans.simps [of ok k] Cons_nth_drop_Suc [OF k, symmetric])
qed

text \<open>The second loop leaves the shape of the tree alone.\<close>

lemma mark_born_shape:
  assumes "mark_born sid p ps = Some (r, ps')"
  shows "\<forall>i. pi_parent (ps_heap ps' i) = pi_parent (ps_heap ps i) \<and> pi_children (ps_heap ps' i) = pi_children (ps_heap ps i)"
proof -
  define Q where "Q sid p ps x \<longleftrightarrow>
    (\<forall>i. pi_parent (ps_heap (snd x) i) = pi_parent (ps_heap ps i) \<and> pi_children (ps_heap (snd x) i) = pi_children (ps_heap ps i))"
    for sid :: int and p :: nat and ps :: pstree and x :: "bool \<times> pstree"
  have "Q sid p ps (r, ps')"
    by (rule mark_born.raw_induct [where P = Q, OF _ assms]) (auto simp: Q_def upd_item_def split: if_splits)
  then show ?thesis
    by (simp add: Q_def)
qed

lemma walk_connect:
  assumes "rep (ps_heap ps) 0 t" "births_ok (ps_heap ps) t b" "pids_ok (ps_heap ps) t"
  shows "for_each_item (\<lambda>s. ps_heap (snd s)) connect_item (pt_id t) ([], ps) = Some (run_items connect_item (preorder t) ([], ps))"
proof -
  have walk: "for_each_item (\<lambda>s. ps_heap (snd s)) connect_item (case ys of [] \<Rightarrow> 0 | y # _ \<Rightarrow> y) s = Some (run_items connect_item ys s)"
    if "preorder t = xs @ ys" "rep (ps_heap (snd s)) 0 t" "fst s = []" for xs ys s
    using that
  proof (induction ys arbitrary: xs s)
    case Nil
    then show ?case
      by (simp add: for_each_item.simps [of _ _ 0])
  next
    case (Cons y ys)
    have y: "y \<noteq> 0"
      using rep_nonzero [OF Cons.prems(2), of y] Cons.prems(1) by simp
    note w = for_each_item.simps [of "\<lambda>s. ps_heap (snd s)" connect_item y s]
    show ?case
    proof (cases "connect_item y s")
      case (Inl r)
      then show ?thesis
        using y by (simp add: w)
    next
      case (Inr s')
      have "fst s' = [] \<and> rep (ps_heap (snd s')) 0 t"
        using Inr Cons.prems(2,3) rep_cong [OF _ Cons.prems(2)] mark_born_shape
        by (auto simp: connect_item_def attach_helper_def Let_def split: if_splits prod.splits option.splits)
      then have r: "fst s' = []" "rep (ps_heap (snd s')) 0 t"
        by simp_all
      have "for_each_item (\<lambda>s. ps_heap (snd s)) connect_item (case ys of [] \<Rightarrow> 0 | y # _ \<Rightarrow> y) s' = Some (run_items connect_item ys s')"
        using Cons.IH [of "xs @ [y]" s'] Cons.prems(1) r by simp
      then show ?thesis
        using y Inr next_preorder [OF r(2) _ Cons.prems(1)] assms(3) by (simp add: w pids_ok_def)
    qed
  qed
  show ?thesis
    using walk [of "[]" "preorder t" "([], ps)"] assms(1) by (simp add: preorder_hd [of t])
qed

lemma prepare_pstree_ids_ok:
  assumes "rep (ps_heap ps) 0 t" "births_ok (ps_heap ps) t b" "pids_ok (ps_heap ps) t" "ps_root ps = pt_id t" "\<And>n. ok n"
    and "\<forall>i \<in> set (preorder t). pi_state (ps_heap ps i) \<noteq> TASK_HELPER \<and> pi_born_sid (ps_heap ps i) = -1 \<and> 0 \<le> pi_pgid (ps_heap ps i) \<and> i < ps_next ps"
  shows "\<exists>ps' t' b'. prepare_pstree_ids ok cg ps = Some (0, Some ps') \<and> groups_inv ps' t' b' \<and> pt_id t' = pt_id t \<and> set (preorder t) \<subseteq> set (preorder t')
      \<and> (\<forall>j \<in> set (preorder t') - set (preorder t). pi_virt (ps_heap ps' j) \<noteq> cg)
      \<and> (\<forall>j \<in> set (preorder t). settled cg (ps_heap ps') t' j \<and> same_ids (ps_heap ps) (ps_heap ps') j)"
proof -
  let ?h = "ps_heap ps"
  have d: "distinct (preorder t)"
    using assms(3) by (simp add: pids_ok_def)
  have kids: "c \<in> set (preorder t) \<and> c \<noteq> pt_id t \<and> pi_parent (?h c) = pt_id t" if "c \<in> set (pi_children (?h (pt_id t)))" for c
    using assms(1) d that rep_parent by (cases t) fastforce
  have "pi_sid (?h c) = pi_sid (?h (ps_root ps)) \<or> pi_sid (?h c) = pi_virt (?h c)" if "c \<in> set (pi_children (?h (ps_root ps)))" for c
    using births_parent [OF assms(2), of c] kids [of c] that assms(4) by auto
  then have one: "stack_orphans ok 0 [] ps = Some (0, [], ps)"
    using stack_orphans_none by blast
  have "\<exists>f. ps = ps\<lparr>ps_heap := \<lambda>i. (?h i)\<lparr>pi_born_sid := f i\<rparr>\<rparr>"
    by (rule exI [of _ "\<lambda>i. pi_born_sid (?h i)"], cases ps) simp
  moreover have "marks_ok ?h t b {}"
    using assms(6) by (simp add: marks_ok_def)
  ultimately have "connect_inv ps t b {} ([], ps)"
    unfolding connect_inv_def fst_conv snd_conv by blast
  with connect_items [OF assms(2,3) _ _ _ this, of "preorder t"] assms(6) obtain s where
    s: "run_items connect_item (preorder t) ([], ps) = Inr s" "connect_inv ps t b (set (preorder t)) s"
    by auto
  then obtain f where q: "s = ([], ps\<lparr>ps_heap := \<lambda>i. (?h i)\<lparr>pi_born_sid := f i\<rparr>\<rparr>)" "marks_ok (ps_heap (snd s)) t b (set (preorder t))"
    by (cases s) (auto simp: connect_inv_def)
  let ?q = "ps\<lparr>ps_heap := \<lambda>i. (?h i)\<lparr>pi_born_sid := f i\<rparr>\<rparr>"
  have two: "for_each_item (\<lambda>s. ps_heap (snd s)) connect_item (pt_id t) ([], ps) = Some (Inr ([], ?q))"
    using walk_connect [OF assms(1-3)] s q(1) assms(4,6) by simp
  have three: "splice_helpers [] ?q = ?q"
    by (simp add: splice_helpers_def upd_item_def fun_upd_idem_iff)
  have "births_ok (ps_heap ?q) t b" "pids_ok (ps_heap ?q) t"
    by (rule births_ok_cong [OF assms(2,1) d] pids_ok_cong [OF assms(3)], simp)+
  then have "groups_inv ?q t b"
    using q assms(4,6) by (simp add: groups_inv_def session_tree_def)
  from group_walk [where ok = ok and cg = cg and xs = "[]", OF assms(5) this] obtain ps' t' b' where
    w: "for_each_item ps_heap (group_item ok cg) (case preorder t of [] \<Rightarrow> 0 | y # _ \<Rightarrow> y) ?q = Some (Inr ps')" "groups_inv ps' t' b'"
      "pt_id t' = pt_id t" "set (preorder t) \<subseteq> set (preorder t')" "\<forall>j \<in> set (preorder t). settled cg (ps_heap ps') t' j"
      "\<forall>j \<in> set (preorder t') - set (preorder t). pi_virt (ps_heap ps' j) \<noteq> cg"
      "\<forall>j \<in> set (preorder t). same_ids (ps_heap ?q) (ps_heap ps') j"
    by auto
  have "prepare_pstree_ids ok cg ps = Some (0, Some ps')"
    using w(1) assms(4) preorder_hd [of t] by (simp add: prepare_pstree_ids_def one two three loop_result_def)
  then show ?thesis
    using w(2-) by (auto simp: same_ids_def)
qed

section \<open>Forking gives every task its session\<close>

fun height :: "ptree \<Rightarrow> nat" where
  "height (PT i ts) = Suc (Max (insert 0 (set (map height ts))))"

lemma height_kid: "u \<in> set ts \<Longrightarrow> height u < height (PT i ts)"
  by (auto simp: less_Suc_eq_le intro!: Max_ge)

text \<open>
  The session a task has to be forked in: any, when it leads its own and none of its children was born
  before it did; otherwise the one it was born in.
\<close>

definition starts_ok :: "pstree_heap \<Rightarrow> nat \<Rightarrow> (nat \<Rightarrow> int) \<Rightarrow> nat \<Rightarrow> proc \<Rightarrow> bool" where
  "starts_ok h root b i p \<longleftrightarrow> i = root \<or> pi_sid (h i) = pi_virt (h i) \<and> pi_born_sid (h i) = -1 \<or> p_sid p = b i"

definition no_leader_of :: "pstree_heap \<Rightarrow> ptree \<Rightarrow> proc \<Rightarrow> bool" where
  "no_leader_of h u p \<longleftrightarrow> (\<forall>j \<in> set (preorder u). pi_sid (h j) = pi_virt (h j) \<longrightarrow> p_pgrp p \<noteq> pi_virt (h j))"

definition in_session :: "pstree_heap \<Rightarrow> ptree \<Rightarrow> sessions \<Rightarrow> sessions \<Rightarrow> bool" where
  "in_session h u s s' \<longleftrightarrow> (\<forall>j \<in> set (preorder u). map_option p_sid (s' j) = Some (pi_sid (h j))) \<and> (\<forall>j. j \<notin> set (preorder u) \<longrightarrow> s' j = s j)"

lemma session_not_unset:
  assumes "session_tree h t b" "i \<in> set (preorder t)"
  shows "pi_sid (h i) \<noteq> -1"
proof -
  have s: "births_ok h t b" "pids_ok h t"
    using assms(1) by (simp_all add: session_tree_def)
  then have v: "0 < pi_virt (h i)"
    using assms(2) by (simp add: pids_ok_def)
  show ?thesis
  proof (cases "i = pt_id t")
    case True
    then show ?thesis
      using s(1) v by (simp add: births_ok_def)
  next
    case False
    then show ?thesis
      using births_parent(2) [OF s(1) assms(2) False] born_not_own(2) [OF s assms(2) False] v by auto
  qed
qed

lemma fork_before:
  assumes "session_tree h t b" "c \<in> set (preorder t)" "c \<noteq> pt_id t" "pi_parent (h c) = i" "i \<in> set (preorder t)"
    and "restore_before_setsid h c" "starts_ok h (pt_id t) b i p"
  shows "starts_ok h (pt_id t) b c p" "pi_born_sid (h c) \<noteq> -1 \<longrightarrow> p_sid p = pi_born_sid (h c)"
proof -
  have s: "births_ok h t b" "pids_ok h t" "marks_ok h t b (set (preorder t))"
    using assms(1) by (simp_all add: session_tree_def)
  have e: "pi_born_sid (h i) = (if pi_born_sid (h c) = -1 then pi_sid (h c) else pi_born_sid (h c))"
    using assms(6) by (simp add: restore_before_setsid_def assms(4) Let_def)
  then have i: "pi_born_sid (h i) \<noteq> -1"
    using session_not_unset [OF assms(1,2)] by (auto split: if_splits)
  then have "pi_born_sid (h i) = b i" "i \<noteq> pt_id t"
    using marks_okD(1) [OF s(3) assms(5)] by auto
  then have p: "p_sid p = pi_born_sid (h i)"
    using assms(7) i by (auto simp: starts_ok_def)
  then show "pi_born_sid (h c) \<noteq> -1 \<longrightarrow> p_sid p = pi_born_sid (h c)"
    using e by simp
  show "starts_ok h (pt_id t) b c p"
    using p e marks_okD(1) [OF s(3) assms(2)] births_parent(2) [OF s(1) assms(2,3)] by (auto simp: starts_ok_def split: if_splits)
qed

lemma fork_after:
  assumes "session_tree h t b" "c \<in> set (preorder t)" "c \<noteq> pt_id t" "pi_parent (h c) = i" "i \<in> set (preorder t)"
    and "\<not> restore_before_setsid h c" "p_sid p = pi_sid (h i)"
  shows "starts_ok h (pt_id t) b c p"
proof -
  have s: "births_ok h t b" "pids_ok h t" "marks_ok h t b (set (preorder t))"
    using assms(1) by (simp_all add: session_tree_def)
  have e: "pi_born_sid (h i) \<noteq> (if pi_born_sid (h c) = -1 then pi_sid (h c) else pi_born_sid (h c))"
    using assms(6) by (simp add: restore_before_setsid_def assms(4) Let_def)
  note bc = births_parent [OF s(1) assms(2,3), unfolded assms(4)]
  show ?thesis
  proof (cases "pi_born_sid (h c) = -1")
    case True
    then show ?thesis
      using marks_okD(3) [OF s(3) assms(2,3), unfolded assms(4)] e bc(2) assms(7)
      by (cases "pi_sid (h c) = pi_virt (h c)") (auto simp: starts_ok_def)
  next
    case False
    then have "pi_virt (h i) = b c"
      using marks_okD(1,2) [OF s(3) assms(2)] assms(3,4) e by auto
    then have "b c = pi_sid (h i)"
      using bc(1) born_not_own(1) [OF s(1,2) assms(5)] by auto
    then show ?thesis
      using assms(7) by (simp add: starts_ok_def)
  qed
qed

lemma restore_sid_ok:
  assumes "session_tree h t b" "i \<in> set (preorder t)" "starts_ok h (pt_id t) b i p" "pi_sid (h i) = pi_virt (h i) \<Longrightarrow> p_pgrp p \<noteq> pi_virt (h i)"
  shows "\<exists>p'. restore_sid h (pt_id t) i p = Some p' \<and> p_sid p' = pi_sid (h i) \<and> p_pgrp p' \<in> {p_pgrp p, pi_virt (h i)}"
proof (cases "pi_sid (h i) = pi_virt (h i)")
  case True
  then show ?thesis
    using assms(4) by (simp add: restore_sid_def sys_setsid_def)
next
  case False
  have b: "births_ok h t b"
    using assms(1) by (simp add: session_tree_def)
  then have "i \<noteq> pt_id t"
    using False by (auto simp: births_ok_def)
  then have "p_sid p = pi_sid (h i)"
    using births_parent(2) [OF b assms(2)] assms(3) False by (auto simp: starts_ok_def)
  then show ?thesis
    using False by (simp add: restore_sid_def)
qed

lemma preorder_disjoint:
  "distinct (concat (map preorder us)) \<Longrightarrow> u \<in> set us \<Longrightarrow> v \<in> set us \<Longrightarrow> j \<in> set (preorder u) \<Longrightarrow> j \<in> set (preorder v) \<Longrightarrow> u = v"
  by (induction us) auto

text \<open>What one of the two loops over the children has done.\<close>

definition forked :: "pstree_heap \<Rightarrow> bool \<Rightarrow> ptree list \<Rightarrow> sessions \<Rightarrow> sessions \<Rightarrow> bool" where
  "forked h before us s s' \<longleftrightarrow>
     (\<forall>u \<in> set us. restore_before_setsid h (pt_id u) = before \<longrightarrow> (\<forall>j \<in> set (preorder u). map_option p_sid (s' j) = Some (pi_sid (h j))))
   \<and> (\<forall>j. (\<forall>u \<in> set us. restore_before_setsid h (pt_id u) = before \<longrightarrow> j \<notin> set (preorder u)) \<longrightarrow> s' j = s j)"

lemma in_session_join:
  assumes "distinct (preorder (PT i us))" "forked h True us s s1" "p_sid p = pi_sid (h i)" "forked h False us (s1(i \<mapsto> p)) s2"
  shows "in_session h (PT i us) s s2"
proof -
  let ?B = "\<lambda>u. restore_before_setsid h (pt_id u)"
  have f1: "\<And>u j. u \<in> set us \<Longrightarrow> ?B u \<Longrightarrow> j \<in> set (preorder u) \<Longrightarrow> map_option p_sid (s1 j) = Some (pi_sid (h j))"
      "\<And>j. (\<forall>u \<in> set us. ?B u \<longrightarrow> j \<notin> set (preorder u)) \<Longrightarrow> s1 j = s j"
    using assms(2) by (simp_all add: forked_def)
  have f2: "\<And>u j. u \<in> set us \<Longrightarrow> \<not> ?B u \<Longrightarrow> j \<in> set (preorder u) \<Longrightarrow> map_option p_sid (s2 j) = Some (pi_sid (h j))"
      "\<And>j. (\<forall>u \<in> set us. \<not> ?B u \<longrightarrow> j \<notin> set (preorder u)) \<Longrightarrow> s2 j = (s1(i \<mapsto> p)) j"
    using assms(4) by (simp_all add: forked_def)
  have i: "i \<notin> set (preorder u)" if "u \<in> set us" for u
    using assms(1) that by auto
  have disj: "u = v" if "u \<in> set us" "v \<in> set us" "j \<in> set (preorder u)" "j \<in> set (preorder v)" for u v j
    using assms(1) preorder_disjoint [OF _ that] by simp
  have "map_option p_sid (s2 i) = Some (pi_sid (h i))"
    using assms(3) f2(2) [of i] i by simp
  moreover have "map_option p_sid (s2 j) = Some (pi_sid (h j))" if u: "u \<in> set us" "j \<in> set (preorder u)" for u j
  proof (cases "?B u")
    case True
    have "j \<noteq> i" "\<forall>v \<in> set us. \<not> ?B v \<longrightarrow> j \<notin> set (preorder v)"
      using i u disj [OF u(1)] True by blast+
    then show ?thesis
      using f2(2) [of j] f1(1) [OF u(1) True u(2)] by simp
  qed (use f2(1) u in blast)
  moreover have "s2 j = s j" if "j \<notin> set (preorder (PT i us))" for j
    using f1(2) [of j] f2(2) [of j] that by simp
  ultimately show ?thesis
    by (auto simp: in_session_def)
qed

lemma fork_children_ok:
  assumes "session_tree h t b" "i \<in> set (preorder t)" "before \<Longrightarrow> starts_ok h (pt_id t) b i p" "\<not> before \<Longrightarrow> p_sid p = pi_sid (h i)"
    and run: "\<And>u s. u \<in> set us \<Longrightarrow> starts_ok h (pt_id t) b (pt_id u) p \<Longrightarrow> \<exists>s'. run (pt_id u) p s = Inr (0, s') \<and> in_session h u s s'"
    and kids: "\<And>u. u \<in> set us \<Longrightarrow> rep h i u \<and> pt_id u \<in> set (preorder t) \<and> pt_id u \<noteq> pt_id t"
  shows "\<exists>s'. fork_children run h before (map pt_id us) p s = Inr (0, s') \<and> forked h before us s s'"
  using run kids
proof (induction us arbitrary: s)
  case Nil
  then show ?case
    by (simp add: forked_def)
next
  case (Cons u us)
  have k: "rep h i u" "pt_id u \<in> set (preorder t)" "pt_id u \<noteq> pt_id t" "pi_parent (h (pt_id u)) = i"
    using Cons.prems(2) [of u] rep_parent [of h i u] by auto
  have IH: "\<exists>s'. fork_children run h before (map pt_id us) p s = Inr (0, s') \<and> forked h before us s s'" for s
    by (rule Cons.IH) (use Cons.prems in auto)
  show ?case
  proof (cases "restore_before_setsid h (pt_id u) = before")
    case False
    then show ?thesis
      using IH [of s] by (auto simp: forked_def)
  next
    case True
    have st: "starts_ok h (pt_id t) b (pt_id u) p" and bug: "before \<longrightarrow> pi_born_sid (h (pt_id u)) = -1 \<or> p_sid p = pi_born_sid (h (pt_id u))"
      using fork_before [OF assms(1) k(2-4) assms(2)] fork_after [OF assms(1) k(2-4) assms(2)] assms(3,4) True by auto
    obtain s1 where s1: "run (pt_id u) p s = Inr (0, s1)" "in_session h u s s1"
      using Cons.prems(1) [of u s] st by auto
    obtain s' where s': "fork_children run h before (map pt_id us) p s1 = Inr (0, s')" "forked h before us s1 s'"
      using IH by blast
    have "map_option p_sid (s' j) = Some (pi_sid (h j))" if "j \<in> set (preorder u)" for j
      using s'(2) s1(2) that unfolding in_session_def forked_def by metis
    then have "forked h before (u # us) s s'"
      using s'(2) s1(2) True unfolding in_session_def forked_def by auto
    then show ?thesis
      using True bug s1(1) s'(1) by (simp add: bindF_def)
  qed
qed

lemma create_children_ok:
  assumes "session_tree h t b"
  shows "rep h q u \<Longrightarrow> set (preorder u) \<subseteq> set (preorder t) \<Longrightarrow> distinct (preorder u) \<Longrightarrow> pt_id t \<in> set (preorder u) \<longrightarrow> pt_id u = pt_id t
    \<Longrightarrow> starts_ok h (pt_id t) b (pt_id u) p \<Longrightarrow> no_leader_of h u p \<Longrightarrow> height u \<le> n
    \<Longrightarrow> \<exists>s'. create_children_and_session n h (pt_id t) (pt_id u) p s = Inr (0, s') \<and> in_session h u s s'"
proof (induction u arbitrary: q p s n)
  case (PT i us)
  have i: "i \<in> set (preorder t)" "pi_children (h i) = map pt_id us"
    using PT.prems(1,2) by auto
  obtain m where m: "n = Suc m"
    using PT.prems(7) by (cases n) auto
  have inj: "inj_on (\<lambda>i. pi_virt (h i)) (set (preorder t))"
    using assms by (simp add: session_tree_def pids_ok_def)
  have kids: "rep h i u \<and> pt_id u \<in> set (preorder t) \<and> pt_id u \<noteq> pt_id t" if "u \<in> set us" for u
  proof -
    have i: "i \<notin> set (preorder u)" "set (preorder u) \<subseteq> set (preorder t)"
      using PT.prems(2,3) that by auto
    then have "pt_id u \<in> set (preorder t)" "pt_id u \<noteq> i"
      using pt_id_preorder [of u] by (blast, metis)
    moreover have "pt_id t \<in> set (preorder u) \<longrightarrow> i = pt_id t"
      using PT.prems(4) that by auto
    then have "pt_id u \<noteq> pt_id t"
      using pt_id_preorder [of u] i(1) by metis
    ultimately show ?thesis
      using PT.prems(1) that by simp
  qed
  have run: "\<exists>s'. create_children_and_session m h (pt_id t) (pt_id u) p' s = Inr (0, s') \<and> in_session h u s s'"
    if "u \<in> set us" "starts_ok h (pt_id t) b (pt_id u) p'" "p_pgrp p' \<in> {p_pgrp p, pi_virt (h i)}" for u s p'
  proof (rule PT.IH [OF that(1)])
    have d: "i \<notin> set (preorder u)" "set (preorder u) \<subseteq> set (preorder t)"
      using PT.prems(2,3) that(1) by auto
    show "no_leader_of h u p'"
      using PT.prems(6) that(1,3) d inj_onD [OF inj] i(1) unfolding no_leader_of_def by fastforce
    show "pt_id t \<in> set (preorder u) \<longrightarrow> pt_id u = pt_id t"
      using PT.prems(4) that(1) d(1) by auto
    show "height u \<le> m"
      using PT.prems(7) m that(1) by simp
  qed (use kids that PT.prems(2,3) in \<open>auto simp: distinct_concat_iff\<close>)
  let ?run = "create_children_and_session m h (pt_id t)"
  have "starts_ok h (pt_id t) b i p"
    using PT.prems(5) by simp
  then have "\<exists>s1. fork_children ?run h True (map pt_id us) p s = Inr (0, s1) \<and> forked h True us s s1"
    by (intro fork_children_ok [OF assms i(1) _ _ run kids]) simp_all
  then obtain s1 where s1: "fork_children ?run h True (map pt_id us) p s = Inr (0, s1)" "forked h True us s s1"
    by blast
  obtain p' where p': "restore_sid h (pt_id t) i p = Some p'" "p_sid p' = pi_sid (h i)" "p_pgrp p' \<in> {p_pgrp p, pi_virt (h i)}"
    using restore_sid_ok [OF assms i(1), of p] PT.prems(5,6) by (auto simp: no_leader_of_def)
  then have "\<exists>s2. fork_children ?run h False (map pt_id us) p' (s1(i \<mapsto> p')) = Inr (0, s2) \<and> forked h False us (s1(i \<mapsto> p')) s2"
    by (intro fork_children_ok [OF assms i(1) _ _ run kids]) simp_all
  then obtain s2 where s2: "fork_children ?run h False (map pt_id us) p' (s1(i \<mapsto> p')) = Inr (0, s2)" "forked h False us (s1(i \<mapsto> p')) s2"
    by blast
  have "in_session h (PT i us) s s2"
    using in_session_join [OF PT.prems(3) s1(2) p'(2) s2(2)] .
  then show ?case
    using s1(1) p'(1) s2(1) m i(2) by (simp add: bindF_def)
qed

text \<open>C11: A restore gives every task the session it had, in a tree without orphans. Take a process tree
  with distinct positive pids, none the process group of the tool, whose root leads its session. Let
  every child of the root be born in the session the root has now (so no helper for a dead
  session leader is needed), every other task in its parent's session or in the one its parent was
  born in, and let a task that leads no session still be in the one it was born in. Then, unless an
  allocation fails, \<^verbatim>\<open>prepare_pstree_ids\<close> returns 0, with helpers added where the leader of a process
  group is missing, and forking the tree it leaves (\<^verbatim>\<open>create_children_and_session\<close>) fails nowhere, neither in
  \<^verbatim>\<open>restore_sid\<close> nor in a \<^verbatim>\<open>BUG_ON\<close>, and ends with every task in its session. Every task whose process
  group is not 0, its own or that of the tool knows a task of the tree that leads it. The code is not told
  the sessions of birth.\<close>

theorem sessions_restored:
  assumes "rep (ps_heap ps) 0 t" "births_ok (ps_heap ps) t b" "pids_ok (ps_heap ps) t" "ps_root ps = pt_id t" "\<forall>n. ok n"
    and "\<forall>i \<in> set (preorder t). pi_state (ps_heap ps i) \<noteq> TASK_HELPER \<and> pi_born_sid (ps_heap ps i) = -1 \<and> 0 \<le> pi_pgid (ps_heap ps i) \<and> i < ps_next ps"
    and "\<forall>i \<in> set (preorder t). pi_virt (ps_heap ps i) \<noteq> cg"
  shows "\<exists>ps' t'. prepare_pstree_ids ok cg ps = Some (0, Some ps') \<and> rep (ps_heap ps') 0 t' \<and> set (preorder t) \<subseteq> set (preorder t')
     \<and> (\<forall>n s0. height t' \<le> n \<longrightarrow> (\<exists>s. create_children_and_session n (ps_heap ps') (ps_root ps') (ps_root ps') \<lparr>p_sid = s0, p_pgrp = cg\<rparr> (\<lambda>_. None) = Inr (0, s)
          \<and> (\<forall>i \<in> set (preorder t). map_option p_sid (s i) = Some (pi_sid (ps_heap ps i)))))
     \<and> (\<forall>i \<in> set (preorder t). settled cg (ps_heap ps') t' i \<and> same_ids (ps_heap ps) (ps_heap ps') i)"
proof -
  obtain ps' t' b' where p: "prepare_pstree_ids ok cg ps = Some (0, Some ps')" "groups_inv ps' t' b'" "pt_id t' = pt_id t"
      "set (preorder t) \<subseteq> set (preorder t')" "\<forall>j \<in> set (preorder t). settled cg (ps_heap ps') t' j \<and> same_ids (ps_heap ps) (ps_heap ps') j"
      "\<forall>j \<in> set (preorder t') - set (preorder t). pi_virt (ps_heap ps' j) \<noteq> cg"
    using prepare_pstree_ids_ok [where ok = ok and cg = cg, OF assms(1-4) spec [OF assms(5)] assms(6)] by blast
  have st: "session_tree (ps_heap ps') t' b'" "ps_root ps' = pt_id t'"
    using p(2) by (simp_all add: groups_inv_def)
  then have r: "rep (ps_heap ps') 0 t'" "distinct (preorder t')"
    by (simp_all add: session_tree_def pids_ok_def)
  have "\<exists>s. create_children_and_session n (ps_heap ps') (ps_root ps') (ps_root ps') \<lparr>p_sid = s0, p_pgrp = cg\<rparr> (\<lambda>_. None) = Inr (0, s)
      \<and> (\<forall>i \<in> set (preorder t). map_option p_sid (s i) = Some (pi_sid (ps_heap ps i)))" if n: "height t' \<le> n" for n s0
  proof -
    have "pi_virt (ps_heap ps' j) \<noteq> cg" if "j \<in> set (preorder t')" for j
      using assms(7) p(5,6) that by (cases "j \<in> set (preorder t)") (auto simp: same_ids_def)
    then have "no_leader_of (ps_heap ps') t' \<lparr>p_sid = s0, p_pgrp = cg\<rparr>"
      by (auto simp: no_leader_of_def)
    moreover have "starts_ok (ps_heap ps') (pt_id t') b' (pt_id t') \<lparr>p_sid = s0, p_pgrp = cg\<rparr>"
      by (simp add: starts_ok_def)
    ultimately obtain s where s: "create_children_and_session n (ps_heap ps') (pt_id t') (pt_id t') \<lparr>p_sid = s0, p_pgrp = cg\<rparr> (\<lambda>_. None) = Inr (0, s)"
        "in_session (ps_heap ps') t' (\<lambda>_. None) s"
      using create_children_ok [OF st(1) r(1) _ r(2) _ _ _ n] by blast
    have "map_option p_sid (s i) = Some (pi_sid (ps_heap ps i))" if "i \<in> set (preorder t)" for i
      using s(2) p(4) bspec [OF p(5) that] that unfolding in_session_def same_ids_def by (metis subsetD)
    then show ?thesis
      using s(1) st(2) by auto
  qed
  then show ?thesis
    using p(1,4,5) r(1) by blast
qed

text \<open>A leader with a child born before its \<^verbatim>\<open>setsid\<close> and one born after it, whose process group has no leader left.\<close>

definition ex_task :: "nat \<Rightarrow> nat list \<Rightarrow> int \<Rightarrow> int \<Rightarrow> int \<Rightarrow> pstree_item" where
  "ex_task p ks v g s = new_item\<lparr>pi_parent := p, pi_children := ks, pi_virt := v, pi_pgid := g, pi_sid := s\<rparr>"

definition ex_sessions :: pstree where
  "ex_sessions = \<lparr>ps_heap = (\<lambda>_. zero_item)(1 := ex_task 0 [2] 1 1 1, 2 := ex_task 1 [3, 4] 5 5 5, 3 := ex_task 2 [] 6 6 1, 4 := ex_task 2 [] 7 9 5),
     ps_next = 5, ps_root = 1, ps_max_pid = 9, ps_nr_threads = 4, ps_nr_tasks = 4, ps_nr_helpers = 0\<rparr>"

theorem sessions_restored_witness:
  "\<exists>ps' n s. prepare_pstree_ids (\<lambda>_. True) 100 ex_sessions = Some (0, Some ps')
     \<and> create_children_and_session n (ps_heap ps') (ps_root ps') (ps_root ps') \<lparr>p_sid = 50, p_pgrp = 100\<rparr> (\<lambda>_. None) = Inr (0, s)
     \<and> map (\<lambda>i. map_option p_sid (s i)) [1, 2, 3, 4] = [Some 1, Some 5, Some 1, Some 5]
     \<and> pi_virt (ps_heap ps' (pi_pgrp_leader (ps_heap ps' 4))) = 9"
proof -
  let ?t = "PT 1 [PT 2 [PT 3 [], PT 4 []]]"
  let ?h = "ps_heap ex_sessions"
  have h: "?h 1 = ex_task 0 [2] 1 1 1" "?h (Suc 0) = ex_task 0 [2] 1 1 1" "?h 2 = ex_task 1 [3, 4] 5 5 5" "?h 3 = ex_task 2 [] 6 6 1" "?h 4 = ex_task 2 [] 7 9 5"
    by (simp_all add: ex_sessions_def)
  have "rep ?h 0 ?t" "births_ok ?h ?t (\<lambda>i. if i = 4 then 5 else 1)" "pids_ok ?h ?t"
    by (simp_all add: births_ok_def pids_ok_def h ex_task_def)
  moreover have "\<forall>i \<in> set (preorder ?t). pi_state (?h i) \<noteq> TASK_HELPER \<and> pi_born_sid (?h i) = -1 \<and> 0 \<le> pi_pgid (?h i) \<and> i < ps_next ex_sessions"
    "\<forall>i \<in> set (preorder ?t). pi_virt (?h i) \<noteq> 100" "ps_root ex_sessions = pt_id ?t"
    by (simp_all add: h ex_task_def) (simp_all add: ex_sessions_def)
  ultimately obtain ps' t' where p: "prepare_pstree_ids (\<lambda>_. True) 100 ex_sessions = Some (0, Some ps')"
      "\<forall>n s0. height t' \<le> n \<longrightarrow> (\<exists>s. create_children_and_session n (ps_heap ps') (ps_root ps') (ps_root ps') \<lparr>p_sid = s0, p_pgrp = 100\<rparr> (\<lambda>_. None) = Inr (0, s)
          \<and> (\<forall>i \<in> set (preorder ?t). map_option p_sid (s i) = Some (pi_sid (?h i))))"
      "\<forall>i \<in> set (preorder ?t). settled 100 (ps_heap ps') t' i \<and> same_ids ?h (ps_heap ps') i"
    using sessions_restored [of ex_sessions ?t "\<lambda>i. if i = 4 then 5 else 1" "\<lambda>_. True" 100] by auto
  obtain s where s: "create_children_and_session (height t') (ps_heap ps') (ps_root ps') (ps_root ps') \<lparr>p_sid = 50, p_pgrp = 100\<rparr> (\<lambda>_. None) = Inr (0, s)"
      "\<forall>i \<in> set (preorder ?t). map_option p_sid (s i) = Some (pi_sid (?h i))"
    using p(2) by blast
  have "map (\<lambda>i. map_option p_sid (s i)) [1, 2, 3, 4] = [Some 1, Some 5, Some 1, Some 5]"
    using s(2) by (simp add: h ex_task_def)
  moreover have "pi_virt (ps_heap ps' (pi_pgrp_leader (ps_heap ps' 4))) = 9"
    using bspec [OF p(3), of 4] by (auto simp: settled_def same_ids_def h ex_task_def)
  ultimately show ?thesis
    using p(1) s(1) by (intro exI conjI)
qed

section \<open>Orphans of a dead session leader\<close>

lemma for_each_noop:
  assumes "rep (hp s) 0 t" "distinct (preorder t)" "\<And>i. i \<in> set (preorder t) \<Longrightarrow> body i s = Inr s"
  shows "for_each_item hp body (pt_id t) s = Some (Inr s)"
proof -
  have "for_each_item hp body (case ys of [] \<Rightarrow> 0 | y # _ \<Rightarrow> y) s = Some (Inr s)" if "preorder t = xs @ ys" for xs ys
    using that
  proof (induction ys arbitrary: xs)
    case Nil
    then show ?case
      by (simp add: for_each_item.simps [of _ _ 0])
  next
    case (Cons y ys)
    have "y \<noteq> 0" "body y s = Inr s"
      using rep_nonzero [OF assms(1), of y] assms(3) [of y] Cons.prems by simp_all
    then show ?case
      using Cons.IH [of "xs @ [y]"] next_preorder [OF assms(1,2) Cons.prems] Cons.prems by (simp add: for_each_item.simps [of _ _ y])
  qed
  from this [of "[]" "preorder t"] show ?thesis
    by (simp add: preorder_hd [of t])
qed

text \<open>
  A task \<open>o\<close> whose session leader \<open>s\<close> has died is a child of the root. It has a child \<open>c\<close> that leads its own
  session, and \<open>d\<close> is a child that \<open>c\<close> forked before it did.
\<close>

definition orphan_tree :: "int \<Rightarrow> int \<Rightarrow> int \<Rightarrow> int \<Rightarrow> int \<Rightarrow> pstree" where
  "orphan_tree r o' c d s = \<lparr>ps_heap = (\<lambda>_. zero_item)(1 := ex_task 0 [2] r r r, 2 := ex_task 1 [3] o' o' s, 3 := ex_task 2 [4] c c c, 4 := ex_task 3 [] d d s),
     ps_next = 5, ps_root = 1, ps_max_pid = max s (max r (max o' (max c d))), ps_nr_threads = 4, ps_nr_tasks = 4, ps_nr_helpers = 0\<rparr>"

definition orphan_tree' :: "int \<Rightarrow> int \<Rightarrow> int \<Rightarrow> int \<Rightarrow> int \<Rightarrow> pstree" where
  "orphan_tree' r o' c d s = (orphan_tree r o' c d s)\<lparr>ps_heap := (\<lambda>_. zero_item)(1 := ex_task 0 [5] r r r, 5 := (ex_task 1 [2] s s s)\<lparr>pi_state := TASK_HELPER\<rparr>,
       2 := ex_task 5 [3] o' o' s, 3 := ex_task 2 [4] c c c, 4 := ex_task 3 [] d d s), ps_next := 6, ps_nr_helpers := 1\<rparr>"

definition orphan_stacked :: "int \<Rightarrow> int \<Rightarrow> int \<Rightarrow> int \<Rightarrow> int \<Rightarrow> pstree" where
  "orphan_stacked r o' c d s = (orphan_tree r o' c d s)\<lparr>ps_heap := (\<lambda>_. zero_item)(1 := ex_task 0 [] r r r, 5 := (ex_task 1 [2] s s s)\<lparr>pi_state := TASK_HELPER\<rparr>,
       2 := ex_task 5 [3] o' o' s, 3 := ex_task 2 [4] c c c, 4 := ex_task 3 [] d d s), ps_next := 6, ps_nr_helpers := 1\<rparr>"

lemma orphan_stack:
  assumes "s \<noteq> r" "s \<noteq> o'" "\<And>n. ok n"
  shows "stack_orphans ok 0 [] (orphan_tree r o' c d s) = Some (0, [5], orphan_stacked r o' c d s)"
proof -
  let ?ps = "orphan_tree r o' c d s"
  have "pi_children (ps_heap (orphan_stacked r o' c d s) (ps_root (orphan_stacked r o' c d s))) = []"
    by (simp add: orphan_stacked_def orphan_tree_def ex_task_def)
  then have last: "stack_orphans ok 0 [5] (orphan_stacked r o' c d s) = Some (0, [5], orphan_stacked r o' c d s)"
    by (simp add: stack_orphans.simps [of ok 0])
  have "stack_children 5 [2] ((upd_item 5 (new_helper s s s 1) (?ps\<lparr>ps_heap := (ps_heap ?ps)(5 := new_item), ps_next := 6\<rparr>))\<lparr>ps_nr_helpers := 1\<rparr>)
      = orphan_stacked r o' c d s"
    using assms(1,2) by (simp add: orphan_stacked_def orphan_tree_def upd_item_def move_child_def new_helper_def ex_task_def fun_eq_iff)
  moreover have "ps_root ?ps = 1" "ps_next ?ps = 5" "ps_nr_helpers ?ps = 0" "pi_children (ps_heap ?ps 1) = [2]" "pi_sid (ps_heap ?ps 2) = s" "pi_sid (ps_heap ?ps 1) = r"
      "pi_virt (ps_heap ?ps 2) = o'"
    by (simp_all add: orphan_tree_def ex_task_def)
  ultimately show ?thesis
    using assms last by (simp add: stack_orphans.simps [of ok 0 "[]"] alloc_pstree_item_def upd_item_def del: stack_children.simps)
qed

lemma orphan_prepare:
  assumes "s \<noteq> r" "s \<noteq> o'" "\<And>n. ok n"
  shows "prepare_pstree_ids ok cg (orphan_tree r o' c d s) = Some (0, Some (orphan_tree' r o' c d s))"
proof -
  let ?st = "orphan_stacked r o' c d s" and ?ps = "orphan_tree' r o' c d s"
  have h: "ps_heap ?st 1 = ex_task 0 [] r r r" "ps_root ?st = 1"
    by (simp_all add: orphan_stacked_def orphan_tree_def)
  have "for_each_item (\<lambda>s. ps_heap (snd s)) connect_item (pt_id (PT 1 [])) ([5], ?st) = Some (Inr ([5], ?st))"
    by (rule for_each_noop) (use h in \<open>simp_all add: ex_task_def connect_item_def\<close>)
  moreover have "splice_helpers [5] ?st = ?ps"
    by (simp add: splice_helpers_def upd_item_def orphan_stacked_def orphan_tree'_def orphan_tree_def ex_task_def fun_eq_iff)
  moreover have "for_each_item ps_heap (group_item ok cg) (pt_id (PT 1 [PT 5 [PT 2 [PT 3 [PT 4 []]]]])) ?ps = Some (Inr ?ps)"
    by (rule for_each_noop) (auto simp: orphan_tree'_def orphan_tree_def ex_task_def group_item_def Let_def)
  ultimately show ?thesis
    using orphan_stack [where ok = ok, OF assms, of c d] h(2) by (simp add: prepare_pstree_ids_def loop_result_def)
qed

text \<open>C25: The session of a task born before its parent's \<^verbatim>\<open>setsid\<close> is lost below an orphan whose session leader
  has died. A child \<open>o'\<close> of the root is in a session \<open>s\<close> that no task leads any more; its child \<open>c\<close> leads a session
  of its own and forked \<open>d\<close> before that, so that \<open>d\<close> is in session \<open>s\<close>; all ids are distinct, above 1 and
  not the group of the tool. \<^verbatim>\<open>prepare_pstree_ids\<close> returns 0, but it has
  moved \<open>o'\<close> below a helper that is not in the tree yet when it looks for such tasks, so \<open>c\<close> is not
  marked, \<open>d\<close> is forked too late, and the restore fails in \<^verbatim>\<open>restore_sid\<close>.\<close>

theorem orphan_session_lost:
  assumes "distinct [r, o', c, d, s]" "\<forall>x \<in> {r, o', c, d, s}. 1 < x \<and> x \<noteq> cg" "\<forall>n. ok n" "5 \<le> n"
  shows "\<exists>ps' m. prepare_pstree_ids ok cg (orphan_tree r o' c d s) = Some (0, Some ps')
     \<and> create_children_and_session n (ps_heap ps') (ps_root ps') (ps_root ps') \<lparr>p_sid = s0, p_pgrp = cg\<rparr> (\<lambda>_. None) = Inr (-1, m)"
proof -
  let ?ps = "orphan_tree' r o' c d s"
  obtain k where n: "n = Suc (Suc (Suc (Suc (Suc k))))"
    using le_Suc_ex [OF assms(4)] by (auto simp: eval_nat_numeral)
  have p: "prepare_pstree_ids ok cg (orphan_tree r o' c d s) = Some (0, Some ?ps)"
    by (rule orphan_prepare) (use assms in auto)
  have h: "ps_heap ?ps 1 = ex_task 0 [5] r r r" "ps_heap ?ps (Suc 0) = ex_task 0 [5] r r r" "ps_heap ?ps 5 = (ex_task 1 [2] s s s)\<lparr>pi_state := TASK_HELPER\<rparr>"
      "ps_heap ?ps 2 = ex_task 5 [3] o' o' s" "ps_heap ?ps 3 = ex_task 2 [4] c c c" "ps_heap ?ps 4 = ex_task 3 [] d d s" "ps_root ?ps = 1"
    by (simp_all add: orphan_tree'_def orphan_tree_def)
  have "\<exists>m. create_children_and_session n (ps_heap ?ps) 1 1 \<lparr>p_sid = s0, p_pgrp = cg\<rparr> (\<lambda>_. None) = Inr (-1, m)"
    using assms(1,2) unfolding n
    by (simp add: h ex_task_def bindF_def restore_before_setsid_def restore_sid_def sys_setsid_def)
  then show ?thesis
    using p h(7) by auto
qed

theorem orphan_session_lost_witness:
  "\<exists>ps' m. prepare_pstree_ids (\<lambda>_. True) 100 (orphan_tree 2 10 11 12 5) = Some (0, Some ps')
     \<and> create_children_and_session 5 (ps_heap ps') (ps_root ps') (ps_root ps') \<lparr>p_sid = 50, p_pgrp = 100\<rparr> (\<lambda>_. None) = Inr (-1, m)"
  by (rule orphan_session_lost) simp_all

end
