(* ===== verification/Spec2Isabelle.thy ===== *)
theory Spec2Isabelle
  imports RestoreMem StrLib ListHead RbErase BitOps RstMalloc Lock PbImage ImageSet PstreeIds
begin

text \<open>
  \<^bold>\<open>Verification of the checkpoint/restore tool under src/.\<close>

  The tool freezes a tree of processes, writes what they are made of into a directory of image files
  and later builds the processes again from it. The development follows the data: the containers
  the code is built from, the image files, the process tree, and the memory of a task from the running
  process through the page pipe and the page server into the images and back.

  \<^bold>\<open>How the code is modelled.\<close> A C function is a HOL function that takes and returns the state it
  changes. A structure is a record with the source's fields, a pointer to an object of the heap is its
  address with 0 for NULL, an array written by index is a list with a check of the index. \<open>Inl\<close>
  is an abort (\<open>BUG\<close>), a read or write outside of an object or of an unset variable (\<open>UB\<close>), or an
  endless loop (\<open>HANG\<close>); a C return code is an \<open>int\<close> inside of \<open>Inr\<close>, so an error exit is a value
  and not a fault. Machine words are words or numbers with the wrap-around written out where a width
  matters. What is outside of src/ (the kernel, the allocator of the C library, the packing generated by
  the protobuf compiler) is a parameter: a record of functions that answer a call by the
  number of calls made before it, so that any call may fail at any time. Theorems about success name
  the answers they need (\<open>fs_ok\<close>, \<open>io_ok\<close>, \<open>desc_ok\<close> and the like), theorems about errors hold for all.

  \<^bold>\<open>Theories, the code they model and what they show.\<close>

  \<^item> \<open>Prelude\<close>: the outcome type, \<^verbatim>\<open>PAGE_SIZE\<close>, iovecs, lemmas on lists and alignment used throughout.

  \<^item> \<open>StrLib\<close> (string.c): \<^verbatim>\<open>strlcpy\<close> and \<^verbatim>\<open>strlcat\<close> on arrays of characters; they stay inside the
    array, terminate it and return the length tried.

  \<^item> \<open>ListHead\<close> (include/list.h): every list operation on a heap of \<^verbatim>\<open>next\<close>/\<^verbatim>\<open>prev\<close> links. Each is shown to
    refine an operation on a list of addresses, cutting and splicing are inverse, and the loop that
    tolerates deletion ends and visits every entry; the hash lists likewise.

  \<^item> \<open>Rbtree\<close> and \<open>RbErase\<close> (rbtree.c, include/rbtree.h): red-black trees on a memory of nodes. Inserting,
    erasing and replacing keep the tree balanced and the order of its nodes and touch nothing outside of it;
    the walk visits the nodes in order.

  \<^item> \<open>BitOps\<close> (asm/bitops.h for x86 and arm): the operations change the bit they mean, the search finds the
    next set bit in both variants, and \<^verbatim>\<open>for_each_bit\<close> visits an eighth of the bitmap.

  \<^item> \<open>Lock\<close> (include/lock.h, asm/atomic.h): mutexes and futexes as inductive step relations over any
    number of threads, with the kernel's compare-and-sleep; mutual exclusion and no lost wakeup by
    invariants over all reachable states.

  \<^item> \<open>RstMalloc\<close> (rst-malloc.c): the three arenas of the restore, with \<^verbatim>\<open>mmap\<close> and \<^verbatim>\<open>mremap\<close> on an explicit
    memory; objects keep their contents while the arenas grow and move, up to the final copy.

  \<^item> \<open>PbImage\<close> (include/util.h, protobuf.c): records of an image and \<^verbatim>\<open>collect_image\<close>; what is written is
    collected, a truncated image yields only whole records, and one error of a read goes unnoticed.

  \<^item> \<open>ImageSet\<close> (image.c, image-desc.c, include/magic.h, include/fdset.h): the table of images, opening one
    with its magic number, sets of images, the inventory. Different images have different names (a %d reads
    its id as signed, so the upper half of the ids is printed negative), a
    set of images and the inventory read back as written, and a damaged optional image may be skipped.

  \<^item> \<open>Pstree\<close> (pstree.c): the process tree. The walk is the depth-first order, a tree that is dumped reads
    back as the same tree, and a dump that runs out of memory may report success. An entry whose parent is
    missing ends in \<open>UB\<close>, since the code frees an item of the shared arena.

  \<^item> \<open>PstreeIds\<close> (pstree.c, second half; \<^verbatim>\<open>restore_sid\<close> and \<^verbatim>\<open>create_children_and_session\<close> of cr-restore.c): shaping
    the tree so that forking gives every task its session and process group. In
    every tree that could have come about by forking, with the children of the root born in the root's
    present session, every task ends in its session; below an orphan of a dead session leader one may not.

  \<^item> \<open>PagePipe\<close> (page-pipe.c): the sequence of pages and holes that a pipe stands for grows by exactly
    the page or hole added, and the bounds of its arrays are kept.

  \<^item> \<open>PageRead\<close> (page-read.c): a reader over a chain of snapshots returns for every page the bytes of the
    newest snapshot that has it.

  \<^item> \<open>Dedup\<close> (cr-dedup.c): punching pages out of a parent changes no lookup through the newer snapshot.

  \<^item> \<open>PageXfer\<close> and \<open>PageServer\<close> (page-xfer.c): \<^verbatim>\<open>page_xfer_dump_pages\<close> over an interface of three write
    operations merges pages and holes in the order of their addresses; the local backend writes the
    image, the remote one the wire format, and the server at the other end writes the same image and
    answers the flush with the status the client returns (\<open>server_answer\<close>).

  \<^item> \<open>MemDump\<close> (mem.c, the parasite commands it uses, and from parasite-syscall.c the size of the area for
    their arguments): which pages are dumped, and that a local or remote dump leaves an image with the
    contents of the task; protection bits are put back. The theorems bound the arguments by 2 GiB
    (\<open>args_fit\<close>), the dumped pages by half of the private pages and the clean ones by \<open>2 ^ 20\<close>.

  \<^item> \<open>RestoreMem\<close> (\<^verbatim>\<open>prepare_mappings\<close> of cr-restore.c): the areas get disjoint places and the pages of the
    images their contents.

  \<^item> This theory: dump followed by restore gives every page the bytes it had.

  \<^bold>\<open>Interfaces.\<close> The locale \<open>page_sink\<close> (\<open>MemDump\<close>) is what the scan of a task's pages needs of a page
  pipe; it is interpreted by the operations of \<open>PagePipe\<close>. The locale \<open>page_xfer_backend\<close> (\<open>PageXfer\<close>)
  is what the walk over a page pipe needs of the three write operations, and its extension
  \<open>page_xfer_live\<close> adds that they succeed; they are interpreted by the local backend and by the page
  server's client. The theorems on whole dumps rest on these interpretations.

  \<^bold>\<open>Loops and fuel.\<close> A loop over a list is structural recursion. Loops that end only on a well formed
  structure (the walk over a tree, climbing to an ancestor, the loops over linked lists) are partial
  functions into \<open>option\<close>, \<open>None\<close> being the run that does not return; the theorems prove that a result
  is there. Loops driven by input carry fuel: the rounds of \<open>dedup_one_iovec\<close>, the splices of
  \<open>page_server_add\<close>, the records of an image. A record takes four bytes at least, so one round more than
  the image has bytes is enough, and the theorems show that the bound is not reached; the one that
  is, a page server whose client has gone, is shown to be reached for any fuel.

  \<^bold>\<open>Defects.\<close> Some theorems state what the code does where this is not what it means to do: a lost
  transfer error, an undersized array and an abort at 2 GiB of arguments (\<open>MemDump\<close>), the length of an area in an \<^verbatim>\<open>int\<close> and
  the memory never inherited (\<open>RestoreMem\<close>), the endless splice (\<open>PageServer\<close>), an unset parent
  (\<open>PageXfer\<close>), the end of the parent's pagemap (\<open>Dedup\<close>), the bits not visited (\<open>BitOps\<close>), the
  unnoticed read error (\<open>PbImage\<close>), the damaged image taken for a missing one (\<open>ImageSet\<close>), the lost
  tasks (\<open>Pstree\<close>).

  \<^bold>\<open>Not modelled.\<close> The drivers that sequence system calls on live tasks (cr-dump.c, the forking and
  signal half of cr-restore.c, the rest of parasite-syscall.c, ptrace.c, the restorer blob) and the code that speaks
  to one kernel interface each (sockets, terminals, mounts, network namespaces, /proc parsers): nearly
  every line is a call whose effect is the kernel's, so a model would assume what it is to show.
  The command line, the service and the library (crtools.c, cr-service.c, lib/), logging, statistics and
  plugins carry no state of a checkpoint. Inline assembly and generated protobuf code enter as parameters
  or, for the atomic and bit instructions, by the documented effect of the instruction.
\<close>

unbundle bit_operations_syntax

section \<open>From the dump to the restore\<close>

text \<open>The directory of images that a dump leaves, with the link to the directory of the
  snapshot before it.\<close>

definition image_dir :: "snapshot \<Rightarrow> snap_dir" where
  "image_dir s = \<lparr>d_pagemap = Img (Inr 0, map Some (fst s)), d_pages = (\<lambda>_. Img (snd s)),
     d_pages_old = ImgErr True, d_malloc = True, d_junk = 0\<rparr>"

definition link_snaps :: "snap_fs plink \<Rightarrow> snapshot list \<Rightarrow> bool" where
  "link_snaps up ss \<longleftrightarrow> up = LinkNone \<and> ss = [] \<or> (\<exists>f. up = LinkTo f \<and> fs_snaps f ss)"

lemma image_dir_snaps: "link_snaps up ss \<Longrightarrow> fs_snaps (SnapFS (image_dir s) up) (s # ss)"
  by (cases s) (auto simp: link_snaps_def image_dir_def intro!: fs_snaps.intros [where i = 0])

lemma privately_dump_priv: "privately_dump_vma v \<Longrightarrow> vma_priv v"
  by (auto simp: privately_dump_vma_def vma_priv_def vma_entry_is_def VMA_AREA_REGULAR_def and_one_eq split: if_splits)

lemma decided_in_priv:
  assumes "d \<in> set (decide_all b pme vmas)" "vmas_ok vmas" "map rv_vma vs = vmas"
  shows "in_priv vs (snd d)"
proof -
  obtain v where v: "v \<in> set vmas" "privately_dump_vma v" "vma_start v \<le> snd d" "snd d < vma_end v"
    using decide_all_mem [OF assms(1,2)] by blast
  then obtain w where "w \<in> set vs" "rv_vma w = v" using assms(3) by auto
  with v show ?thesis
    by (auto simp: in_priv_def rv_contains_def rv_start_def rv_end_def privately_dump_priv)
qed

lemma vmas_ok_rst: "vmas_ok (map rv_vma vs) \<Longrightarrow> rst_vmas_ok vs"
  by (auto simp: vmas_ok_def rst_vmas_ok_def rv_start_def rv_end_def sorted_wrt_map)

text \<open>C1: Checkpoint and restore of private memory. A task is dumped into local images on top of a
  chain of earlier snapshots (empty for a full dump), and the directory so written is
  restored into the same areas. Let the calls of both sides succeed, without auto-dedup; let the areas
  be sorted and page aligned, with 64-bit addresses, each below 2 GiB, and the arguments of the parasite's
  commands be below 2 GiB.
  Let no more pages be dumped than half of the private pages, fewer than \<open>2 ^ 20\<close> pages be clean, and
  every page that the kernel reports clean be in the parent's pagemap and in the chain (pagemaps sorted, entries
  below \<open>2 ^ 20\<close> pages) as it was in the task. Then the dump returns 0, the restore
  returns 0, distinct addresses have distinct places, and at the place of every page that the
  scan considered stand the bytes the task had there.\<close>

theorem checkpoint_restore_memory:
  assumes "dump_live D" "parent_ok D so es (vm_h vmas)" "vmas_ok (vm_h vmas)" "args_fit D vmas"
    and "ds = decide_all (so \<noteq> None) (pme_of (de_pagemap D)) (vm_h vmas)" "length (dec_pages ds) \<le> priv_size vmas div 2"
    and "length (dec_holes ds) < 2 ^ 20" "\<forall>d \<in> set ds. snd d < 2 ^ 64"
    and "\<forall>n. pb_ok E n" "\<forall>n len. splice_ret E n len = int len" "\<forall>k. open_pm E k \<and> open_pg E k" "\<not> auto_dedup E"
    and "\<And>ap a p. mprot ap a p = 0" "chain_ok ss" "ss \<noteq> [] \<or> so = None" "link_snaps up ss"
    and "\<forall>(h, a) \<in> set ds. h \<longrightarrow> snap_page ss a = Some (de_mem D a)"
    and "map_env_ok M" "me_reserve M = Some addr" "old \<longrightarrow> me_munmap M"
    and "map rv_vma vs = vm_h vmas" "\<forall>v \<in> set vs. rv_fresh v \<and> rv_size v < 2 ^ 31"
  shows "\<exists>x pr' img. parasite_dump_pages_seized D mprot (loc_ops E)
         (\<lambda>pipes. open_page_local_xfer E CR_FD_PAGEMAP pid (lx\<lparr>lx_pipes := pipes\<rparr>)) False vmas pr = Inr ((0, None, Some x), pr')
     \<and> lx_disk x (CR_FD_PAGEMAP, pid) = Some img
     \<and> (\<exists>vs' mem'. prepare_mappings M madv fresh (Img (map (\<lambda>v. Some (-1, v)) vs)) (open_page_read_at (SnapFS (image_dir img) up)) pvs old mem
           = Inr (0, vs', mem')
         \<and> inj_on (page_addr vs') {va. in_priv vs' va}
         \<and> (\<forall>a \<in> snd ` set ds. mem' (page_addr vs' a) = de_mem D a))"
proof -
  obtain x pr' img where
    d: "parasite_dump_pages_seized D mprot (loc_ops E)
         (\<lambda>pipes. open_page_local_xfer E CR_FD_PAGEMAP pid (lx\<lparr>lx_pipes := pipes\<rparr>)) False vmas pr = Inr ((0, None, Some x), pr')"
       "lx_disk x (CR_FD_PAGEMAP, pid) = Some img" "chain_ok (img # ss)" "set (concat (map pe_pages (fst img))) = snd ` set ds"
    and lk: "\<forall>(h, a) \<in> set ds. snap_page (img # ss) a = (if h then snap_page ss a else Some (de_mem D a))"
    using dump_local_ok [where mprot = mprot and lx = lx and pid = pid and pr = pr, OF assms(1-15)] by blast
  have pg: "in_priv vs a \<and> snap_page (img # ss) a = Some (de_mem D a)" if "a \<in> set (concat (map pe_pages (fst img)))" for a
  proof -
    from that obtain h where h: "(h, a) \<in> set ds" unfolding d(4) by force
    with lk assms(17) have "snap_page (img # ss) a = Some (de_mem D a)" by (cases h) fastforce+
    moreover have "in_priv vs a" using decided_in_priv [OF _ assms(3,21), of "(h, a)"] h assms(5) by simp
    ultimately show ?thesis by simp
  qed
  have v: "\<forall>a \<in> set (concat (map pe_pages (fst img))). in_priv vs a \<and> snap_page (img # ss) a \<noteq> None" using pg by simp
  have r: "rst_vmas_ok vs" using vmas_ok_rst assms(3,21) by simp
  have hd: "concat (map pe_pages (fst img)) = concat (map pe_pages (fst (hd (img # ss))))" by simp
  obtain vs' mem' where
    m: "prepare_mappings M madv fresh (Img (map (\<lambda>v. Some (-1, v)) vs)) (open_page_read_at (SnapFS (image_dir img) up)) pvs old mem = Inr (0, vs', mem')"
       "inj_on (page_addr vs') {va. in_priv vs' va}"
       "\<forall>va \<in> set (concat (map pe_pages (fst img))). mem' (page_addr vs' va) = the (snap_page (img # ss) va)"
    using prepare_mappings_ok [where madv = madv and fresh = fresh and pvs = pvs and mem = mem,
        OF assms(18-20,22) r image_dir_snaps [OF assms(16)] d(3) hd v] by blast
  have "\<forall>a \<in> snd ` set ds. mem' (page_addr vs' a) = de_mem D a" using m(3) pg unfolding d(4) [symmetric] by simp
  with d(1,2) m(1,2) show ?thesis by blast
qed

text \<open>The example task of the dump on top of a parent that has the clean page, and its areas as the
  restore reads them.\<close>

definition ex_base :: snapshot where
  "ex_base = (fst ex_parent, ex_mem 12288)"

definition ex_areas :: "rst_vma list" where
  "ex_areas = [ex_rst_vma\<lparr>rv_vma := ex_vma\<rparr>]"

lemma ex_base_facts:
  "chain_ok [ex_base]" "link_snaps (LinkTo (SnapFS (image_dir ex_base) LinkNone)) [ex_base]" "snap_page [ex_base] 12288 = Some (ex_mem 12288)"
  using image_dir_snaps [of LinkNone "[]" ex_base]
  by (simp_all add: link_snaps_def) (simp_all add: ex_base_def ex_parent_def ex_mem_def pe_small_def pe_end_def PAGE_SIZE_def)

lemma ex_areas_facts:
  "map rv_vma ex_areas = vm_h ex_vmas" "\<forall>v \<in> set ex_areas. rv_fresh v \<and> rv_size v < 2 ^ 31"
  by (simp_all add: ex_areas_def ex_vmas_facts)
     (simp add: ex_vma_def ex_rst_vma_def rv_fresh_def rv_guard_def growsdown_def rv_start_def rv_end_def rv_size_def PAGE_SIZE_def
       MAP_ANONYMOUS_def MAP_GROWSDOWN_def)

theorem checkpoint_restore_memory_witness:
  "\<exists>x pr' img vs' mem'. parasite_dump_pages_seized ex_denv (\<lambda>_ _ _. 0) (loc_ops ex_xenv)
         (\<lambda>pipes. open_page_local_xfer ex_xenv CR_FD_PAGEMAP 1 (ex_lx\<lparr>lx_pipes := pipes\<rparr>)) False ex_vmas (\<lambda>_. 3)
         = Inr ((0, None, Some x), pr')
     \<and> lx_disk x (CR_FD_PAGEMAP, 1) = Some img
     \<and> prepare_mappings ex_map_env (\<lambda>_. True) (\<lambda>_. []) (Img (map (\<lambda>v. Some (-1, v)) ex_areas))
         (open_page_read_at (SnapFS (image_dir img) (LinkTo (SnapFS (image_dir ex_base) LinkNone)))) [] False (\<lambda>_. []) = Inr (0, vs', mem')
     \<and> mem' (page_addr vs' 8192) = ex_mem 8192 \<and> mem' (page_addr vs' 12288) = ex_mem 12288"
proof -
  from ex_parent_ok obtain sn where par: "parent_ok ex_denv (Some sn) (fst ex_parent) (vm_h ex_vmas)" by blast
  have pm: "pme_of (de_pagemap ex_denv) = ex_pme" "de_mem ex_denv = ex_mem" by (simp_all add: ex_denv_def)
  have ds: "[(False, 8192), (True, 12288)] = decide_all (Some sn \<noteq> None) (pme_of (de_pagemap ex_denv)) (vm_h ex_vmas)"
    by (simp add: pm ex_decide)
  have b: "length (dec_pages [(False, 8192), (True, 12288 :: nat)]) \<le> priv_size ex_vmas div 2"
      "length (dec_holes [(False, 8192), (True, 12288 :: nat)]) < 2 ^ 20" "\<forall>d \<in> set [(False, 8192), (True, 12288 :: nat)]. snd d < 2 ^ 64"
      "args_fit ex_denv ex_vmas" "\<And>ap a p. (\<lambda>_ _ _. 0 :: int) ap a p = 0"
    using ex_args_fit by (simp_all add: ex_vmas_facts)
  have e: "\<forall>n. pb_ok ex_xenv n" "\<forall>n len. splice_ret ex_xenv n len = int len" "\<forall>k. open_pm ex_xenv k \<and> open_pg ex_xenv k"
      "\<not> auto_dedup ex_xenv" "[ex_base] \<noteq> [] \<or> Some sn = None"
    by (simp_all add: ex_xenv_def)
  have c: "\<forall>(h, a) \<in> set [(False, 8192), (True, 12288)]. h \<longrightarrow> snap_page [ex_base] a = Some (de_mem ex_denv a)"
    by (simp add: ex_base_facts pm del: snap_page.simps)
  have m: "me_reserve ex_map_env = Some 1048576" "False \<longrightarrow> me_munmap ex_map_env" by (simp_all add: ex_map_env_def)
  from checkpoint_restore_memory [where mprot = "\<lambda>_ _ _. 0" and lx = ex_lx and pid = 1 and pr = "\<lambda>_. 3" and madv = "\<lambda>_. True"
      and fresh = "\<lambda>_. []" and pvs = "[]" and mem = "\<lambda>_. []",
      OF ex_dump_live par ex_vmas_facts(4) b(4) ds b(1-3) e(1-4) b(5) ex_base_facts(1) e(5) ex_base_facts(2) c
        ex_rst_facts(5) m ex_areas_facts]
  show ?thesis unfolding pm by auto
qed

end
